(* ===== verification/Prelude.thy ===== *)
theory Prelude
  imports Main "HOL-Library.Word" "HOL-Library.Product_Lexorder" "HOL-Library.Multiset"
begin

unbundle bit_operations_syntax

text \<open>
  Shared vocabulary of the development: machine sizes and Rust's integer
  operations on them, slices, byte buffers and their little-endian reading, text
  helpers of the standard library, and the lemma collections the component
  theories use.

  A \<open>usize\<close> is a natural number below \<open>2 ^ 64\<close> (every supported target
  is 64-bit). Checked, saturating and wrapping operations are written out. Plain
  additions of addresses that can leave the range go through
  \<open>checked_add\<close>, and \<open>None\<close> there is the overflow panic of a checked build.
  Offsets into in-memory buffers stay natural numbers: a Rust slice holds at most
  \<open>isize::MAX\<close> bytes, so an in-range offset plus a length cannot overflow.
\<close>

named_theorems usize_defs \<open>definitions of the integer operations of usize\<close>
named_theorems slice_simps \<open>lengths and elements of slices\<close>

section \<open>Machine integers\<close>

type_synonym usize = nat
type_synonym u8 = "8 word"
type_synonym bytes = "u8 list"

definition USIZE_MAX :: usize where
  "USIZE_MAX = 2 ^ 64 - 1"

definition checked_add :: "usize \<Rightarrow> usize \<Rightarrow> usize option" where
  "checked_add a b = (if a + b \<le> USIZE_MAX then Some (a + b) else None)"

definition saturating_add :: "usize \<Rightarrow> usize \<Rightarrow> usize" where
  "saturating_add a b = min (a + b) USIZE_MAX"

definition saturating_mul :: "usize \<Rightarrow> usize \<Rightarrow> usize" where
  "saturating_mul a b = min (a * b) USIZE_MAX"

definition saturating_sub :: "usize \<Rightarrow> usize \<Rightarrow> usize" where
  "saturating_sub a b = a - b"

definition checked_sub :: "usize \<Rightarrow> usize \<Rightarrow> usize option" where
  "checked_sub a b = (if b \<le> a then Some (a - b) else None)"

definition wrapping_add :: "usize \<Rightarrow> usize \<Rightarrow> usize" where
  "wrapping_add a b = (a + b) mod 2 ^ 64"

definition wrapping_sub :: "usize \<Rightarrow> usize \<Rightarrow> usize" where
  "wrapping_sub a b = nat ((int a - int b) mod 2 ^ 64)"

definition wrapping_mul :: "usize \<Rightarrow> usize \<Rightarrow> usize" where
  "wrapping_mul a b = (a * b) mod 2 ^ 64"

definition wrapping_neg :: "usize \<Rightarrow> usize" where
  "wrapping_neg a = nat ((- int a) mod 2 ^ 64)"

text \<open>\<open>as usize\<close> on a signed 64-bit value.\<close>

definition i64_as_usize :: "int \<Rightarrow> usize" where
  "i64_as_usize n = nat (n mod 2 ^ 64)"

text \<open>
  \<open>usize::next_multiple_of\<close>: the value without the overflow check; the callers
  that can overflow use \<open>checked_next_multiple_of\<close>, where \<open>None\<close> is the panic.
\<close>

definition next_multiple_of :: "usize \<Rightarrow> usize \<Rightarrow> usize" where
  "next_multiple_of a m = (if a mod m = 0 then a else a + (m - a mod m))"

definition checked_next_multiple_of :: "usize \<Rightarrow> usize \<Rightarrow> usize option" where
  "checked_next_multiple_of a m =
     (if next_multiple_of a m \<le> USIZE_MAX then Some (next_multiple_of a m) else None)"

lemmas [usize_defs] = checked_add_def saturating_add_def saturating_mul_def
  saturating_sub_def checked_sub_def wrapping_add_def wrapping_sub_def wrapping_mul_def
  wrapping_neg_def i64_as_usize_def

lemma next_multiple_of_ge: "a \<le> next_multiple_of a m"
  by (simp add: next_multiple_of_def)

lemma next_multiple_of_dvd: "0 < m \<Longrightarrow> m dvd next_multiple_of a m"
proof -
  assume m: "0 < m"
  have "a + (m - a mod m) = m * (a div m) + m" if "a mod m \<noteq> 0"
    using mult_div_mod_eq[of m a] mod_less_divisor[OF m, of a] by linarith
  then show ?thesis by (auto simp: next_multiple_of_def)
qed

lemma next_multiple_of_least:
  assumes "0 < m" "m dvd b" "a \<le> b"
  shows "next_multiple_of a m \<le> b"
proof (cases "a mod m = 0")
  case True
  with assms show ?thesis by (simp add: next_multiple_of_def)
next
  case False
  have lt: "a mod m < m" using assms(1) by simp
  have "a div m * m < b"
    using False assms(3) div_mult_mod_eq[of a m] by linarith
  moreover obtain k where k: "b = m * k" using assms(2) by blast
  ultimately have "a div m < k" by (metis mult.commute mult_less_cancel1)
  then have "m * (a div m) + m \<le> b" unfolding k
    by (metis Suc_leI mult.commute mult_Suc_right add.commute mult_le_mono2)
  moreover have "next_multiple_of a m = a + (m - a mod m)"
    using False by (simp add: next_multiple_of_def)
  ultimately show ?thesis
    using lt mult_div_mod_eq[of m a] by linarith
qed

lemma next_multiple_of_id [simp]: "m dvd a \<Longrightarrow> next_multiple_of a m = a"
  by (simp add: next_multiple_of_def)

lemma next_multiple_of_less: "0 < m \<Longrightarrow> next_multiple_of a m < a + m"
  by (simp add: next_multiple_of_def)

lemma wrapping_add_sub:
  assumes "a \<le> USIZE_MAX"
  shows "wrapping_add b (wrapping_sub a b) = a"
proof -
  have "int (wrapping_add b (wrapping_sub a b)) = (int b + (int a - int b) mod 2 ^ 64) mod 2 ^ 64"
    by (simp add: wrapping_add_def wrapping_sub_def zmod_int)
  also have "\<dots> = int a mod 2 ^ 64" by (simp only: mod_add_right_eq) simp
  also have "\<dots> = int a" using assms by (simp add: USIZE_MAX_def)
  finally show ?thesis by simp
qed

section \<open>Slices\<close>

text \<open>\<open>xs.get(a..b)\<close>: \<open>None\<close> when the range is decreasing or runs past the end.\<close>

definition get_range :: "'a list \<Rightarrow> nat \<Rightarrow> nat \<Rightarrow> 'a list option" where
  "get_range xs a b = (if a \<le> b \<and> b \<le> length xs then Some (take (b - a) (drop a xs)) else None)"

definition slice :: "'a list \<Rightarrow> nat \<Rightarrow> nat \<Rightarrow> 'a list" where
  "slice xs off n = take n (drop off xs)"

lemma get_range_slice: "get_range xs a (a + n) = (if a + n \<le> length xs then Some (slice xs a n) else None)"
  by (simp add: get_range_def slice_def)

lemma length_slice [slice_simps]: "a + n \<le> length xs \<Longrightarrow> length (slice xs a n) = n"
  by (simp add: slice_def)

lemma nth_slice [slice_simps]: "a + n \<le> length xs \<Longrightarrow> i < n \<Longrightarrow> slice xs a n ! i = xs ! (a + i)"
  by (simp add: slice_def)

lemma slice_0_all [simp]: "length xs = n \<Longrightarrow> slice xs 0 n = xs"
  by (simp add: slice_def)

lemma slice_eq_nth:
  "a + n \<le> length xs \<Longrightarrow> length ys = n \<Longrightarrow>
   (slice xs a n = ys) = (\<forall>i<n. xs ! (a + i) = ys ! i)"
  by (auto simp: list_eq_iff_nth_eq slice_simps)

lemma upt_split: "a \<le> b \<Longrightarrow> b \<le> c \<Longrightarrow> [a..<c] = [a..<b] @ [b..<c]"
  using upt_add_eq_append[of a b "c - b"] by simp

text \<open>\<open>partition_point\<close> on a slice partitioned by the predicate.\<close>

definition partition_point :: "('a \<Rightarrow> bool) \<Rightarrow> 'a list \<Rightarrow> nat" where
  "partition_point p xs = length (takeWhile p xs)"

section \<open>Bytes, read little-endian\<close>

fun le_nat :: "bytes \<Rightarrow> nat" where
  "le_nat [] = 0"
| "le_nat (b # bs) = unat b + 256 * le_nat bs"

lemma le_nat_bound: "le_nat bs < 256 ^ length bs"
proof (induction bs)
  case (Cons b bs)
  have "unat b < 256" using unsigned_less[of b] by simp
  then show ?case using Cons by simp
qed simp

lemma le_nat_append: "le_nat (xs @ ys) = le_nat xs + 256 ^ length xs * le_nat ys"
  by (induction xs) (auto simp: algebra_simps)

text \<open>
  The accumulation loop \<open>acc |= (b as uN) << (8 * i)\<close> over enumerated bytes, for a word of
  any width.
\<close>

fun accumulate :: "nat \<Rightarrow> bytes \<Rightarrow> 'a::len word \<Rightarrow> 'a word" where
  "accumulate i [] acc = acc"
| "accumulate i (b # bs) acc = accumulate (i + 1) bs (acc OR push_bit (8 * i) (ucast b))"

lemma accumulate_eq:
  fixes acc :: "'a::len word"
  assumes "\<And>n. bit acc n \<Longrightarrow> n < 8 * i"
  shows "accumulate i bs acc = acc + of_nat (256 ^ i * le_nat bs)"
  using assms
proof (induction i bs acc rule: accumulate.induct)
  case (2 i b bs acc)
  have "acc OR push_bit (8 * i) (ucast b) = acc + push_bit (8 * i) (ucast b)"
    by (rule disjunctive_add_eq_or[symmetric], rule bit_word_eqI)
      (auto simp: bit_and_iff bit_push_bit_iff dest!: 2(2))
  moreover have "push_bit (8 * i) (ucast b :: 'a word) = of_nat (256 ^ i * unat b)"
    by (simp add: push_bit_eq_mult power_mult)
  ultimately have or_eq: "acc OR push_bit (8 * i) (ucast b) = acc + of_nat (256 ^ i * unat b)" by simp
  have "n < 8 * (i + 1)" if "bit (acc OR push_bit (8 * i) (ucast b)) n" for n
  proof -
    have "bit acc n \<or> 8 * i \<le> n \<and> bit b (n - 8 * i)"
      using that by (auto simp: bit_or_iff bit_push_bit_iff bit_ucast_iff)
    then show ?thesis using 2(2)[of n] bit_imp_le_length[of b "n - 8 * i"] by auto
  qed
  from 2(1)[OF this] show ?case
    unfolding accumulate.simps or_eq by (simp add: algebra_simps)
qed simp

lemma accumulate_le_nat: "accumulate 0 bs 0 = of_nat (le_nat bs)"
  using accumulate_eq[of 0 0 bs] by simp

lemma le_nat_bound_bits: "le_nat bs < 2 ^ (8 * length bs)"
  using le_nat_bound[of bs] by (simp add: power_mult)

section \<open>Errors of the process layer\<close>

text \<open>\<open>nemclass_core::Error\<close>, the variants of a unix build.\<close>

datatype core_error =
    InvalidAddress
  | IoError string
  | Errno int
  | ProcessNotFound
  | ModuleNotFound
  | NoThreads
  | InvalidString
  | ProcessDied
  | PartialTransfer usize usize
  | EnumerationUnstable
  | DeviceUnavailable string
  | AbiMismatch nat nat
  | InvalidArgument string
  | SymbolInfo string

end
