(* ===== verification/Process_Types.thy ===== *)
theory Process_Types
  imports Prelude
begin

text \<open>
  The platform-neutral value types of the process layer: \<open>Protection\<close>
  (process/protection.rs), \<open>SectionType\<close>, \<open>Section\<close> and
  \<open>ModuleInfoWithName\<close> (process/types.rs).
\<close>

section \<open>Protection flags\<close>

type_synonym protection = u8

definition PROT_R :: protection where "PROT_R = 0b001"
definition PROT_W :: protection where "PROT_W = 0b010"
definition PROT_X :: protection where "PROT_X = 0b100"
definition PROT_RWX :: protection where "PROT_RWX = 0b111"
definition PROT_COW :: protection where "PROT_COW = 0b1000"

lemmas prot_consts = PROT_R_def PROT_W_def PROT_X_def PROT_RWX_def PROT_COW_def

text \<open>\<open>contains\<close> and \<open>from_bits_truncate\<close> of the bit-flag type: the named bits are the low four.\<close>

definition prot_contains :: "protection \<Rightarrow> protection \<Rightarrow> bool" where
  "prot_contains p q \<longleftrightarrow> p AND q = q"

definition prot_from_bits_truncate :: "u8 \<Rightarrow> protection" where
  "prot_from_bits_truncate b = b AND 0b1111"

definition Protection_read :: "protection \<Rightarrow> bool" where
  "Protection_read p = prot_contains p PROT_R"

definition Protection_write :: "protection \<Rightarrow> bool" where
  "Protection_write p = prot_contains p PROT_W"

definition Protection_execute :: "protection \<Rightarrow> bool" where
  "Protection_execute p = prot_contains p PROT_X"

definition Protection_copy_on_write :: "protection \<Rightarrow> bool" where
  "Protection_copy_on_write p = prot_contains p PROT_COW"

lemmas Protection_predicates =
  Protection_read_def Protection_write_def Protection_execute_def Protection_copy_on_write_def

definition byte_at :: "string \<Rightarrow> nat \<Rightarrow> char option" where
  "byte_at s i = (if i < length s then Some (s ! i) else None)"

definition Protection_parse :: "string \<Rightarrow> protection" where
  "Protection_parse b =
     (let p0 = 0;
          p1 = (if byte_at b 0 = Some (CHR ''r'') then p0 OR PROT_R else p0);
          p2 = (if byte_at b 1 = Some (CHR ''w'') then p1 OR PROT_W else p1);
          p3 = (if byte_at b 2 = Some (CHR ''x'') then p2 OR PROT_X else p2)
      in p3)"

definition Protection_to_os :: "protection \<Rightarrow> 32 word" where
  "Protection_to_os p = ucast (p AND PROT_RWX)"

definition Protection_from_os :: "32 word \<Rightarrow> protection" where
  "Protection_from_os p = prot_from_bits_truncate (ucast p AND PROT_RWX)"

section \<open>Sections and modules\<close>

datatype section_type = Image | Mapped | Private | UnknownSection

record sect =
  sec_base :: usize
  sec_size :: usize
  sec_prot :: protection
  sec_kind :: section_type
  sec_module :: "string option"

record module_info =
  mod_base :: usize
  mod_size :: usize
  mod_name :: string

section \<open>Facts\<close>

text \<open>
  The flag word a permission string parses to has exactly the bits of its first three
  characters, and never the copy-on-write bit.
\<close>

lemma Protection_parse_bits:
  "Protection_read (Protection_parse s) \<longleftrightarrow> byte_at s 0 = Some (CHR ''r'')"
  "Protection_write (Protection_parse s) \<longleftrightarrow> byte_at s 1 = Some (CHR ''w'')"
  "Protection_execute (Protection_parse s) \<longleftrightarrow> byte_at s 2 = Some (CHR ''x'')"
  "\<not> Protection_copy_on_write (Protection_parse s)"
  by (simp_all add: Protection_parse_def Protection_predicates prot_contains_def prot_consts Let_def)

lemma Protection_os_roundtrip:
  "Protection_from_os (Protection_to_os p) = p AND PROT_RWX"
proof -
  have "ucast (ucast (p AND 7) :: 32 word) = (p AND 7 :: u8)"
    by (rule bit_word_eqI) (auto simp: bit_simps)
  then show ?thesis
    by (simp add: Protection_from_os_def Protection_to_os_def prot_from_bits_truncate_def
        prot_consts and.assoc)
qed

end
