(* ===== verification/Target.thy ===== *)
theory Target
  imports Process_Types
begin

text \<open>
  The scan-target seam (nemclass-scan/src/target.rs): regions, the address-space
  filter of a first scan, the section filter of a live target, the read interface
  the scan engines rely on, and the in-memory target.

  \<open>read(addr, buf)\<close> is modelled as a function from an address and the
  buffer's length to the bytes that were read: \<open>Ok(n)\<close> with the first \<open>n\<close>
  bytes of the buffer overwritten is \<open>Inr bs\<close> with \<open>length bs = n\<close>.
\<close>

section \<open>Regions\<close>

record region =
  rg_base :: usize
  rg_size :: usize

definition Region_new :: "usize \<Rightarrow> usize \<Rightarrow> region" where
  "Region_new b s = \<lparr>rg_base = b, rg_size = s\<rparr>"

definition Region_end :: "region \<Rightarrow> usize" where
  "Region_end r = saturating_add (rg_base r) (rg_size r)"

text \<open>The addresses of a region, and how many regions of a list hold an address.\<close>

definition covers :: "region \<Rightarrow> usize \<Rightarrow> bool" where
  "covers r a \<longleftrightarrow> rg_base r \<le> a \<and> a < Region_end r"

definition hits :: "region list \<Rightarrow> usize \<Rightarrow> nat" where
  "hits rs a = length (filter (\<lambda>r. covers r a) rs)"

section \<open>The region filter\<close>

record region_filter =
  rf_start :: usize
  rf_stop :: usize
  rf_include :: "region list"

definition RegionFilter_default :: region_filter where
  "RegionFilter_default = \<lparr>rf_start = 0, rf_stop = USIZE_MAX, rf_include = []\<rparr>"

definition RegionFilter_window :: "usize \<Rightarrow> usize \<Rightarrow> region_filter" where
  "RegionFilter_window start stop = RegionFilter_default\<lparr>rf_start := start, rf_stop := stop\<rparr>"

definition RegionFilter_with_include :: "region_filter \<Rightarrow> region list \<Rightarrow> region_filter" where
  "RegionFilter_with_include f inc = f\<lparr>rf_include := inc\<rparr>"

definition RegionFilter_is_unrestricted :: "region_filter \<Rightarrow> bool" where
  "RegionFilter_is_unrestricted f \<longleftrightarrow> rf_start f = 0 \<and> rf_stop f = USIZE_MAX \<and> rf_include f = []"

text \<open>The loop of \<open>merged_include\<close>: \<open>cur\<close> is the span pushed last.\<close>

fun merge_spans :: "region \<Rightarrow> region list \<Rightarrow> region list" where
  "merge_spans cur [] = [cur]"
| "merge_spans cur (r # rs) =
     (if rg_base r \<le> Region_end cur
      then merge_spans (cur\<lparr>rg_size := max (Region_end cur) (Region_end r) - rg_base cur\<rparr>) rs
      else cur # merge_spans r rs)"

definition merged_include :: "region_filter \<Rightarrow> region list" where
  "merged_include f =
     (case sort_key rg_base (filter (\<lambda>r. rg_size r > 0) (rf_include f)) of
        [] \<Rightarrow> []
      | r # rs \<Rightarrow> merge_spans r rs)"

definition clip_include :: "usize \<Rightarrow> usize \<Rightarrow> region \<Rightarrow> region list" where
  "clip_include lo hi inc =
     (let a = max lo (rg_base inc); b = min hi (Region_end inc)
      in if a < b then [Region_new a (b - a)] else [])"

definition clip_region :: "region_filter \<Rightarrow> region list \<Rightarrow> region \<Rightarrow> region list" where
  "clip_region f include r =
     (let lo = max (rg_base r) (rf_start f); hi = min (Region_end r) (rf_stop f)
      in if lo \<ge> hi then []
         else if include = [] then [Region_new lo (hi - lo)]
         else concat (map (clip_include lo hi) include))"

definition RegionFilter_apply :: "region_filter \<Rightarrow> region list \<Rightarrow> region list" where
  "RegionFilter_apply f regions =
     (if RegionFilter_is_unrestricted f then regions
      else if rf_start f \<ge> rf_stop f then []
      else sort_key rg_base (concat (map (clip_region f (merged_include f)) regions)))"

section \<open>The section filter of a live target\<close>

datatype filter_state = FYes | FNo | FAny

fun FilterState_accepts :: "filter_state \<Rightarrow> bool \<Rightarrow> bool" where
  "FilterState_accepts FYes has = has"
| "FilterState_accepts FNo has = (\<not> has)"
| "FilterState_accepts FAny has = True"

record section_filter =
  sf_writable :: filter_state
  sf_executable :: filter_state
  sf_copy_on_write :: filter_state
  sf_scan_private :: bool
  sf_scan_image :: bool
  sf_scan_mapped :: bool

definition SectionFilter_default :: section_filter where
  "SectionFilter_default =
     \<lparr>sf_writable = FYes, sf_executable = FAny, sf_copy_on_write = FNo,
      sf_scan_private = True, sf_scan_image = True, sf_scan_mapped = False\<rparr>"

definition SectionFilter_keep :: "section_filter \<Rightarrow> sect \<Rightarrow> bool" where
  "SectionFilter_keep f s =
     (let type_ok = (case sec_kind s of
                       Private \<Rightarrow> sf_scan_private f
                     | Image \<Rightarrow> sf_scan_image f
                     | Mapped \<Rightarrow> sf_scan_mapped f
                     | UnknownSection \<Rightarrow> False)
      in type_ok
         \<and> FilterState_accepts (sf_writable f) (Protection_write (sec_prot s))
         \<and> FilterState_accepts (sf_executable f) (Protection_execute (sec_prot s))
         \<and> FilterState_accepts (sf_copy_on_write f) (Protection_copy_on_write (sec_prot s)))"

text \<open>
  \<open>ProcessTarget::regions\<close>; \<open>enumerated\<close> is what the native provider's
  \<open>enumerate_sections_and_modules\<close> returned for the process.
\<close>

definition ProcessTarget_regions ::
  "section_filter \<Rightarrow> core_error + sect list \<times> module_info list \<Rightarrow> core_error + region list" where
  "ProcessTarget_regions f enumerated =
     (case enumerated of
        Inl e \<Rightarrow> Inl e
      | Inr (sections, modules) \<Rightarrow>
          Inr (map (\<lambda>s. Region_new (sec_base s) (sec_size s))
                 (filter (\<lambda>s. sec_size s > 0 \<and> SectionFilter_keep f s) sections)))"

section \<open>Targets\<close>

record target =
  tg_regions :: "core_error + region list"
  tg_read :: "usize \<Rightarrow> nat \<Rightarrow> core_error + bytes"

record mock_target =
  mk_base :: usize
  mk_buf :: bytes
  mk_regions :: "region list"

definition MockTarget_new :: "usize \<Rightarrow> bytes \<Rightarrow> mock_target" where
  "MockTarget_new b buf = \<lparr>mk_base = b, mk_buf = buf, mk_regions = [Region_new b (length buf)]\<rparr>"

definition MockTarget_with_regions :: "usize \<Rightarrow> bytes \<Rightarrow> region list \<Rightarrow> mock_target" where
  "MockTarget_with_regions b buf rs = \<lparr>mk_base = b, mk_buf = buf, mk_regions = rs\<rparr>"

definition MockTarget_peek :: "mock_target \<Rightarrow> usize \<Rightarrow> nat \<Rightarrow> bytes option" where
  "MockTarget_peek t addr len =
     (case checked_sub addr (mk_base t) of
        None \<Rightarrow> None
      | Some start \<Rightarrow> get_range (mk_buf t) start (start + len))"

definition MockTarget_offset_of :: "mock_target \<Rightarrow> usize \<Rightarrow> usize option" where
  "MockTarget_offset_of t addr =
     (case checked_sub addr (mk_base t) of
        None \<Rightarrow> None
      | Some off \<Rightarrow> if off \<le> length (mk_buf t) then Some off else None)"

definition MockTarget_read :: "mock_target \<Rightarrow> usize \<Rightarrow> nat \<Rightarrow> core_error + bytes" where
  "MockTarget_read t addr buf_len =
     (case MockTarget_offset_of t addr of
        None \<Rightarrow> Inr []
      | Some off \<Rightarrow>
          (let available = length (mk_buf t) - off; n = min available buf_len
           in Inr (slice (mk_buf t) off n)))"

definition MockTarget_target :: "mock_target \<Rightarrow> target" where
  "MockTarget_target t = \<lparr>tg_regions = Inr (mk_regions t), tg_read = MockTarget_read t\<rparr>"

section \<open>What the engines rely on\<close>

text \<open>
  A target whose memory does not change during a pass: a read returns no more bytes than
  asked for, and the bytes it returns are the memory's.
\<close>

locale scan_target =
  fixes read :: "usize \<Rightarrow> nat \<Rightarrow> core_error + bytes"
    and mem :: "usize \<Rightarrow> u8"
  assumes read_len: "read a n = Inr bs \<Longrightarrow> length bs \<le> n"
    and read_mem: "read a n = Inr bs \<Longrightarrow> i < length bs \<Longrightarrow> bs ! i = mem (a + i)"
begin

lemma read_slice:
  assumes "read a n = Inr bs" "off + k \<le> length bs"
  shows "slice bs off k = map mem [a + off..<a + off + k]"
  using assms by (intro nth_equalityI) (auto simp: slice_simps read_mem ac_simps)

lemma read_take_eq:
  assumes "read a n = Inr bs" "read a n' = Inr bs'" "length bs = length bs'"
  shows "bs = bs'"
  using assms by (intro nth_equalityI) (auto simp: read_mem)

end

definition MockTarget_mem :: "mock_target \<Rightarrow> usize \<Rightarrow> u8" where
  "MockTarget_mem t a =
     (if mk_base t \<le> a \<and> a - mk_base t < length (mk_buf t) then mk_buf t ! (a - mk_base t) else 0)"

interpretation mock: scan_target "MockTarget_read t" "MockTarget_mem t" for t
proof
  fix a n bs i
  assume r: "MockTarget_read t a n = Inr bs"
  show "length bs \<le> n"
    using r by (auto simp: MockTarget_read_def slice_def Let_def split: option.splits)
  assume "i < length bs"
  with r show "bs ! i = MockTarget_mem t (a + i)"
    by (auto simp: MockTarget_read_def MockTarget_offset_of_def checked_sub_def MockTarget_mem_def
        slice_def Let_def split: option.splits if_splits)
qed

text \<open>The in-memory target reads in full inside its buffer.\<close>

lemma MockTarget_read_full:
  assumes "mk_base t \<le> a" "a + n \<le> mk_base t + length (mk_buf t)"
  shows "MockTarget_read t a n = Inr (slice (mk_buf t) (a - mk_base t) n)"
proof -
  have "min (length (mk_buf t) - (a - mk_base t)) n = n" "a - mk_base t \<le> length (mk_buf t)"
    using assms by simp_all
  then show ?thesis using assms
    by (simp add: MockTarget_read_def MockTarget_offset_of_def checked_sub_def Let_def)
qed

text \<open>
  A target that also reads in full wherever all of the requested addresses are mapped.
\<close>

locale full_target = scan_target read mem for read mem +
  fixes mapped :: "usize \<Rightarrow> bool"
  assumes read_full: "0 < n \<Longrightarrow> (\<And>x. a \<le> x \<Longrightarrow> x < a + n \<Longrightarrow> mapped x) \<Longrightarrow> \<exists>bs. read a n = Inr bs \<and> length bs = n"
begin

lemma read_full_mem:
  assumes "0 < n" "\<And>x. a \<le> x \<Longrightarrow> x < a + n \<Longrightarrow> mapped x"
  shows "read a n = Inr (map mem [a..<a + n])"
proof -
  obtain bs where bs: "read a n = Inr bs" "length bs = n" using read_full[OF assms] by blast
  then have "bs = map mem [a..<a + n]" by (intro nth_equalityI) (auto simp: read_mem)
  with bs show ?thesis by simp
qed

end

definition MockTarget_mapped :: "mock_target \<Rightarrow> usize \<Rightarrow> bool" where
  "MockTarget_mapped t x \<longleftrightarrow> mk_base t \<le> x \<and> x < mk_base t + length (mk_buf t)"

interpretation mock_full: full_target "MockTarget_read t" "MockTarget_mem t" "MockTarget_mapped t" for t
proof
  fix n a assume n: "0 < n" and m: "\<And>x. a \<le> x \<Longrightarrow> x < a + n \<Longrightarrow> MockTarget_mapped t x"
  have "a \<le> a + n - 1" "a + n - 1 < a + n" using n by auto
  from m[OF this] m[of a] n have "mk_base t \<le> a" "a + n \<le> mk_base t + length (mk_buf t)"
    by (auto simp: MockTarget_mapped_def)
  from MockTarget_read_full[OF this] this
  show "\<exists>bs. MockTarget_read t a n = Inr bs \<and> length bs = n" by (auto simp: length_slice)
qed

section \<open>The filter, address by address\<close>

lemma Region_end_new:
  "lo \<le> hi \<Longrightarrow> hi \<le> USIZE_MAX \<Longrightarrow> Region_end (Region_new lo (hi - lo)) = hi"
  by (simp add: Region_end_def Region_new_def saturating_add_def)

lemma covers_new:
  "lo \<le> hi \<Longrightarrow> hi \<le> USIZE_MAX \<Longrightarrow> covers (Region_new lo (hi - lo)) a \<longleftrightarrow> lo \<le> a \<and> a < hi"
  by (simp add: covers_def Region_end_new) (simp add: Region_new_def)

lemma Region_end_le [simp]: "Region_end r \<le> USIZE_MAX"
  by (simp add: Region_end_def saturating_add_def)

lemma base_le_end: "rg_base r \<le> USIZE_MAX \<Longrightarrow> rg_base r \<le> Region_end r"
  by (simp add: Region_end_def saturating_add_def)

lemma hits_Nil [simp]: "hits [] a = 0"
  by (simp add: hits_def)

lemma hits_Cons [simp]: "hits (r # rs) a = (if covers r a then 1 else 0) + hits rs a"
  by (simp add: hits_def)

lemma hits_append [simp]: "hits (xs @ ys) a = hits xs a + hits ys a"
  by (simp add: hits_def)

lemma hits_mset: "mset xs = mset ys \<Longrightarrow> hits xs a = hits ys a"
  by (metis hits_def mset_filter size_mset)

lemma hits_pos_iff: "0 < hits rs a \<longleftrightarrow> (\<exists>r\<in>set rs. covers r a)"
  by (induction rs) auto

lemma merge_step_end:
  assumes "rg_base cur \<le> USIZE_MAX"
  shows "Region_end (cur\<lparr>rg_size := max (Region_end cur) (Region_end r) - rg_base cur\<rparr>)
         = max (Region_end cur) (Region_end r)"
proof -
  have "max (Region_end cur) (Region_end r) \<le> USIZE_MAX" by simp
  with base_le_end[OF assms] show ?thesis
    by (simp add: Region_end_def[of "cur\<lparr>rg_size := _\<rparr>"] saturating_add_def)
qed

lemma merge_spans_hits:
  assumes "sorted (map rg_base (cur # rs))" "\<forall>r\<in>set (cur # rs). rg_base r \<le> USIZE_MAX"
  shows "hits (merge_spans cur rs) a = (if \<exists>r\<in>set (cur # rs). covers r a then 1 else 0)"
  using assms
proof (induction cur rs rule: merge_spans.induct)
  case (2 cur r rs)
  let ?m = "cur\<lparr>rg_size := max (Region_end cur) (Region_end r) - rg_base cur\<rparr>"
  show ?case
  proof (cases "rg_base r \<le> Region_end cur")
    case True
    have "covers ?m a \<longleftrightarrow> covers cur a \<or> covers r a"
      using True 2 merge_step_end[of cur r] by (auto simp: covers_def)
    then show ?thesis using 2 True by simp
  next
    case False
    have "\<not> (\<exists>x\<in>set (r # rs). covers x a)" if "covers cur a"
      using that False 2 by (fastforce simp: covers_def)
    then show ?thesis using 2 False by auto
  qed
qed auto

lemma merged_include_hits:
  assumes "\<forall>r\<in>set (rf_include f). rg_base r \<le> USIZE_MAX"
  shows "hits (merged_include f) a = (if \<exists>r\<in>set (rf_include f). covers r a then 1 else 0)"
proof -
  let ?s = "sort_key rg_base (filter (\<lambda>r. rg_size r > 0) (rf_include f))"
  have eq: "(\<exists>r\<in>set ?s. covers r a) \<longleftrightarrow> (\<exists>r\<in>set (rf_include f). covers r a)"
    by (auto simp: covers_def Region_end_def saturating_add_def)
  have "sorted (map rg_base ?s)" by simp
  moreover have "\<forall>r\<in>set ?s. rg_base r \<le> USIZE_MAX" using assms by auto
  ultimately show ?thesis
    unfolding eq[symmetric] merged_include_def
    using merge_spans_hits by (cases ?s) (auto split: list.split)
qed

lemma clip_include_hits:
  assumes "hi \<le> USIZE_MAX"
  shows "hits (clip_include lo hi inc) a = (if lo \<le> a \<and> a < hi \<and> covers inc a then 1 else 0)"
proof -
  have "min hi (Region_end inc) \<le> USIZE_MAX" using assms by simp
  then show ?thesis
    by (auto simp: clip_include_def Let_def covers_new) (auto simp: covers_def)
qed

lemma clip_includes_hits:
  assumes "hi \<le> USIZE_MAX"
  shows "hits (concat (map (clip_include lo hi) incs)) a = (if lo \<le> a \<and> a < hi then hits incs a else 0)"
  by (induction incs) (auto simp: clip_include_hits assms)

lemma merge_spans_not_Nil: "merge_spans cur rs \<noteq> []"
  by (induction cur rs rule: merge_spans.induct) auto

lemma merged_include_Nil_iff: "merged_include f = [] \<longleftrightarrow> (\<forall>r\<in>set (rf_include f). rg_size r = 0)"
proof -
  let ?s = "sort_key rg_base (filter (\<lambda>r. rg_size r > 0) (rf_include f))"
  have "merged_include f = [] \<longleftrightarrow> ?s = []"
    unfolding merged_include_def by (cases ?s) (auto simp: merge_spans_not_Nil)
  also have "\<dots> \<longleftrightarrow> set ?s = {}" by blast
  also have "\<dots> \<longleftrightarrow> (\<forall>r\<in>set (rf_include f). rg_size r = 0)" by auto
  finally show ?thesis .
qed

definition allowed :: "region_filter \<Rightarrow> usize \<Rightarrow> bool" where
  "allowed f a \<longleftrightarrow> rf_start f \<le> a \<and> a < rf_stop f
     \<and> (rf_include f = [] \<or> (\<exists>r\<in>set (rf_include f). covers r a))"

lemma clip_region_hits:
  assumes "\<forall>r\<in>set (rf_include f). rg_base r \<le> USIZE_MAX" "rf_stop f \<le> USIZE_MAX"
    "rf_include f = [] \<or> (\<exists>r\<in>set (rf_include f). 0 < rg_size r)"
  shows "hits (clip_region f (merged_include f) r) a = (if allowed f a \<and> covers r a then 1 else 0)"
proof -
  let ?lo = "max (rg_base r) (rf_start f)" and ?hi = "min (Region_end r) (rf_stop f)"
  have hi: "?hi \<le> USIZE_MAX" using assms(2) by simp
  have win: "?lo \<le> a \<and> a < ?hi \<longleftrightarrow> covers r a \<and> rf_start f \<le> a \<and> a < rf_stop f"
    by (auto simp: covers_def)
  show ?thesis
  proof (cases "merged_include f = []")
    case True
    then have "rf_include f = []" using assms(3) merged_include_Nil_iff by fastforce
    with True hi win show ?thesis
      by (auto simp: clip_region_def Let_def allowed_def covers_new not_le)
  next
    case False
    then have "rf_include f \<noteq> []" using merged_include_Nil_iff by fastforce
    moreover have "hits (clip_region f (merged_include f) r) a
        = (if ?lo \<le> a \<and> a < ?hi then hits (merged_include f) a else 0)"
      using False clip_includes_hits[OF hi, of ?lo "merged_include f" a]
      by (auto simp: clip_region_def Let_def)
    ultimately show ?thesis
      using win merged_include_hits[OF assms(1), of a] by (auto simp: allowed_def)
  qed
qed

lemma clip_regions_hits:
  assumes "\<forall>r\<in>set (rf_include f). rg_base r \<le> USIZE_MAX" "rf_stop f \<le> USIZE_MAX"
    "rf_include f = [] \<or> (\<exists>r\<in>set (rf_include f). 0 < rg_size r)"
  shows "hits (concat (map (clip_region f (merged_include f)) rs)) a = (if allowed f a then hits rs a else 0)"
  by (induction rs) (auto simp: clip_region_hits[OF assms])

lemma covers_lt_max: "covers r a \<Longrightarrow> a < USIZE_MAX"
  using Region_end_le[of r] by (auto simp: covers_def simp del: Region_end_le)

lemma hits_max: "USIZE_MAX \<le> a \<Longrightarrow> hits rs a = 0"
  by (metis covers_lt_max hits_pos_iff not_gr_zero not_le)

section \<open>Properties\<close>

text \<open>
  C10. The region filter keeps, for every address, exactly the multiplicity the input
  regions give it when the address lies in the window and in the allowlist, and drops every other
  address. In particular disjoint regions stay disjoint however the allowlist spans overlap,
  and nothing outside the window is scanned. The hypotheses say that the spans are
  machine addresses and that an allowlist, when there is one, has a non-empty span.
\<close>

theorem RegionFilter_apply_hits:
  assumes "\<forall>r\<in>set (rf_include f). rg_base r \<le> USIZE_MAX" "rf_stop f \<le> USIZE_MAX"
    "rf_include f = [] \<or> (\<exists>r\<in>set (rf_include f). 0 < rg_size r)"
  shows "hits (RegionFilter_apply f rs) a = (if allowed f a then hits rs a else 0)"
proof (cases "RegionFilter_is_unrestricted f")
  case True
  then have "allowed f a \<longleftrightarrow> a < USIZE_MAX"
    by (auto simp: RegionFilter_is_unrestricted_def allowed_def)
  with True show ?thesis by (auto simp: RegionFilter_apply_def hits_max not_less)
next
  case False
  have "\<not> allowed f a" if "rf_start f \<ge> rf_stop f" using that by (auto simp: allowed_def)
  moreover have "hits (sort_key rg_base xs) a = hits xs a" for xs :: "region list"
    by (rule hits_mset) simp
  ultimately show ?thesis
    using False clip_regions_hits[OF assms] by (auto simp: RegionFilter_apply_def)
qed

theorem RegionFilter_apply_hits_witness:
  "hits (RegionFilter_apply \<lparr>rf_start = 2, rf_stop = 30, rf_include = [Region_new 8 8, Region_new 4 6]\<rparr>
     [Region_new 0 10, Region_new 12 8]) 9 = 1"
  using RegionFilter_apply_hits[of "\<lparr>rf_start = 2, rf_stop = 30, rf_include = [Region_new 8 8, Region_new 4 6]\<rparr>"
      "[Region_new 0 10, Region_new 12 8]" 9]
  by (simp add: allowed_def covers_def Region_end_def Region_new_def saturating_add_def USIZE_MAX_def)

text \<open>
  A restricted filter returns regions in ascending order of base and none of size zero; a region
  list that covers no address twice stays that way.
\<close>

theorem RegionFilter_apply_ascending:
  assumes "\<not> RegionFilter_is_unrestricted f"
  shows "sorted (map rg_base (RegionFilter_apply f rs))
         \<and> (\<forall>r\<in>set (RegionFilter_apply f rs). 0 < rg_size r)"
  using assms
  by (auto simp: RegionFilter_apply_def clip_region_def clip_include_def Region_new_def Let_def
      split: if_splits)

theorem RegionFilter_apply_ascending_witness:
  "map rg_base (RegionFilter_apply (RegionFilter_window 4 30) [Region_new 20 20, Region_new 0 10]) = [4, 20]
   \<and> sorted (map rg_base (RegionFilter_apply (RegionFilter_window 4 30) [Region_new 20 20, Region_new 0 10]))"
  using RegionFilter_apply_ascending[of "RegionFilter_window 4 30" "[Region_new 20 20, Region_new 0 10]"]
  by (simp add: RegionFilter_window_def RegionFilter_default_def RegionFilter_is_unrestricted_def
      RegionFilter_apply_def clip_region_def merged_include_def Region_new_def Region_end_def
      saturating_add_def USIZE_MAX_def Let_def)

section \<open>Where the code departs from its documentation\<close>

text \<open>
  The unrestricted filter returns its input as it is, zero-sized and unordered regions included.
\<close>

lemma RegionFilter_apply_unrestricted_as_is:
  "RegionFilter_apply RegionFilter_default [Region_new 8 0, Region_new 4 1] = [Region_new 8 0, Region_new 4 1]"
  by (simp add: RegionFilter_apply_def RegionFilter_is_unrestricted_def RegionFilter_default_def)

text \<open>
  An allowlist whose spans are all empty is taken for no allowlist: the whole window is scanned.
\<close>

lemma RegionFilter_apply_empty_spans:
  "RegionFilter_apply (RegionFilter_with_include (RegionFilter_window 4 30) [Region_new 100 0])
     [Region_new 0 10] = [Region_new 4 6]"
  by (simp add: RegionFilter_apply_def RegionFilter_is_unrestricted_def RegionFilter_default_def
      RegionFilter_with_include_def RegionFilter_window_def merged_include_def clip_region_def
      Region_new_def Region_end_def saturating_add_def USIZE_MAX_def Let_def)

end
