(* ===== verification/Rust_Text.thy ===== *)
theory Rust_Text
  imports Prelude
begin

text \<open>
  Text of the Rust standard library, as far as the program uses it. A \<open>&str\<close>
  is the list of its Unicode scalar values; an Isabelle string literal stands for
  the text of its character codes.
\<close>

type_synonym utext = "nat list"

definition codes :: "string \<Rightarrow> utext" where
  "codes s = map of_char s"

lemma codes_simps [simp]: "codes [] = []" "codes (c # cs) = of_char c # codes cs"
  by (simp_all add: codes_def)

lemma codes_append [simp]: "codes (xs @ ys) = codes xs @ codes ys"
  by (simp add: codes_def)

text \<open>\<open>char::is_whitespace\<close>: the code points with the White_Space property.\<close>

definition is_whitespace :: "nat \<Rightarrow> bool" where
  "is_whitespace c \<longleftrightarrow>
     (9 \<le> c \<and> c \<le> 13) \<or> c = 32 \<or> c = 0x85 \<or> c = 0xA0 \<or> c = 0x1680
     \<or> (0x2000 \<le> c \<and> c \<le> 0x200A) \<or> c = 0x2028 \<or> c = 0x2029 \<or> c = 0x202F \<or> c = 0x205F \<or> c = 0x3000"

definition trim_text :: "utext \<Rightarrow> utext" where
  "trim_text s = rev (dropWhile is_whitespace (rev (dropWhile is_whitespace s)))"

definition to_ascii_lowercase :: "utext \<Rightarrow> utext" where
  "to_ascii_lowercase s = map (\<lambda>c. if 65 \<le> c \<and> c \<le> 90 then c + 32 else c) s"

text \<open>\<open>char::to_digit\<close> for a radix of at most 36.\<close>

definition to_digit :: "nat \<Rightarrow> nat \<Rightarrow> nat option" where
  "to_digit radix c =
     (let d = (if 48 \<le> c \<and> c \<le> 57 then c - 48
               else if 97 \<le> c \<and> c \<le> 122 then c - 97 + 10
               else if 65 \<le> c \<and> c \<le> 90 then c - 65 + 10
               else 36)
      in if d < radix then Some d else None)"

text \<open>The digit characters of \<open>{:X}\<close> and \<open>{:x}\<close>.\<close>

definition hex_digit_upper :: "nat \<Rightarrow> char" where
  "hex_digit_upper d = ''0123456789ABCDEF'' ! d"

definition hex_digit_lower :: "nat \<Rightarrow> char" where
  "hex_digit_lower d = ''0123456789abcdef'' ! d"

text \<open>\<open>format!("{b:02X}")\<close> of a byte.\<close>

definition format_02X :: "u8 \<Rightarrow> string" where
  "format_02X b = [hex_digit_upper (unat b div 16), hex_digit_upper (unat b mod 16)]"

text \<open>\<open>format!("{:x}")\<close> and \<open>format!("{:X}")\<close> of an unsigned number, and its decimal form.\<close>

fun digits_of :: "(nat \<Rightarrow> char) \<Rightarrow> nat \<Rightarrow> nat \<Rightarrow> string" where
  "digits_of dig radix n =
     (if radix < 2 \<or> n < radix then [dig n]
      else digits_of dig radix (n div radix) @ [dig (n mod radix)])"

declare digits_of.simps [simp del]

definition format_hex :: "nat \<Rightarrow> string" where
  "format_hex n = digits_of hex_digit_lower 16 n"

definition format_HEX :: "nat \<Rightarrow> string" where
  "format_HEX n = digits_of hex_digit_upper 16 n"

definition format_dec :: "nat \<Rightarrow> string" where
  "format_dec n = digits_of (\<lambda>d. ''0123456789'' ! d) 10 n"

definition format_int :: "int \<Rightarrow> string" where
  "format_int v = (if v < 0 then ''-'' @ format_dec (nat (- v)) else format_dec (nat v))"

text \<open>The accumulation of \<open>from_str_radix\<close> over the digits, before the range check.\<close>

fun digits_value :: "nat \<Rightarrow> utext \<Rightarrow> nat \<Rightarrow> nat option" where
  "digits_value radix [] acc = Some acc"
| "digits_value radix (c # cs) acc =
     (case to_digit radix c of None \<Rightarrow> None | Some d \<Rightarrow> digits_value radix cs (acc * radix + d))"

section \<open>Facts\<close>

lemma less_16_cases:
  "(n::nat) < 16 \<Longrightarrow> n \<in> {0, 1, 2, 3, 4, 5, 6, 7, 8, 9, 10, 11, 12, 13, 14, 15}"
  by (simp add: numeral_eq_Suc less_Suc_eq) 

lemma to_digit_hex_upper [simp]: "d < 16 \<Longrightarrow> to_digit 16 (of_char (hex_digit_upper d)) = Some d"
  using less_16_cases by (force simp: hex_digit_upper_def to_digit_def)

lemma to_digit_hex_lower [simp]: "d < 16 \<Longrightarrow> to_digit 16 (of_char (hex_digit_lower d)) = Some d"
  using less_16_cases by (force simp: hex_digit_lower_def to_digit_def)

lemma hex_digit_upper_plain [simp]:
  "d < 16 \<Longrightarrow> \<not> is_whitespace (of_char (hex_digit_upper d))"
  "d < 16 \<Longrightarrow> of_char (hex_digit_upper d) \<noteq> (63 :: nat)"
  using less_16_cases by (force simp: hex_digit_upper_def is_whitespace_def)+

lemma unat_u8_nibbles [simp]: "unat (b :: u8) div 16 < 16" "unat (b :: u8) mod 16 < 16"
  using unsigned_less[of b, where 'a = nat] by simp_all

lemma to_digit_bound: "to_digit r c = Some d \<Longrightarrow> d < r"
  by (auto simp: to_digit_def Let_def split: if_splits)

lemma digits_value_append:
  "digits_value r (xs @ ys) acc = Option.bind (digits_value r xs acc) (digits_value r ys)"
  by (induction xs arbitrary: acc) (auto split: option.splits)

text \<open>Leading zeros do not change the value of digits.\<close>

lemma digits_value_zeros: "2 \<le> r \<Longrightarrow> digits_value r (codes (replicate k (CHR ''0'')) @ xs) 0 = digits_value r xs 0"
  by (induction k) (simp_all add: to_digit_def)

lemma digits_value_digits_of:
  assumes "2 \<le> r" "\<And>d. d < r \<Longrightarrow> to_digit r (of_char (dig d)) = Some d"
  shows "digits_value r (codes (digits_of dig r n)) 0 = Some n"
proof (induction n rule: less_induct)
  case (less n)
  show ?case
  proof (cases "n < r")
    case True
    then show ?thesis using assms by (simp add: digits_of.simps[of dig r n])
  next
    case False
    then have "n div r < n" using assms(1) by simp
    from less[OF this] False show ?thesis using assms
      by (simp add: digits_of.simps[of dig r n] digits_value_append)
  qed
qed

lemma dec_digit_value: "d < 10 \<Longrightarrow> to_digit 10 (of_char (''0123456789'' ! d)) = Some d"
proof -
  assume "d < 10"
  then have "d \<in> {0, 1, 2, 3, 4, 5, 6, 7, 8, 9}" by auto
  then show ?thesis by (auto simp: to_digit_def)
qed

lemma digits_value_format:
  "digits_value 10 (codes (format_dec n)) 0 = Some n"
  "digits_value 16 (codes (format_HEX n)) 0 = Some n"
  "digits_value 16 (codes (format_hex n)) 0 = Some n"
  unfolding format_dec_def format_HEX_def format_hex_def
  by (rule digits_value_digits_of; simp add: dec_digit_value)+

lemma digits_of_chars:
  assumes "2 \<le> r" "c \<in> set (digits_of dig r n)"
  shows "\<exists>d<r. c = dig d"
  using assms(2)
proof (induction n rule: less_induct)
  case (less n)
  show ?case
  proof (cases "n < r")
    case True
    with less.prems show ?thesis by (auto simp: digits_of.simps[of dig r n])
  next
    case False
    then have lt: "n div r < n" "n mod r < r" using assms(1) by auto
    from less.prems False assms(1) have "c \<in> set (digits_of dig r (n div r)) \<or> c = dig (n mod r)"
      by (auto simp: digits_of.simps[of dig r n])
    with less.IH[OF lt(1)] lt(2) show ?thesis by blast
  qed
qed

lemma digits_of_not_Nil [simp]: "digits_of dig r n \<noteq> []"
  by (subst digits_of.simps) simp

lemma trim_text_id:
  assumes "\<And>c. c \<in> set s \<Longrightarrow> \<not> is_whitespace c"
  shows "trim_text s = s"
proof -
  have "dropWhile is_whitespace xs = xs" if "set xs \<subseteq> set s" for xs
    using that assms by (cases xs) auto
  then show ?thesis by (simp add: trim_text_def)
qed

lemma format_dec_chars:
  assumes "c \<in> set (codes (format_dec n))"
  shows "48 \<le> c \<and> c \<le> 57"
proof -
  from assms obtain x where "x \<in> set (format_dec n)" "c = of_char x" by (auto simp: codes_def)
  then obtain d where "d < 10" "c = of_char (''0123456789'' ! d)"
    using digits_of_chars[of 10 x] by (auto simp: format_dec_def)
  then have "d \<in> {0, 1, 2, 3, 4, 5, 6, 7, 8, 9}" "c = of_char (''0123456789'' ! d)" by auto
  then show ?thesis by auto
qed

end
