(* ===== verification/Compare.thy ===== *)
theory Compare
  imports Rust_Text
begin

text \<open>Scan comparison kinds (nemclass-scan/src/compare.rs).\<close>

datatype scan_compare_type =
    Exact | NotEqual | GreaterThan | LessThan | Between | Unknown
  | Increased | IncreasedBy | Decreased | DecreasedBy | Changed | Unchanged

fun needs_previous :: "scan_compare_type \<Rightarrow> bool" where
  "needs_previous Increased = True"
| "needs_previous IncreasedBy = True"
| "needs_previous Decreased = True"
| "needs_previous DecreasedBy = True"
| "needs_previous Changed = True"
| "needs_previous Unchanged = True"
| "needs_previous _ = False"

fun is_baseline :: "scan_compare_type \<Rightarrow> bool" where
  "is_baseline Unknown = True"
| "is_baseline _ = False"

fun needs_needle :: "scan_compare_type \<Rightarrow> bool" where
  "needs_needle Unknown = False"
| "needs_needle Increased = False"
| "needs_needle Decreased = False"
| "needs_needle Changed = False"
| "needs_needle Unchanged = False"
| "needs_needle _ = True"

definition compare_tags :: "(string \<times> scan_compare_type) list" where
  "compare_tags =
     [(''exact'', Exact), (''eq'', Exact), (''equal'', Exact),
      (''notequal'', NotEqual), (''ne'', NotEqual),
      (''greater'', GreaterThan), (''gt'', GreaterThan), (''greaterthan'', GreaterThan),
      (''less'', LessThan), (''lt'', LessThan), (''lessthan'', LessThan),
      (''between'', Between), (''unknown'', Unknown),
      (''increased'', Increased), (''inc'', Increased), (''increasedby'', IncreasedBy),
      (''decreased'', Decreased), (''dec'', Decreased), (''decreasedby'', DecreasedBy),
      (''changed'', Changed), (''unchanged'', Unchanged)]"

text \<open>A \<open>match\<close> on the text of string literals is the first entry whose tag is the text.\<close>

definition match_tag :: "(string \<times> 'a) list \<Rightarrow> utext \<Rightarrow> 'a option" where
  "match_tag tags t = map_of (map (\<lambda>(s, v). (codes s, v)) tags) t"

definition ScanCompareType_from_tag :: "utext \<Rightarrow> scan_compare_type option" where
  "ScanCompareType_from_tag tag = match_tag compare_tags (to_ascii_lowercase (trim_text tag))"

end
