(* ===== verification/Pattern.thy ===== *)
theory Pattern
  imports Rust_Text
begin

text \<open>
  Byte patterns with per-nibble wildcards (nemclass-scan/src/pattern.rs) and the
  generation of unique signatures (nemclass-scan/src/signature.rs).
\<close>

section \<open>Pattern bytes\<close>

record pattern_byte =
  pb_value :: u8
  pb_mask :: u8

definition PatternByte_exact :: "u8 \<Rightarrow> pattern_byte" where
  "PatternByte_exact v = \<lparr>pb_value = v, pb_mask = 0xFF\<rparr>"

definition PatternByte_wildcard :: pattern_byte where
  "PatternByte_wildcard = \<lparr>pb_value = 0, pb_mask = 0x00\<rparr>"

definition PatternByte_is_wildcard :: "pattern_byte \<Rightarrow> bool" where
  "PatternByte_is_wildcard p \<longleftrightarrow> pb_mask p \<noteq> 0xFF"

definition PatternByte_matches :: "pattern_byte \<Rightarrow> u8 \<Rightarrow> bool" where
  "PatternByte_matches p candidate \<longleftrightarrow> candidate AND pb_mask p = pb_value p AND pb_mask p"

section \<open>Patterns\<close>

datatype pattern_error = PatternError utext

type_synonym byte_pattern = "pattern_byte list"

definition BytePattern_from_bytes :: "bytes \<Rightarrow> byte_pattern" where
  "BytePattern_from_bytes data = map PatternByte_exact data"

datatype nibble = NValue u8 | NWildcard

definition parse_nibble :: "nat \<Rightarrow> nibble option" where
  "parse_nibble c =
     (if c = 63 then Some NWildcard
      else map_option (\<lambda>d. NValue (of_nat d)) (to_digit 16 c))"

definition nibbles_to_byte :: "nibble \<Rightarrow> nibble \<Rightarrow> pattern_byte" where
  "nibbles_to_byte hi lo =
     (let (value, mask) = (case hi of NValue v \<Rightarrow> (0 OR push_bit 4 v, 0 OR 0xF0) | NWildcard \<Rightarrow> (0, 0));
          (value, mask) = (case lo of NValue v \<Rightarrow> (value OR v, mask OR 0x0F) | NWildcard \<Rightarrow> (value, mask))
      in \<lparr>pb_value = value, pb_mask = mask\<rparr>)"

definition unexpected_character :: "nat \<Rightarrow> pattern_error" where
  "unexpected_character c = PatternError (codes ''unexpected character '' @ [39, c, 39])"

text \<open>
  The loop of \<open>BytePattern::parse\<close>; \<open>bytes\<close> is the vector built so far. The first
  test is the inner loop that skips whitespace between tokens.
\<close>

fun parse_loop :: "utext \<Rightarrow> byte_pattern \<Rightarrow> pattern_error + byte_pattern" where
  "parse_loop [] bytes = Inr bytes"
| "parse_loop (first # rest) bytes =
     (if is_whitespace first then parse_loop rest bytes
      else case parse_nibble first of
        None \<Rightarrow> Inl (unexpected_character first)
      | Some hi \<Rightarrow>
          (case rest of
             [] \<Rightarrow> parse_loop [] (bytes @ [nibbles_to_byte hi NWildcard])
           | c # rest' \<Rightarrow>
               if \<not> is_whitespace c then
                 (case parse_nibble c of
                    None \<Rightarrow> Inl (unexpected_character c)
                  | Some n \<Rightarrow> parse_loop rest' (bytes @ [nibbles_to_byte hi n]))
               else parse_loop rest (bytes @ [nibbles_to_byte hi NWildcard])))"

definition BytePattern_parse :: "utext \<Rightarrow> pattern_error + byte_pattern" where
  "BytePattern_parse input =
     (case parse_loop input [] of
        Inl e \<Rightarrow> Inl e
      | Inr bytes \<Rightarrow> if bytes = [] then Inl (PatternError (codes ''pattern is empty'')) else Inr bytes)"

definition BytePattern_has_wildcards :: "byte_pattern \<Rightarrow> bool" where
  "BytePattern_has_wildcards p \<longleftrightarrow> list_ex PatternByte_is_wildcard p"

text \<open>
  \<open>index + len\<close> is a natural number here; the wrapped sum of a release build
  makes \<open>get\<close> see a decreasing range, so the result is \<open>false\<close> there as well.
\<close>

definition BytePattern_matches_at :: "byte_pattern \<Rightarrow> bytes \<Rightarrow> nat \<Rightarrow> bool" where
  "BytePattern_matches_at p data index =
     (case get_range data index (index + length p) of
        None \<Rightarrow> False
      | Some window \<Rightarrow> list_all (\<lambda>(pb, b). PatternByte_matches pb b) (zip p window))"

section \<open>Signatures\<close>

record signature_config =
  sc_min_len :: nat
  sc_max_len :: nat

definition SignatureConfig_default :: signature_config where
  "SignatureConfig_default = \<lparr>sc_min_len = 8, sc_max_len = 64\<rparr>"

fun format_signature :: "bytes \<Rightarrow> string" where
  "format_signature [] = []"
| "format_signature [b] = format_02X b"
| "format_signature (b # b' # bs) = format_02X b @ '' '' @ format_signature (b' # bs)"

text \<open>The narrowing loop of \<open>make_signature\<close>: the length reached and the candidates left.\<close>

function narrow :: "bytes \<Rightarrow> nat \<Rightarrow> nat \<Rightarrow> nat \<Rightarrow> nat list \<Rightarrow> nat \<times> nat list" where
  "narrow haystack offset max_len len candidates =
     (if len < max_len \<and> length candidates > 1 then
        let len = len + 1;
            cmp = haystack ! (offset + len - 1)
        in narrow haystack offset max_len len
             (filter (\<lambda>p. p + len \<le> length haystack \<and> haystack ! (p + len - 1) = cmp) candidates)
      else (len, candidates))"
  by pat_completeness auto
termination by (relation "measure (\<lambda>(_, _, m, l, _). m - l)") auto

declare narrow.simps [simp del]

definition make_signature :: "bytes \<Rightarrow> nat \<Rightarrow> signature_config \<Rightarrow> string option" where
  "make_signature haystack offset cfg =
     (if offset \<ge> length haystack \<or> sc_max_len cfg = 0 then None
      else
        let first = haystack ! offset;
            candidates = filter (\<lambda>i. haystack ! i = first) [0..<length haystack];
            max_len = min (sc_max_len cfg) (length haystack - offset);
            (len, candidates) = narrow haystack offset max_len 1 candidates
        in if candidates \<noteq> [offset] then None
           else
             let final_len = min (max len (sc_min_len cfg)) (length haystack - offset)
             in Some (format_signature (slice haystack offset final_len)))"

section \<open>What a pattern matches\<close>

fun nibble_ok :: "nibble \<Rightarrow> u8 \<Rightarrow> bool" where
  "nibble_ok (NValue v) n = (n = v)"
| "nibble_ok NWildcard n = True"

fun nibble_bounded :: "nibble \<Rightarrow> bool" where
  "nibble_bounded (NValue v) = (v < 16)"
| "nibble_bounded NWildcard = True"

lemma less_8_cases: "(n::nat) < 8 \<longleftrightarrow> n = 0 \<or> n = 1 \<or> n = 2 \<or> n = 3 \<or> n = 4 \<or> n = 5 \<or> n = 6 \<or> n = 7"
  by linarith

lemma u8_bits: "(a :: u8) = b \<longleftrightarrow>
    (bit a 0 = bit b 0 \<and> bit a 1 = bit b 1 \<and> bit a 2 = bit b 2 \<and> bit a 3 = bit b 3
     \<and> bit a 4 = bit b 4 \<and> bit a 5 = bit b 5 \<and> bit a 6 = bit b 6 \<and> bit a 7 = bit b 7)"
    (is "_ \<longleftrightarrow> ?bits")
proof
  assume ?bits
  then show "a = b" by (intro bit_word_eqI) (auto simp: less_8_cases)
qed simp

lemma u8_small: "(v :: u8) < 16 \<Longrightarrow> take_bit 4 v = v"
  by (rule unsigned_word_eqI[where 'a = nat])
    (simp add: unsigned_take_bit_eq word_less_nat_alt take_bit_nat_eq_self_iff)

lemma u8_small_bits:
  assumes "(v :: u8) < 16"
  shows "\<not> bit v 4" "\<not> bit v 5" "\<not> bit v 6" "\<not> bit v 7"
  by (subst u8_small[OF assms, symmetric], simp add: bit_take_bit_iff)+

lemma u8_bit_ge: "8 \<le> n \<Longrightarrow> \<not> bit (b :: u8) n"
  using bit_imp_le_length[of b n] by auto

lemma u8_and_FF: "(x :: u8) AND 0xFF = x"
  by (simp add: u8_bits bit_and_iff)

lemma nibble_mask_hi:
  assumes "(v :: u8) < 16"
  shows "b AND 0xF0 = push_bit 4 v AND 0xF0 \<longleftrightarrow> drop_bit 4 b = v"
  using u8_small_bits[OF assms]
  by (simp add: u8_bits bit_and_iff bit_push_bit_iff bit_drop_bit_eq u8_bit_ge)

lemma nibble_mask_lo:
  assumes "(v :: u8) < 16"
  shows "b AND 0x0F = v AND 0x0F \<longleftrightarrow> take_bit 4 b = v"
  using u8_small_bits[OF assms]
  by (simp add: u8_bits bit_and_iff bit_take_bit_iff)

lemma nibble_mask_both:
  assumes "(v :: u8) < 16" "w < 16"
  shows "b = (push_bit 4 v OR w) \<longleftrightarrow> drop_bit 4 b = v \<and> take_bit 4 b = w"
  using u8_small_bits[OF assms(1)] u8_small_bits[OF assms(2)]
  by (auto simp add: u8_bits bit_or_iff bit_push_bit_iff bit_drop_bit_eq bit_take_bit_iff u8_bit_ge)

lemma parse_nibble_bounded: "parse_nibble c = Some n \<Longrightarrow> nibble_bounded n"
  using to_digit_bound[of 16 c]
  by (auto simp: parse_nibble_def word_less_nat_alt unat_of_nat split: if_splits)

lemma PatternByte_exact_matches [simp]: "PatternByte_matches (PatternByte_exact v) b \<longleftrightarrow> b = v"
  by (simp add: PatternByte_matches_def PatternByte_exact_def u8_and_FF)

lemma matches_at_nth:
  "BytePattern_matches_at p data i \<longleftrightarrow>
     i + length p \<le> length data \<and> (\<forall>j<length p. PatternByte_matches (p ! j) (data ! (i + j)))"
  by (auto simp: BytePattern_matches_at_def get_range_slice list_all_length slice_simps)

lemma matches_at_from_bytes:
  "BytePattern_matches_at (BytePattern_from_bytes bs) data i \<longleftrightarrow>
     i + length bs \<le> length data \<and> slice data i (length bs) = bs"
  by (auto simp: matches_at_nth BytePattern_from_bytes_def slice_eq_nth)

lemma nibbles_exact:
  "nibbles_to_byte (NValue (of_nat (unat b div 16))) (NValue (of_nat (unat b mod 16))) = PatternByte_exact b"
proof -
  have small: "(of_nat (unat b div 16) :: u8) < 16" "(of_nat (unat b mod 16) :: u8) < 16"
    using unat_u8_nibbles[of b] less_trans[of _ "16::nat" 256]
    by (simp_all add: word_less_nat_alt unat_of_nat del: unat_u8_nibbles)
  have "unat b div 16 mod 256 = unat b div 16"
    using unat_u8_nibbles(1)[of b] by (intro mod_less) linarith
  then have "drop_bit 4 b = of_nat (unat b div 16)" "take_bit 4 b = of_nat (unat b mod 16)"
    by (simp_all add: drop_bit_eq_div take_bit_eq_mod word_eq_iff_unsigned[where 'a = nat]
        unat_div_distrib unat_mod_distrib unat_of_nat)
  with nibble_mask_both[OF small, of b] show ?thesis
    by (simp add: nibbles_to_byte_def PatternByte_exact_def Let_def)
qed

lemma parse_nibble_hex:
  "d < 16 \<Longrightarrow> parse_nibble (of_char (hex_digit_upper d)) = Some (NValue (of_nat d))"
  by (simp add: parse_nibble_def)

lemma is_whitespace_space [simp]: "is_whitespace 32"
  by (simp add: is_whitespace_def)

lemma parse_loop_format:
  "parse_loop (codes (format_signature bs)) acc = Inr (acc @ BytePattern_from_bytes bs)"
proof (induction bs arbitrary: acc rule: format_signature.induct)
  case (3 b b' bs)
  then show ?case
    by (simp add: format_02X_def parse_nibble_hex nibbles_exact BytePattern_from_bytes_def)
qed (simp_all add: BytePattern_from_bytes_def format_02X_def parse_nibble_hex nibbles_exact)

lemma parse_format:
  "bs \<noteq> [] \<Longrightarrow> BytePattern_parse (codes (format_signature bs)) = Inr (BytePattern_from_bytes bs)"
  by (simp add: BytePattern_parse_def parse_loop_format) (simp add: BytePattern_from_bytes_def)

section \<open>Signatures are unique\<close>

text \<open>The run of length \<open>len\<close> at \<open>offset\<close> occurs nowhere else in the buffer.\<close>

definition unique_run :: "bytes \<Rightarrow> nat \<Rightarrow> nat \<Rightarrow> bool" where
  "unique_run h offset len \<longleftrightarrow>
     offset + len \<le> length h
     \<and> list_all (\<lambda>p. p + len \<le> length h \<and> slice h p len = slice h offset len \<longrightarrow> p = offset) [0..<length h]"

definition run_starts :: "bytes \<Rightarrow> nat \<Rightarrow> nat \<Rightarrow> nat list" where
  "run_starts h offset len =
     filter (\<lambda>p. p + len \<le> length h \<and> slice h p len = slice h offset len) [0..<length h]"

lemma slice_Suc: "a + Suc n \<le> length xs \<Longrightarrow> slice xs a (Suc n) = slice xs a n @ [xs ! (a + n)]"
  by (simp add: slice_def take_Suc_conv_app_nth)

lemma run_starts_Suc:
  assumes "offset + Suc len \<le> length h"
  shows "filter (\<lambda>p. p + Suc len \<le> length h \<and> h ! (p + Suc len - 1) = h ! (offset + Suc len - 1))
           (run_starts h offset len) = run_starts h offset (Suc len)"
proof -
  have "(p + Suc len \<le> length h \<and> h ! (p + Suc len - 1) = h ! (offset + Suc len - 1))
          \<and> (p + len \<le> length h \<and> slice h p len = slice h offset len)
        \<longleftrightarrow> p + Suc len \<le> length h \<and> slice h p (Suc len) = slice h offset (Suc len)" for p
    using assms by (auto simp: slice_Suc)
  then show ?thesis by (simp add: run_starts_def conj_commute)
qed

lemma run_starts_1:
  assumes "offset < length h"
  shows "filter (\<lambda>i. h ! i = h ! offset) [0..<length h] = run_starts h offset 1"
  unfolding run_starts_def using assms
  by (intro filter_cong) (auto simp: slice_def take_Suc_conv_app_nth)

lemma offset_in_run_starts:
  "0 < len \<Longrightarrow> offset + len \<le> length h \<Longrightarrow> offset \<in> set (run_starts h offset len)"
  by (auto simp: run_starts_def)

lemma unique_run_iff:
  assumes "0 < len" "offset + len \<le> length h"
  shows "unique_run h offset len \<longleftrightarrow> run_starts h offset len = [offset]"
    and "unique_run h offset len \<longleftrightarrow> \<not> 1 < length (run_starts h offset len)"
proof -
  let ?c = "run_starts h offset len"
  have d: "distinct ?c" and o: "offset \<in> set ?c"
    using offset_in_run_starts[OF assms] by (auto simp: run_starts_def)
  have u: "unique_run h offset len \<longleftrightarrow> (\<forall>p\<in>set ?c. p = offset)"
    using assms(2) by (auto simp: unique_run_def run_starts_def list_all_iff)
  have s: "(\<forall>p\<in>set ?c. p = offset) \<longleftrightarrow> ?c = [offset]"
    using d o by (cases ?c) (auto, metis distinct.simps(2) list.set_intros(1) list.exhaust)
  show "unique_run h offset len \<longleftrightarrow> ?c = [offset]" using u s by simp
  show "unique_run h offset len \<longleftrightarrow> \<not> 1 < length ?c"
    unfolding u s using o by (cases ?c; cases "tl ?c") auto
qed

lemma unique_run_extend:
  assumes "unique_run h offset L" "L \<le> n" "offset + n \<le> length h"
  shows "unique_run h offset n"
proof -
  have "slice h q L = take L (slice h q n)" for q using assms(2) by (simp add: slice_def min_def)
  then have "slice h q L = slice h offset L" if "slice h q n = slice h offset n" for q
    using that by metis
  moreover have "q + L \<le> length h" if "q + n \<le> length h" for q using that assms(2) by linarith
  ultimately show ?thesis using assms unfolding unique_run_def list_all_iff by blast
qed

lemma unique_run_matches:
  assumes "unique_run h offset n" "0 < n"
  shows "filter (BytePattern_matches_at (BytePattern_from_bytes (slice h offset n)) h) [0..<length h] = [offset]"
proof -
  have n: "offset + n \<le> length h" using assms(1) by (simp add: unique_run_def)
  then have "length (slice h offset n) = n" by (rule length_slice)
  then show ?thesis
    using assms unique_run_iff(1)[OF assms(2) n]
    by (simp add: matches_at_from_bytes run_starts_def cong: filter_cong)
qed

lemma narrow_run_starts:
  assumes "0 < len" "len \<le> max_len" "offset + max_len \<le> length h"
  shows "\<exists>L. narrow h offset max_len len (run_starts h offset len) = (L, run_starts h offset L)
             \<and> len \<le> L \<and> L \<le> max_len \<and> (\<forall>l. len \<le> l \<and> l < L \<longrightarrow> \<not> unique_run h offset l)
             \<and> (L = max_len \<or> unique_run h offset L)"
  using assms
proof (induction "max_len - len" arbitrary: len rule: less_induct)
  case less
  show ?case
  proof (cases "len < max_len \<and> 1 < length (run_starts h offset len)")
    case True
    then have step: "narrow h offset max_len len (run_starts h offset len)
        = narrow h offset max_len (Suc len) (run_starts h offset (Suc len))"
      using less.prems run_starts_Suc[of offset len h] by (subst narrow.simps) (simp add: Let_def)
    have "\<not> unique_run h offset len" using True less.prems unique_run_iff(2) by auto
    moreover obtain L where "narrow h offset max_len (Suc len) (run_starts h offset (Suc len)) = (L, run_starts h offset L)"
      "Suc len \<le> L" "L \<le> max_len" "\<forall>l. Suc len \<le> l \<and> l < L \<longrightarrow> \<not> unique_run h offset l"
      "L = max_len \<or> unique_run h offset L"
      using less.hyps[of "Suc len"] less.prems True
      by (metis Suc_leI diff_less_mono2 lessI zero_less_Suc)
    ultimately show ?thesis unfolding step
      by (metis Suc_leD Suc_leI le_neq_implies_less)
  next
    case False
    then show ?thesis using less.prems unique_run_iff(2)[of len offset h]
      by (subst narrow.simps) auto
  qed
qed

lemma make_signature_eq:
  "make_signature h offset cfg =
     (if \<exists>L. 0 < L \<and> L \<le> sc_max_len cfg \<and> unique_run h offset L
      then Some (format_signature (slice h offset
             (min (max (LEAST L. 0 < L \<and> unique_run h offset L) (sc_min_len cfg)) (length h - offset))))
      else None)"
proof (cases "offset \<ge> length h \<or> sc_max_len cfg = 0")
  case True
  then show ?thesis by (auto simp: make_signature_def unique_run_def)
next
  case False
  define m where "m = min (sc_max_len cfg) (length h - offset)"
  obtain L where L: "narrow h offset m 1 (run_starts h offset 1) = (L, run_starts h offset L)"
    "1 \<le> L" "L \<le> m" "\<forall>l. 1 \<le> l \<and> l < L \<longrightarrow> \<not> unique_run h offset l" "L = m \<or> unique_run h offset L"
  proof -
    have "(0::nat) < 1" "1 \<le> m" "offset + m \<le> length h" using False by (auto simp: m_def)
    from narrow_run_starts[OF this] that show ?thesis by blast
  qed
  have "unique_run h offset L \<longleftrightarrow> run_starts h offset L = [offset]"
    using L(2,3) False by (intro unique_run_iff(1)) (auto simp: m_def)
  then have eq: "make_signature h offset cfg = (if unique_run h offset L
      then Some (format_signature (slice h offset (min (max L (sc_min_len cfg)) (length h - offset)))) else None)"
    using False L(1) run_starts_1[of offset h] by (simp add: make_signature_def m_def)
  have "(\<exists>L. 0 < L \<and> L \<le> sc_max_len cfg \<and> unique_run h offset L) \<longleftrightarrow> unique_run h offset L"
  proof
    assume "\<exists>k. 0 < k \<and> k \<le> sc_max_len cfg \<and> unique_run h offset k"
    then obtain k where k: "0 < k" "k \<le> m" "unique_run h offset k" by (auto simp: m_def unique_run_def)
    then have "L \<le> k" using L(4) by (metis One_nat_def Suc_leI not_le)
    with k L(5) show "unique_run h offset L" by (metis L(3) le_antisym)
  next
    assume "unique_run h offset L"
    moreover have "0 < L" "L \<le> sc_max_len cfg" using L(2,3) by (auto simp: m_def)
    ultimately show "\<exists>k. 0 < k \<and> k \<le> sc_max_len cfg \<and> unique_run h offset k" by blast
  qed
  moreover have "(LEAST L. 0 < L \<and> unique_run h offset L) = L" if "unique_run h offset L"
    by (rule Least_equality) (use that L(2,4) in \<open>auto simp: Suc_le_eq leI\<close>)
  ultimately show ?thesis unfolding eq by simp
qed

section \<open>Properties\<close>

text \<open>
  A pattern byte parsed from two nibble characters matches a byte exactly when each nibble that is
  a digit equals the byte's nibble: \<open>A?\<close>, \<open>?B\<close> and \<open>??\<close> constrain the high nibble, the
  low nibble and nothing.
\<close>

theorem nibbles_to_byte_matches:
  assumes "parse_nibble c = Some hi" "parse_nibble d = Some lo"
  shows "PatternByte_matches (nibbles_to_byte hi lo) b
         \<longleftrightarrow> nibble_ok hi (drop_bit 4 b) \<and> nibble_ok lo (take_bit 4 b)"
  using parse_nibble_bounded[OF assms(1)] parse_nibble_bounded[OF assms(2)]
  by (cases hi; cases lo)
    (simp_all add: nibbles_to_byte_def PatternByte_matches_def Let_def nibble_mask_hi nibble_mask_lo
      nibble_mask_both u8_and_FF)

theorem nibbles_to_byte_matches_witness:
  "PatternByte_matches (nibbles_to_byte (NValue 0xD) NWildcard) 0xD5"
  using nibbles_to_byte_matches[of 68 "NValue 0xD" 63 NWildcard "0xD5"]
  by (simp add: parse_nibble_def to_digit_def)

text \<open>
  Printing a non-empty byte string as a signature and parsing it back gives the exact pattern
  of these bytes.
\<close>

theorem format_signature_roundtrip:
  "bs \<noteq> [] \<Longrightarrow> BytePattern_parse (codes (format_signature bs)) = Inr (BytePattern_from_bytes bs)"
  by (rule parse_format)

theorem format_signature_roundtrip_witness:
  "BytePattern_parse (codes (format_signature [0x48, 0x8B])) = Inr (BytePattern_from_bytes [0x48, 0x8B])
   \<and> format_signature [0x48, 0x8B] = ''48 8B''"
  using format_signature_roundtrip[of "[0x48, 0x8B]"]
  by (simp add: format_02X_def hex_digit_upper_def)


text \<open>
  A generated signature parses, and scanning the buffer with the parsed pattern finds the
  offset it was made for and no other position.
\<close>

theorem make_signature_unique_match:
  assumes "make_signature h offset cfg = Some sig"
  shows "\<exists>p. BytePattern_parse (codes sig) = Inr p
             \<and> filter (BytePattern_matches_at p h) [0..<length h] = [offset]"
proof -
  have "\<exists>L. 0 < L \<and> unique_run h offset L"
    using assms by (auto simp: make_signature_eq split: if_splits)
  from LeastI_ex[OF this] obtain L where L: "0 < L" "unique_run h offset L"
    and least: "L = (LEAST L. 0 < L \<and> unique_run h offset L)"
    by blast
  have sig: "sig = format_signature (slice h offset (min (max L (sc_min_len cfg)) (length h - offset)))"
    using assms unfolding make_signature_eq least by (simp split: if_splits)
  let ?n = "min (max L (sc_min_len cfg)) (length h - offset)"
  have n: "L \<le> ?n" "offset + ?n \<le> length h" using L(2) by (auto simp: unique_run_def)
  then have len: "length (slice h offset ?n) = ?n" by (intro length_slice) simp
  have "unique_run h offset ?n" using unique_run_extend[OF L(2) n] .
  moreover have "0 < ?n" using L(1) n(1) by linarith
  ultimately have "filter (BytePattern_matches_at (BytePattern_from_bytes (slice h offset ?n)) h) [0..<length h] = [offset]"
    by (intro unique_run_matches)
  moreover have "BytePattern_parse (codes sig) = Inr (BytePattern_from_bytes (slice h offset ?n))"
    unfolding sig by (rule parse_format) (use L(1) n(1) len in force)
  ultimately show ?thesis by blast
qed

theorem make_signature_unique_match_witness:
  "make_signature [1, 2, 1, 3] 2 SignatureConfig_default = Some ''01 03''
   \<and> (\<exists>p. BytePattern_parse (codes ''01 03'') = Inr p
          \<and> filter (BytePattern_matches_at p [1, 2, 1, 3]) [0..<length [1, 2, 1, 3 :: u8]] = [2])"
proof -
  have "make_signature [1, 2, 1, 3] 2 SignatureConfig_default = Some ''01 03''"
    by (simp add: make_signature_def SignatureConfig_default_def narrow.simps slice_def upt_rec
        format_02X_def hex_digit_upper_def)
  with make_signature_unique_match[OF this] show ?thesis by blast
qed

end
