(* ===== verification/Rust_Float.thy ===== *)
theory Rust_Float
  imports Complex_Main Rust_Text
begin

text \<open>
  The floating-point operations of the language that the scan engine uses: IEEE-754
  binary64 values as comparisons and arithmetic see them. A finite value is the
  rational number it denotes; the two zeros are one value, since no
  operation used here tells them apart (comparison, sum, difference, absolute value).
  Arithmetic and text conversion round to nearest, ties to even.
\<close>

datatype f64 = NaN | PInf | NInf | Fin rat

section \<open>Rounding\<close>

definition pow2 :: "int \<Rightarrow> rat" where
  "pow2 k = (if 0 \<le> k then 2 ^ nat k else 1 / 2 ^ nat (- k))"

fun bit_count :: "nat \<Rightarrow> nat" where
  "bit_count n = (if n = 0 then 0 else Suc (bit_count (n div 2)))"

declare bit_count.simps [simp del]

text \<open>\<open>floor (log2 x)\<close> of a positive rational.\<close>

definition floor_log2 :: "rat \<Rightarrow> int" where
  "floor_log2 x =
     (let (n, d) = quotient_of x;
          k = int (bit_count (nat n)) - int (bit_count (nat d))
      in if pow2 k \<le> x then k else k - 1)"

definition round_half_even :: "rat \<Rightarrow> int" where
  "round_half_even x =
     (let f = \<lfloor>x\<rfloor>; d = x - of_int f
      in if d < 1 / 2 then f else if d > 1 / 2 then f + 1 else if even f then f else f + 1)"

text \<open>Rounding to a binary format with \<open>p\<close> significant bits and exponents \<open>emin\<close> to \<open>emax\<close>.\<close>

definition round_to :: "int \<Rightarrow> int \<Rightarrow> int \<Rightarrow> rat \<Rightarrow> f64" where
  "round_to p emin emax x =
     (if x = 0 then Fin 0
      else
        let ulp = pow2 (max (floor_log2 \<bar>x\<bar>) emin - (p - 1));
            r = of_int (round_half_even (\<bar>x\<bar> / ulp)) * ulp
        in if r \<ge> pow2 (emax + 1) then (if x > 0 then PInf else NInf)
           else Fin (if x > 0 then r else - r))"

definition round64 :: "rat \<Rightarrow> f64" where "round64 = round_to 53 (- 1022) 1023"
definition round32 :: "rat \<Rightarrow> f64" where "round32 = round_to 24 (- 126) 127"

section \<open>Comparison and arithmetic\<close>

fun f64_lt :: "f64 \<Rightarrow> f64 \<Rightarrow> bool" where
  "f64_lt NaN _ = False"
| "f64_lt _ NaN = False"
| "f64_lt NInf y = (y \<noteq> NInf)"
| "f64_lt PInf _ = False"
| "f64_lt (Fin a) (Fin b) = (a < b)"
| "f64_lt (Fin a) PInf = True"
| "f64_lt (Fin a) NInf = False"

definition f64_gt :: "f64 \<Rightarrow> f64 \<Rightarrow> bool" where
  "f64_gt x y = f64_lt y x"

fun f64_neg :: "f64 \<Rightarrow> f64" where
  "f64_neg NaN = NaN"
| "f64_neg PInf = NInf"
| "f64_neg NInf = PInf"
| "f64_neg (Fin a) = Fin (- a)"

fun f64_add :: "f64 \<Rightarrow> f64 \<Rightarrow> f64" where
  "f64_add NaN _ = NaN"
| "f64_add _ NaN = NaN"
| "f64_add (Fin a) (Fin b) = round64 (a + b)"
| "f64_add PInf NInf = NaN"
| "f64_add NInf PInf = NaN"
| "f64_add PInf _ = PInf"
| "f64_add NInf _ = NInf"
| "f64_add (Fin a) y = y"

definition f64_sub :: "f64 \<Rightarrow> f64 \<Rightarrow> f64" where
  "f64_sub x y = f64_add x (f64_neg y)"

fun f64_abs :: "f64 \<Rightarrow> f64" where
  "f64_abs NaN = NaN"
| "f64_abs PInf = PInf"
| "f64_abs NInf = PInf"
| "f64_abs (Fin a) = Fin \<bar>a\<bar>"

section \<open>Conversions\<close>

text \<open>
  A bit pattern with \<open>p - 1\<close> fraction bits and \<open>w\<close> exponent bits. A 32-bit value converts
  to 64 bits exactly, so both formats decode into the same type.
\<close>

definition float_of_bits :: "nat \<Rightarrow> nat \<Rightarrow> nat \<Rightarrow> f64" where
  "float_of_bits frac_bits exp_bits n =
     (let frac = n mod 2 ^ frac_bits;
          ex = (n div 2 ^ frac_bits) mod 2 ^ exp_bits;
          neg = odd (n div 2 ^ (frac_bits + exp_bits));
          bias = 2 ^ (exp_bits - 1) - 1
      in if ex = 2 ^ exp_bits - 1 then (if frac \<noteq> 0 then NaN else if neg then NInf else PInf)
         else
           let v = (if ex = 0 then of_nat frac * pow2 (1 - bias - int frac_bits)
                    else of_nat (2 ^ frac_bits + frac) * pow2 (int ex - bias - int frac_bits))
           in Fin (if neg then - v else v))"

definition f32_from_le_bytes :: "bytes \<Rightarrow> f64" where
  "f32_from_le_bytes bs = float_of_bits 23 8 (le_nat bs)"

definition f64_from_le_bytes :: "bytes \<Rightarrow> f64" where
  "f64_from_le_bytes bs = float_of_bits 52 11 (le_nat bs)"

text \<open>
  \<open>str::parse\<close> of a float: an optional sign, then \<open>inf\<close>, \<open>infinity\<close> or \<open>nan\<close> in any case, or
  digits with an optional point (at least one digit in all) and an optional exponent.
\<close>

definition is_dec :: "nat \<Rightarrow> bool" where
  "is_dec c \<longleftrightarrow> 48 \<le> c \<and> c \<le> 57"

definition dec_value :: "utext \<Rightarrow> nat" where
  "dec_value ds = foldl (\<lambda>a c. 10 * a + (c - 48)) 0 ds"

definition take_sign :: "utext \<Rightarrow> bool \<times> utext" where
  "take_sign s = (case s of
      [] \<Rightarrow> (False, [])
    | c # cs \<Rightarrow> if c = 45 then (True, cs) else if c = 43 then (False, cs) else (False, s))"

definition parse_exponent :: "utext \<Rightarrow> int option" where
  "parse_exponent s = (case s of
      [] \<Rightarrow> Some 0
    | c # cs \<Rightarrow>
        if c = 101 \<or> c = 69 then
          (let (neg, ds) = take_sign cs
           in if ds \<noteq> [] \<and> list_all is_dec ds
              then Some (if neg then - int (dec_value ds) else int (dec_value ds)) else None)
        else None)"

definition parse_decimal :: "utext \<Rightarrow> rat option" where
  "parse_decimal s =
     (let ip = takeWhile is_dec s; r = dropWhile is_dec s;
          (fp, r) = (case r of
             [] \<Rightarrow> ([], [])
           | c # cs \<Rightarrow> if c = 46 then (takeWhile is_dec cs, dropWhile is_dec cs) else ([], r))
      in if ip = [] \<and> fp = [] then None
         else case parse_exponent r of
           None \<Rightarrow> None
         | Some e \<Rightarrow>
             let k = e - int (length fp)
             in Some (of_nat (dec_value (ip @ fp)) * (if 0 \<le> k then 10 ^ nat k else 1 / 10 ^ nat (- k))))"

definition parse_float :: "(rat \<Rightarrow> f64) \<Rightarrow> utext \<Rightarrow> f64 option" where
  "parse_float rnd s =
     (let (neg, body) = take_sign s; l = to_ascii_lowercase body
      in if l = codes ''inf'' \<or> l = codes ''infinity'' then Some (if neg then NInf else PInf)
         else if l = codes ''nan'' then Some NaN
         else map_option (\<lambda>v. rnd (if neg then - v else v)) (parse_decimal body))"

definition parse_f64 :: "utext \<Rightarrow> f64 option" where "parse_f64 = parse_float round64"
definition parse_f32 :: "utext \<Rightarrow> f64 option" where "parse_f32 = parse_float round32"

section \<open>Facts\<close>

text \<open>Known values: \<open>1.5\<close> from its bits and from its text, and the rounding of a tenth.\<close>

lemma f32_one_and_half: "f32_from_le_bytes [0, 0, 0xC0, 0x3F] = Fin (3 / 2)"
  by (simp add: f32_from_le_bytes_def float_of_bits_def Let_def pow2_def)

lemma parse_f64_one_and_half: "parse_f64 (codes ''1.5'') = Some (Fin (3 / 2))"
  by code_simp

lemma round64_tenth: "round64 (1 / 10) = Fin (3602879701896397 / 36028797018963968)"
  by code_simp

lemma f64_lt_irrefl [simp]: "\<not> f64_lt x x"
  by (cases x) auto

lemma f64_lt_trans: "f64_lt x y \<Longrightarrow> f64_lt y z \<Longrightarrow> f64_lt x z"
  by (cases x; cases y; cases z) auto

lemma f64_lt_asym: "f64_lt x y \<Longrightarrow> \<not> f64_lt y x"
  using f64_lt_trans f64_lt_irrefl by blast

end
