(* ===== verification/Value_Type.thy ===== *)
theory Value_Type
  imports Compare Pattern Rust_Float
begin

text \<open>
  Scan value types, needle parsing and typed comparison
  (nemclass-scan/src/value_type.rs). An \<open>i128\<close> is an integer; the accumulator of
  \<open>read_int\<close> is a 128-bit word, as in the code. A parse that reaches the
  arithmetic overflow of a checked build has the value \<open>None\<close>.
\<close>

section \<open>Value types\<close>

datatype scan_value_type =
    I8 | I16 | I32 | I64 | U8 | U16 | U32 | U64 | F32 | F64
  | Bytes | StringUtf8 | StringUtf16

fun fixed_width :: "scan_value_type \<Rightarrow> nat option" where
  "fixed_width I8 = Some 1"
| "fixed_width U8 = Some 1"
| "fixed_width I16 = Some 2"
| "fixed_width U16 = Some 2"
| "fixed_width I32 = Some 4"
| "fixed_width U32 = Some 4"
| "fixed_width F32 = Some 4"
| "fixed_width I64 = Some 8"
| "fixed_width U64 = Some 8"
| "fixed_width F64 = Some 8"
| "fixed_width Bytes = None"
| "fixed_width StringUtf8 = None"
| "fixed_width StringUtf16 = None"

fun is_string :: "scan_value_type \<Rightarrow> bool" where
  "is_string StringUtf8 = True"
| "is_string StringUtf16 = True"
| "is_string _ = False"

fun is_signed :: "scan_value_type \<Rightarrow> bool" where
  "is_signed I8 = True"
| "is_signed I16 = True"
| "is_signed I32 = True"
| "is_signed I64 = True"
| "is_signed _ = False"

fun as_tag :: "scan_value_type \<Rightarrow> string" where
  "as_tag I8 = ''i8''"
| "as_tag I16 = ''i16''"
| "as_tag I32 = ''i32''"
| "as_tag I64 = ''i64''"
| "as_tag U8 = ''u8''"
| "as_tag U16 = ''u16''"
| "as_tag U32 = ''u32''"
| "as_tag U64 = ''u64''"
| "as_tag F32 = ''f32''"
| "as_tag F64 = ''f64''"
| "as_tag Bytes = ''bytes''"
| "as_tag StringUtf8 = ''string_utf8''"
| "as_tag StringUtf16 = ''string_utf16''"

definition value_tags :: "(string \<times> scan_value_type) list" where
  "value_tags =
     [(''i8'', I8), (''i16'', I16), (''i32'', I32), (''i64'', I64),
      (''u8'', U8), (''u16'', U16), (''u32'', U32), (''u64'', U64),
      (''f32'', F32), (''float'', F32), (''f64'', F64), (''double'', F64),
      (''bytes'', Bytes), (''aob'', Bytes),
      (''string_utf8'', StringUtf8), (''string'', StringUtf8), (''utf8'', StringUtf8),
      (''string_utf16'', StringUtf16), (''utf16'', StringUtf16)]"

definition ScanValueType_from_tag :: "utext \<Rightarrow> scan_value_type option" where
  "ScanValueType_from_tag tag = match_tag value_tags (to_ascii_lowercase (trim_text tag))"

section \<open>Reading values\<close>

definition read_int :: "bytes \<Rightarrow> nat \<Rightarrow> nat \<Rightarrow> bool \<Rightarrow> int option" where
  "read_int data offset width sgnd =
     (case get_range data offset (offset + width) of
        None \<Rightarrow> None
      | Some bs \<Rightarrow>
          let acc = accumulate 0 bs (0 :: 128 word)
          in if sgnd then
               let sign_bit = push_bit (width * 8 - 1) 1;
                   acc = (if acc AND sign_bit \<noteq> 0
                          then acc OR (if width * 8 = 128 then 0 else NOT (push_bit (width * 8) 1 - 1))
                          else acc)
               in Some (sint acc)
             else Some (sint acc))"

definition read_float :: "bytes \<Rightarrow> nat \<Rightarrow> nat \<Rightarrow> f64 option" where
  "read_float data offset width =
     (case get_range data offset (offset + width) of
        None \<Rightarrow> None
      | Some bs \<Rightarrow>
          if width = 4 then Some (f32_from_le_bytes bs)
          else if width = 8 then Some (f64_from_le_bytes bs)
          else None)"

section \<open>Comparison\<close>

definition is_none_or :: "'a option \<Rightarrow> ('a \<Rightarrow> bool) \<Rightarrow> bool" where
  "is_none_or x p = (case x of None \<Rightarrow> True | Some v \<Rightarrow> p v)"

definition is_some_and :: "'a option \<Rightarrow> ('a \<Rightarrow> bool) \<Rightarrow> bool" where
  "is_some_and x p = (case x of None \<Rightarrow> False | Some v \<Rightarrow> p v)"

fun compare_int :: "scan_compare_type \<Rightarrow> int \<Rightarrow> int \<Rightarrow> int option \<Rightarrow> int option \<Rightarrow> bool" where
  "compare_int Exact cur needle upper prev = (cur = needle)"
| "compare_int NotEqual cur needle upper prev = (cur \<noteq> needle)"
| "compare_int GreaterThan cur needle upper prev = (cur > needle)"
| "compare_int LessThan cur needle upper prev = (cur < needle)"
| "compare_int Between cur needle upper prev = (cur > needle \<and> is_none_or upper (\<lambda>hi. cur < hi))"
| "compare_int Unknown cur needle upper prev = True"
| "compare_int Increased cur needle upper prev = is_some_and prev (\<lambda>p. cur > p)"
| "compare_int Decreased cur needle upper prev = is_some_and prev (\<lambda>p. cur < p)"
| "compare_int Changed cur needle upper prev = is_some_and prev (\<lambda>p. cur \<noteq> p)"
| "compare_int Unchanged cur needle upper prev = is_some_and prev (\<lambda>p. cur = p)"
| "compare_int IncreasedBy cur needle upper prev = is_some_and prev (\<lambda>p. cur = p + needle)"
| "compare_int DecreasedBy cur needle upper prev = is_some_and prev (\<lambda>p. cur = p - needle)"

definition nearly :: "f64 \<Rightarrow> f64 \<Rightarrow> f64 \<Rightarrow> bool" where
  "nearly tol a b = f64_lt (f64_abs (f64_sub a b)) tol"

fun compare_float :: "scan_compare_type \<Rightarrow> f64 \<Rightarrow> f64 \<Rightarrow> f64 option \<Rightarrow> f64 option \<Rightarrow> f64 \<Rightarrow> bool" where
  "compare_float Exact cur needle upper prev tol = nearly tol cur needle"
| "compare_float NotEqual cur needle upper prev tol = (\<not> nearly tol cur needle)"
| "compare_float GreaterThan cur needle upper prev tol = f64_gt cur needle"
| "compare_float LessThan cur needle upper prev tol = f64_lt cur needle"
| "compare_float Between cur needle upper prev tol = (f64_gt cur needle \<and> is_none_or upper (\<lambda>hi. f64_lt cur hi))"
| "compare_float Unknown cur needle upper prev tol = True"
| "compare_float Increased cur needle upper prev tol = is_some_and prev (\<lambda>p. f64_gt cur p)"
| "compare_float Decreased cur needle upper prev tol = is_some_and prev (\<lambda>p. f64_lt cur p)"
| "compare_float Changed cur needle upper prev tol = is_some_and prev (\<lambda>p. \<not> nearly tol cur p)"
| "compare_float Unchanged cur needle upper prev tol = is_some_and prev (\<lambda>p. nearly tol cur p)"
| "compare_float IncreasedBy cur needle upper prev tol = is_some_and prev (\<lambda>p. nearly tol cur (f64_add p needle))"
| "compare_float DecreasedBy cur needle upper prev tol = is_some_and prev (\<lambda>p. nearly tol cur (f64_sub p needle))"

definition DEFAULT_FLOAT_TOLERANCE :: f64 where
  "DEFAULT_FLOAT_TOLERANCE = round64 (1 / 100)"

definition compare_change :: "scan_value_type \<Rightarrow> scan_compare_type \<Rightarrow> bytes \<Rightarrow> bytes \<Rightarrow> bool" where
  "compare_change ty compare cur prev =
     (case fixed_width ty of
        None \<Rightarrow> (case compare of Changed \<Rightarrow> cur \<noteq> prev | Unchanged \<Rightarrow> cur = prev | _ \<Rightarrow> False)
      | Some width \<Rightarrow>
          if length cur < width \<or> length prev < width then False
          else if ty = F32 \<or> ty = F64 then
            (case (read_float cur 0 width, read_float prev 0 width) of
               (Some c, Some p) \<Rightarrow> compare_float compare c (Fin 0) None (Some p) DEFAULT_FLOAT_TOLERANCE
             | _ \<Rightarrow> False)
          else
            (let sgnd = is_signed ty
             in case (read_int cur 0 width sgnd, read_int prev 0 width sgnd) of
                  (Some c, Some p) \<Rightarrow> compare_int compare c 0 None (Some p)
                | _ \<Rightarrow> False))"

section \<open>Needles\<close>

datatype needle_value =
    NI int nat "int option"
  | NF f64 nat "f64 option"
  | NBytes byte_pattern
  | NStr bytes

record needle =
  nd_ty :: scan_value_type
  nd_value :: needle_value
  nd_tolerance :: f64

definition with_float_tolerance :: "needle \<Rightarrow> f64 \<Rightarrow> needle" where
  "with_float_tolerance n tol = n\<lparr>nd_tolerance := tol\<rparr>"

definition stride :: "needle \<Rightarrow> nat" where
  "stride n = (case nd_value n of
      NI _ w _ \<Rightarrow> w
    | NF _ w _ \<Rightarrow> w
    | NBytes p \<Rightarrow> length p
    | NStr b \<Rightarrow> length b)"

definition Needle_compare :: "needle \<Rightarrow> bytes \<Rightarrow> nat \<Rightarrow> scan_compare_type \<Rightarrow> bytes option \<Rightarrow> bool" where
  "Needle_compare n data offset compare previous =
     (case nd_value n of
        NI needle width upper \<Rightarrow>
          (case read_int data offset width (is_signed (nd_ty n)) of
             None \<Rightarrow> False
           | Some cur \<Rightarrow>
               let prev = Option.bind previous (\<lambda>p. read_int p 0 width (is_signed (nd_ty n)))
               in compare_int compare cur needle upper prev)
      | NF needle width upper \<Rightarrow>
          (case read_float data offset width of
             None \<Rightarrow> False
           | Some cur \<Rightarrow>
               let prev = Option.bind previous (\<lambda>p. read_float p 0 width)
               in compare_float compare cur needle upper prev (nd_tolerance n))
      | NBytes pattern \<Rightarrow>
          (case compare of
             Exact \<Rightarrow> BytePattern_matches_at pattern data offset
           | Unknown \<Rightarrow> BytePattern_matches_at pattern data offset
           | _ \<Rightarrow> False)
      | NStr needle \<Rightarrow>
          (case get_range data offset (offset + length needle) of
             None \<Rightarrow> False
           | Some window \<Rightarrow>
               (case compare of
                  Exact \<Rightarrow> window = needle
                | Unknown \<Rightarrow> window = needle
                | NotEqual \<Rightarrow> window \<noteq> needle
                | _ \<Rightarrow> False)))"

definition compare_first :: "needle \<Rightarrow> bytes \<Rightarrow> nat \<Rightarrow> scan_compare_type \<Rightarrow> bool" where
  "compare_first n data offset compare = Needle_compare n data offset compare None"

definition compare_next :: "needle \<Rightarrow> bytes \<Rightarrow> nat \<Rightarrow> scan_compare_type \<Rightarrow> bytes \<Rightarrow> bool" where
  "compare_next n data offset compare previous = Needle_compare n data offset compare (Some previous)"

section \<open>Parsing needles\<close>

datatype needle_parse_error = IntegerError | FloatError | PatternErr pattern_error

text \<open>
  \<open>u128::from_str_radix\<close>: an optional plus sign, at least one digit, every character a
  digit, and the value in range.
\<close>

definition u128_from_str_radix :: "nat \<Rightarrow> utext \<Rightarrow> nat option" where
  "u128_from_str_radix radix s =
     (let ds = (case s of [] \<Rightarrow> [] | c # cs \<Rightarrow> if c = 43 then cs else s)
      in if ds = [] then None
         else case digits_value radix ds 0 of
           None \<Rightarrow> None
         | Some v \<Rightarrow> if v < 2 ^ 128 then Some v else None)"

definition strip_prefix :: "string \<Rightarrow> utext \<Rightarrow> utext option" where
  "strip_prefix p s =
     (if take (length p) s = codes p then Some (drop (length p) s) else None)"

definition parse_u128_radix :: "utext \<Rightarrow> needle_parse_error + nat" where
  "parse_u128_radix s0 =
     (let s = trim_text s0;
          hex = (case strip_prefix ''0x'' s of Some h \<Rightarrow> Some h | None \<Rightarrow> strip_prefix ''0X'' s)
      in case (case hex of Some h \<Rightarrow> u128_from_str_radix 16 h | None \<Rightarrow> u128_from_str_radix 10 s) of
           None \<Rightarrow> Inl IntegerError
         | Some v \<Rightarrow> Inr v)"

text \<open>\<open>v as i128\<close>.\<close>

definition u128_as_i128 :: "nat \<Rightarrow> int" where
  "u128_as_i128 v = (if v < 2 ^ 127 then int v else int v - 2 ^ 128)"

definition parse_i128_radix :: "utext \<Rightarrow> (needle_parse_error + int) option" where
  "parse_i128_radix s =
     (let (neg, body) = (case strip_prefix ''-'' s of Some rest \<Rightarrow> (True, rest) | None \<Rightarrow> (False, s))
      in case parse_u128_radix body of
           Inl e \<Rightarrow> Some (Inl e)
         | Inr v \<Rightarrow>
             let mag = u128_as_i128 v
             in if neg then (if mag = - (2 ^ 127) then None else Some (Inr (- mag)))
                else Some (Inr mag))"

text \<open>\<open>parse_int::<T>\<close> and \<open>parse_uint::<T>\<close> for a \<open>T\<close> of \<open>w\<close> bits.\<close>

definition parse_int :: "nat \<Rightarrow> utext \<Rightarrow> (needle_parse_error + int) option" where
  "parse_int w s =
     (case parse_i128_radix s of
        None \<Rightarrow> None
      | Some (Inl e) \<Rightarrow> Some (Inl e)
      | Some (Inr v) \<Rightarrow>
          Some (if - (2 ^ (w - 1)) \<le> v \<and> v < 2 ^ (w - 1) then Inr v else Inl IntegerError))"

definition parse_uint :: "nat \<Rightarrow> utext \<Rightarrow> needle_parse_error + int" where
  "parse_uint w s =
     (case parse_u128_radix s of
        Inl e \<Rightarrow> Inl e
      | Inr v \<Rightarrow> if v < 2 ^ w then Inr (int v) else Inl IntegerError)"

text \<open>\<open>as_bytes\<close> and \<open>encode_utf16\<close> of the standard library.\<close>

definition utf8_char :: "nat \<Rightarrow> bytes" where
  "utf8_char c =
     map of_nat
      (if c < 0x80 then [c]
       else if c < 0x800 then [0xC0 + c div 64, 0x80 + c mod 64]
       else if c < 0x10000 then [0xE0 + c div 4096, 0x80 + c div 64 mod 64, 0x80 + c mod 64]
       else [0xF0 + c div 262144, 0x80 + c div 4096 mod 64, 0x80 + c div 64 mod 64, 0x80 + c mod 64])"

definition utf16_units :: "nat \<Rightarrow> nat list" where
  "utf16_units c =
     (if c < 0x10000 then [c]
      else [0xD800 + (c - 0x10000) div 1024, 0xDC00 + (c - 0x10000) mod 1024])"

definition u16_to_le_bytes :: "nat \<Rightarrow> bytes" where
  "u16_to_le_bytes u = [of_nat (u mod 256), of_nat (u div 256)]"

definition encode_utf8 :: "utext \<Rightarrow> bytes" where
  "encode_utf8 s = concat (map utf8_char s)"

definition encode_utf16_le :: "utext \<Rightarrow> bytes" where
  "encode_utf16_le s = concat (map u16_to_le_bytes (concat (map utf16_units s)))"

definition int_needle :: "nat \<Rightarrow> needle_parse_error + int \<Rightarrow> needle_parse_error + needle_value" where
  "int_needle width r = (case r of Inl e \<Rightarrow> Inl e | Inr v \<Rightarrow> Inr (NI v width None))"

definition float_needle :: "nat \<Rightarrow> f64 option \<Rightarrow> needle_parse_error + needle_value" where
  "float_needle width r = (case r of None \<Rightarrow> Inl FloatError | Some v \<Rightarrow> Inr (NF v width None))"

fun needle_value_of :: "scan_value_type \<Rightarrow> utext \<Rightarrow> (needle_parse_error + needle_value) option" where
  "needle_value_of I8 input = map_option (int_needle 1) (parse_int 8 (trim_text input))"
| "needle_value_of I16 input = map_option (int_needle 2) (parse_int 16 (trim_text input))"
| "needle_value_of I32 input = map_option (int_needle 4) (parse_int 32 (trim_text input))"
| "needle_value_of I64 input = map_option (int_needle 8) (parse_int 64 (trim_text input))"
| "needle_value_of U8 input = Some (int_needle 1 (parse_uint 8 (trim_text input)))"
| "needle_value_of U16 input = Some (int_needle 2 (parse_uint 16 (trim_text input)))"
| "needle_value_of U32 input = Some (int_needle 4 (parse_uint 32 (trim_text input)))"
| "needle_value_of U64 input = Some (int_needle 8 (parse_uint 64 (trim_text input)))"
| "needle_value_of F32 input = Some (float_needle 4 (parse_f32 (trim_text input)))"
| "needle_value_of F64 input = Some (float_needle 8 (parse_f64 (trim_text input)))"
| "needle_value_of Bytes input =
     Some (case BytePattern_parse input of Inl e \<Rightarrow> Inl (PatternErr e) | Inr p \<Rightarrow> Inr (NBytes p))"
| "needle_value_of StringUtf8 input = Some (Inr (NStr (encode_utf8 input)))"
| "needle_value_of StringUtf16 input = Some (Inr (NStr (encode_utf16_le input)))"

definition parse_needle :: "scan_value_type \<Rightarrow> utext \<Rightarrow> (needle_parse_error + needle) option" where
  "parse_needle ty input =
     (case needle_value_of ty input of
        None \<Rightarrow> None
      | Some (Inl e) \<Rightarrow> Some (Inl e)
      | Some (Inr v) \<Rightarrow> Some (Inr \<lparr>nd_ty = ty, nd_value = v, nd_tolerance = DEFAULT_FLOAT_TOLERANCE\<rparr>))"

definition with_upper_bound :: "needle \<Rightarrow> utext \<Rightarrow> (needle_parse_error + needle) option" where
  "with_upper_bound n input =
     (case parse_needle (nd_ty n) input of
        None \<Rightarrow> None
      | Some (Inl e) \<Rightarrow> Some (Inl e)
      | Some (Inr upper) \<Rightarrow>
          Some (Inr (case (nd_value n, nd_value upper) of
             (NI v w hi, NI u _ _) \<Rightarrow> n\<lparr>nd_value := NI v w (Some u)\<rparr>
           | (NF v w hi, NF u _ _) \<Rightarrow> n\<lparr>nd_value := NF v w (Some u)\<rparr>
           | _ \<Rightarrow> n)))"

section \<open>What reading an integer yields\<close>

text \<open>The value of a byte string as an unsigned or a two's-complement little-endian integer.\<close>

definition le_int :: "bool \<Rightarrow> bytes \<Rightarrow> int" where
  "le_int sgnd bs =
     (if sgnd \<and> 2 ^ (8 * length bs - 1) \<le> le_nat bs
      then int (le_nat bs) - 2 ^ (8 * length bs) else int (le_nat bs))"

lemma sint_of_int_128: "- (2 ^ 127) \<le> x \<Longrightarrow> x < 2 ^ 127 \<Longrightarrow> sint (word_of_int x :: 128 word) = x"
  by (simp add: signed_of_int signed_take_bit_int_eq_self)

lemma bit_of_nat_word_iff: "bit (of_nat N :: 128 word) n \<longleftrightarrow> n < 128 \<and> bit N n"
  by transfer (simp add: bit_take_bit_iff bit_of_nat_iff)

lemma sign_bit_test:
  assumes "N < 2 ^ (k + 1)" "k < 128"
  shows "(of_nat N :: 128 word) AND push_bit k 1 \<noteq> 0 \<longleftrightarrow> 2 ^ k \<le> N"
proof -
  have "(of_nat N :: 128 word) AND push_bit k 1 \<noteq> 0 \<longleftrightarrow> bit (of_nat N :: 128 word) k"
    by (simp add: bit_iff_and_push_bit_not_eq_0)
  also have "\<dots> \<longleftrightarrow> bit N k" using assms(2) by (simp add: bit_of_nat_word_iff)
  also have "\<dots> \<longleftrightarrow> odd (N div 2 ^ k)" by (simp add: bit_iff_odd)
  also have "\<dots> \<longleftrightarrow> 2 ^ k \<le> N"
  proof -
    have "N div 2 ^ k < 2" using assms(1) by (simp add: less_mult_imp_div_less)
    then consider "N div 2 ^ k = 0" | "N div 2 ^ k = 1" by linarith
    then show ?thesis
    proof cases
      case 1
      then have "N < 2 ^ k" by (simp add: div_eq_0_iff)
      with 1 show ?thesis by simp
    next
      case 2
      then have "\<not> N < 2 ^ k" using div_less[of N "2 ^ k"] by auto
      with 2 show ?thesis by simp
    qed
  qed
  finally show ?thesis .
qed

lemma sign_extend:
  assumes "N < 2 ^ k" "k < 128"
  shows "(of_nat N :: 128 word) OR NOT (push_bit k 1 - 1) = word_of_int (int N - 2 ^ k)"
proof -
  have m: "push_bit k 1 - 1 = (mask k :: 128 word)"
    by (simp add: mask_eq_exp_minus_1 push_bit_eq_mult)
  have "\<not> bit N n" if "k \<le> n" for n
    using that assms(1) less_le_trans[of N "2 ^ k" "2 ^ n"] by (simp add: bit_iff_odd)
  then have "(of_nat N :: 128 word) OR NOT (mask k) = of_nat N + NOT (mask k)"
    by (intro disjunctive_add_eq_or[symmetric] bit_word_eqI)
      (auto simp: bit_and_iff bit_not_iff bit_mask_iff bit_of_nat_word_iff not_less[symmetric])
  also have "NOT (mask k) = - (2 ^ k :: 128 word)"
    by (simp add: not_eq_complement mask_eq_exp_minus_1)
  finally show ?thesis unfolding m by (simp add: not_eq_complement mask_eq_exp_minus_1)
qed

lemma read_int_eq:
  assumes "0 < width" "width \<le> 8"
  shows "read_int data offset width sgnd =
     (if offset + width \<le> length data then Some (le_int sgnd (slice data offset width)) else None)"
proof (cases "offset + width \<le> length data")
  case True
  define bs where "bs = slice data offset width"
  have len: "length bs = width" using True by (simp add: bs_def length_slice)
  define N where "N = le_nat bs"
  have N: "N < 2 ^ (8 * width)" using le_nat_bound_bits[of bs] by (simp add: N_def len)
  have le: "(2::nat) ^ (8 * width) \<le> 2 ^ 64" using assms(2) by (intro power_increasing) auto
  then have p64: "(2::int) ^ (8 * width) \<le> 2 ^ 64" by (metis of_nat_le_iff of_nat_numeral of_nat_power)
  then have N64: "int N < 2 ^ 64" using N le by (simp add: less_le_trans)
  have w: "8 * width - 1 + 1 = 8 * width" "8 * width - 1 < 128" "8 * width < 128" using assms by auto
  have pos: "sint (of_nat N :: 128 word) = int N"
    using sint_of_int_128[of "int N"] N64 by simp
  have neg: "sint (word_of_int (int N - 2 ^ (8 * width)) :: 128 word) = int N - 2 ^ (8 * width)"
  proof (rule sint_of_int_128)
    show "- (2 ^ 127) \<le> int N - 2 ^ (8 * width)" using p64 by simp
    have "(0::int) \<le> 2 ^ (8 * width)" by simp
    then have "int N - 2 ^ (8 * width) < 2 ^ 64" using N64 by linarith
    then show "int N - 2 ^ (8 * width) < 2 ^ 127" by simp
  qed
  have "read_int data offset width sgnd = Some (le_int sgnd bs)"
    using True w N sign_bit_test[of N "8 * width - 1"] sign_extend[of N "8 * width"] pos neg
    by (simp add: read_int_def get_range_slice bs_def[symmetric] accumulate_le_nat N_def[symmetric]
        le_int_def len mult.commute[of width] Let_def)
  then show ?thesis using True by (simp add: bs_def)
qed (simp add: read_int_def get_range_slice)

section \<open>Well-formed needles\<close>

text \<open>The values an integer type holds.\<close>

definition int_range :: "scan_value_type \<Rightarrow> int \<Rightarrow> bool" where
  "int_range ty v =
     (case fixed_width ty of
        None \<Rightarrow> False
      | Some w \<Rightarrow> if is_signed ty then - (2 ^ (8 * w - 1)) \<le> v \<and> v < 2 ^ (8 * w - 1)
                  else 0 \<le> v \<and> v < 2 ^ (8 * w))"

definition is_float :: "scan_value_type \<Rightarrow> bool" where
  "is_float ty \<longleftrightarrow> ty = F32 \<or> ty = F64"

definition is_integer :: "scan_value_type \<Rightarrow> bool" where
  "is_integer ty \<longleftrightarrow> fixed_width ty \<noteq> None \<and> \<not> is_float ty"

definition wf_needle :: "needle \<Rightarrow> bool" where
  "wf_needle n =
     (case nd_value n of
        NI v w hi \<Rightarrow> is_integer (nd_ty n) \<and> fixed_width (nd_ty n) = Some w \<and> int_range (nd_ty n) v
                     \<and> (case hi of None \<Rightarrow> True | Some u \<Rightarrow> int_range (nd_ty n) u)
      | NF v w hi \<Rightarrow> is_float (nd_ty n) \<and> fixed_width (nd_ty n) = Some w
      | NBytes p \<Rightarrow> nd_ty n = Bytes \<and> p \<noteq> []
      | NStr b \<Rightarrow> is_string (nd_ty n))"

lemmas needle_kinds = is_float_def is_integer_def int_range_def

lemma parse_int_range:
  "parse_int w s = Some (Inr v) \<Longrightarrow> - (2 ^ (w - 1)) \<le> v \<and> v < 2 ^ (w - 1)"
  by (auto simp: parse_int_def split: option.splits sum.splits if_splits)

lemma parse_uint_range: "parse_uint w s = Inr v \<Longrightarrow> 0 \<le> v \<and> v < 2 ^ w"
  by (auto simp: parse_uint_def split: sum.splits if_splits)

lemma parse_nonempty: "BytePattern_parse s = Inr p \<Longrightarrow> p \<noteq> []"
  by (auto simp: BytePattern_parse_def split: sum.splits if_splits)

lemma parse_needle_ty:
  "parse_needle ty s = Some (Inr n) \<Longrightarrow> nd_ty n = ty \<and> (\<exists>v. nd_value n = v \<and> needle_value_of ty s = Some (Inr v))"
  by (auto simp: parse_needle_def split: option.splits sum.splits)

lemma needle_Inr:
  "Inr x = int_needle w r \<longleftrightarrow> (\<exists>v. r = Inr v \<and> x = NI v w None)"
  "int_needle w r = Inr x \<longleftrightarrow> (\<exists>v. r = Inr v \<and> x = NI v w None)"
  "float_needle w fr = Inr x \<longleftrightarrow> (\<exists>v. fr = Some v \<and> x = NF v w None)"
  by (auto simp: int_needle_def float_needle_def split: sum.splits option.splits)

lemma parse_needle_wf_aux:
  assumes "parse_needle ty s = Some (Inr n)"
  shows "wf_needle n"
proof -
  from parse_needle_ty[OF assms] obtain v
    where v: "nd_ty n = ty" "nd_value n = v" "needle_value_of ty s = Some (Inr v)" by blast
  then show ?thesis unfolding wf_needle_def v(1,2)
    by (cases ty) (auto simp: needle_Inr needle_kinds dest!: parse_int_range parse_uint_range
        parse_nonempty split: sum.splits)
qed

lemma int_range_bound: "int_range ty v \<Longrightarrow> \<bar>v\<bar> < 2 ^ 64"
  by (cases ty) (simp_all add: int_range_def abs_less_iff)

lemma fixed_width_bounds: "fixed_width ty = Some w \<Longrightarrow> 0 < w \<and> w \<le> 8"
  by (cases ty) auto

lemma le_int_bound:
  assumes "length bs \<le> 8"
  shows "\<bar>le_int sgnd bs\<bar> < 2 ^ 64"
proof -
  have n: "int (le_nat bs) < 2 ^ (8 * length bs)"
    using le_nat_bound_bits[of bs] by (metis of_nat_less_iff of_nat_numeral of_nat_power)
  have p: "(2::int) ^ (8 * length bs) \<le> 2 ^ 64" using assms by (intro power_increasing) auto
  show ?thesis
  proof (cases "sgnd \<and> 2 ^ (8 * length bs - 1) \<le> le_nat bs")
    case True
    then have "(0::nat) < le_nat bs" by (metis less_le_trans zero_less_numeral zero_less_power)
    then have "\<bar>int (le_nat bs) - 2 ^ (8 * length bs)\<bar> < 2 ^ 64" using n p by linarith
    then show ?thesis unfolding le_int_def if_P[OF True] .
  next
    case False
    have "\<bar>int (le_nat bs)\<bar> < 2 ^ 64" using n p by linarith
    then show ?thesis unfolding le_int_def if_not_P[OF False] .
  qed
qed

section \<open>Decimal needles\<close>

lemma digit_not_special:
  "c \<in> set (codes (format_dec n)) \<Longrightarrow> \<not> is_whitespace c \<and> c \<noteq> 43 \<and> c \<noteq> 45 \<and> c \<noteq> 120 \<and> c \<noteq> 88"
  by (drule format_dec_chars) (auto simp: is_whitespace_def)

lemma format_dec_codes_not_Nil [simp]: "codes (format_dec n) \<noteq> []"
  by (simp add: codes_def format_dec_def)

lemma strip_prefix_absent:
  "c \<in> set p \<Longrightarrow> of_char c \<notin> set s \<Longrightarrow> strip_prefix p s = None"
  unfolding strip_prefix_def codes_def
  by (metis (mono_tags, lifting) imageI in_set_takeD list.set_map)

lemma strip_hex_format:
  "of_char (CHR ''x'') \<notin> set s \<Longrightarrow> of_char (CHR ''X'') \<notin> set s \<Longrightarrow>
   strip_prefix ''0x'' s = None \<and> strip_prefix ''0X'' s = None"
  using strip_prefix_absent[of "CHR ''x''" "''0x''" s] strip_prefix_absent[of "CHR ''X''" "''0X''" s] by simp

lemma u128_from_str_format:
  "u128_from_str_radix 10 (codes (format_dec n)) = (if n < 2 ^ 128 then Some n else None)"
proof (cases "codes (format_dec n)")
  case (Cons c cs)
  then have "c \<noteq> 43" using digit_not_special[of c n] by simp
  with Cons digits_value_format(1)[of n] show ?thesis
    by (simp add: u128_from_str_radix_def)
qed simp

lemma parse_u128_format:
  "parse_u128_radix (codes (format_dec n)) = (if n < 2 ^ 128 then Inr n else Inl IntegerError)"
proof -
  have "trim_text (codes (format_dec n)) = codes (format_dec n)"
    by (rule trim_text_id) (use digit_not_special in blast)
  moreover have "strip_prefix ''0x'' (codes (format_dec n)) = None \<and> strip_prefix ''0X'' (codes (format_dec n)) = None"
    by (rule strip_hex_format) (use digit_not_special in force)+
  ultimately show ?thesis using u128_from_str_format[of n]
    by (simp add: parse_u128_radix_def Let_def)
qed

lemma parse_u128_negative: "parse_u128_radix (45 # codes (format_dec n)) = Inl IntegerError"
proof -
  let ?s = "45 # codes (format_dec n)"
  have "trim_text ?s = ?s"
    by (rule trim_text_id) (use digit_not_special in \<open>auto simp: is_whitespace_def\<close>)
  moreover have "strip_prefix ''0x'' ?s = None \<and> strip_prefix ''0X'' ?s = None"
    by (rule strip_hex_format) (use digit_not_special in force)+
  moreover have "u128_from_str_radix 10 ?s = None"
    by (simp add: u128_from_str_radix_def to_digit_def)
  ultimately show ?thesis by (simp add: parse_u128_radix_def)
qed

lemma strip_minus_format: "strip_prefix ''-'' (codes (format_dec n)) = None"
  using strip_prefix_absent[of "CHR ''-''" "''-''" "codes (format_dec n)"] digit_not_special[of 45 n] by auto

lemma parse_i128_format:
  assumes "\<bar>v\<bar> < 2 ^ 127"
  shows "parse_i128_radix (codes (format_int v)) = Some (Inr v)"
proof (cases "v < 0")
  case True
  have "strip_prefix ''-'' (codes (format_int v)) = Some (codes (format_dec (nat (- v))))"
    using True by (simp add: strip_prefix_def format_int_def)
  then show ?thesis using True assms
    by (simp add: parse_i128_radix_def parse_u128_format u128_as_i128_def Let_def nat_less_iff)
next
  case False
  then have "codes (format_int v) = codes (format_dec (nat v))" by (simp add: format_int_def)
  then show ?thesis using False assms strip_minus_format[of "nat v"]
    by (simp add: parse_i128_radix_def parse_u128_format u128_as_i128_def Let_def nat_less_iff)
qed

lemma trim_format_int: "trim_text (codes (format_int v)) = codes (format_int v)"
  by (rule trim_text_id)
    (use digit_not_special in \<open>auto simp: format_int_def is_whitespace_def split: if_splits\<close>)

lemma parse_int_format:
  assumes "\<bar>v\<bar> < 2 ^ 127"
  shows "parse_int w (codes (format_int v)) =
    Some (if - (2 ^ (w - 1)) \<le> v \<and> v < 2 ^ (w - 1) then Inr v else Inl IntegerError)"
  using parse_i128_format[OF assms] by (simp add: parse_int_def)

lemma parse_uint_format:
  assumes "\<bar>v\<bar> < 2 ^ 127" "w \<le> 64"
  shows "parse_uint w (codes (format_int v)) = (if 0 \<le> v \<and> v < 2 ^ w then Inr v else Inl IntegerError)"
proof (cases "v < 0")
  case True
  then show ?thesis by (simp add: parse_uint_def format_int_def parse_u128_negative)
next
  case False
  have "(nat v < 2 ^ w) = (v < 2 ^ w)" using False by (simp add: nat_less_iff)
  then show ?thesis using False assms
    by (simp add: parse_uint_def format_int_def parse_u128_format nat_less_iff)
qed

section \<open>Properties\<close>

text \<open>Every value type is recovered from its tag.\<close>

theorem value_type_tag_roundtrip: "ScanValueType_from_tag (codes (as_tag ty)) = Some ty"
  by (cases ty) (simp_all add: ScanValueType_from_tag_def match_tag_def value_tags_def trim_text_def
      is_whitespace_def to_ascii_lowercase_def)

text \<open>
  C12. A candidate of an integer type is read as the little-endian integer, unsigned or two's complement
  by the type, of the bytes at the offset, and only when all of them lie in the buffer; the sums and differences
  the delta comparisons form from a value and a parsed needle stay inside \<open>i128\<close>.
\<close>

theorem read_int_value:
  assumes "fixed_width ty = Some w"
  shows "read_int data offset w (is_signed ty) =
           (if offset + w \<le> length data then Some (le_int (is_signed ty) (slice data offset w)) else None)
         \<and> (\<forall>v. read_int data offset w (is_signed ty) = Some v \<and> int_range ty d \<longrightarrow>
               - (2 ^ 127) \<le> v - d \<and> v - d < 2 ^ 127 \<and> - (2 ^ 127) \<le> v + d \<and> v + d < 2 ^ 127)"
proof -
  have w: "0 < w" "w \<le> 8" using fixed_width_bounds[OF assms] by auto
  note eq = read_int_eq[OF w, of data offset "is_signed ty"]
  have "- (2 ^ 127) \<le> v - d \<and> v - d < 2 ^ 127 \<and> - (2 ^ 127) \<le> v + d \<and> v + d < 2 ^ 127"
    if v: "read_int data offset w (is_signed ty) = Some v" and d: "int_range ty d" for v
  proof -
    have "\<bar>v\<bar> < 2 ^ 64"
      using v w le_int_bound[of "slice data offset w" "is_signed ty"]
      unfolding eq by (auto simp: length_slice split: if_splits)
    moreover have "\<bar>d\<bar> < 2 ^ 64" using int_range_bound[OF d] .
    ultimately have "\<bar>v - d\<bar> < 2 ^ 65" "\<bar>v + d\<bar> < 2 ^ 65" by simp_all
    then show ?thesis by (intro conjI; simp add: abs_less_iff)
  qed
  with eq show ?thesis by blast
qed

theorem read_int_value_witness:
  "read_int [0, 0xFE, 0xFF] 1 2 True = Some (- 2)"
  using read_int_value[of I16 2 "[0, 0xFE, 0xFF]" 1 0]
  by (simp add: le_int_def slice_def)

text \<open>
  The decimal text of any integer below \<open>2 ^ 127\<close> in magnitude parses, for every integer type, to the needle
  of this value when the type holds it and to the integer error when it does not.
\<close>

theorem parse_needle_decimal:
  assumes "is_integer ty" "fixed_width ty = Some w" "\<bar>v\<bar> < 2 ^ 127"
  shows "parse_needle ty (codes (format_int v)) =
     Some (if int_range ty v
           then Inr \<lparr>nd_ty = ty, nd_value = NI v w None, nd_tolerance = DEFAULT_FLOAT_TOLERANCE\<rparr>
           else Inl IntegerError)"
  using assms
  by (cases ty)
    (auto simp: parse_needle_def trim_format_int parse_int_format parse_uint_format int_needle_def
      needle_kinds)

theorem parse_needle_decimal_witness:
  "parse_needle I8 (codes (format_int (- 128))) =
     Some (Inr \<lparr>nd_ty = I8, nd_value = NI (- 128) 1 None, nd_tolerance = DEFAULT_FLOAT_TOLERANCE\<rparr>)
   \<and> codes (format_int (- 128)) = codes ''-128''"
  using parse_needle_decimal[of I8 1 "- 128"]
  by (simp add: needle_kinds) (simp add: format_int_def format_dec_def digits_of.simps)

text \<open>
  A parsed needle is well-formed: its payload is of its type's family and width, an integer payload is
  in the type's range, a byte pattern is not empty; setting the upper bound keeps this.
\<close>

theorem needle_wf:
  assumes "parse_needle ty s = Some (Inr n)"
  shows "wf_needle n \<and> nd_ty n = ty
         \<and> (\<forall>t m. with_upper_bound n t = Some (Inr m) \<longrightarrow> wf_needle m \<and> nd_ty m = ty \<and> stride m = stride n)"
proof -
  have n: "wf_needle n" "nd_ty n = ty" using parse_needle_wf_aux[OF assms] parse_needle_ty[OF assms] by auto
  have "wf_needle m \<and> nd_ty m = ty \<and> stride m = stride n" if m: "with_upper_bound n t = Some (Inr m)" for t m
  proof -
    obtain u where u: "parse_needle ty t = Some (Inr u)"
      and m_eq: "m = (case (nd_value n, nd_value u) of
             (NI v w hi, NI u _ _) \<Rightarrow> n\<lparr>nd_value := NI v w (Some u)\<rparr>
           | (NF v w hi, NF u _ _) \<Rightarrow> n\<lparr>nd_value := NF v w (Some u)\<rparr>
           | _ \<Rightarrow> n)"
      using m n(2) by (auto simp: with_upper_bound_def split: option.splits sum.splits)
    have "wf_needle u" "nd_ty u = ty" using parse_needle_wf_aux[OF u] parse_needle_ty[OF u] by auto
    with n show ?thesis unfolding m_eq
      by (cases "nd_value n"; cases "nd_value u") (auto simp: wf_needle_def stride_def)
  qed
  with n show ?thesis by blast
qed

theorem needle_wf_witness:
  "\<exists>n. parse_needle U8 (codes ''7'') = Some (Inr n) \<and> wf_needle n"
proof -
  have "parse_needle U8 (codes ''7'') =
      Some (Inr \<lparr>nd_ty = U8, nd_value = NI 7 1 None, nd_tolerance = DEFAULT_FLOAT_TOLERANCE\<rparr>)"
    by (simp add: parse_needle_def parse_uint_def parse_u128_radix_def trim_text_def is_whitespace_def
        strip_prefix_def u128_from_str_radix_def to_digit_def int_needle_def)
  with needle_wf[OF this] show ?thesis by blast
qed

text \<open>
  A change-relative comparison without a needle agrees with the needle path: on spans of at least the type's
  width it is the comparison of a zero needle of the type, so signed integers and floats are ordered as
  such and not as magnitudes.
\<close>

theorem compare_change_zero_needle:
  assumes "fixed_width ty = Some w" "w \<le> length cur" "w \<le> length prev"
  shows "compare_change ty cmp cur prev =
     compare_next \<lparr>nd_ty = ty, nd_value = (if is_float ty then NF (Fin 0) w None else NI 0 w None),
                   nd_tolerance = DEFAULT_FLOAT_TOLERANCE\<rparr> cur 0 cmp prev"
proof -
  have w: "0 < w" "w \<le> 8" using fixed_width_bounds[OF assms(1)] by auto
  have fw: "is_float ty \<Longrightarrow> w = 4 \<or> w = 8" using assms(1) by (auto simp: is_float_def)
  have fl: "\<exists>x. read_float d 0 w = Some x" if "w \<le> length d" "is_float ty" for d
    using fw[OF that(2)] that(1) by (auto simp: read_float_def get_range_def)
  show ?thesis
  proof (cases "is_float ty")
    case True
    with fl[OF assms(2)] fl[OF assms(3)] assms show ?thesis
      by (auto simp: compare_change_def compare_next_def Needle_compare_def is_float_def)
  next
    case False
    with assms w show ?thesis
      by (simp add: compare_change_def compare_next_def Needle_compare_def is_float_def read_int_eq Let_def)
  qed
qed

theorem compare_change_zero_needle_witness:
  "compare_change I8 Increased [0x01] [0xFF]"
  using compare_change_zero_needle[of I8 1 "[0x01]" "[0xFF]" Increased]
  by (simp add: compare_next_def Needle_compare_def read_int_eq is_float_def le_int_def is_some_and_def)

section \<open>Where the code departs from its documentation\<close>

text \<open>
  A magnitude above \<open>i128::MAX\<close> wraps when it is converted: the largest 128-bit number is accepted as the needle
  \<open>-1\<close> of a signed type instead of being rejected.
\<close>

lemma parse_needle_wraps_magnitude:
  "parse_i128_radix (codes ''340282366920938463463374607431768211455'') = Some (Inr (- 1))"
  by (simp add: parse_i128_radix_def parse_u128_radix_def trim_text_def is_whitespace_def
      strip_prefix_def u128_from_str_radix_def to_digit_def u128_as_i128_def)

end
