(* ===== verification/Results.thy ===== *)
theory Results
  imports Prelude
begin

text \<open>
  The result store of a scan generation (nemclass-scan/src/results.rs): three parallel columns,
  seen from outside as a list of rows.
\<close>

record scan_result =
  res_address :: usize
  res_current :: bytes
  res_previous :: bytes

record scan_results =
  sr_stride :: nat
  sr_addresses :: "usize list"
  sr_current :: bytes
  sr_previous :: bytes

definition ScanResults_new :: scan_results where
  "ScanResults_new = \<lparr>sr_stride = 0, sr_addresses = [], sr_current = [], sr_previous = []\<rparr>"

definition ScanResults_with_stride :: "nat \<Rightarrow> scan_results" where
  "ScanResults_with_stride stride = ScanResults_new\<lparr>sr_stride := stride\<rparr>"

definition ScanResults_len :: "scan_results \<Rightarrow> nat" where
  "ScanResults_len r = length (sr_addresses r)"

definition ScanResults_is_empty :: "scan_results \<Rightarrow> bool" where
  "ScanResults_is_empty r \<longleftrightarrow> sr_addresses r = []"

definition row_at :: "scan_results \<Rightarrow> nat \<Rightarrow> scan_result" where
  "row_at r i =
     \<lparr>res_address = sr_addresses r ! i,
      res_current = slice (sr_current r) (i * sr_stride r) (sr_stride r),
      res_previous = slice (sr_previous r) (i * sr_stride r) (sr_stride r)\<rparr>"

definition ScanResults_get :: "scan_results \<Rightarrow> nat \<Rightarrow> scan_result option" where
  "ScanResults_get r index = (if index < length (sr_addresses r) then Some (row_at r index) else None)"

definition ScanResults_iter :: "scan_results \<Rightarrow> scan_result list" where
  "ScanResults_iter r = map (row_at r) [0..<ScanResults_len r]"

definition push_fixed :: "bytes \<Rightarrow> bytes \<Rightarrow> nat \<Rightarrow> bytes" where
  "push_fixed dst src stride =
     (let n = min (length src) stride in dst @ take n src @ replicate (stride - n) 0)"

definition ScanResults_push :: "scan_results \<Rightarrow> usize \<Rightarrow> bytes \<Rightarrow> bytes \<Rightarrow> scan_results" where
  "ScanResults_push r address current previous =
     r\<lparr>sr_addresses := sr_addresses r @ [address],
       sr_current := push_fixed (sr_current r) current (sr_stride r),
       sr_previous := push_fixed (sr_previous r) previous (sr_stride r)\<rparr>"

section \<open>The columns stay aligned\<close>

definition wf_results :: "scan_results \<Rightarrow> bool" where
  "wf_results r \<longleftrightarrow>
     length (sr_current r) = length (sr_addresses r) * sr_stride r
     \<and> length (sr_previous r) = length (sr_addresses r) * sr_stride r"

text \<open>A value cut or zero-padded to the stride.\<close>

definition fit :: "nat \<Rightarrow> bytes \<Rightarrow> bytes" where
  "fit n bs = take n bs @ replicate (n - length bs) 0"

lemma length_fit [simp]: "length (fit n bs) = n"
  by (simp add: fit_def)

lemma fit_id [simp]: "length bs = n \<Longrightarrow> fit n bs = bs"
  by (simp add: fit_def)

lemma push_fixed_eq: "push_fixed dst src n = dst @ fit n src"
  by (auto simp: push_fixed_def fit_def Let_def min_def)

lemma wf_with_stride [simp]: "wf_results (ScanResults_with_stride n)"
  by (simp add: wf_results_def ScanResults_with_stride_def ScanResults_new_def)

lemma wf_new [simp]: "wf_results ScanResults_new"
  by (simp add: wf_results_def ScanResults_new_def)

lemma wf_push [simp]: "wf_results r \<Longrightarrow> wf_results (ScanResults_push r a c p)"
  by (simp add: wf_results_def ScanResults_push_def push_fixed_eq)

lemma push_fields [simp]:
  "sr_stride (ScanResults_push r a c p) = sr_stride r"
  "sr_addresses (ScanResults_push r a c p) = sr_addresses r @ [a]"
  "ScanResults_len (ScanResults_push r a c p) = Suc (ScanResults_len r)"
  by (simp_all add: ScanResults_push_def ScanResults_len_def)

lemma with_stride_fields [simp]:
  "sr_stride (ScanResults_with_stride n) = n" "sr_addresses (ScanResults_with_stride n) = []"
  "ScanResults_len (ScanResults_with_stride n) = 0" "ScanResults_iter (ScanResults_with_stride n) = []"
  by (simp_all add: ScanResults_with_stride_def ScanResults_new_def ScanResults_len_def ScanResults_iter_def)

lemma length_iter [simp]: "length (ScanResults_iter r) = ScanResults_len r"
  by (simp add: ScanResults_iter_def)

lemma map_address_iter [simp]: "map res_address (ScanResults_iter r) = sr_addresses r"
  by (simp add: ScanResults_iter_def row_at_def ScanResults_len_def comp_def map_nth)

lemma slice_append_left: "off + n \<le> length xs \<Longrightarrow> slice (xs @ ys) off n = slice xs off n"
  by (simp add: slice_def)

lemma slice_append_right: "length xs = off \<Longrightarrow> length ys = n \<Longrightarrow> slice (xs @ ys) off n = ys"
  by (simp add: slice_def)

lemma column_bound:
  assumes "i < (m::nat)"
  shows "i * s + s \<le> m * s"
  using mult_le_mono1[of "Suc i" m s] assms by simp

lemma iter_push:
  assumes "wf_results r"
  shows "ScanResults_iter (ScanResults_push r a c p) =
         ScanResults_iter r @ [\<lparr>res_address = a, res_current = fit (sr_stride r) c, res_previous = fit (sr_stride r) p\<rparr>]"
proof -
  have "row_at (ScanResults_push r a c p) i = row_at r i" if "i < ScanResults_len r" for i
    using that assms column_bound[of i "length (sr_addresses r)" "sr_stride r"]
    by (simp add: row_at_def ScanResults_push_def push_fixed_eq ScanResults_len_def wf_results_def
        nth_append slice_append_left)
  moreover have "row_at (ScanResults_push r a c p) (ScanResults_len r)
      = \<lparr>res_address = a, res_current = fit (sr_stride r) c, res_previous = fit (sr_stride r) p\<rparr>"
    using assms
    by (simp add: row_at_def ScanResults_push_def push_fixed_eq ScanResults_len_def wf_results_def
        slice_append_right)
  ultimately show ?thesis by (simp add: ScanResults_iter_def)
qed

lemma iter_row_lengths:
  assumes "wf_results r" "x \<in> set (ScanResults_iter r)"
  shows "length (res_current x) = sr_stride r" "length (res_previous x) = sr_stride r"
  using assms column_bound[of _ "length (sr_addresses r)" "sr_stride r"]
  by (auto simp: ScanResults_iter_def row_at_def ScanResults_len_def wf_results_def length_slice)

section \<open>Properties\<close>

text \<open>
  C13. The three columns implement a list of rows: pushing a match keeps them aligned and appends exactly
  one row, with both values cut or zero-padded to the stride, and indexed access returns the row of that
  position, for every index and none past the end.
\<close>

theorem ScanResults_push_refines_append:
  assumes "wf_results r"
  shows "wf_results (ScanResults_push r a c p)
    \<and> ScanResults_iter (ScanResults_push r a c p) =
        ScanResults_iter r @ [\<lparr>res_address = a, res_current = fit (sr_stride r) c, res_previous = fit (sr_stride r) p\<rparr>]
    \<and> ScanResults_get r i = (if i < ScanResults_len r then Some (ScanResults_iter r ! i) else None)"
  using assms iter_push[OF assms]
  by (simp add: ScanResults_get_def ScanResults_iter_def ScanResults_len_def)

theorem ScanResults_push_refines_append_witness:
  "ScanResults_iter (ScanResults_push (ScanResults_with_stride 2) 7 [1] [2, 3, 4]) =
     [\<lparr>res_address = 7, res_current = [1, 0], res_previous = [2, 3]\<rparr>]"
  using ScanResults_push_refines_append[of "ScanResults_with_stride 2" 7 "[1]" "[2, 3, 4]" 0]
  by (simp add: fit_def)

end
