(* ===== verification/Scanner.thy ===== *)
theory Scanner
  imports Target Value_Type Results
begin

text \<open>
  The scan engine (nemclass-scan/src/scanner.rs): the first scan over the filtered regions in
  overlapping windows, the next scan over the previous results, the bounded history.

  The observer is a state \<open>'o\<close> with a tick function that returns whether to go on and its new
  state. A pass that reaches an arithmetic overflow of a checked build has the value
  \<open>None\<close>; every other outcome is \<open>Some\<close>, with the scanner, the observer and the result.
  The memory behind the target does not change during one pass.
\<close>

section \<open>Errors, progress, observers\<close>

datatype scan_error =
    NeedsFirstScan
  | CompareNeedsPrevious scan_compare_type
  | CompareIsFirstScanOnly scan_compare_type
  | MissingNeedle scan_compare_type
  | NeedleTypeMismatch scan_value_type scan_value_type
  | NoStride scan_value_type
  | TargetUnreadable core_error
  | TargetError core_error
  | ScanCancelled

datatype walk_outcome = Completed | Cancelled

record scan_stats =
  st_scanned :: nat
  st_matched :: nat
  st_unreadable :: nat

record scan_progress =
  pr_done :: nat
  pr_total :: nat
  pr_matches :: nat

type_synonym 'o observer = "'o \<Rightarrow> scan_progress \<Rightarrow> bool \<times> 'o"

definition NoObserver :: "'o observer" where
  "NoObserver s p = (True, s)"

definition CHUNK_SIZE :: nat where "CHUNK_SIZE = 64 * 1024"
definition HISTORY_DEPTH :: nat where "HISTORY_DEPTH = 3"
definition DEFAULT_RESULT_LIMIT :: nat where "DEFAULT_RESULT_LIMIT = 5000000"
definition PROGRESS_INTERVAL :: nat where "PROGRESS_INTERVAL = 4096"

section \<open>The scanner\<close>

record scanner =
  sn_target :: target
  sn_value_type :: scan_value_type
  sn_region_filter :: region_filter
  sn_scanned_regions :: nat
  sn_alignment :: "nat option"
  sn_result_limit :: nat
  sn_truncated :: bool
  sn_history :: "scan_results list"
  sn_has_scanned :: bool
  sn_last_stats :: scan_stats

definition Scanner_new :: "target \<Rightarrow> scan_value_type \<Rightarrow> scanner" where
  "Scanner_new t ty =
     \<lparr>sn_target = t, sn_value_type = ty, sn_region_filter = RegionFilter_default,
      sn_scanned_regions = 0, sn_alignment = None, sn_result_limit = DEFAULT_RESULT_LIMIT,
      sn_truncated = False, sn_history = [], sn_has_scanned = False,
      sn_last_stats = \<lparr>st_scanned = 0, st_matched = 0, st_unreadable = 0\<rparr>\<rparr>"

definition set_region_filter :: "scanner \<Rightarrow> region_filter \<Rightarrow> scanner" where
  "set_region_filter s f = s\<lparr>sn_region_filter := f\<rparr>"

definition set_alignment :: "scanner \<Rightarrow> nat \<Rightarrow> scanner" where
  "set_alignment s a = s\<lparr>sn_alignment := (if a > 0 then Some a else None)\<rparr>"

definition Scanner_alignment :: "scanner \<Rightarrow> nat" where
  "Scanner_alignment s =
     max (case sn_alignment s of
            Some a \<Rightarrow> a
          | None \<Rightarrow> (case fixed_width (sn_value_type s) of Some w \<Rightarrow> w | None \<Rightarrow> 1)) 1"

definition with_result_limit :: "scanner \<Rightarrow> nat \<Rightarrow> scanner" where
  "with_result_limit s limit = s\<lparr>sn_result_limit := limit\<rparr>"

definition set_value_type :: "scanner \<Rightarrow> scan_value_type \<Rightarrow> bool \<times> scanner" where
  "set_value_type s ty =
     (if fixed_width ty \<noteq> fixed_width (sn_value_type s) then (False, s)
      else (True, s\<lparr>sn_value_type := ty\<rparr>))"

definition Scanner_results :: "scanner \<Rightarrow> scan_results" where
  "Scanner_results s = (if sn_history s = [] then ScanResults_new else last (sn_history s))"

definition can_undo :: "scanner \<Rightarrow> bool" where
  "can_undo s \<longleftrightarrow> length (sn_history s) > 1"

definition undo :: "scanner \<Rightarrow> bool \<times> scanner" where
  "undo s = (if can_undo s then (True, s\<lparr>sn_history := butlast (sn_history s)\<rparr>) else (False, s))"

definition Scanner_stride :: "scanner \<Rightarrow> needle option \<Rightarrow> nat" where
  "Scanner_stride s needle =
     (case needle of
        Some n \<Rightarrow> stride n
      | None \<Rightarrow> (case fixed_width (sn_value_type s) of Some w \<Rightarrow> w | None \<Rightarrow> 0))"

definition validate_needle :: "scanner \<Rightarrow> scan_compare_type \<Rightarrow> needle option \<Rightarrow> scan_error option" where
  "validate_needle s compare needle =
     (case needle of
        Some n \<Rightarrow> if nd_ty n \<noteq> sn_value_type s
                   then Some (NeedleTypeMismatch (nd_ty n) (sn_value_type s)) else None
      | None \<Rightarrow> if needs_needle compare then Some (MissingNeedle compare) else None)"

definition push_generation :: "scanner \<Rightarrow> scan_results \<Rightarrow> scanner" where
  "push_generation s results =
     (let h = sn_history s @ [results]
      in s\<lparr>sn_history := (if length h > HISTORY_DEPTH then tl h else h)\<rparr>)"

section \<open>The walk over one region\<close>

definition first_match :: "needle option \<Rightarrow> bytes \<Rightarrow> nat \<Rightarrow> scan_compare_type \<Rightarrow> bool" where
  "first_match needle data off compare =
     (case needle of Some n \<Rightarrow> compare_first n data off compare | None \<Rightarrow> compare = Unknown)"

text \<open>
  What the walk changes: the results, the observer, the candidates seen in the whole pass and
  since the last tick of this region.
\<close>

record 'o walk =
  wk_out :: scan_results
  wk_obs :: 'o
  wk_scanned :: nat
  wk_since :: nat

text \<open>
  The loop over the offsets of one window: \<open>Some outcome\<close> is an early return, \<open>None\<close> the
  end of the window.
\<close>

fun scan_offsets ::
  "'o observer \<Rightarrow> nat \<Rightarrow> nat \<Rightarrow> scan_compare_type \<Rightarrow> needle option \<Rightarrow> nat \<Rightarrow> usize \<Rightarrow> bytes \<Rightarrow>
   nat list \<Rightarrow> 'o walk \<Rightarrow> walk_outcome option \<times> 'o walk" where
  "scan_offsets tick tot limit compare needle sz addr buf [] w = (None, w)"
| "scan_offsets tick tot limit compare needle sz addr buf (off # offs) w =
     (let w = w\<lparr>wk_scanned := wk_scanned w + 1, wk_since := wk_since w + 1\<rparr>;
          (go, w) = (if wk_since w \<ge> PROGRESS_INTERVAL then
                       let (go, obs) = tick (wk_obs w)
                             \<lparr>pr_done = wk_scanned w, pr_total = tot, pr_matches = ScanResults_len (wk_out w)\<rparr>
                       in (go, w\<lparr>wk_since := 0, wk_obs := obs\<rparr>)
                     else (True, w))
      in if \<not> go then (Some Cancelled, w)
         else if first_match needle buf off compare then
           let value = slice buf off sz;
               w = w\<lparr>wk_out := ScanResults_push (wk_out w) (addr + off) value value\<rparr>
           in if ScanResults_len (wk_out w) \<ge> limit then (Some Completed, w)
              else scan_offsets tick tot limit compare needle sz addr buf offs w
         else scan_offsets tick tot limit compare needle sz addr buf offs w)"

text \<open>\<open>(0..=last).step_by(align)\<close>.\<close>

definition step_by :: "nat \<Rightarrow> nat \<Rightarrow> nat list" where
  "step_by last_off align = map (\<lambda>k. k * align) [0..<last_off div align + 1]"

text \<open>The address of the next window; \<open>None\<close> when the rounding or the sum overflows.\<close>

definition next_window :: "usize \<Rightarrow> nat \<Rightarrow> nat \<Rightarrow> nat \<Rightarrow> usize option" where
  "next_window addr read sz align =
     (let step = max (read - (sz - 1)) 1
      in case checked_add addr step of
           None \<Rightarrow> None
         | Some a \<Rightarrow>
             (case (checked_next_multiple_of a align, checked_add addr align) of
                (Some x, Some y) \<Rightarrow> Some (max x y)
              | _ \<Rightarrow> None))"

text \<open>The parameters of a pass that stay fixed while it walks.\<close>

record 'o pass =
  ps_tick :: "'o observer"
  ps_total :: nat
  ps_limit :: nat
  ps_compare :: scan_compare_type
  ps_needle :: "needle option"
  ps_stride :: nat
  ps_align :: nat
  ps_buf_len :: nat
  ps_read :: "usize \<Rightarrow> nat \<Rightarrow> core_error + bytes"

abbreviation pass_offsets :: "'o pass \<Rightarrow> usize \<Rightarrow> bytes \<Rightarrow> nat list \<Rightarrow> 'o walk \<Rightarrow> walk_outcome option \<times> 'o walk" where
  "pass_offsets ps \<equiv> scan_offsets (ps_tick ps) (ps_total ps) (ps_limit ps) (ps_compare ps) (ps_needle ps) (ps_stride ps)"

text \<open>
  The walk over the windows of a region from \<open>addr\<close> on. The test of \<open>addr < addr'\<close> never fails with the
  alignments of the scanner, which are at least one; at alignment zero the rounding panics.
\<close>

function walk_region ::
  "'o pass \<Rightarrow> usize \<Rightarrow> usize \<Rightarrow> 'o walk \<Rightarrow> ((scan_error + walk_outcome) \<times> 'o walk) option" where
  "walk_region ps region_end addr w =
     (if addr < region_end then
        let remaining = region_end - addr; want = min (ps_buf_len ps) remaining
        in case ps_read ps addr want of
             Inl e \<Rightarrow> Some (Inl (TargetError e), w)
           | Inr buf \<Rightarrow>
               if length buf < ps_stride ps then Some (Inr Completed, w)
               else
                 let last_off = length buf - ps_stride ps
                 in (case pass_offsets ps addr buf (step_by last_off (ps_align ps)) w of
                       (Some outcome, w) \<Rightarrow> Some (Inr outcome, w)
                     | (None, w) \<Rightarrow>
                         (case next_window addr (length buf) (ps_stride ps) (ps_align ps) of
                            None \<Rightarrow> None
                          | Some addr' \<Rightarrow> if addr < addr' then walk_region ps region_end addr' w else None))
      else Some (Inr Completed, w))"
  by pat_completeness auto
termination by (relation "measure (\<lambda>(_, e, a, _). e - a)") auto

declare walk_region.simps [simp del]

definition scan_region_first ::
  "'o pass \<Rightarrow> region \<Rightarrow> 'o walk \<Rightarrow> ((scan_error + walk_outcome) \<times> 'o walk) option" where
  "scan_region_first ps r w =
     (case checked_next_multiple_of (rg_base r) (ps_align ps) of
        None \<Rightarrow> None
      | Some addr \<Rightarrow> walk_region ps (Region_end r) addr (w\<lparr>wk_since := 0\<rparr>))"

section \<open>First scan\<close>

text \<open>The loop over the regions; the flag says that the result limit was reached.\<close>

fun walk_regions ::
  "'o pass \<Rightarrow> region list \<Rightarrow> 'o walk \<Rightarrow> ((scan_error + bool) \<times> 'o walk) option" where
  "walk_regions ps [] w = Some (Inr False, w)"
| "walk_regions ps (r # rs) w =
     (case scan_region_first ps r w of
        None \<Rightarrow> None
      | Some (Inl e, w) \<Rightarrow> Some (Inl e, w)
      | Some (Inr Cancelled, w) \<Rightarrow> Some (Inl ScanCancelled, w)
      | Some (Inr Completed, w) \<Rightarrow>
          if ScanResults_len (wk_out w) \<ge> ps_limit ps then Some (Inr True, w)
          else walk_regions ps rs w)"

definition first_pass :: "scanner \<Rightarrow> scan_compare_type \<Rightarrow> needle option \<Rightarrow> 'o observer \<Rightarrow> nat \<Rightarrow> 'o pass" where
  "first_pass s compare needle tick tot =
     \<lparr>ps_tick = tick, ps_total = tot, ps_limit = sn_result_limit s,
      ps_compare = compare, ps_needle = needle, ps_stride = Scanner_stride s needle,
      ps_align = Scanner_alignment s, ps_buf_len = max CHUNK_SIZE (Scanner_stride s needle),
      ps_read = tg_read (sn_target s)\<rparr>"

definition first_walk :: "nat \<Rightarrow> 'o \<Rightarrow> 'o walk" where
  "first_walk sz obs =
     \<lparr>wk_out = ScanResults_with_stride sz, wk_obs = obs, wk_scanned = 0, wk_since = 0\<rparr>"

text \<open>The pass itself, once the regions to walk are known.\<close>

definition first_scan_run ::
  "scanner \<Rightarrow> scan_compare_type \<Rightarrow> needle option \<Rightarrow> 'o observer \<Rightarrow> 'o \<Rightarrow> region list \<Rightarrow>
   (scanner \<times> 'o \<times> (scan_error + scan_results)) option" where
  "first_scan_run s compare needle tick obs regions =
     (let s = s\<lparr>sn_scanned_regions := length regions, sn_truncated := False\<rparr>;
          tot = sum_list (map (\<lambda>r. rg_size r div Scanner_alignment s) regions)
      in if tot > USIZE_MAX then None
         else case walk_regions (first_pass s compare needle tick tot) regions
                     (first_walk (Scanner_stride s needle) obs) of
           None \<Rightarrow> None
         | Some (Inl e, w) \<Rightarrow> Some (s, wk_obs w, Inl e)
         | Some (Inr trunc, w) \<Rightarrow>
             let s = s\<lparr>sn_truncated := trunc,
                       sn_last_stats := \<lparr>st_scanned = wk_scanned w,
                                         st_matched = ScanResults_len (wk_out w),
                                         st_unreadable = 0\<rparr>\<rparr>;
                 s = (push_generation s (wk_out w))\<lparr>sn_has_scanned := True\<rparr>
             in Some (s, wk_obs w, Inr (Scanner_results s)))"

definition first_scan_with ::
  "scanner \<Rightarrow> scan_compare_type \<Rightarrow> needle option \<Rightarrow> 'o observer \<Rightarrow> 'o \<Rightarrow>
   (scanner \<times> 'o \<times> (scan_error + scan_results)) option" where
  "first_scan_with s compare needle tick obs =
     (if needs_previous compare then Some (s, obs, Inl (CompareNeedsPrevious compare))
      else case validate_needle s compare needle of
        Some e \<Rightarrow> Some (s, obs, Inl e)
      | None \<Rightarrow>
          if Scanner_stride s needle = 0 then Some (s, obs, Inl (NoStride (sn_value_type s)))
          else case tg_regions (sn_target s) of
            Inl e \<Rightarrow> Some (s, obs, Inl (TargetError e))
          | Inr rs \<Rightarrow> first_scan_run s compare needle tick obs (RegionFilter_apply (sn_region_filter s) rs))"

definition first_scan ::
  "scanner \<Rightarrow> scan_compare_type \<Rightarrow> needle option \<Rightarrow> (scanner \<times> (scan_error + scan_results)) option" where
  "first_scan s compare needle =
     map_option (\<lambda>(s, _, r). (s, r)) (first_scan_with s compare needle NoObserver ())"

section \<open>Next scan\<close>

record 'o next_state =
  nx_results :: scan_results
  nx_obs :: 'o
  nx_unreadable :: nat
  nx_last_err :: "core_error option"

definition next_match :: "scan_value_type \<Rightarrow> needle option \<Rightarrow> bytes \<Rightarrow> scan_compare_type \<Rightarrow> bytes \<Rightarrow> bool" where
  "next_match ty needle buf compare previous =
     (case needle of
        Some n \<Rightarrow> compare_next n buf 0 compare previous
      | None \<Rightarrow> compare_change ty compare buf previous)"

text \<open>
  The loop over the previous results, \<open>i\<close> the index of the first; the flag of the result says that
  the observer stopped it. The buffer has \<open>stride\<close> bytes and is fully overwritten by the read that
  passes the length test.
\<close>

fun renarrow ::
  "'o observer \<Rightarrow> (usize \<Rightarrow> nat \<Rightarrow> core_error + bytes) \<Rightarrow> scan_value_type \<Rightarrow> scan_compare_type \<Rightarrow>
   needle option \<Rightarrow> nat \<Rightarrow> nat \<Rightarrow> nat \<Rightarrow> scan_result list \<Rightarrow> 'o next_state \<Rightarrow> bool \<times> 'o next_state" where
  "renarrow tick rd ty compare needle sz tot i [] n = (False, n)"
| "renarrow tick rd ty compare needle sz tot i (prev # rest) n =
     (let (go, n) = (if PROGRESS_INTERVAL dvd i then
                       let (go, obs) = tick (nx_obs n)
                             \<lparr>pr_done = i, pr_total = tot, pr_matches = ScanResults_len (nx_results n)\<rparr>
                       in (go, n\<lparr>nx_obs := obs\<rparr>)
                     else (True, n))
      in if \<not> go then (True, n)
         else case rd (res_address prev) sz of
           Inl e \<Rightarrow> renarrow tick rd ty compare needle sz tot (i + 1) rest
                      (n\<lparr>nx_unreadable := nx_unreadable n + 1, nx_last_err := Some e\<rparr>)
         | Inr buf \<Rightarrow>
             if length buf < sz then
               renarrow tick rd ty compare needle sz tot (i + 1) rest
                 (n\<lparr>nx_unreadable := nx_unreadable n + 1\<rparr>)
             else if next_match ty needle buf compare (res_current prev) then
               renarrow tick rd ty compare needle sz tot (i + 1) rest
                 (n\<lparr>nx_results := ScanResults_push (nx_results n) (res_address prev)
                                    (take sz buf) (res_current prev)\<rparr>)
             else renarrow tick rd ty compare needle sz tot (i + 1) rest n)"

definition next_scan_with ::
  "scanner \<Rightarrow> scan_compare_type \<Rightarrow> needle option \<Rightarrow> 'o observer \<Rightarrow> 'o \<Rightarrow>
   scanner \<times> 'o \<times> (scan_error + scan_results)" where
  "next_scan_with s compare needle tick obs =
     (if \<not> sn_has_scanned s then (s, obs, Inl NeedsFirstScan)
      else if is_baseline compare then (s, obs, Inl (CompareIsFirstScanOnly compare))
      else case validate_needle s compare needle of
        Some e \<Rightarrow> (s, obs, Inl e)
      | None \<Rightarrow>
          let stride = Scanner_stride s needle
          in if stride = 0 then (s, obs, Inl (NoStride (sn_value_type s)))
             else
               let previous = Scanner_results s;
                   n0 = \<lparr>nx_results = ScanResults_with_stride stride, nx_obs = obs,
                         nx_unreadable = 0, nx_last_err = None\<rparr>;
                   (stopped, n) = renarrow tick (tg_read (sn_target s)) (sn_value_type s) compare needle
                       stride (ScanResults_len previous) 0 (ScanResults_iter previous) n0
               in if stopped then (s, nx_obs n, Inl ScanCancelled)
                  else if nx_unreadable n = ScanResults_len previous \<and> \<not> ScanResults_is_empty previous then
                    (s, nx_obs n, Inl (TargetUnreadable
                       (case nx_last_err n of Some e \<Rightarrow> e | None \<Rightarrow> ProcessNotFound)))
                  else
                    let s = push_generation
                          (s\<lparr>sn_last_stats := \<lparr>st_scanned = ScanResults_len previous,
                                               st_matched = ScanResults_len (nx_results n),
                                               st_unreadable = nx_unreadable n\<rparr>\<rparr>) (nx_results n)
                    in (s, nx_obs n, Inr (Scanner_results s)))"

definition next_scan ::
  "scanner \<Rightarrow> scan_compare_type \<Rightarrow> needle option \<Rightarrow> scanner \<times> (scan_error + scan_results)" where
  "next_scan s compare needle =
     (let (s, _, r) = next_scan_with s compare needle NoObserver () in (s, r))"

section \<open>One window\<close>

lemma get_range_slice_0: "off + n \<le> length data \<Longrightarrow> get_range (slice data off n) 0 n = get_range data off (off + n)"
  by (simp add: get_range_def slice_def)

lemma read_int_local:
  "off + n \<le> length data \<Longrightarrow> read_int (slice data off n) 0 n sg = read_int data off n sg"
  by (simp add: read_int_def get_range_slice_0)

lemma read_float_local:
  "off + n \<le> length data \<Longrightarrow> read_float (slice data off n) 0 n = read_float data off n"
  by (simp add: read_float_def get_range_slice_0)

lemma matches_at_local:
  "off + n \<le> length data \<Longrightarrow> length p = n \<Longrightarrow>
   BytePattern_matches_at p (slice data off n) 0 = BytePattern_matches_at p data off"
  by (auto simp: BytePattern_matches_at_def get_range_slice_0)

text \<open>A candidate is judged by the bytes of its own span only.\<close>

lemma first_match_local:
  assumes "off + sz \<le> length data" "\<And>n. needle = Some n \<Longrightarrow> stride n = sz"
  shows "first_match needle data off compare = first_match needle (slice data off sz) 0 compare"
proof (cases needle)
  case (Some n)
  have "stride n = sz" using assms(2) Some by blast
  with assms(1) show ?thesis unfolding Some
    by (cases "nd_value n")
      (simp_all add: first_match_def compare_first_def Needle_compare_def stride_def read_int_local
        read_float_local matches_at_local get_range_slice_0 split: scan_compare_type.split)
qed (simp add: first_match_def)

definition match_row :: "usize \<Rightarrow> bytes \<Rightarrow> scan_result" where
  "match_row a v = \<lparr>res_address = a, res_current = v, res_previous = v\<rparr>"

lemma iter_push_match:
  assumes "wf_results out" "sr_stride out = sz" "length v = sz"
  shows "ScanResults_iter (ScanResults_push out a v v) = ScanResults_iter out @ [match_row a v]"
  using iter_push[OF assms(1), of a v v] assms(2,3) by (simp add: match_row_def)

text \<open>
  The state after one candidate, before its comparison: the counters, and the observer's answer when a tick
  is due.
\<close>

definition tick_step :: "'o observer \<Rightarrow> nat \<Rightarrow> 'o walk \<Rightarrow> bool \<times> 'o walk" where
  "tick_step tick tot w =
     (let w = w\<lparr>wk_scanned := wk_scanned w + 1, wk_since := wk_since w + 1\<rparr>
      in if wk_since w \<ge> PROGRESS_INTERVAL then
           let (go, obs) = tick (wk_obs w)
                 \<lparr>pr_done = wk_scanned w, pr_total = tot, pr_matches = ScanResults_len (wk_out w)\<rparr>
           in (go, w\<lparr>wk_since := 0, wk_obs := obs\<rparr>)
         else (True, w))"

lemma tick_step_out [simp]: "wk_out (snd (tick_step tick tot w)) = wk_out w"
  by (simp add: tick_step_def Let_def split: prod.split)

lemma scan_offsets_step:
  "scan_offsets tick tot limit compare needle sz addr buf (off # offs) w =
     (let (go, w) = tick_step tick tot w
      in if \<not> go then (Some Cancelled, w)
         else if first_match needle buf off compare then
           let value = slice buf off sz;
               w = w\<lparr>wk_out := ScanResults_push (wk_out w) (addr + off) value value\<rparr>
           in if ScanResults_len (wk_out w) \<ge> limit then (Some Completed, w)
              else scan_offsets tick tot limit compare needle sz addr buf offs w
         else scan_offsets tick tot limit compare needle sz addr buf offs w)"
  by (simp add: tick_step_def Let_def)

declare scan_offsets.simps(2) [simp del]

text \<open>
  What a window adds when the observer lets it run: its matches in order, up to the limit, which is tested
  after a push; and it returns early exactly when a match reached the limit.
\<close>

lemma scan_offsets_rows:
  assumes "scan_offsets tick tot limit compare needle sz addr buf offs w = (res, w')"
    "res \<noteq> Some Cancelled" "wf_results (wk_out w)" "sr_stride (wk_out w) = sz"
    "\<forall>off\<in>set offs. off + sz \<le> length buf" "ScanResults_len (wk_out w) < limit"
  shows "wf_results (wk_out w') \<and> sr_stride (wk_out w') = sz
    \<and> ScanResults_iter (wk_out w') = ScanResults_iter (wk_out w)
        @ take (limit - ScanResults_len (wk_out w))
            (map (\<lambda>off. match_row (addr + off) (slice buf off sz)) (filter (\<lambda>off. first_match needle buf off compare) offs))
    \<and> (res = (if ScanResults_len (wk_out w') < limit then None else Some Completed))"
  using assms
proof (induction offs arbitrary: w)
  case (Cons off offs)
  obtain go w1 where t: "tick_step tick tot w = (go, w1)" by fastforce
  have out1: "wk_out w1 = wk_out w" using tick_step_out[of tick tot w] t by simp
  have go: go using Cons.prems(1,2) t by (cases go) (auto simp: scan_offsets_step)
  show ?case
  proof (cases "first_match needle buf off compare")
    case False
    then have "scan_offsets tick tot limit compare needle sz addr buf offs w1 = (res, w')"
      using Cons.prems(1) t go by (simp add: scan_offsets_step)
    from Cons.IH[OF this] Cons.prems out1 False show ?thesis by simp
  next
    case True
    define v where "v = slice buf off sz"
    define w2 where "w2 = w1\<lparr>wk_out := ScanResults_push (wk_out w1) (addr + off) v v\<rparr>"
    have len: "length v = sz" using Cons.prems(5) by (simp add: v_def length_slice)
    have it: "ScanResults_iter (wk_out w2) = ScanResults_iter (wk_out w) @ [match_row (addr + off) v]"
      using iter_push_match[OF Cons.prems(3,4) len] out1 by (simp add: w2_def)
    have w2: "wf_results (wk_out w2)" "sr_stride (wk_out w2) = sz"
      "ScanResults_len (wk_out w2) = Suc (ScanResults_len (wk_out w))"
      using Cons.prems(3,4) out1 by (simp_all add: w2_def)
    show ?thesis
    proof (cases "limit \<le> ScanResults_len (wk_out w2)")
      case lim: True
      then have "limit - ScanResults_len (wk_out w) = 1" using Cons.prems(6) w2(3) by simp
      moreover have "res = Some Completed" "w' = w2"
        using Cons.prems(1) t go True lim by (auto simp: scan_offsets_step Let_def v_def w2_def)
      ultimately show ?thesis using True w2 it lim by (simp add: v_def)
    next
      case lim: False
      then have "scan_offsets tick tot limit compare needle sz addr buf offs w2 = (res, w')"
        using Cons.prems(1) t go True by (simp add: scan_offsets_step Let_def v_def w2_def)
      from Cons.IH[OF this Cons.prems(2) w2(1,2)] Cons.prems(5) lim w2(3)
      have *: "wf_results (wk_out w') \<and> sr_stride (wk_out w') = sz
        \<and> ScanResults_iter (wk_out w') = ScanResults_iter (wk_out w2)
            @ take (limit - ScanResults_len (wk_out w2))
                (map (\<lambda>off. match_row (addr + off) (slice buf off sz)) (filter (\<lambda>off. first_match needle buf off compare) offs))
        \<and> (res = (if ScanResults_len (wk_out w') < limit then None else Some Completed))"
        by simp
      have "limit - ScanResults_len (wk_out w) = Suc (limit - ScanResults_len (wk_out w2))"
        using lim w2(3) by simp
      with * it True show ?thesis by (simp add: v_def)
    qed
  qed
qed auto

section \<open>One region\<close>

text \<open>
  The specification of a first scan on a memory: the candidates of an address range are the aligned
  addresses whose whole span lies in it, and a candidate is reported when its bytes match.
\<close>

definition candidates :: "nat \<Rightarrow> nat \<Rightarrow> usize \<Rightarrow> usize \<Rightarrow> usize list" where
  "candidates align sz lo hi = filter (\<lambda>a. align dvd a \<and> a + sz \<le> hi) [lo..<hi]"

definition span :: "(usize \<Rightarrow> u8) \<Rightarrow> nat \<Rightarrow> usize \<Rightarrow> bytes" where
  "span mem sz a = map mem [a..<a + sz]"

definition range_rows ::
  "(usize \<Rightarrow> u8) \<Rightarrow> scan_compare_type \<Rightarrow> needle option \<Rightarrow> nat \<Rightarrow> nat \<Rightarrow> usize \<Rightarrow> usize \<Rightarrow> scan_result list" where
  "range_rows mem compare needle align sz lo hi =
     map (\<lambda>a. match_row a (span mem sz a))
       (filter (\<lambda>a. first_match needle (span mem sz a) 0 compare) (candidates align sz lo hi))"

definition region_rows ::
  "(usize \<Rightarrow> u8) \<Rightarrow> scan_compare_type \<Rightarrow> needle option \<Rightarrow> nat \<Rightarrow> nat \<Rightarrow> region \<Rightarrow> scan_result list" where
  "region_rows mem compare needle align sz r = range_rows mem compare needle align sz (rg_base r) (Region_end r)"

lemma set_step_by: "off \<in> set (step_by last_off align) \<longleftrightarrow> (\<exists>k\<le>last_off div align. off = k * align)"
  by (auto simp: step_by_def image_iff less_Suc_eq_le Bex_def simp del: upt_Suc)

lemma no_multiple_before:
  assumes "0 < align" "x \<le> next_multiple_of lo align"
  shows "filter (\<lambda>a. align dvd a \<and> P a) [lo..<x] = []"
proof -
  have "\<not> align dvd a" if "lo \<le> a" "a < x" for a
    using next_multiple_of_least[OF assms(1) _ that(1)] that(2) assms(2) by (meson leD less_le_trans)
  then show ?thesis by (simp add: filter_empty_conv)
qed

lemma step_by_addresses:
  assumes "0 < align" "align dvd addr"
  shows "map (\<lambda>off. addr + off) (step_by last_off align) = filter (\<lambda>a. align dvd a) [addr..<addr + last_off + 1]"
proof (rule sorted_distinct_set_unique)
  have le: "k * align \<le> last_off \<longleftrightarrow> k \<le> last_off div align" for k
    using assms(1) by (simp add: less_eq_div_iff_mult_less_eq)
  show "set (map (\<lambda>off. addr + off) (step_by last_off align)) = set (filter (\<lambda>a. align dvd a) [addr..<addr + last_off + 1])"
  proof (intro set_eqI iffI)
    fix x assume "x \<in> set (map (\<lambda>off. addr + off) (step_by last_off align))"
    then obtain k where "k \<le> last_off div align" "x = addr + k * align" by (auto simp: set_step_by)
    then show "x \<in> set (filter (\<lambda>a. align dvd a) [addr..<addr + last_off + 1])"
      using le[of k] assms(2) by (simp del: upt_Suc)
  next
    fix x assume x: "x \<in> set (filter (\<lambda>a. align dvd a) [addr..<addr + last_off + 1])"
    then have "align dvd (x - addr)" "addr \<le> x" "x - addr \<le> last_off"
      using assms(2) by (auto simp: dvd_diff_nat simp del: upt_Suc)
    then obtain k where "x - addr = k * align" by (metis dvd_div_mult_self)
    then have "x = addr + k * align" "k \<le> last_off div align" using \<open>addr \<le> x\<close> \<open>x - addr \<le> last_off\<close> le by auto
    then show "x \<in> set (map (\<lambda>off. addr + off) (step_by last_off align))"
      by (auto simp: set_step_by image_iff)
  qed
  show "sorted (map (\<lambda>off. addr + off) (step_by last_off align))"
    using assms(1) by (auto simp: step_by_def sorted_iff_nth_mono nth_append)
  show "distinct (map (\<lambda>off. addr + off) (step_by last_off align))"
    using assms(1) by (auto simp: step_by_def distinct_map inj_on_def)
qed (simp_all add: sorted_wrt_filter del: upt_Suc)

lemma step_by_bound: "off \<in> set (step_by last_off align) \<Longrightarrow> off \<le> last_off"
  unfolding set_step_by by (metis div_times_less_eq_dividend mult_le_mono1 order_trans)

text \<open>The window at \<open>addr\<close> and the windows from the next one on split the candidates.\<close>

lemma candidates_split:
  assumes "0 < align" "0 < sz" "align dvd addr" "sz \<le> read" "addr + read \<le> hi"
  shows "candidates align sz addr hi =
     map (\<lambda>off. addr + off) (step_by (read - sz) align)
     @ candidates align sz (next_multiple_of (addr + (read - (sz - 1))) align) hi"
proof -
  let ?b = "addr + (read - (sz - 1))" and ?n = "next_multiple_of (addr + (read - (sz - 1))) align"
  have b: "addr + (read - sz) + 1 = ?b" "addr \<le> ?b" "?b \<le> hi" "?b \<le> ?n"
    using assms next_multiple_of_ge by auto
  have none: "filter (\<lambda>a. align dvd a \<and> a + sz \<le> hi) [?b..<x] = []" if "x \<le> ?n" for x
    using that by (rule no_multiple_before[OF assms(1)])
  have "candidates align sz addr hi =
      filter (\<lambda>a. align dvd a \<and> a + sz \<le> hi) [addr..<?b] @ filter (\<lambda>a. align dvd a \<and> a + sz \<le> hi) [?b..<hi]"
    using upt_split[OF b(2,3)] by (simp add: candidates_def)
  also have "filter (\<lambda>a. align dvd a \<and> a + sz \<le> hi) [addr..<?b] = filter (\<lambda>a. align dvd a) [addr..<?b]"
    using assms by (intro filter_cong) auto
  also have "\<dots> = map (\<lambda>off. addr + off) (step_by (read - sz) align)"
    using step_by_addresses[OF assms(1,3), of "read - sz"] unfolding b(1) by (rule sym)
  also have "filter (\<lambda>a. align dvd a \<and> a + sz \<le> hi) [?b..<hi] = candidates align sz ?n hi"
  proof (cases "?n \<le> hi")
    case True
    then have "[?b..<hi] = [?b..<?n] @ [?n..<hi]" using b(4) by (rule upt_split[rotated])
    then show ?thesis using none[of ?n] by (simp add: candidates_def)
  next
    case False
    then show ?thesis using none[of hi] by (simp add: candidates_def)
  qed
  finally show ?thesis .
qed

lemma candidates_none:
  assumes "0 < sz" "hi - addr < sz"
  shows "candidates align sz addr hi = []"
  using assms by (auto simp: candidates_def filter_empty_conv)

lemma candidates_from_base:
  assumes "0 < align"
  shows "candidates align sz lo hi = candidates align sz (next_multiple_of lo align) hi"
proof -
  let ?n = "next_multiple_of lo align"
  have none: "filter (\<lambda>a. align dvd a \<and> a + sz \<le> hi) [lo..<x] = []" if "x \<le> ?n" for x
    using that by (rule no_multiple_before[OF assms])
  show ?thesis
  proof (cases "?n \<le> hi")
    case True
    then have "[lo..<hi] = [lo..<?n] @ [?n..<hi]" by (intro upt_split next_multiple_of_ge)
    then show ?thesis using none[of ?n] by (simp add: candidates_def)
  next
    case False
    then show ?thesis using none[of hi] by (simp add: candidates_def)
  qed
qed

lemma next_window_eq:
  assumes "0 < align" "0 < sz" "align dvd addr" "sz \<le> read" "addr + read + align \<le> USIZE_MAX"
  shows "next_window addr read sz align = Some (next_multiple_of (addr + (read - (sz - 1))) align)"
    and "addr < next_multiple_of (addr + (read - (sz - 1))) align"
proof -
  let ?b = "addr + (read - (sz - 1))"
  let ?n = "next_multiple_of ?b align"
  have b: "addr < ?b" "?b \<le> addr + read" using assms(2,4) by auto
  show lt: "addr < ?n" using b(1) next_multiple_of_ge[of ?b align] by linarith
  obtain i j where ij: "addr = align * i" "?n = align * j"
    using assms(3) next_multiple_of_dvd[OF assms(1), of ?b] by (auto elim!: dvdE)
  with lt have "i < j" by simp
  then have "align * Suc i \<le> align * j" by (intro mult_le_mono2) simp
  then have "addr + align \<le> ?n" using ij by simp
  moreover have "?n \<le> USIZE_MAX" using next_multiple_of_less[OF assms(1), of ?b] b(2) assms(5) by linarith
  moreover have "max (read - (sz - 1)) 1 = read - (sz - 1)" using assms(2,4) by auto
  moreover have "?b \<le> USIZE_MAX" using b(2) assms(5) by linarith
  ultimately show "next_window addr read sz align = Some ?n"
    using assms(5) by (simp add: next_window_def checked_add_def checked_next_multiple_of_def Let_def max_def)
qed

lemma range_rows_split:
  assumes "candidates align sz lo hi = xs @ candidates align sz lo' hi"
  shows "range_rows mem compare needle align sz lo hi =
     map (\<lambda>a. match_row a (span mem sz a)) (filter (\<lambda>a. first_match needle (span mem sz a) 0 compare) xs)
     @ range_rows mem compare needle align sz lo' hi"
  by (simp add: range_rows_def assms)

text \<open>Appending up to a limit in two steps.\<close>

lemma take_limit_more:
  assumes "ys = xs @ take (l - n) as" "length xs = n" "length ys = m" "m < l"
  shows "ys @ take (l - m) bs = xs @ take (l - n) (as @ bs)"
proof -
  have "length as < l - n" using assms by auto
  then show ?thesis using assms by auto
qed

lemma take_limit_full:
  assumes "ys = xs @ take (l - n) as" "length xs = n" "length ys = m" "\<not> m < l" "n < l"
  shows "ys = xs @ take (l - n) (as @ bs)"
proof -
  have "l - n \<le> length as" using assms by auto
  then show ?thesis using assms(1) by simp
qed

context full_target
begin

lemma window_rows:
  assumes "read addr n = Inr buf" "\<forall>off\<in>set offs. off + sz \<le> length buf" "\<And>n. needle = Some n \<Longrightarrow> stride n = sz"
  shows "map (\<lambda>off. match_row (addr + off) (slice buf off sz)) (filter (\<lambda>off. first_match needle buf off compare) offs)
    = map (\<lambda>a. match_row a (span mem sz a))
        (filter (\<lambda>a. first_match needle (span mem sz a) 0 compare) (map (\<lambda>off. addr + off) offs))"
proof -
  have sl: "slice buf off sz = span mem sz (addr + off)" if "off \<in> set offs" for off
    using read_slice[OF assms(1), of off sz] assms(2) that by (simp add: span_def)
  have "first_match needle buf off compare = first_match needle (span mem sz (addr + off)) 0 compare" if "off \<in> set offs" for off
    using first_match_local[of off sz buf needle compare] assms(2,3) that sl by simp
  then show ?thesis using sl by (induction offs) auto
qed

lemma walk_region_window:
  assumes "ps_read ps = read" "0 < ps_align ps" "0 < ps_stride ps" "ps_stride ps \<le> ps_buf_len ps"
    "\<And>n. ps_needle ps = Some n \<Longrightarrow> stride n = ps_stride ps"
    and "ps_align ps dvd addr" "hi + ps_align ps \<le> USIZE_MAX" "\<And>x. addr \<le> x \<Longrightarrow> x < hi \<Longrightarrow> mapped x"
    "ps_stride ps \<le> hi - addr"
  shows "\<exists>buf offs addr'. addr < addr' \<and> ps_align ps dvd addr' \<and> (\<forall>off\<in>set offs. off + ps_stride ps \<le> length buf)
     \<and> walk_region ps hi addr w =
         (case pass_offsets ps addr buf offs w of
            (Some outcome, w1) \<Rightarrow> Some (Inr outcome, w1) | (None, w1) \<Rightarrow> walk_region ps hi addr' w1)
     \<and> range_rows mem (ps_compare ps) (ps_needle ps) (ps_align ps) (ps_stride ps) addr hi =
         map (\<lambda>off. match_row (addr + off) (slice buf off (ps_stride ps)))
           (filter (\<lambda>off. first_match (ps_needle ps) buf off (ps_compare ps)) offs)
         @ range_rows mem (ps_compare ps) (ps_needle ps) (ps_align ps) (ps_stride ps) addr' hi"
proof -
  let ?sz = "ps_stride ps" and ?al = "ps_align ps"
  define want where "want = min (ps_buf_len ps) (hi - addr)"
  define offs where "offs = step_by (want - ?sz) ?al"
  have want: "0 < want" "addr + want \<le> hi" "?sz \<le> want" "addr < hi"
    using assms(3,4,9) by (auto simp: want_def)
  obtain buf where rd: "read addr want = Inr buf" "length buf = want"
    using read_full[OF want(1), of addr] assms(8) want(2) by (meson less_le_trans)
  have bounds: "\<forall>off\<in>set offs. off + ?sz \<le> length buf"
    using step_by_bound want(3) rd(2) by (fastforce simp: offs_def)
  let ?addr' = "next_multiple_of (addr + (want - (?sz - 1))) ?al"
  have nw: "next_window addr want ?sz ?al = Some ?addr'" "addr < ?addr'"
    using next_window_eq[OF assms(2,3,6) want(3)] want(2) assms(7) by auto
  have "walk_region ps hi addr w = (case pass_offsets ps addr buf offs w of
      (Some outcome, w1) \<Rightarrow> Some (Inr outcome, w1) | (None, w1) \<Rightarrow> walk_region ps hi ?addr' w1)"
    using want rd nw assms(1)
    by (auto simp: walk_region.simps[of ps hi addr w] want_def offs_def split: option.split prod.split)
  moreover have "range_rows mem (ps_compare ps) (ps_needle ps) ?al ?sz addr hi =
      map (\<lambda>off. match_row (addr + off) (slice buf off ?sz))
        (filter (\<lambda>off. first_match (ps_needle ps) buf off (ps_compare ps)) offs)
      @ range_rows mem (ps_compare ps) (ps_needle ps) ?al ?sz ?addr' hi"
    using range_rows_split[OF candidates_split[OF assms(2,3,6) want(3,2)], of mem "ps_compare ps" "ps_needle ps"]
      window_rows[OF rd(1) bounds assms(5)] by (simp add: offs_def)
  ultimately show ?thesis using nw(2) bounds next_multiple_of_dvd[OF assms(2)] by blast
qed

lemma walk_region_end:
  assumes "ps_read ps = read" "0 < ps_stride ps" "ps_stride ps \<le> ps_buf_len ps"
    "\<And>x. addr \<le> x \<Longrightarrow> x < hi \<Longrightarrow> mapped x" "hi - addr < ps_stride ps"
  shows "walk_region ps hi addr w = Some (Inr Completed, w)
     \<and> range_rows mem (ps_compare ps) (ps_needle ps) (ps_align ps) (ps_stride ps) addr hi = []"
proof -
  have "walk_region ps hi addr w = Some (Inr Completed, w)"
  proof (cases "addr < hi")
    case True
    then have m: "min (ps_buf_len ps) (hi - addr) = hi - addr" using assms(3,5) by simp
    obtain buf where "read addr (hi - addr) = Inr buf" "length buf = hi - addr"
      using read_full[of "hi - addr" addr] assms(4) True by auto
    with True m assms(1,5) show ?thesis by (simp add: walk_region.simps[of ps hi addr w])
  qed (simp add: walk_region.simps[of ps hi addr w])
  then show ?thesis using candidates_none[OF assms(2,5)] by (simp add: range_rows_def)
qed

lemma walk_region_rows:
  assumes "ps_read ps = read" "0 < ps_align ps" "0 < ps_stride ps" "ps_stride ps \<le> ps_buf_len ps"
    "\<And>n. ps_needle ps = Some n \<Longrightarrow> stride n = ps_stride ps"
    and "ps_align ps dvd addr" "hi + ps_align ps \<le> USIZE_MAX" "\<And>x. addr \<le> x \<Longrightarrow> x < hi \<Longrightarrow> mapped x"
    "wf_results (wk_out w)" "sr_stride (wk_out w) = ps_stride ps" "ScanResults_len (wk_out w) < ps_limit ps"
  shows "\<exists>res w'. walk_region ps hi addr w = Some (Inr res, w')
     \<and> (res = Completed \<longrightarrow> wf_results (wk_out w') \<and> sr_stride (wk_out w') = ps_stride ps
         \<and> ScanResults_iter (wk_out w') = ScanResults_iter (wk_out w) @ take (ps_limit ps - ScanResults_len (wk_out w))
             (range_rows mem (ps_compare ps) (ps_needle ps) (ps_align ps) (ps_stride ps) addr hi))"
  using assms(6-)
proof (induction "hi - addr" arbitrary: addr w rule: less_induct)
  case less
  let ?rows = "\<lambda>lo. range_rows mem (ps_compare ps) (ps_needle ps) (ps_align ps) (ps_stride ps) lo hi"
  show ?case
  proof (cases "ps_stride ps \<le> hi - addr")
    case False
    then show ?thesis using walk_region_end[OF assms(1,3,4) less.prems(3)] less.prems(4,5) by simp
  next
    case True
    from walk_region_window[OF assms(1-5) less.prems(1-3) True, of w] obtain buf offs addr' where
      lt: "addr < addr'" and dvd: "ps_align ps dvd addr'" and
      bounds: "\<forall>off\<in>set offs. off + ps_stride ps \<le> length buf" and
      unfold: "walk_region ps hi addr w = (case pass_offsets ps addr buf offs w of
          (Some outcome, w1) \<Rightarrow> Some (Inr outcome, w1) | (None, w1) \<Rightarrow> walk_region ps hi addr' w1)" and
      rows: "?rows addr = map (\<lambda>off. match_row (addr + off) (slice buf off (ps_stride ps)))
         (filter (\<lambda>off. first_match (ps_needle ps) buf off (ps_compare ps)) offs) @ ?rows addr'" by blast
    obtain o1 w1 where so: "pass_offsets ps addr buf offs w = (o1, w1)" by fastforce
    consider "o1 = Some Cancelled" | (more) "o1 \<noteq> Some Cancelled" "ScanResults_len (wk_out w1) < ps_limit ps"
      | (full) "o1 \<noteq> Some Cancelled" "\<not> ScanResults_len (wk_out w1) < ps_limit ps" by blast
    then show ?thesis
    proof cases
      case more
      note sp = scan_offsets_rows[OF so more(1) less.prems(4,5) bounds less.prems(6)]
      have "hi - addr' < hi - addr" "\<And>x. addr' \<le> x \<Longrightarrow> x < hi \<Longrightarrow> mapped x"
        using True assms(3) lt less.prems(3) by auto
      with less.hyps[OF _ dvd less.prems(2), of w1] sp more
      obtain res w' where ih: "walk_region ps hi addr' w1 = Some (Inr res, w')"
        "res = Completed \<longrightarrow> wf_results (wk_out w') \<and> sr_stride (wk_out w') = ps_stride ps
           \<and> ScanResults_iter (wk_out w') = ScanResults_iter (wk_out w1)
               @ take (ps_limit ps - ScanResults_len (wk_out w1)) (?rows addr')" by blast
      have "ScanResults_iter (wk_out w1) @ take (ps_limit ps - ScanResults_len (wk_out w1)) (?rows addr')
          = ScanResults_iter (wk_out w) @ take (ps_limit ps - ScanResults_len (wk_out w)) (?rows addr)"
        unfolding rows by (rule take_limit_more[OF _ length_iter length_iter more(2)]) (use sp in blast)
      with ih sp more so unfold show ?thesis by simp
    next
      case full
      note sp = scan_offsets_rows[OF so full(1) less.prems(4,5) bounds less.prems(6)]
      have "ScanResults_iter (wk_out w1)
          = ScanResults_iter (wk_out w) @ take (ps_limit ps - ScanResults_len (wk_out w)) (?rows addr)"
        unfolding rows by (rule take_limit_full[OF _ length_iter length_iter full(2) less.prems(6)]) (use sp in blast)
      with sp full so unfold show ?thesis by simp
    qed (use so unfold in simp)
  qed
qed

lemma scan_region_rows:
  assumes "ps_read ps = read" "0 < ps_align ps" "0 < ps_stride ps" "ps_stride ps \<le> ps_buf_len ps"
    "\<And>n. ps_needle ps = Some n \<Longrightarrow> stride n = ps_stride ps"
    and "Region_end r + ps_align ps \<le> USIZE_MAX" "\<And>x. covers r x \<Longrightarrow> mapped x"
    "wf_results (wk_out w)" "sr_stride (wk_out w) = ps_stride ps" "ScanResults_len (wk_out w) < ps_limit ps"
  shows "\<exists>res w'. scan_region_first ps r w = Some (Inr res, w')
     \<and> (res = Completed \<longrightarrow> wf_results (wk_out w') \<and> sr_stride (wk_out w') = ps_stride ps
         \<and> ScanResults_iter (wk_out w') = ScanResults_iter (wk_out w) @ take (ps_limit ps - ScanResults_len (wk_out w))
             (region_rows mem (ps_compare ps) (ps_needle ps) (ps_align ps) (ps_stride ps) r))"
proof -
  let ?a = "next_multiple_of (rg_base r) (ps_align ps)"
  have base: "rg_base r \<le> Region_end r" using assms(2,6) by (auto simp: Region_end_def saturating_add_def)
  have "?a \<le> USIZE_MAX" using next_multiple_of_less[OF assms(2), of "rg_base r"] base assms(6) by linarith
  then have start: "scan_region_first ps r w = walk_region ps (Region_end r) ?a (w\<lparr>wk_since := 0\<rparr>)"
    by (simp add: scan_region_first_def checked_next_multiple_of_def)
  have "mapped x" if "?a \<le> x" "x < Region_end r" for x
    using that assms(7) next_multiple_of_ge[of "rg_base r" "ps_align ps"] by (simp add: covers_def)
  from walk_region_rows[OF assms(1-5) next_multiple_of_dvd[OF assms(2)] assms(6) this, where w = "w\<lparr>wk_since := 0\<rparr>"]
  show ?thesis unfolding start using assms(8-10) candidates_from_base[OF assms(2)]
    by (simp add: region_rows_def range_rows_def)
qed

lemma walk_regions_rows:
  assumes "ps_read ps = read" "0 < ps_align ps" "0 < ps_stride ps" "ps_stride ps \<le> ps_buf_len ps"
    "\<And>n. ps_needle ps = Some n \<Longrightarrow> stride n = ps_stride ps"
    and "\<forall>r\<in>set rs. Region_end r + ps_align ps \<le> USIZE_MAX \<and> (\<forall>x. covers r x \<longrightarrow> mapped x)"
    "wf_results (wk_out w)" "sr_stride (wk_out w) = ps_stride ps" "ScanResults_len (wk_out w) < ps_limit ps"
  shows "\<exists>res w'. walk_regions ps rs w = Some (res, w')
     \<and> (res = Inl ScanCancelled \<or> wf_results (wk_out w')
         \<and> ScanResults_iter (wk_out w') = ScanResults_iter (wk_out w) @ take (ps_limit ps - ScanResults_len (wk_out w))
             (concat (map (region_rows mem (ps_compare ps) (ps_needle ps) (ps_align ps) (ps_stride ps)) rs))
         \<and> res = Inr (\<not> ScanResults_len (wk_out w') < ps_limit ps))"
  using assms(6-)
proof (induction rs arbitrary: w)
  case (Cons r rs)
  let ?R = "region_rows mem (ps_compare ps) (ps_needle ps) (ps_align ps) (ps_stride ps)"
  have "Region_end r + ps_align ps \<le> USIZE_MAX" "\<And>x. covers r x \<Longrightarrow> mapped x" using Cons.prems(1) by auto
  from scan_region_rows[OF assms(1-5) this Cons.prems(2-4)] obtain res w1
    where r: "scan_region_first ps r w = Some (Inr res, w1)"
      and rows: "res = Completed \<Longrightarrow> wf_results (wk_out w1) \<and> sr_stride (wk_out w1) = ps_stride ps
         \<and> ScanResults_iter (wk_out w1) = ScanResults_iter (wk_out w) @ take (ps_limit ps - ScanResults_len (wk_out w)) (?R r)"
    by blast
  consider "res = Cancelled" | (more) "res = Completed" "ScanResults_len (wk_out w1) < ps_limit ps"
    | (full) "res = Completed" "\<not> ScanResults_len (wk_out w1) < ps_limit ps" by (cases res) auto
  then show ?case
  proof cases
    case more
    with Cons.IH[of w1] Cons.prems(1) rows obtain res' w' where
      ih: "walk_regions ps rs w1 = Some (res', w')"
      "res' = Inl ScanCancelled \<or> wf_results (wk_out w')
         \<and> ScanResults_iter (wk_out w') = ScanResults_iter (wk_out w1)
             @ take (ps_limit ps - ScanResults_len (wk_out w1)) (concat (map ?R rs))
         \<and> res' = Inr (\<not> ScanResults_len (wk_out w') < ps_limit ps)" by auto
    have "ScanResults_iter (wk_out w1) @ take (ps_limit ps - ScanResults_len (wk_out w1)) (concat (map ?R rs))
        = ScanResults_iter (wk_out w) @ take (ps_limit ps - ScanResults_len (wk_out w)) (?R r @ concat (map ?R rs))"
      by (rule take_limit_more[OF _ length_iter length_iter more(2)]) (use rows more in blast)
    with ih r more show ?thesis by simp
  next
    case full
    have "ScanResults_iter (wk_out w1)
        = ScanResults_iter (wk_out w) @ take (ps_limit ps - ScanResults_len (wk_out w)) (?R r @ concat (map ?R rs))"
      by (rule take_limit_full[OF _ length_iter length_iter full(2) Cons.prems(4)]) (use rows full in blast)
    with rows full r show ?thesis by simp
  qed (use r in simp)
qed simp

end

section \<open>Observers that do not stop\<close>

lemma scan_offsets_not_cancelled:
  assumes "\<And>o1 p. fst (tick o1 p)"
  shows "fst (scan_offsets tick tot limit compare needle sz addr buf offs w) \<noteq> Some Cancelled"
proof (induction offs arbitrary: w)
  case (Cons off offs)
  have "fst (tick_step tick tot w)"
    using assms by (auto simp: tick_step_def Let_def split: prod.split) (metis fst_conv)
  with Cons show ?case by (auto simp: scan_offsets_step Let_def split: prod.split)
qed simp

lemma walk_region_not_cancelled:
  assumes "\<And>o1 p. fst (ps_tick ps o1 p)"
  shows "walk_region ps hi addr w \<noteq> Some (Inr Cancelled, w') \<and> walk_region ps hi addr w \<noteq> Some (Inl ScanCancelled, w')"
proof (induction "hi - addr" arbitrary: addr w rule: less_induct)
  case less
  show ?case
  proof (cases "addr < hi")
    case True
    then have ih: "walk_region ps hi addr' w1 \<noteq> Some (Inr Cancelled, w') \<and> walk_region ps hi addr' w1 \<noteq> Some (Inl ScanCancelled, w')"
      if "addr < addr'" for addr' w1 using less that by auto
    show ?thesis
    proof (cases "ps_read ps addr (min (ps_buf_len ps) (hi - addr))")
      case (Inr buf)
      let ?offs = "step_by (length buf - ps_stride ps) (ps_align ps)"
      have "fst (pass_offsets ps addr buf ?offs w) \<noteq> Some Cancelled"
        by (rule scan_offsets_not_cancelled[OF assms])
      with True Inr ih show ?thesis
        unfolding walk_region.simps[of ps hi addr w]
        by (auto simp: Let_def split: option.splits prod.splits)
    qed (use True in \<open>simp add: walk_region.simps[of ps hi addr w]\<close>)
  qed (simp add: walk_region.simps[of ps hi addr w])
qed

lemma walk_regions_not_cancelled:
  assumes "\<And>o1 p. fst (ps_tick ps o1 p)"
  shows "walk_regions ps rs w \<noteq> Some (Inl ScanCancelled, w')"
proof (induction rs arbitrary: w)
  case (Cons r rs)
  have "scan_region_first ps r w \<noteq> Some (Inr Cancelled, x) \<and> scan_region_first ps r w \<noteq> Some (Inl ScanCancelled, x)" for x
    using walk_region_not_cancelled[OF assms] by (auto simp: scan_region_first_def split: option.split)
  with Cons show ?case by (auto split: option.split sum.split walk_outcome.split)
qed simp

section \<open>History\<close>

lemma Scanner_results_push [simp]: "Scanner_results (push_generation s g) = g"
  by (cases "sn_history s") (simp_all add: push_generation_def Scanner_results_def HISTORY_DEPTH_def Let_def)

lemma Scanner_results_update [simp]:
  "Scanner_results (s\<lparr>sn_has_scanned := b\<rparr>) = Scanner_results s"
  "Scanner_results (s\<lparr>sn_last_stats := st\<rparr>) = Scanner_results s"
  by (simp_all add: Scanner_results_def)

lemma push_generation_fields [simp]:
  "sn_truncated (push_generation s g) = sn_truncated s" "sn_value_type (push_generation s g) = sn_value_type s"
  "sn_has_scanned (push_generation s g) = sn_has_scanned s" "sn_target (push_generation s g) = sn_target s"
  by (simp_all add: push_generation_def Let_def)

text \<open>Undoing the generation just pushed restores the results before it.\<close>

lemma undo_push:
  assumes "sn_history s \<noteq> []"
  shows "fst (undo (push_generation s g))" "Scanner_results (snd (undo (push_generation s g))) = Scanner_results s"
proof -
  obtain h x where h: "sn_history s = h @ [x]" using assms by (metis rev_exhaust)
  show "fst (undo (push_generation s g))"
    by (cases h) (auto simp: undo_def can_undo_def push_generation_def h HISTORY_DEPTH_def Let_def)
  show "Scanner_results (snd (undo (push_generation s g))) = Scanner_results s"
    by (cases h) (auto simp: undo_def can_undo_def push_generation_def h HISTORY_DEPTH_def Let_def Scanner_results_def
        butlast_append)
qed

text \<open>
  What every scan session keeps: at most three generations, none of them misaligned, and a first scan has
  completed exactly when there is a generation.
\<close>

definition scanner_inv :: "scanner \<Rightarrow> bool" where
  "scanner_inv s \<longleftrightarrow>
     length (sn_history s) \<le> HISTORY_DEPTH
     \<and> (\<forall>g\<in>set (sn_history s). wf_results g \<and> 0 < sr_stride g)
     \<and> (\<forall>w. fixed_width (sn_value_type s) = Some w \<longrightarrow> (\<forall>g\<in>set (sn_history s). sr_stride g = w))
     \<and> (sn_has_scanned s \<longleftrightarrow> sn_history s \<noteq> [])"

lemma scanner_inv_push:
  assumes "scanner_inv s" "wf_results g" "0 < sr_stride g"
    "\<And>w. fixed_width (sn_value_type s) = Some w \<Longrightarrow> sr_stride g = w"
  shows "scanner_inv ((push_generation s g)\<lparr>sn_has_scanned := True\<rparr>)"
  using assms
  by (cases "sn_history s") (auto simp: scanner_inv_def push_generation_def HISTORY_DEPTH_def Let_def)

section \<open>Every pass keeps the columns aligned\<close>

definition good_out :: "nat \<Rightarrow> scan_results \<Rightarrow> bool" where
  "good_out sz r \<longleftrightarrow> wf_results r \<and> sr_stride r = sz"

lemma good_out_push [simp]: "good_out sz r \<Longrightarrow> good_out sz (ScanResults_push r a c p)"
  by (simp add: good_out_def)

lemma good_out_new [simp]: "good_out sz (ScanResults_with_stride sz)"
  by (simp add: good_out_def)

lemma scan_offsets_good:
  assumes "good_out k (wk_out w)"
  shows "good_out k (wk_out (snd (scan_offsets tick tot limit compare needle sz addr buf offs w)))"
  using assms
proof (induction offs arbitrary: w)
  case (Cons off offs)
  obtain go w1 where t: "tick_step tick tot w = (go, w1)" by fastforce
  have "wk_out w1 = wk_out w" using tick_step_out[of tick tot w] t by simp
  with Cons t show ?case by (simp add: scan_offsets_step Let_def)
qed simp

lemma walk_region_good:
  assumes "walk_region ps hi addr w = Some (res, w')" "good_out k (wk_out w)"
  shows "good_out k (wk_out w')"
  using assms
proof (induction "hi - addr" arbitrary: addr w rule: less_induct)
  case less
  show ?case
  proof (cases "addr < hi")
    case True
    have ih: "good_out k (wk_out w')"
      if "addr < addr'" "walk_region ps hi addr' w1 = Some (res, w')" "good_out k (wk_out w1)" for addr' w1
      by (rule less.hyps[OF _ that(2,3)]) (use True that(1) in linarith)
    show ?thesis
    proof (cases "ps_read ps addr (min (ps_buf_len ps) (hi - addr))")
      case (Inr buf)
      obtain o1 w1 where so: "pass_offsets ps addr buf (step_by (length buf - ps_stride ps) (ps_align ps)) w = (o1, w1)"
        by fastforce
      then have "good_out k (wk_out w1)"
        using scan_offsets_good[OF less.prems(2)] by (metis snd_conv)
      with True Inr so ih less.prems show ?thesis
        by (auto simp: walk_region.simps[of ps hi addr w] Let_def split: if_splits option.splits)
    qed (use True less.prems in \<open>simp add: walk_region.simps[of ps hi addr w]\<close>)
  qed (use less.prems in \<open>simp add: walk_region.simps[of ps hi addr w]\<close>)
qed

lemma walk_regions_good:
  assumes "walk_regions ps rs w = Some (res, w')" "good_out k (wk_out w)"
  shows "good_out k (wk_out w')"
  using assms
proof (induction rs arbitrary: w)
  case (Cons r rs)
  have "good_out k (wk_out x)" if "scan_region_first ps r w = Some (y, x)" for x y
    using that Cons.prems(2) walk_region_good[of ps "Region_end r" _ "w\<lparr>wk_since := 0\<rparr>" y x k]
    by (auto simp: scan_region_first_def split: option.splits)
  with Cons show ?case by (auto split: option.splits sum.splits walk_outcome.splits if_splits)
qed simp

section \<open>What a next scan keeps\<close>

definition read_span :: "(usize \<Rightarrow> nat \<Rightarrow> core_error + bytes) \<Rightarrow> nat \<Rightarrow> usize \<Rightarrow> bytes option" where
  "read_span rd sz a =
     (case rd a sz of Inl e \<Rightarrow> None | Inr buf \<Rightarrow> if length buf < sz then None else Some buf)"

definition narrowed ::
  "(usize \<Rightarrow> nat \<Rightarrow> core_error + bytes) \<Rightarrow> scan_value_type \<Rightarrow> scan_compare_type \<Rightarrow> needle option \<Rightarrow> nat \<Rightarrow>
   scan_result \<Rightarrow> scan_result list" where
  "narrowed rd ty compare needle sz prev =
     (case read_span rd sz (res_address prev) of
        None \<Rightarrow> []
      | Some buf \<Rightarrow>
          if next_match ty needle buf compare (res_current prev)
          then [\<lparr>res_address = res_address prev, res_current = take sz buf, res_previous = fit sz (res_current prev)\<rparr>]
          else [])"

lemma renarrow_step:
  "renarrow tick rd ty compare needle sz tot i (prev # rest) n = (False, n') \<Longrightarrow>
   \<exists>n1. renarrow tick rd ty compare needle sz tot (i + 1) rest n1 = (False, n')
      \<and> nx_unreadable n1 = nx_unreadable n + (if read_span rd sz (res_address prev) = None then 1 else 0)
      \<and> (nx_results n1 =
          (case read_span rd sz (res_address prev) of
             None \<Rightarrow> nx_results n
           | Some buf \<Rightarrow> if next_match ty needle buf compare (res_current prev)
                         then ScanResults_push (nx_results n) (res_address prev) (take sz buf) (res_current prev)
                         else nx_results n))"
  by (auto simp: read_span_def Let_def split: if_splits sum.splits prod.splits)

declare renarrow.simps(2) [simp del]

lemma renarrow_rows:
  assumes "renarrow tick rd ty compare needle sz tot i prevs n = (False, n')" "good_out sz (nx_results n)"
  shows "good_out sz (nx_results n')
    \<and> ScanResults_iter (nx_results n') = ScanResults_iter (nx_results n) @ concat (map (narrowed rd ty compare needle sz) prevs)
    \<and> nx_unreadable n' = nx_unreadable n + length (filter (\<lambda>p. read_span rd sz (res_address p) = None) prevs)"
  using assms
proof (induction prevs arbitrary: i n)
  case (Cons p prevs)
  from renarrow_step[OF Cons.prems(1)] obtain n1 where
    n1: "renarrow tick rd ty compare needle sz tot (i + 1) prevs n1 = (False, n')"
    "nx_unreadable n1 = nx_unreadable n + (if read_span rd sz (res_address p) = None then 1 else 0)"
    "nx_results n1 = (case read_span rd sz (res_address p) of None \<Rightarrow> nx_results n
       | Some buf \<Rightarrow> if next_match ty needle buf compare (res_current p)
                     then ScanResults_push (nx_results n) (res_address p) (take sz buf) (res_current p)
                     else nx_results n)" by blast
  have len: "length (take sz buf) = sz" if "read_span rd sz (res_address p) = Some buf" for buf
    using that by (auto simp: read_span_def split: sum.splits if_splits)
  have "good_out sz (nx_results n1)"
    "ScanResults_iter (nx_results n1) = ScanResults_iter (nx_results n) @ narrowed rd ty compare needle sz p"
    using Cons.prems(2) n1(3) len
    by (auto simp: good_out_def narrowed_def iter_push split: option.splits)
  with Cons.IH[OF n1(1)] n1(2) show ?case by simp
qed simp

section \<open>Scan sessions\<close>

text \<open>
  The steps of a session, with any observer, any needles parsed for their type, and a target that may be
  a different memory at every step.
\<close>

inductive scan_step :: "'o observer \<Rightarrow> scanner \<Rightarrow> scanner \<Rightarrow> bool" for tick :: "'o observer" where
  step_filter: "scan_step tick s (set_region_filter s f)"
| step_align: "scan_step tick s (set_alignment s a)"
| step_limit: "scan_step tick s (with_result_limit s l)"
| step_target: "scan_step tick s (s\<lparr>sn_target := t\<rparr>)"
| step_type: "scan_step tick s (snd (set_value_type s ty))"
| step_undo: "scan_step tick s (snd (undo s))"
| step_first: "pred_option wf_needle needle \<Longrightarrow> first_scan_with s compare needle tick obs = Some (s', obs', r)
    \<Longrightarrow> scan_step tick s s'"
| step_next: "pred_option wf_needle needle \<Longrightarrow> next_scan_with s compare needle tick obs = (s', obs', r)
    \<Longrightarrow> scan_step tick s s'"

inductive_cases scan_stepE: "scan_step tick s s'"

lemma wf_needle_stride:
  assumes "wf_needle n" "fixed_width (nd_ty n) = Some w"
  shows "stride n = w"
  using assms by (cases "nd_value n"; cases "nd_ty n") (simp_all add: wf_needle_def stride_def)

lemma stride_fixed:
  assumes "pred_option wf_needle needle" "validate_needle s compare needle = None"
    "fixed_width (sn_value_type s) = Some w"
  shows "Scanner_stride s needle = w"
  using assms wf_needle_stride
  by (cases needle) (auto simp: Scanner_stride_def validate_needle_def split: if_splits)

lemma first_scan_run_cases:
  assumes "first_scan_run s compare needle tick obs regions = Some (s', obs', r)"
  obtains (aborted) e rs where "r = Inl e" "s' = s\<lparr>sn_scanned_regions := rs, sn_truncated := False\<rparr>"
  | (pushed) g rs tr st where "r = Inr g" "good_out (Scanner_stride s needle) g"
      "s' = (push_generation (s\<lparr>sn_scanned_regions := rs, sn_truncated := tr, sn_last_stats := st\<rparr>) g)\<lparr>sn_has_scanned := True\<rparr>"
proof -
  define s1 where "s1 = s\<lparr>sn_scanned_regions := length regions, sn_truncated := False\<rparr>"
  define tot where "tot = sum_list (map (\<lambda>r. rg_size r div Scanner_alignment s1) regions)"
  have sz: "Scanner_stride s1 needle = Scanner_stride s needle" by (simp add: s1_def Scanner_stride_def split: option.split)
  obtain res w where w: "walk_regions (first_pass s1 compare needle tick tot) regions
      (first_walk (Scanner_stride s needle) obs) = Some (res, w)"
    using assms by (auto simp: first_scan_run_def Let_def sz s1_def[symmetric] tot_def[symmetric]
        split: if_splits option.splits)
  then have good: "good_out (Scanner_stride s needle) (wk_out w)"
    by (rule walk_regions_good) (simp add: first_walk_def)
  show thesis
  proof (cases res)
    case (Inl e)
    then have "r = Inl e" "s' = s1" using assms w
      by (auto simp: first_scan_run_def Let_def sz s1_def[symmetric] tot_def[symmetric] split: if_splits)
    then show thesis unfolding s1_def by (rule aborted)
  next
    case (Inr trunc)
    then show thesis using assms w pushed[OF _ good]
      by (auto simp: first_scan_run_def Let_def sz s1_def[symmetric] tot_def[symmetric] split: if_splits)
        (simp add: s1_def)
  qed
qed

lemma first_scan_cases:
  assumes "first_scan_with s compare needle tick obs = Some (s', obs', r)"
  obtains (rejected) e where "r = Inl e" "s' = s"
  | (aborted) e rs where "r = Inl e" "s' = s\<lparr>sn_scanned_regions := rs, sn_truncated := False\<rparr>"
  | (pushed) g rs tr st where "r = Inr g" "good_out (Scanner_stride s needle) g" "validate_needle s compare needle = None"
      "0 < Scanner_stride s needle"
      "s' = (push_generation (s\<lparr>sn_scanned_regions := rs, sn_truncated := tr, sn_last_stats := st\<rparr>) g)\<lparr>sn_has_scanned := True\<rparr>"
proof (cases "needs_previous compare \<or> validate_needle s compare needle \<noteq> None \<or> Scanner_stride s needle = 0")
  case True
  then show thesis using assms rejected by (auto simp: first_scan_with_def split: if_splits option.splits)
next
  case False
  then consider e where "r = Inl e" "s' = s"
    | regions where "first_scan_run s compare needle tick obs regions = Some (s', obs', r)"
    using assms by (auto simp: first_scan_with_def split: sum.splits)
  then show thesis
  proof cases
    case 2
    from 2 show thesis by (rule first_scan_run_cases) (use False aborted pushed in auto)
  qed (rule rejected)
qed

lemma next_scan_cases:
  assumes "next_scan_with s compare needle tick obs = (s', obs', r)"
  obtains (rejected) e where "r = Inl e" "s' = s"
  | (pushed) g st where "r = Inr g" "good_out (Scanner_stride s needle) g" "validate_needle s compare needle = None"
      "0 < Scanner_stride s needle" "sn_has_scanned s" "\<not> is_baseline compare"
      "ScanResults_iter g = concat (map (narrowed (tg_read (sn_target s)) (sn_value_type s) compare needle
          (Scanner_stride s needle)) (ScanResults_iter (Scanner_results s)))"
      "s' = push_generation (s\<lparr>sn_last_stats := st\<rparr>) g"
proof -
  let ?sz = "Scanner_stride s needle" and ?prev = "Scanner_results s"
  let ?n0 = "\<lparr>nx_results = ScanResults_with_stride ?sz, nx_obs = obs, nx_unreadable = 0, nx_last_err = None\<rparr>"
  obtain stopped n where rn: "renarrow tick (tg_read (sn_target s)) (sn_value_type s) compare needle ?sz
      (ScanResults_len ?prev) 0 (ScanResults_iter ?prev) ?n0 = (stopped, n)" by fastforce
  show thesis
  proof (cases "stopped \<or> r \<noteq> Inr (nx_results n)")
    case True
    then show thesis using assms rn rejected
      by (auto simp: next_scan_with_def Let_def split: if_splits option.splits)
  next
    case False
    then have "renarrow tick (tg_read (sn_target s)) (sn_value_type s) compare needle ?sz
      (ScanResults_len ?prev) 0 (ScanResults_iter ?prev) ?n0 = (False, n)" using rn by simp
    from renarrow_rows[OF this] have g: "good_out ?sz (nx_results n)"
      "ScanResults_iter (nx_results n) = concat (map (narrowed (tg_read (sn_target s)) (sn_value_type s) compare needle ?sz)
          (ScanResults_iter ?prev))" by simp_all
    show thesis using assms rn False rejected pushed[OF _ g(1) _ _ _ _ g(2)]
      by (auto simp: next_scan_with_def Let_def split: if_splits option.splits)
  qed
qed

lemma scanner_inv_update [simp]:
  "scanner_inv (s\<lparr>sn_scanned_regions := rs\<rparr>) = scanner_inv s"
  "scanner_inv (s\<lparr>sn_truncated := tr\<rparr>) = scanner_inv s"
  "scanner_inv (s\<lparr>sn_last_stats := st\<rparr>) = scanner_inv s"
  by (simp_all add: scanner_inv_def)

lemma scan_step_inv:
  assumes "scan_step tick s s'" "scanner_inv s"
  shows "scanner_inv s'"
  using assms
proof (cases rule: scan_step.cases)
  case (step_undo)
  have "butlast (sn_history s) \<noteq> []" if "can_undo s"
    using that length_butlast[of "sn_history s"] by (auto simp: can_undo_def simp del: length_butlast)
  then show ?thesis using step_undo assms(2)
    by (auto simp: scanner_inv_def undo_def dest: in_set_butlastD)
next
  case (step_first needle compare obs obs' r)
  from step_first(2) show ?thesis
  proof (cases rule: first_scan_cases)
    case (pushed g rs tr st)
    let ?s1 = "s\<lparr>sn_scanned_regions := rs, sn_truncated := tr, sn_last_stats := st\<rparr>"
    have inv: "scanner_inv ?s1" using assms(2) by simp
    have st: "sr_stride g = Scanner_stride s needle" "wf_results g" using pushed(2) by (auto simp: good_out_def)
    show ?thesis unfolding pushed(5)
      by (rule scanner_inv_push[OF inv st(2)]) (use st(1) pushed(4) stride_fixed[OF step_first(1) pushed(3)] in auto)
  qed (use assms(2) in simp_all)
next
  case (step_next needle compare obs obs' r)
  from step_next(2) show ?thesis
  proof (cases rule: next_scan_cases)
    case (pushed g st)
    let ?s1 = "s\<lparr>sn_last_stats := st\<rparr>"
    have st: "sr_stride g = Scanner_stride s needle" "wf_results g" using pushed(2) by (auto simp: good_out_def)
    have "scanner_inv ((push_generation ?s1 g)\<lparr>sn_has_scanned := True\<rparr>)"
      by (rule scanner_inv_push) (use assms(2) st pushed(4) stride_fixed[OF step_next(1) pushed(3)] in auto)
    moreover have "(push_generation ?s1 g)\<lparr>sn_has_scanned := True\<rparr> = push_generation ?s1 g"
      using pushed(5) by (simp add: push_generation_def Let_def)
    ultimately show ?thesis unfolding pushed(8) by simp
  qed (use assms(2) in simp)
qed (auto simp: scanner_inv_def set_region_filter_def set_alignment_def with_result_limit_def set_value_type_def)

section \<open>Properties\<close>

text \<open>
  C2. Every scan session, from a new scanner through any sequence of scans (completed, rejected, failed or
  cancelled), undos, reconfigurations and changes of the target, keeps at most three generations, all with aligned columns and the
  width of the value type when it has one, and a first scan has completed exactly when a generation exists.
\<close>

theorem scan_session_invariant:
  assumes "(scan_step tick)\<^sup>*\<^sup>* (Scanner_new t ty) s"
  shows "scanner_inv s"
  using assms
proof (induction rule: rtranclp_induct)
  case base
  show ?case by (simp add: scanner_inv_def Scanner_new_def HISTORY_DEPTH_def)
qed (rule scan_step_inv)

theorem scan_session_invariant_witness:
  "scanner_inv (set_alignment (Scanner_new (MockTarget_target (MockTarget_new 16 [1, 2])) I32) 1)"
  by (rule scan_session_invariant[OF r_into_rtranclp[of "scan_step (NoObserver :: unit observer)", OF step_align]])

text \<open>
  C1. A first scan is complete and exact. On a target that reads its mapped regions in full, with an observer that
  never stops it and regions that end at least one alignment step below the top of the address space, it returns without panic, and its rows are the
  matching candidates of every filtered region in order, cut at the result limit: each aligned address
  whose whole span lies in its region is tested exactly once, however the region is split into windows. The
  truncation flag says that the limit was reached.
\<close>

theorem first_scan_complete:
  assumes "full_target (tg_read (sn_target s)) mem mapped" "tg_regions (sn_target s) = Inr rs"
    "regions = RegionFilter_apply (sn_region_filter s) rs"
    "\<forall>r\<in>set regions. Region_end r + Scanner_alignment s \<le> USIZE_MAX \<and> (\<forall>x. covers r x \<longrightarrow> mapped x)"
    "sum_list (map (\<lambda>r. rg_size r div Scanner_alignment s) regions) \<le> USIZE_MAX"
    "\<not> needs_previous compare" "validate_needle s compare needle = None" "0 < Scanner_stride s needle"
    "0 < sn_result_limit s" "\<And>o1 p. fst (tick o1 p)"
  shows "\<exists>s' obs' g. first_scan_with s compare needle tick obs = Some (s', obs', Inr g)
    \<and> ScanResults_iter g = take (sn_result_limit s)
         (concat (map (region_rows mem compare needle (Scanner_alignment s) (Scanner_stride s needle)) regions))
    \<and> Scanner_results s' = g
    \<and> (sn_truncated s' \<longleftrightarrow> sn_result_limit s \<le> ScanResults_len g)"
proof -
  let ?s1 = "s\<lparr>sn_scanned_regions := length regions, sn_truncated := False\<rparr>"
  have eq: "Scanner_alignment ?s1 = Scanner_alignment s" "Scanner_stride ?s1 needle = Scanner_stride s needle"
    by (simp_all add: Scanner_alignment_def Scanner_stride_def split: option.split)
  define ps where "ps = first_pass ?s1 compare needle tick (sum_list (map (\<lambda>r. rg_size r div Scanner_alignment s) regions))"
  have ps: "ps_read ps = tg_read (sn_target s)" "0 < ps_align ps" "0 < ps_stride ps" "ps_stride ps \<le> ps_buf_len ps"
    "ps_align ps = Scanner_alignment s" "ps_stride ps = Scanner_stride s needle" "ps_limit ps = sn_result_limit s"
    "ps_compare ps = compare" "ps_needle ps = needle" "ps_tick ps = tick"
    using assms(8) by (simp_all add: ps_def first_pass_def eq) (simp add: Scanner_alignment_def)
  have nd: "stride n = ps_stride ps" if "ps_needle ps = Some n" for n
    using that by (simp add: ps Scanner_stride_def)
  let ?w = "first_walk (Scanner_stride s needle) obs"
  have w0: "wf_results (wk_out ?w)" "sr_stride (wk_out ?w) = ps_stride ps" "ScanResults_len (wk_out ?w) < ps_limit ps"
    "ScanResults_iter (wk_out ?w) = []" "ScanResults_len (wk_out ?w) = 0" using assms(9) by (simp_all add: first_walk_def ps)
  from full_target.walk_regions_rows[OF assms(1) ps(1-4) nd, of regions, OF _ _ w0(1-3)] assms(4)
    walk_regions_not_cancelled[of ps regions ?w] assms(10)
  obtain w' where w': "walk_regions ps regions ?w = Some (Inr (\<not> ScanResults_len (wk_out w') < ps_limit ps), w')"
    and rows: "ScanResults_iter (wk_out w') = take (sn_result_limit s)
      (concat (map (region_rows mem compare needle (Scanner_alignment s) (Scanner_stride s needle)) regions))"
    using w0(4,5) by (auto simp: ps)
  have "first_scan_with s compare needle tick obs = first_scan_run s compare needle tick obs regions"
    using assms(2,3,6-8) by (simp add: first_scan_with_def)
  with w' rows assms(5) show ?thesis
    by (auto simp: first_scan_run_def Let_def eq ps_def[symmetric] ps)
qed

theorem first_scan_complete_witness:
  "\<exists>s' obs' g. first_scan_with (Scanner_new (MockTarget_target (MockTarget_new 16 [7, 0, 0, 0, 9, 0, 0, 0])) I32)
        Unknown None NoObserver () = Some (s', obs', Inr g)
     \<and> ScanResults_iter g = [match_row 16 [7, 0, 0, 0], match_row 20 [9, 0, 0, 0]] \<and> \<not> sn_truncated s'"
proof -
  let ?t = "MockTarget_new 16 [7, 0, 0, 0, 9, 0, 0, 0]"
  let ?s = "Scanner_new (MockTarget_target ?t) I32"
  have rows: "region_rows (MockTarget_mem ?t) Unknown None 4 4 (Region_new 16 8) = [match_row 16 [7, 0, 0, 0], match_row 20 [9, 0, 0, 0]]"
    by (simp add: region_rows_def range_rows_def candidates_def span_def upt_rec MockTarget_mem_def MockTarget_new_def
        Region_new_def Region_end_def saturating_add_def USIZE_MAX_def first_match_def)
  have "full_target (MockTarget_read ?t) (MockTarget_mem ?t) (MockTarget_mapped ?t)" ..
  then have t: "full_target (tg_read (sn_target ?s)) (MockTarget_mem ?t) (MockTarget_mapped ?t)"
    by (simp add: Scanner_new_def MockTarget_target_def)
  have "\<exists>s' obs' g. first_scan_with ?s Unknown None NoObserver () = Some (s', obs', Inr g)
    \<and> ScanResults_iter g = take (sn_result_limit ?s) (concat (map (region_rows (MockTarget_mem ?t) Unknown None
          (Scanner_alignment ?s) (Scanner_stride ?s None)) [Region_new 16 8]))
    \<and> Scanner_results s' = g \<and> (sn_truncated s' \<longleftrightarrow> sn_result_limit ?s \<le> ScanResults_len g)"
    by (rule first_scan_complete[OF t, where rs = "[Region_new 16 8]"])
      (auto simp: Scanner_new_def MockTarget_target_def MockTarget_new_def RegionFilter_apply_def
        RegionFilter_is_unrestricted_def RegionFilter_default_def Scanner_alignment_def Region_end_def Region_new_def
        saturating_add_def USIZE_MAX_def covers_def MockTarget_mapped_def validate_needle_def Scanner_stride_def
        DEFAULT_RESULT_LIMIT_def NoObserver_def)
  then obtain s' obs' g where g: "first_scan_with ?s Unknown None NoObserver () = Some (s', obs', Inr g)"
    "ScanResults_iter g = [match_row 16 [7, 0, 0, 0], match_row 20 [9, 0, 0, 0]]"
    "sn_truncated s' \<longleftrightarrow> sn_result_limit ?s \<le> ScanResults_len g"
    using rows by (auto simp: Scanner_new_def Scanner_alignment_def Scanner_stride_def DEFAULT_RESULT_LIMIT_def)
  moreover have "ScanResults_len g = 2" using g(2) length_iter[of g] by simp
  ultimately show ?thesis by (auto simp: Scanner_new_def DEFAULT_RESULT_LIMIT_def)
qed

text \<open>
  C3. A next scan keeps, in order, exactly the previous results that are still readable and match against the value last seen,
  with that value in the previous column, and undoing it restores the results before it.
\<close>

theorem next_scan_narrows:
  assumes "next_scan_with s compare needle tick obs = (s', obs', Inr g)" "scanner_inv s"
  shows "ScanResults_iter g = concat (map (narrowed (tg_read (sn_target s)) (sn_value_type s) compare needle
            (Scanner_stride s needle)) (ScanResults_iter (Scanner_results s)))
    \<and> Scanner_results s' = g
    \<and> fst (undo s') \<and> Scanner_results (snd (undo s')) = Scanner_results s"
  using assms(1)
proof (cases rule: next_scan_cases)
  case (pushed g' st)
  have "sn_history s \<noteq> []" using assms(2) pushed(5) by (simp add: scanner_inv_def)
  then have "sn_history (s\<lparr>sn_last_stats := st\<rparr>) \<noteq> []" by simp
  from undo_push[OF this, of g'] pushed show ?thesis by simp
qed simp

theorem next_scan_narrows_witness:
  "\<exists>s' g. next_scan_with
        ((Scanner_new (MockTarget_target (MockTarget_new 16 [5, 6])) U8)
           \<lparr>sn_history := [ScanResults_push (ScanResults_with_stride 1) 16 [3] [3]], sn_has_scanned := True\<rparr>)
        Increased None NoObserver () = (s', (), Inr g)
     \<and> ScanResults_iter g = [\<lparr>res_address = 16, res_current = [5], res_previous = [3]\<rparr>]"
proof -
  let ?s = "(Scanner_new (MockTarget_target (MockTarget_new 16 [5, 6])) U8)
      \<lparr>sn_history := [ScanResults_push (ScanResults_with_stride 1) 16 [3] [3]], sn_has_scanned := True\<rparr>"
  have it: "ScanResults_iter (ScanResults_push (ScanResults_with_stride 1) 16 [3] [3]) = [match_row 16 [3]]"
    using iter_push_match[of "ScanResults_with_stride 1" 1 "[3]" 16] by simp
  have "\<exists>s' g. next_scan_with ?s Increased None NoObserver () = (s', (), Inr g)"
    by (simp add: next_scan_with_def Scanner_new_def validate_needle_def Scanner_stride_def Scanner_results_def
        it[simplified] Let_def ScanResults_is_empty_def renarrow.simps NoObserver_def match_row_def MockTarget_target_def MockTarget_read_def MockTarget_offset_of_def
        MockTarget_new_def checked_sub_def slice_def next_match_def compare_change_def read_int_eq le_int_def is_some_and_def)
  then obtain s' g where r: "next_scan_with ?s Increased None NoObserver () = (s', (), Inr g)" by blast
  have inv: "scanner_inv ?s" by (simp add: scanner_inv_def Scanner_new_def HISTORY_DEPTH_def)
  have "ScanResults_iter g = concat (map (narrowed (tg_read (sn_target ?s)) (sn_value_type ?s) Increased None
      (Scanner_stride ?s None)) (ScanResults_iter (Scanner_results ?s)))"
    by (rule conjunct1[OF next_scan_narrows[OF r inv]])
  then have "ScanResults_iter g = [\<lparr>res_address = 16, res_current = [5], res_previous = [3]\<rparr>]"
    by (simp add: Scanner_new_def Scanner_stride_def Scanner_results_def it[simplified] narrowed_def read_span_def match_row_def
        MockTarget_target_def MockTarget_read_def MockTarget_offset_of_def MockTarget_new_def checked_sub_def slice_def
        next_match_def compare_change_def read_int_eq le_int_def is_some_and_def)
  with r show ?thesis by blast
qed

text \<open>
  C4. A scan that is rejected, fails, is cancelled or finds its target gone leaves the history, the current results, the
  counters and the scan state as they were.
\<close>

theorem failed_scan_keeps_results:
  "(first_scan_with s compare needle tick obs = Some (s', obs', Inl e) \<longrightarrow>
      sn_history s' = sn_history s \<and> sn_has_scanned s' = sn_has_scanned s \<and> sn_last_stats s' = sn_last_stats s)
   \<and> (next_scan_with s compare needle tick obs = (s', obs', Inl e) \<longrightarrow> s' = s)"
  by (auto elim: first_scan_cases next_scan_cases)

theorem failed_scan_keeps_results_witness:
  "next_scan_with (Scanner_new (MockTarget_target (MockTarget_new 0 [])) U8) Changed None NoObserver ()
   = (Scanner_new (MockTarget_target (MockTarget_new 0 [])) U8, (), Inl NeedsFirstScan)"
proof -
  let ?s = "Scanner_new (MockTarget_target (MockTarget_new 0 [])) U8"
  obtain s' where r: "next_scan_with ?s Changed None NoObserver () = (s', (), Inl NeedsFirstScan)"
    by (simp add: next_scan_with_def Scanner_new_def)
  with failed_scan_keeps_results[of ?s Changed None NoObserver "()" s' "()" NeedsFirstScan]
  show ?thesis by simp
qed

section \<open>Where the code departs from its documentation\<close>

text \<open>
  A cancelled first scan keeps the results but not the flag that says they are truncated: the flag is cleared
  before the walk starts.
\<close>

lemma cancelled_first_scan_clears_truncated:
  assumes "first_scan_run s compare needle tick obs regions = Some (s', obs', Inl e)"
  shows "\<not> sn_truncated s' \<and> sn_history s' = sn_history s"
  using assms by (auto elim: first_scan_run_cases)

end
