(* ===== verification/Freeze.thy ===== *)
theory Freeze
  imports Prelude
begin

text \<open>
  Frozen values (nemclass-scan/src/freeze.rs). Writing goes through the target's \<open>write\<close>,
  which may change the state behind it: a parameter that returns the result and the new state.
\<close>

record freeze_set =
  fz_entries :: "(usize \<times> bytes) list"

definition FreezeSet_new :: freeze_set where
  "FreezeSet_new = \<lparr>fz_entries = []\<rparr>"

fun replace_first :: "usize \<Rightarrow> bytes \<Rightarrow> (usize \<times> bytes) list \<Rightarrow> (usize \<times> bytes) list" where
  "replace_first a bs [] = []"
| "replace_first a bs (e # es) = (if fst e = a then (fst e, bs) # es else e # replace_first a bs es)"

definition FreezeSet_set :: "freeze_set \<Rightarrow> usize \<Rightarrow> bytes \<Rightarrow> freeze_set" where
  "FreezeSet_set f address bs =
     (if list_ex (\<lambda>e. fst e = address) (fz_entries f)
      then f\<lparr>fz_entries := replace_first address bs (fz_entries f)\<rparr>
      else f\<lparr>fz_entries := fz_entries f @ [(address, bs)]\<rparr>)"

definition FreezeSet_remove :: "freeze_set \<Rightarrow> usize \<Rightarrow> freeze_set" where
  "FreezeSet_remove f address = f\<lparr>fz_entries := filter (\<lambda>e. fst e \<noteq> address) (fz_entries f)\<rparr>"

definition FreezeSet_len :: "freeze_set \<Rightarrow> nat" where
  "FreezeSet_len f = length (fz_entries f)"

type_synonym 's writer = "'s \<Rightarrow> usize \<Rightarrow> bytes \<Rightarrow> (core_error + nat) \<times> 's"

fun apply_entries :: "'s writer \<Rightarrow> (usize \<times> bytes) list \<Rightarrow> nat \<Rightarrow> 's \<Rightarrow> nat \<times> 's" where
  "apply_entries wr [] ok s = (ok, s)"
| "apply_entries wr ((addr, bs) # es) ok s =
     (case wr s addr bs of
        (Inl e, s') \<Rightarrow> apply_entries wr es ok s'
      | (Inr written, s') \<Rightarrow> apply_entries wr es (if written = length bs then ok + 1 else ok) s')"

definition FreezeSet_apply :: "freeze_set \<Rightarrow> 's writer \<Rightarrow> 's \<Rightarrow> (core_error + nat) \<times> 's" where
  "FreezeSet_apply f wr s = (let (ok, s') = apply_entries wr (fz_entries f) 0 s in (Inr ok, s'))"

section \<open>Facts\<close>

definition wf_freeze :: "freeze_set \<Rightarrow> bool" where
  "wf_freeze f \<longleftrightarrow> distinct (map fst (fz_entries f))"

definition frozen :: "freeze_set \<Rightarrow> usize \<Rightarrow> bytes option" where
  "frozen f = map_of (fz_entries f)"

lemma replace_first_fst [simp]: "map fst (replace_first a bs es) = map fst es"
  by (induction es) auto

lemma map_of_replace_first:
  "map_of (replace_first a bs es) x = (if x = a \<and> list_ex (\<lambda>e. fst e = a) es then Some bs else map_of es x)"
  by (induction es) auto

lemma frozen_set: "frozen (FreezeSet_set f a bs) = (frozen f)(a \<mapsto> bs)"
proof (cases "list_ex (\<lambda>e. fst e = a) (fz_entries f)")
  case True
  then show ?thesis by (auto simp: frozen_def FreezeSet_set_def map_of_replace_first)
next
  case False
  then have "map_of (fz_entries f) a = None" by (auto simp: map_of_eq_None_iff list_ex_iff)
  with False show ?thesis
    by (auto simp: frozen_def FreezeSet_set_def map_add_def split: option.splits)
qed

lemma wf_set: "wf_freeze f \<Longrightarrow> wf_freeze (FreezeSet_set f a bs)"
  by (auto simp: wf_freeze_def FreezeSet_set_def list_ex_iff)

lemma frozen_remove: "frozen (FreezeSet_remove f a) x = (if x = a then None else frozen f x)"
proof -
  have "map_of (filter (\<lambda>e. fst e \<noteq> a) es) x = (if x = a then None else map_of es x)"
    for es :: "(usize \<times> bytes) list" by (induction es) auto
  then show ?thesis by (simp add: frozen_def FreezeSet_remove_def)
qed

lemma wf_remove: "wf_freeze f \<Longrightarrow> wf_freeze (FreezeSet_remove f a)"
  by (auto simp: wf_freeze_def FreezeSet_remove_def distinct_map_filter)

text \<open>
  A memory target: its state determines the bytes at all addresses, a write that reports \<open>n\<close> stores the first \<open>n\<close>
  bytes, and a failed one stores some prefix, for a long transfer may be broken off in the middle.
\<close>

definition holds :: "(usize \<Rightarrow> u8) \<Rightarrow> usize \<times> bytes \<Rightarrow> bool" where
  "holds m e \<longleftrightarrow> list_all (\<lambda>i. m (fst e + i) = snd e ! i) [0..<length (snd e)]"

definition disjoint_spans :: "usize \<times> bytes \<Rightarrow> usize \<times> bytes \<Rightarrow> bool" where
  "disjoint_spans e e' \<longleftrightarrow> fst e + length (snd e) \<le> fst e' \<or> fst e' + length (snd e') \<le> fst e"

definition store_prefix :: "(usize \<Rightarrow> u8) \<Rightarrow> usize \<Rightarrow> bytes \<Rightarrow> nat \<Rightarrow> usize \<Rightarrow> u8" where
  "store_prefix m a bs n x = (if a \<le> x \<and> x < a + min n (length bs) then bs ! (x - a) else m x)"

lemma holds_after_store: "holds (store_prefix m (fst e) (snd e) (length (snd e))) e"
  by (auto simp: holds_def store_prefix_def list_all_iff)

lemma holds_store_other:
  "disjoint_spans e e' \<Longrightarrow> holds m e \<Longrightarrow> holds (store_prefix m (fst e') (snd e') n) e"
proof -
  assume d: "disjoint_spans e e'" and h: "holds m e"
  have "store_prefix m (fst e') (snd e') n (fst e + i) = m (fst e + i)" if "i < length (snd e)" for i
    using that d by (auto simp: store_prefix_def disjoint_spans_def)
  with h show ?thesis by (simp add: holds_def list_all_iff)
qed

locale write_target =
  fixes wr :: "'s writer" and byte :: "'s \<Rightarrow> usize \<Rightarrow> u8"
  assumes write_ok: "wr s a bs = (Inr n, s') \<Longrightarrow> n \<le> length bs \<and> byte s' = store_prefix (byte s) a bs n"
    and write_err: "wr s a bs = (Inl e, s') \<Longrightarrow> \<exists>n. byte s' = store_prefix (byte s) a bs n"
begin

lemma write_prefix: "wr s a bs = (r, s') \<Longrightarrow> \<exists>n. byte s' = store_prefix (byte s) a bs n"
  by (cases r) (use write_ok write_err in blast)+

lemma write_full: "wr s (fst e) (snd e) = (Inr (length (snd e)), s') \<Longrightarrow> holds (byte s') e"
  using write_ok holds_after_store by metis

lemma apply_keeps:
  assumes "holds (byte s) e" "\<forall>e'\<in>set es. disjoint_spans e e'"
  shows "holds (byte (snd (apply_entries wr es ok s))) e"
  using assms
proof (induction es arbitrary: ok s)
  case (Cons e' es)
  obtain a bs where e': "e' = (a, bs)" by fastforce
  obtain r s' where w: "wr s a bs = (r, s')" by fastforce
  obtain n where "byte s' = store_prefix (byte s) (fst e') (snd e') n" using write_prefix[OF w] e' by auto
  then have "holds (byte s') e" using holds_store_other[of e e' "byte s" n] Cons.prems by simp
  then show ?case using Cons w by (cases r) (simp_all add: e')
qed simp

lemma apply_count_holds:
  assumes "pairwise disjoint_spans (set es)" "distinct es"
  shows "fst (apply_entries wr es ok s) \<le> ok + length (filter (holds (byte (snd (apply_entries wr es ok s)))) es)"
  using assms
proof (induction es arbitrary: ok s)
  case (Cons e es)
  obtain a bs where e: "e = (a, bs)" by fastforce
  have other: "\<forall>e'\<in>set es. disjoint_spans e e'" using Cons.prems by (auto simp: pairwise_def)
  have tl: "pairwise disjoint_spans (set es)" "distinct es" using Cons.prems by (auto simp: pairwise_def)
  obtain r s' where w: "wr s a bs = (r, s')" by fastforce
  show ?case
  proof (cases "r = Inr (length bs)")
    case True
    have "holds (byte (snd (apply_entries wr es (ok + 1) s'))) e"
      using write_full[of s e s'] w e True by (intro apply_keeps[OF _ other]) simp
    with w e True Cons.IH[OF tl, of "ok + 1" s'] show ?thesis by simp
  next
    case False
    with w e Cons.IH[OF tl, of ok s'] show ?thesis by (cases r) auto
  qed
qed simp

end

text \<open>The in-memory target's shared-reference write transfers nothing.\<close>

definition MockTarget_write :: "'s writer" where
  "MockTarget_write s addr buf = (Inr 0, s)"

interpretation mock_writer: write_target MockTarget_write byte for byte
  by unfold_locales (auto simp: MockTarget_write_def store_prefix_def fun_eq_iff)

section \<open>Properties\<close>

text \<open>
  A freeze set is a finite map from addresses to bytes: setting replaces or adds one address, removing
  drops one address, and no address is ever held twice.
\<close>

theorem FreezeSet_is_map:
  assumes "wf_freeze f"
  shows "wf_freeze (FreezeSet_set f a bs) \<and> frozen (FreezeSet_set f a bs) = (frozen f)(a \<mapsto> bs)
    \<and> wf_freeze (FreezeSet_remove f a) \<and> frozen (FreezeSet_remove f a) = (frozen f)(a := None)"
  using assms wf_set frozen_set wf_remove frozen_remove by (auto simp: fun_eq_iff)

theorem FreezeSet_is_map_witness:
  "frozen (FreezeSet_remove (FreezeSet_set FreezeSet_new 5 [1]) 5) 5 = None"
  using FreezeSet_is_map[of "FreezeSet_set FreezeSet_new 5 [1]" 5 "[]"]
  by (simp add: wf_freeze_def FreezeSet_set_def FreezeSet_new_def)

text \<open>
  On a memory target whose writes store a prefix and report its length, whatever errors they return, applying a freeze set never fails as a
  whole, and when the frozen spans do not overlap it counts no more entries than hold
  their bytes in memory afterwards, whatever writes failed or came short in between.
\<close>

theorem FreezeSet_apply_pins:
  assumes "write_target wr byte" "wf_freeze f" "pairwise disjoint_spans (set (fz_entries f))"
  shows "\<exists>ok s'. FreezeSet_apply f wr s = (Inr ok, s') \<and> ok \<le> length (filter (holds (byte s')) (fz_entries f))"
proof -
  have "distinct (fz_entries f)" using assms(2) by (simp add: wf_freeze_def distinct_map)
  from write_target.apply_count_holds[OF assms(1,3) this, of 0 s] show ?thesis
    by (auto simp: FreezeSet_apply_def split: prod.split)
qed

theorem FreezeSet_apply_pins_witness:
  "\<exists>ok m'. FreezeSet_apply \<lparr>fz_entries = [(4, [1, 2]), (6, [3])]\<rparr>
       (\<lambda>m a bs. (Inr (length bs), store_prefix m a bs (length bs))) (\<lambda>_. 0) = (Inr ok, m')
     \<and> ok \<le> length (filter (holds m') [(4, [1, 2]), (6, [3])]) \<and> ok = 2"
proof -
  have "write_target (\<lambda>m a bs. (Inr (length bs), store_prefix m a bs (length bs))) (\<lambda>m. m)"
    by unfold_locales auto
  from FreezeSet_apply_pins[OF this, of "\<lparr>fz_entries = [(4, [1, 2]), (6, [3])]\<rparr>" "\<lambda>_. 0"]
  show ?thesis
    by (auto simp: wf_freeze_def pairwise_def disjoint_spans_def FreezeSet_apply_def)
qed

end
