(* ===== verification/Pointer_Scan.thy ===== *)
theory Pointer_Scan
  imports Target Rust_Text
begin

text \<open>
  The reverse pointer scan (nemclass-scan/src/pointerscan.rs): harvesting the pointers of a
  target into a value-sorted index, and the bounded depth-first search from a goal back to
  static anchors.

  \<open>sort_unstable_by_key\<close> of the standard library fixes the order of equal keys by nothing; it is
  a parameter \<open>srt\<close> with the documented laws of the locale \<open>unstable_sort\<close>.
\<close>

section \<open>Configuration and paths\<close>

record pointer_scan_config =
  pc_max_depth :: nat
  pc_max_offset :: nat
  pc_alignment :: nat
  pc_pointer_size :: nat
  pc_static_ranges :: "region list"
  pc_max_results :: nat
  pc_max_map_entries :: nat

definition PointerScanConfig_default :: pointer_scan_config where
  "PointerScanConfig_default =
     \<lparr>pc_max_depth = 5, pc_max_offset = 0x1000, pc_alignment = 4, pc_pointer_size = 8,
      pc_static_ranges = [], pc_max_results = 5000, pc_max_map_entries = 8000000\<rparr>"

record pointer_path =
  pp_base :: usize
  pp_offsets :: "usize list"

type_synonym ptr_reader = "usize \<Rightarrow> usize option"

text \<open>The loop of \<open>PointerPath::resolve\<close>: the last offset is added without a dereference.\<close>

fun resolve_hops :: "ptr_reader \<Rightarrow> usize list \<Rightarrow> usize \<Rightarrow> usize option" where
  "resolve_hops rd [] addr = Some addr"
| "resolve_hops rd (off # offs) addr =
     (case checked_add addr off of
        None \<Rightarrow> None
      | Some stepped \<Rightarrow>
          if offs \<noteq> [] then
            (case rd stepped of None \<Rightarrow> None | Some a \<Rightarrow> resolve_hops rd offs a)
          else resolve_hops rd offs stepped)"

definition PointerPath_resolve :: "pointer_path \<Rightarrow> ptr_reader \<Rightarrow> usize option" where
  "PointerPath_resolve p rd =
     (case rd (pp_base p) of None \<Rightarrow> None | Some addr \<Rightarrow> resolve_hops rd (pp_offsets p) addr)"

definition PointerPath_to_formula :: "pointer_path \<Rightarrow> string \<Rightarrow> usize \<Rightarrow> string" where
  "PointerPath_to_formula p module_name module_base =
     (let base_off = wrapping_sub (pp_base p) module_base;
          expr = (if base_off = 0 then ''<'' @ module_name @ ''>''
                  else ''<'' @ module_name @ ''> + 0x'' @ format_hex base_off)
      in foldl (\<lambda>expr off. ''['' @ expr @ ''] + 0x'' @ format_hex off) expr (pp_offsets p))"

record pointer_scan_result =
  pr_paths :: "pointer_path list"
  pr_truncated :: bool

section \<open>Words and ranges\<close>

definition read_word :: "bytes \<Rightarrow> usize" where
  "read_word bs = unat (accumulate 0 (take 8 bs) (0 :: 64 word))"

definition is_mapped :: "(usize \<times> usize) list \<Rightarrow> usize \<Rightarrow> bool" where
  "is_mapped ranges addr =
     (let idx = partition_point (\<lambda>(base, _). base \<le> addr) ranges
      in idx > 0 \<and> addr < snd (ranges ! (idx - 1)))"

definition region_pairs :: "region list \<Rightarrow> (usize \<times> usize) list" where
  "region_pairs rs = sort (map (\<lambda>r. (rg_base r, Region_end r)) rs)"

definition static_ranges_sorted :: "pointer_scan_config \<Rightarrow> (usize \<times> usize) list" where
  "static_ranges_sorted cfg = region_pairs (pc_static_ranges cfg)"

section \<open>Harvesting\<close>

record pointer_map =
  pm_entries :: "(usize \<times> usize) list"
  pm_truncated :: bool

definition PTR_CHUNK :: nat where "PTR_CHUNK = 2 ^ 20"

text \<open>
  The scan of one chunk from offset \<open>i\<close>; the flag says that the entry limit was reached. The alignment is
  positive: the caller takes the maximum with one.
\<close>

function harvest_chunk ::
  "(usize \<times> usize) list \<Rightarrow> nat \<Rightarrow> nat \<Rightarrow> nat \<Rightarrow> usize \<Rightarrow> bytes \<Rightarrow> nat \<Rightarrow> (usize \<times> usize) list \<Rightarrow>
   bool \<times> (usize \<times> usize) list" where
  "harvest_chunk ranges psize align limit pos buf i entries =
     (if i + psize \<le> length buf \<and> 0 < align then
        let addr = pos + i;
            val = read_word (slice buf i psize)
        in if is_mapped ranges val then
             let entries = entries @ [(val, addr)]
             in if length entries \<ge> limit then (True, entries)
                else harvest_chunk ranges psize align limit pos buf (i + align) entries
           else harvest_chunk ranges psize align limit pos buf (i + align) entries
      else (False, entries))"
  by pat_completeness auto
termination
  by (relation "measure (\<lambda>(_, _, _, _, _, buf, i, _). Suc (length buf) - i)") auto

declare harvest_chunk.simps [simp del]

text \<open>
  The chunks of one region from \<open>pos\<close> on; \<open>None\<close> is the overflow of the rounding at the top of the
  address space.
\<close>

function harvest_region ::
  "(usize \<Rightarrow> nat \<Rightarrow> core_error + bytes) \<Rightarrow> (usize \<times> usize) list \<Rightarrow> nat \<Rightarrow> nat \<Rightarrow> nat \<Rightarrow> usize \<Rightarrow> usize \<Rightarrow>
   (usize \<times> usize) list \<Rightarrow> (core_error + bool \<times> (usize \<times> usize) list) option" where
  "harvest_region rd ranges psize align limit stop pos entries =
     (if pos < stop then
        let want = min (stop - pos) (PTR_CHUNK + psize)
        in case rd pos want of
             Inl e \<Rightarrow> Some (Inl e)
           | Inr buf \<Rightarrow>
               if length buf < psize then Some (Inr (False, entries))
               else
                 (case checked_next_multiple_of pos align of
                    None \<Rightarrow> None
                  | Some aligned \<Rightarrow>
                      (case harvest_chunk ranges psize align limit pos buf (aligned - pos) entries of
                         (True, entries) \<Rightarrow> Some (Inr (True, entries))
                       | (False, entries) \<Rightarrow>
                           if want \<le> psize then Some (Inr (False, entries))
                           else harvest_region rd ranges psize align limit stop (pos + (want - psize)) entries))
      else Some (Inr (False, entries)))"
  by pat_completeness auto
termination
  by (relation "measure (\<lambda>(_, _, _, _, _, e, p, _). e - p)") auto

declare harvest_region.simps [simp del]

fun harvest_regions ::
  "(usize \<Rightarrow> nat \<Rightarrow> core_error + bytes) \<Rightarrow> (usize \<times> usize) list \<Rightarrow> nat \<Rightarrow> nat \<Rightarrow> nat \<Rightarrow> region list \<Rightarrow>
   (usize \<times> usize) list \<Rightarrow> (core_error + bool \<times> (usize \<times> usize) list) option" where
  "harvest_regions rd ranges psize align limit [] entries = Some (Inr (False, entries))"
| "harvest_regions rd ranges psize align limit (r # rs) entries =
     (case harvest_region rd ranges psize align limit (Region_end r) (rg_base r) entries of
        None \<Rightarrow> None
      | Some (Inl e) \<Rightarrow> Some (Inl e)
      | Some (Inr (True, entries)) \<Rightarrow> Some (Inr (True, entries))
      | Some (Inr (False, entries)) \<Rightarrow> harvest_regions rd ranges psize align limit rs entries)"

type_synonym entry_sort = "(usize \<times> usize) list \<Rightarrow> (usize \<times> usize) list"

definition PointerMap_build :: "entry_sort \<Rightarrow> target \<Rightarrow> pointer_scan_config \<Rightarrow> (core_error + pointer_map) option" where
  "PointerMap_build srt t cfg =
     (case tg_regions t of
        Inl e \<Rightarrow> Some (Inl e)
      | Inr regions \<Rightarrow>
          let ranges = region_pairs regions;
              psize = max (pc_pointer_size cfg) 1;
              align = max (pc_alignment cfg) 1
          in (case harvest_regions (tg_read t) ranges psize align (pc_max_map_entries cfg) regions [] of
                None \<Rightarrow> None
              | Some (Inl e) \<Rightarrow> Some (Inl e)
              | Some (Inr (trunc, entries)) \<Rightarrow>
                  Some (Inr \<lparr>pm_entries = remdups_adj (srt entries), pm_truncated = trunc\<rparr>)))"

section \<open>Searching\<close>

text \<open>\<open>PointerMap::range\<close>.\<close>

definition pm_range :: "pointer_map \<Rightarrow> usize \<Rightarrow> usize \<Rightarrow> (usize \<times> usize) list" where
  "pm_range pm lo hi =
     (let start = partition_point (\<lambda>(v, _). v < lo) (pm_entries pm)
      in takeWhile (\<lambda>(v, _). v \<le> hi) (drop start (pm_entries pm)))"

record solve_state =
  sv_visited :: "usize set"
  sv_out :: "pointer_path list"
  sv_truncated :: bool

text \<open>The loop over the pointers that land just below the goal; \<open>descend\<close> is the recursive call.\<close>

fun hop_loop ::
  "(usize \<Rightarrow> usize list \<Rightarrow> solve_state \<Rightarrow> solve_state) \<Rightarrow> pointer_scan_config \<Rightarrow> (usize \<times> usize) list \<Rightarrow>
   usize \<Rightarrow> usize list \<Rightarrow> (usize \<times> usize) list \<Rightarrow> solve_state \<Rightarrow> solve_state" where
  "hop_loop descend cfg statics goal suffix [] st = st"
| "hop_loop descend cfg statics goal suffix ((val, addr) # es) st =
     (if length (sv_out st) \<ge> pc_max_results cfg then st\<lparr>sv_truncated := True\<rparr>
      else
        let off = goal - val;
            chain = off # suffix
        in if is_mapped statics addr then
             hop_loop descend cfg statics goal suffix es
               (st\<lparr>sv_out := sv_out st @ [\<lparr>pp_base = addr, pp_offsets = chain\<rparr>]\<rparr>)
           else hop_loop descend cfg statics goal suffix es (descend addr (off # suffix) st))"

primrec solve ::
  "pointer_map \<Rightarrow> pointer_scan_config \<Rightarrow> (usize \<times> usize) list \<Rightarrow> nat \<Rightarrow> usize \<Rightarrow> usize list \<Rightarrow> solve_state \<Rightarrow> solve_state" where
  "solve pm cfg statics 0 = (\<lambda>goal suffix st.
     if length (sv_out st) \<ge> pc_max_results cfg then st\<lparr>sv_truncated := True\<rparr> else st)"
| "solve pm cfg statics (Suc depth) = (\<lambda>goal suffix st.
     if length (sv_out st) \<ge> pc_max_results cfg then st\<lparr>sv_truncated := True\<rparr>
     else if goal \<in> sv_visited st then st
     else
       let st = st\<lparr>sv_visited := insert goal (sv_visited st)\<rparr>;
           lo = saturating_sub goal (pc_max_offset cfg);
           st = hop_loop (solve pm cfg statics depth) cfg statics goal suffix (pm_range pm lo goal) st
       in st\<lparr>sv_visited := sv_visited st - {goal}\<rparr>)"

definition find_paths :: "pointer_map \<Rightarrow> usize \<Rightarrow> pointer_scan_config \<Rightarrow> pointer_scan_result" where
  "find_paths pm goal cfg =
     (let st = solve pm cfg (static_ranges_sorted cfg) (pc_max_depth cfg) goal []
                 \<lparr>sv_visited = {}, sv_out = [], sv_truncated = False\<rparr>
      in \<lparr>pr_paths = sv_out st, pr_truncated = sv_truncated st\<rparr>)"

definition pointer_scan ::
  "entry_sort \<Rightarrow> target \<Rightarrow> usize \<Rightarrow> pointer_scan_config \<Rightarrow> (core_error + pointer_scan_result) option" where
  "pointer_scan srt t goal cfg =
     (case PointerMap_build srt t cfg of
        None \<Rightarrow> None
      | Some (Inl e) \<Rightarrow> Some (Inl e)
      | Some (Inr pm) \<Rightarrow>
          let result = find_paths pm goal cfg
          in Some (Inr (result\<lparr>pr_truncated := pr_truncated result \<or> pm_truncated pm\<rparr>)))"

section \<open>Words and ranges, specified\<close>

lemma read_word_le_nat: "length bs \<le> 8 \<Longrightarrow> read_word bs = le_nat bs"
proof -
  assume len: "length bs \<le> 8"
  have "le_nat bs < 2 ^ (8 * length bs)" by (rule le_nat_bound_bits)
  also have "\<dots> \<le> 2 ^ 64" using len by (intro power_increasing) auto
  finally show ?thesis using len by (simp add: read_word_def accumulate_le_nat unat_of_nat)
qed

lemma read_word_bound: "read_word bs \<le> USIZE_MAX"
  using unsigned_less[of "accumulate 0 (take 8 bs) (0 :: 64 word)", where 'a = nat]
  by (simp add: read_word_def USIZE_MAX_def)

lemma takeWhile_sorted_filter:
  "sorted (map fst xs) \<Longrightarrow> takeWhile (\<lambda>e. fst e \<le> hi) xs = filter (\<lambda>e. fst e \<le> (hi::nat)) xs"
  by (induction xs) (auto intro!: filter_False[symmetric])

lemma dropWhile_sorted_filter:
  "sorted (map fst xs) \<Longrightarrow> dropWhile (\<lambda>e. fst e < lo) xs = filter (\<lambda>e. (lo::nat) \<le> fst e) xs"
  by (induction xs) (auto intro!: filter_True[symmetric])

lemma pm_range_filter:
  assumes "sorted (map fst (pm_entries pm))"
  shows "pm_range pm lo hi = filter (\<lambda>e. lo \<le> fst e \<and> fst e \<le> hi) (pm_entries pm)"
proof -
  have d: "drop (length (takeWhile (\<lambda>e. fst e < lo) (pm_entries pm))) (pm_entries pm)
      = filter (\<lambda>e. lo \<le> fst e) (pm_entries pm)"
    using dropWhile_sorted_filter[OF assms] by (simp add: dropWhile_eq_drop[symmetric])
  have "sorted (map fst (filter (\<lambda>e. lo \<le> fst e) (pm_entries pm)))"
    using assms by (rule sorted_filter)
  from takeWhile_sorted_filter[OF this, of hi] show ?thesis
    by (simp add: pm_range_def partition_point_def Let_def d case_prod_unfold)
qed

text \<open>
  A pointer chain, read from the goal upwards: each hop is an entry of the index that points at most
  \<open>max_offset\<close> below the address it has to reach, no address is reached twice, only the anchor is
  static.
\<close>

fun chain ::
  "(usize \<times> usize) set \<Rightarrow> nat \<Rightarrow> (usize \<times> usize) list \<Rightarrow> usize set \<Rightarrow> nat \<Rightarrow> usize \<Rightarrow> usize list \<Rightarrow> usize \<Rightarrow> bool" where
  "chain E mo statics vis d goal [] base = False"
| "chain E mo statics vis d goal (off # rs) base =
     (0 < d \<and> goal \<notin> vis \<and> off \<le> mo \<and> off \<le> goal
      \<and> (\<exists>a. (goal - off, a) \<in> E
           \<and> (if rs = [] then a = base \<and> is_mapped statics a
              else \<not> is_mapped statics a \<and> chain E mo statics (insert goal vis) (d - 1) a rs base)))"

definition chain_paths ::
  "pointer_map \<Rightarrow> pointer_scan_config \<Rightarrow> (usize \<times> usize) list \<Rightarrow> usize set \<Rightarrow> nat \<Rightarrow> usize \<Rightarrow> usize list \<Rightarrow> pointer_path set" where
  "chain_paths pm cfg statics vis d goal suffix =
     {\<lparr>pp_base = base, pp_offsets = rev rs @ suffix\<rparr> | rs base.
        chain (set (pm_entries pm)) (pc_max_offset cfg) statics vis d goal rs base}"

text \<open>One hop of the specification.\<close>

definition hop_paths ::
  "pointer_map \<Rightarrow> pointer_scan_config \<Rightarrow> (usize \<times> usize) list \<Rightarrow> usize set \<Rightarrow> nat \<Rightarrow> usize \<Rightarrow> usize list \<Rightarrow>
   usize \<times> usize \<Rightarrow> pointer_path set" where
  "hop_paths pm cfg statics vis d goal suffix e =
     (if is_mapped statics (snd e) then {\<lparr>pp_base = snd e, pp_offsets = (goal - fst e) # suffix\<rparr>}
      else chain_paths pm cfg statics (insert goal vis) d (snd e) ((goal - fst e) # suffix))"

lemma chain_paths_0: "chain_paths pm cfg statics vis 0 goal suffix = {}"
proof -
  have "\<not> chain E mo statics vis 0 goal rs base" for E mo rs base by (cases rs) auto
  then show ?thesis by (simp add: chain_paths_def)
qed

lemma chain_paths_visited: "goal \<in> vis \<Longrightarrow> chain_paths pm cfg statics vis d goal suffix = {}"
proof -
  assume "goal \<in> vis"
  then have "\<not> chain E mo statics vis d goal rs base" for E mo rs base by (cases rs) auto
  then show ?thesis by (simp add: chain_paths_def)
qed

lemma chain_paths_Suc:
  assumes "sorted (map fst (pm_entries pm))" "goal \<notin> vis"
  shows "chain_paths pm cfg statics vis (Suc d) goal suffix =
     (\<Union>e\<in>set (pm_range pm (saturating_sub goal (pc_max_offset cfg)) goal). hop_paths pm cfg statics vis d goal suffix e)"
    (is "?L = ?R")
proof (intro set_eqI iffI)
  let ?E = "set (pm_entries pm)" and ?mo = "pc_max_offset cfg"
  have mem: "e \<in> set (pm_range pm (saturating_sub goal ?mo) goal)
      \<longleftrightarrow> e \<in> ?E \<and> goal - ?mo \<le> fst e \<and> fst e \<le> goal" for e
    by (auto simp: pm_range_filter[OF assms(1)] saturating_sub_def)
  fix p assume "p \<in> ?L"
  then obtain rs base where p: "p = \<lparr>pp_base = base, pp_offsets = rev rs @ suffix\<rparr>"
    and c: "chain ?E ?mo statics vis (Suc d) goal rs base" by (auto simp: chain_paths_def)
  then obtain off rs' where rs: "rs = off # rs'" by (cases rs) auto
  with c obtain a where a: "off \<le> ?mo" "off \<le> goal" "(goal - off, a) \<in> ?E"
    "if rs' = [] then a = base \<and> is_mapped statics a
     else \<not> is_mapped statics a \<and> chain ?E ?mo statics (insert goal vis) d a rs' base"
    unfolding rs chain.simps diff_Suc_1 by blast
  have "p \<in> hop_paths pm cfg statics vis d goal suffix (goal - off, a)"
    using a(2,4) by (cases "rs' = []") (force simp: hop_paths_def chain_paths_def p rs)+
  moreover have "(goal - off, a) \<in> set (pm_range pm (saturating_sub goal ?mo) goal)"
    using a by (simp add: mem)
  ultimately show "p \<in> ?R" by blast
next
  let ?E = "set (pm_entries pm)" and ?mo = "pc_max_offset cfg"
  fix p assume "p \<in> ?R"
  then obtain v a where e: "(v, a) \<in> ?E" "goal - ?mo \<le> v" "v \<le> goal"
    and h: "p \<in> hop_paths pm cfg statics vis d goal suffix (v, a)"
    by (auto simp: pm_range_filter[OF assms(1)] saturating_sub_def)
  show "p \<in> ?L"
  proof (cases "is_mapped statics a")
    case True
    then have "chain ?E ?mo statics vis (Suc d) goal [goal - v] a" using e assms(2) by auto
    moreover have "p = \<lparr>pp_base = a, pp_offsets = rev [goal - v] @ suffix\<rparr>" using h True by (simp add: hop_paths_def)
    ultimately show ?thesis unfolding chain_paths_def by blast
  next
    case False
    then obtain rs base where p: "p = \<lparr>pp_base = base, pp_offsets = rev rs @ (goal - v) # suffix\<rparr>"
      and c: "chain ?E ?mo statics (insert goal vis) d a rs base" using h by (auto simp: hop_paths_def chain_paths_def)
    then have "rs \<noteq> []" by auto
    then have "chain ?E ?mo statics vis (Suc d) goal ((goal - v) # rs) base" using c e False assms(2) by auto
    moreover have "p = \<lparr>pp_base = base, pp_offsets = rev ((goal - v) # rs) @ suffix\<rparr>" using p by simp
    ultimately show ?thesis unfolding chain_paths_def by blast
  qed
qed

section \<open>The search, specified\<close>

text \<open>
  A step of the search adds paths of a set to the output, all of them unless it reports truncation; it restores the
  visited set and never outgrows the result limit.
\<close>

definition extends :: "nat \<Rightarrow> solve_state \<Rightarrow> solve_state \<Rightarrow> pointer_path set \<Rightarrow> bool" where
  "extends lim st st' S \<longleftrightarrow>
     (\<exists>new. sv_out st' = sv_out st @ new \<and> set new \<subseteq> S \<and> (\<not> sv_truncated st' \<longrightarrow> set new = S))
     \<and> sv_visited st' = sv_visited st \<and> (sv_truncated st \<longrightarrow> sv_truncated st')
     \<and> length (sv_out st') \<le> max (length (sv_out st)) lim"

lemma extends_refl: "extends lim st st {}"
  by (simp add: extends_def)

lemma extends_truncate: "extends lim st (st\<lparr>sv_truncated := True\<rparr>) S"
  by (simp add: extends_def)

lemma extends_push:
  "length (sv_out st) < lim \<Longrightarrow> extends lim st (st\<lparr>sv_out := sv_out st @ [p]\<rparr>) {p}"
  by (simp add: extends_def)

lemma extends_trans:
  assumes "extends lim st st1 A" "extends lim st1 st2 B"
  shows "extends lim st st2 (A \<union> B)"
proof -
  obtain n1 where n1: "sv_out st1 = sv_out st @ n1" "set n1 \<subseteq> A" "\<not> sv_truncated st1 \<Longrightarrow> set n1 = A"
    using assms(1) by (auto simp: extends_def)
  obtain n2 where n2: "sv_out st2 = sv_out st1 @ n2" "set n2 \<subseteq> B" "\<not> sv_truncated st2 \<Longrightarrow> set n2 = B"
    using assms(2) by (auto simp: extends_def)
  have "\<exists>new. sv_out st2 = sv_out st @ new \<and> set new \<subseteq> A \<union> B \<and> (\<not> sv_truncated st2 \<longrightarrow> set new = A \<union> B)"
    using n1 n2 assms(2) by (intro exI[of _ "n1 @ n2"]) (auto simp: extends_def)
  moreover have "length (sv_out st2) \<le> max (length (sv_out st)) lim"
    using assms unfolding extends_def by linarith
  ultimately show ?thesis using assms by (simp add: extends_def)
qed

lemma hop_loop_extends:
  assumes "\<And>a sfx st. sv_visited st = insert goal vis \<Longrightarrow>
      extends (pc_max_results cfg) st (descend a sfx st) (chain_paths pm cfg statics (insert goal vis) d a sfx)"
    and "sv_visited st = insert goal vis"
  shows "extends (pc_max_results cfg) st (hop_loop descend cfg statics goal suffix es st)
           (\<Union>e\<in>set es. hop_paths pm cfg statics vis d goal suffix e)"
  using assms(2)
proof (induction es arbitrary: st)
  case (Cons e es)
  obtain val addr where e: "e = (val, addr)" by fastforce
  show ?case
  proof (cases "length (sv_out st) \<ge> pc_max_results cfg")
    case True
    then show ?thesis by (simp add: e extends_truncate)
  next
    case False
    define st1 where "st1 = (if is_mapped statics addr
      then st\<lparr>sv_out := sv_out st @ [\<lparr>pp_base = addr, pp_offsets = (goal - val) # suffix\<rparr>]\<rparr>
      else descend addr ((goal - val) # suffix) st)"
    have 1: "extends (pc_max_results cfg) st st1 (hop_paths pm cfg statics vis d goal suffix e)"
      using False assms(1)[OF Cons.prems] extends_push by (simp add: st1_def hop_paths_def e)
    then have "sv_visited st1 = insert goal vis" using Cons.prems by (simp add: extends_def)
    from extends_trans[OF 1 Cons.IH[OF this]] False show ?thesis
      by (simp add: e st1_def Let_def split: if_splits)
  qed
qed (simp add: extends_refl)

lemma solve_extends:
  assumes "sorted (map fst (pm_entries pm))"
  shows "extends (pc_max_results cfg) st (solve pm cfg statics d goal suffix st)
           (chain_paths pm cfg statics (sv_visited st) d goal suffix)"
proof (induction d arbitrary: goal suffix st)
  case 0
  then show ?case by (simp add: extends_truncate extends_refl chain_paths_0)
next
  case (Suc d)
  let ?vis = "sv_visited st" and ?st = "st\<lparr>sv_visited := insert goal (sv_visited st)\<rparr>"
  consider "length (sv_out st) \<ge> pc_max_results cfg" | "goal \<in> ?vis" "\<not> length (sv_out st) \<ge> pc_max_results cfg"
    | (go) "goal \<notin> ?vis" "\<not> length (sv_out st) \<ge> pc_max_results cfg" by blast
  then show ?case
  proof cases
    case go
    let ?st' = "hop_loop (solve pm cfg statics d) cfg statics goal suffix
        (pm_range pm (saturating_sub goal (pc_max_offset cfg)) goal) ?st"
    have vis: "sv_visited ?st = insert goal ?vis" by simp
    have "extends (pc_max_results cfg) st2 (solve pm cfg statics d a sfx st2)
        (chain_paths pm cfg statics (insert goal ?vis) d a sfx)" if "sv_visited st2 = insert goal ?vis" for a sfx st2
      using Suc[where st = st2] that by simp
    then have "extends (pc_max_results cfg) ?st ?st' (chain_paths pm cfg statics ?vis (Suc d) goal suffix)"
      unfolding chain_paths_Suc[OF assms go(1)] by (rule hop_loop_extends[OF _ vis])
    then have "extends (pc_max_results cfg) st (?st'\<lparr>sv_visited := sv_visited ?st' - {goal}\<rparr>)
        (chain_paths pm cfg statics ?vis (Suc d) goal suffix)"
      using go(1) by (simp add: extends_def)
    with go show ?thesis by (simp add: Let_def)
  qed (simp_all add: extends_truncate extends_refl chain_paths_visited)
qed

section \<open>Chains resolve\<close>

lemma resolve_append:
  assumes "xs \<noteq> []" "ys \<noteq> []"
  shows "resolve_hops rd (xs @ ys) a =
     (case resolve_hops rd xs a of
        None \<Rightarrow> None
      | Some b \<Rightarrow> (case rd b of None \<Rightarrow> None | Some c \<Rightarrow> resolve_hops rd ys c))"
  using assms(1)
proof (induction xs arbitrary: a)
  case (Cons x xs)
  then show ?case using assms(2) by (cases "xs = []") (auto split: option.splits)
qed simp

text \<open>The reader returns what the index says, and both are machine addresses.\<close>

definition reads_index :: "(usize \<times> usize) set \<Rightarrow> ptr_reader \<Rightarrow> bool" where
  "reads_index E rd \<longleftrightarrow> (\<forall>(v, a)\<in>E. rd a = Some v \<and> a \<le> USIZE_MAX)"

lemma chain_resolves:
  assumes "chain E mo statics vis d goal rs base" "reads_index E rd" "goal \<le> USIZE_MAX"
  shows "PointerPath_resolve \<lparr>pp_base = base, pp_offsets = rev rs\<rparr> rd = Some goal"
  using assms(1,3)
proof (induction rs arbitrary: vis d goal)
  case (Cons off rs)
  then obtain a where a: "off \<le> goal" "(goal - off, a) \<in> E" "rs = [] \<Longrightarrow> a = base"
    "rs \<noteq> [] \<Longrightarrow> chain E mo statics (insert goal vis) (d - 1) a rs base" by (auto split: if_splits)
  have rd: "rd a = Some (goal - off)" "a \<le> USIZE_MAX" using a(2) assms(2) by (auto simp: reads_index_def)
  have add: "checked_add (goal - off) off = Some goal" using a(1) Cons.prems(2) by (simp add: checked_add_def)
  show ?case
  proof (cases "rs = []")
    case True
    then show ?thesis using a(3) rd add by (simp add: PointerPath_resolve_def)
  next
    case False
    with Cons.IH[OF a(4) rd(2)] rd(1) add show ?thesis
      by (auto simp: PointerPath_resolve_def resolve_append split: option.splits)
  qed
qed simp

lemma chain_shape:
  assumes "chain E mo statics vis d goal rs base"
  shows "rs \<noteq> []" "length rs \<le> d" "\<forall>off\<in>set rs. off \<le> mo" "is_mapped statics base"
proof -
  have "length rs \<le> d \<and> (\<forall>off\<in>set rs. off \<le> mo) \<and> is_mapped statics base"
    using assms by (induction rs arbitrary: vis d goal) (fastforce split: if_splits)+
  then show "length rs \<le> d" "\<forall>off\<in>set rs. off \<le> mo" "is_mapped statics base" by auto
  show "rs \<noteq> []" using assms by auto
qed

section \<open>Ranges\<close>

lemma is_mapped_iff:
  assumes "sorted_wrt (\<lambda>x y. fst x \<le> fst y \<and> snd x \<le> fst y) ranges"
  shows "is_mapped ranges addr \<longleftrightarrow> (\<exists>(b, e)\<in>set ranges. b \<le> addr \<and> addr < e)"
  using assms
proof (induction ranges)
  case (Cons r ranges)
  let ?P = "\<lambda>(base, _). base \<le> addr"
  have step: "is_mapped (r # ranges) addr \<longleftrightarrow> ?P r \<and>
      (if takeWhile ?P ranges = [] then addr < snd r else is_mapped ranges addr)"
    by (cases "takeWhile ?P ranges") (auto simp: is_mapped_def partition_point_def Let_def)
  show ?case
  proof (cases "takeWhile ?P ranges = []")
    case True
    then have "\<not> (\<exists>(b, e)\<in>set ranges. b \<le> addr \<and> addr < e)"
      using Cons.prems by (cases ranges) (auto split: if_splits)
    then show ?thesis unfolding step using True by (auto simp: case_prod_unfold)
  next
    case False
    then obtain r2 rest where r2: "ranges = r2 # rest" "fst r2 \<le> addr" by (cases ranges) (auto split: if_splits)
    then have "fst r \<le> addr" "\<not> addr < snd r" using Cons.prems by auto
    then show ?thesis unfolding step using False Cons by (auto simp: case_prod_unfold)
  qed
qed (simp add: is_mapped_def partition_point_def)

section \<open>Harvesting, specified\<close>

definition mem_word :: "(usize \<Rightarrow> u8) \<Rightarrow> nat \<Rightarrow> usize \<Rightarrow> usize" where
  "mem_word mem psize a = read_word (map mem [a..<a + psize])"

text \<open>The pointers held at the aligned addresses of a range.\<close>

definition pointers_in ::
  "(usize \<Rightarrow> u8) \<Rightarrow> (usize \<times> usize) list \<Rightarrow> nat \<Rightarrow> nat \<Rightarrow> usize \<Rightarrow> usize \<Rightarrow> (usize \<times> usize) set" where
  "pointers_in mem ranges psize align lo hi =
     {(mem_word mem psize a, a) | a. lo \<le> a \<and> align dvd a \<and> a + psize \<le> hi \<and> is_mapped ranges (mem_word mem psize a)}"

text \<open>Entries of a set are appended, all of them unless the limit flag is set.\<close>

definition appends :: "'a list \<Rightarrow> bool \<Rightarrow> 'a list \<Rightarrow> 'a set \<Rightarrow> bool" where
  "appends es t es' S \<longleftrightarrow> (\<exists>new. es' = es @ new \<and> set new \<subseteq> S \<and> (\<not> t \<longrightarrow> set new = S))"

lemma appends_refl: "appends es t es {}"
  by (simp add: appends_def)

lemma appends_trans:
  assumes "appends es False es1 A" "appends es1 t es2 B"
  shows "appends es t es2 (A \<union> B)"
proof -
  obtain n1 n2 where "es1 = es @ n1" "set n1 = A" "es2 = es1 @ n2" "set n2 \<subseteq> B" "\<not> t \<longrightarrow> set n2 = B"
    using assms unfolding appends_def by blast
  then show ?thesis unfolding appends_def by (intro exI[of _ "n1 @ n2"]) auto
qed

lemma appends_stop: "appends es True es' A \<Longrightarrow> A \<subseteq> B \<Longrightarrow> appends es True es' B"
  by (auto simp: appends_def)

lemma pointers_in_empty: "hi < lo + psize \<Longrightarrow> pointers_in mem ranges psize align lo hi = {}"
  by (auto simp: pointers_in_def)

lemma pointers_in_step:
  assumes "0 < align" "align dvd lo" "lo + psize \<le> hi"
  shows "pointers_in mem ranges psize align lo hi =
     (if is_mapped ranges (mem_word mem psize lo) then {(mem_word mem psize lo, lo)} else {})
     \<union> pointers_in mem ranges psize align (lo + align) hi"
proof -
  have "a = lo \<or> lo + align \<le> a" if "lo \<le> a" "align dvd a" for a
    using that assms(1,2) by (metis dvd_diff_nat dvd_imp_le le_add_diff_inverse less_add_same_cancel1
        nat_less_le zero_less_diff add_le_cancel_left)
  then show ?thesis using assms by (auto simp: pointers_in_def)
qed

lemma pointers_in_aligned:
  assumes "0 < align"
  shows "pointers_in mem ranges psize align lo hi = pointers_in mem ranges psize align (next_multiple_of lo align) hi"
  using next_multiple_of_least[OF assms] next_multiple_of_ge[of lo align]
  by (auto simp: pointers_in_def intro: order_trans)

lemma pointers_in_chunks:
  assumes "lo + w \<le> hi" "psize \<le> w"
  shows "pointers_in mem ranges psize align lo hi =
     pointers_in mem ranges psize align lo (lo + w) \<union> pointers_in mem ranges psize align (lo + (w - psize)) hi"
proof -
  have "a + psize \<le> lo + w \<or> lo + (w - psize) \<le> a" for a using assms(2) by linarith
  then show ?thesis using assms by (fastforce simp: pointers_in_def)
qed

lemma harvest_chunk_appends:
  assumes "harvest_chunk ranges psize align limit pos (map mem [pos..<pos + n]) i es = (t, es')"
    "0 < align" "align dvd pos + i"
  shows "appends es t es' (pointers_in mem ranges psize align (pos + i) (pos + n))"
  using assms(1,3)
proof (induction "Suc n - i" arbitrary: i es rule: less_induct)
  case less
  let ?buf = "map mem [pos..<pos + n]" and ?P = "\<lambda>lo. pointers_in mem ranges psize align lo (pos + n)"
  note unfold = harvest_chunk.simps[of ranges psize align limit pos ?buf i es]
  show ?case
  proof (cases "i + psize \<le> n")
    case False
    then show ?thesis using less.prems unfold by (simp add: pointers_in_empty appends_refl)
  next
    case True
    have w: "read_word (slice ?buf i psize) = mem_word mem psize (pos + i)"
    proof -
      have "slice ?buf i psize = map mem [pos + i..<pos + i + psize]"
        using True by (intro nth_equalityI) (auto simp: slice_def ac_simps)
      then show ?thesis by (simp add: mem_word_def)
    qed
    have step: "?P (pos + i) = (if is_mapped ranges (mem_word mem psize (pos + i)) then {(mem_word mem psize (pos + i), pos + i)} else {})
        \<union> ?P (pos + (i + align))"
      using pointers_in_step[OF assms(2) less.prems(2)] True by (simp add: ac_simps)
    have ih: "appends es1 t es' (?P (pos + (i + align)))"
      if "harvest_chunk ranges psize align limit pos ?buf (i + align) es1 = (t, es')" for es1
      by (rule less.hyps[OF _ that]) (use True assms(2) less.prems(2) in \<open>auto simp: add.assoc[symmetric]\<close>)
    show ?thesis
    proof (cases "is_mapped ranges (mem_word mem psize (pos + i))")
      case False
      then show ?thesis using less.prems True w ih assms(2) step unfold by simp
    next
      case m: True
      let ?es = "es @ [(mem_word mem psize (pos + i), pos + i)]"
      have 1: "appends es False ?es {(mem_word mem psize (pos + i), pos + i)}" by (simp add: appends_def)
      show ?thesis
      proof (cases "limit \<le> length ?es")
        case True
        then have "t" "es' = ?es" using less.prems \<open>i + psize \<le> n\<close> w m assms(2) unfold by (auto simp: Let_def)
        then show ?thesis unfolding step using m by (auto simp: appends_def)
      next
        case False
        then have "harvest_chunk ranges psize align limit pos ?buf (i + align) ?es = (t, es')"
          using less.prems True w m assms(2) unfold by (simp add: Let_def)
        from appends_trans[OF 1 ih[OF this]] m show ?thesis unfolding step by simp
      qed
    qed
  qed
qed

context full_target
begin

lemma harvest_region_appends:
  assumes "0 < psize" "0 < align" "stop + align \<le> USIZE_MAX" "\<And>x. pos \<le> x \<Longrightarrow> x < stop \<Longrightarrow> mapped x"
  shows "\<exists>t es'. harvest_region read ranges psize align limit stop pos es = Some (Inr (t, es'))
     \<and> appends es t es' (pointers_in mem ranges psize align pos stop)"
  using assms(4)
proof (induction "stop - pos" arbitrary: pos es rule: less_induct)
  case less
  note unfold = harvest_region.simps[of read ranges psize align limit stop pos es]
  let ?P = "pointers_in mem ranges psize align"
  show ?case
  proof (cases "pos < stop")
    case False
    then have "harvest_region read ranges psize align limit stop pos es = Some (Inr (False, es))"
      "?P pos stop = {}" using unfold assms(1) by (simp_all add: pointers_in_empty)
    then show ?thesis using appends_refl[of es False] by auto
  next
    case True
    define want where "want = min (stop - pos) (PTR_CHUNK + psize)"
    have want: "0 < want" "pos + want \<le> stop" using True by (auto simp: want_def PTR_CHUNK_def)
    have rd: "read pos want = Inr (map mem [pos..<pos + want])"
      using read_full_mem[OF want(1), of pos] less.prems want(2) by simp
    show ?thesis
    proof (cases "want < psize")
      case short: True
      then have "stop < pos + psize" using True by (auto simp: want_def)
      then have "harvest_region read ranges psize align limit stop pos es = Some (Inr (False, es))"
        "?P pos stop = {}" using True rd short unfold
        by (simp_all add: want_def[symmetric] Let_def pointers_in_empty)
      then show ?thesis using appends_refl[of es False] by auto
    next
      case fits: False
      let ?a = "next_multiple_of pos align" and ?buf = "map mem [pos..<pos + want]"
      have al: "checked_next_multiple_of pos align = Some ?a" "pos \<le> ?a" "align dvd pos + (?a - pos)"
        using next_multiple_of_less[OF assms(2), of pos] next_multiple_of_ge[of pos align]
          next_multiple_of_dvd[OF assms(2), of pos] True assms(3)
        by (auto simp: checked_next_multiple_of_def)
      obtain t es1 where h: "harvest_chunk ranges psize align limit pos ?buf (?a - pos) es = (t, es1)" by fastforce
      have app: "appends es t es1 (?P pos (pos + want))"
        using harvest_chunk_appends[OF h assms(2) al(3)] al(2) pointers_in_aligned[OF assms(2), of mem ranges psize pos] by simp
      have split: "?P pos stop = ?P pos (pos + want) \<union> ?P (pos + (want - psize)) stop"
        using pointers_in_chunks[of pos want stop psize] want(2) fits by simp
      have run: "harvest_region read ranges psize align limit stop pos es =
          (if t then Some (Inr (True, es1)) else if want \<le> psize then Some (Inr (False, es1))
           else harvest_region read ranges psize align limit stop (pos + (want - psize)) es1)"
        using True rd fits al(1) h unfold by (simp add: want_def[symmetric] Let_def split: bool.split)
      consider t | (last) "\<not> t" "want \<le> psize" | (more) "\<not> t" "psize < want" by linarith
      then show ?thesis
      proof cases
        case 1
        then show ?thesis using run app appends_stop[of es es1] split by auto
      next
        case last
        then have "stop - pos = psize" using fits by (auto simp: want_def PTR_CHUNK_def split: if_splits)
        then have "pos + want = stop" using last fits want(2) True by simp
        then show ?thesis using run app last by auto
      next
        case more
        obtain t' es' where ih: "harvest_region read ranges psize align limit stop (pos + (want - psize)) es1 = Some (Inr (t', es'))"
          "appends es1 t' es' (?P (pos + (want - psize)) stop)"
          using less.hyps[of "pos + (want - psize)" es1] less.prems more(2) True by (meson add_leD1 diff_less_mono2 less_add_same_cancel1 zero_less_diff)
        show ?thesis using run more ih appends_trans[OF _ ih(2), of es] app split by auto
      qed
    qed
  qed
qed

lemma harvest_regions_appends:
  assumes "0 < psize" "0 < align" "\<forall>r\<in>set rs. Region_end r + align \<le> USIZE_MAX \<and> (\<forall>x. covers r x \<longrightarrow> mapped x)"
  shows "\<exists>t es'. harvest_regions read ranges psize align limit rs es = Some (Inr (t, es'))
     \<and> appends es t es' (\<Union>r\<in>set rs. pointers_in mem ranges psize align (rg_base r) (Region_end r))"
  using assms(3)
proof (induction rs arbitrary: es)
  case (Cons r rs)
  let ?P = "\<lambda>r. pointers_in mem ranges psize align (rg_base r) (Region_end r)"
  have "Region_end r + align \<le> USIZE_MAX" "\<And>x. rg_base r \<le> x \<Longrightarrow> x < Region_end r \<Longrightarrow> mapped x"
    using Cons.prems by (simp_all add: covers_def)
  from harvest_region_appends[OF assms(1,2) this, where ranges = ranges and limit = limit and es = es]
  obtain t es1 where h: "harvest_region read ranges psize align limit (Region_end r) (rg_base r) es = Some (Inr (t, es1))"
    "appends es t es1 (?P r)" by blast
  show ?case
  proof (cases t)
    case True
    then have "appends es True es1 (?P r)" using h(2) by simp
    then have "appends es True es1 (\<Union>r\<in>set (r # rs). ?P r)" by (rule appends_stop) (simp add: Un_upper1)
    with h(1) True show ?thesis by (intro exI[of _ True] exI[of _ es1]) simp
  next
    case False
    obtain t' es' where ih: "harvest_regions read ranges psize align limit rs es1 = Some (Inr (t', es'))"
      "appends es1 t' es' (\<Union>r\<in>set rs. ?P r)" using Cons.IH[of es1] Cons.prems by auto
    have "appends es t' es' (?P r \<union> (\<Union>r\<in>set rs. ?P r))" by (rule appends_trans[OF _ ih(2)]) (use h(2) False in simp)
    with h(1) False ih(1) show ?thesis by simp
  qed
qed (auto intro: exI[of _ False] simp: appends_refl)

end

section \<open>The order of the index\<close>

lemma sorted_map_remdups_adj: "sorted (map fst xs) \<Longrightarrow> sorted (map fst (remdups_adj xs))"
  by (induction xs rule: remdups_adj.induct) auto

text \<open>What the standard library documents of \<open>sort_unstable_by_key\<close> with the value as the key.\<close>

locale unstable_sort =
  fixes srt :: entry_sort
  assumes srt_mset: "mset (srt es) = mset es"
    and srt_sorted: "sorted (map fst (srt es))"
begin

lemma set_srt: "set (srt es) = set es"
  using srt_mset by (metis set_mset_mset)

lemma sorted_dedup: "sorted (map fst (remdups_adj (srt es)))"
  by (rule sorted_map_remdups_adj[OF srt_sorted])

end

interpretation stable: unstable_sort "sort_key fst"
  by unfold_locales simp_all

section \<open>Results of a scan\<close>

lemma is_mapped_sound: "is_mapped ranges addr \<Longrightarrow> \<exists>(b, e)\<in>set ranges. b \<le> addr \<and> addr < e"
proof -
  let ?P = "\<lambda>(base, _). base \<le> addr"
  assume m: "is_mapped ranges addr"
  let ?r = "ranges ! (length (takeWhile ?P ranges) - 1)"
  have i: "length (takeWhile ?P ranges) - 1 < length (takeWhile ?P ranges)"
    using m by (simp add: is_mapped_def partition_point_def Let_def)
  then have "?r = takeWhile ?P ranges ! (length (takeWhile ?P ranges) - 1)" by (rule takeWhile_nth[symmetric])
  then have r: "?r \<in> set (takeWhile ?P ranges)" using i by (metis nth_mem)
  then have "?P ?r" by (rule set_takeWhileD[THEN conjunct2])
  moreover have "addr < snd ?r" using m by (simp add: is_mapped_def partition_point_def Let_def)
  moreover have "?r \<in> set ranges" using r by (rule set_takeWhileD[THEN conjunct1])
  ultimately show ?thesis by (intro bexI[of _ ?r]) (auto simp: case_prod_unfold)
qed

lemma static_covers: "is_mapped (static_ranges_sorted cfg) a \<Longrightarrow> \<exists>r\<in>set (pc_static_ranges cfg). covers r a"
  by (drule is_mapped_sound) (auto simp: static_ranges_sorted_def region_pairs_def covers_def)

lemma pointers_in_entry:
  "(v, a) \<in> pointers_in mem ranges psize align lo (Region_end r) \<Longrightarrow> v = mem_word mem psize a \<and> a \<le> USIZE_MAX"
  using Region_end_le[of r] by (auto simp: pointers_in_def simp del: Region_end_le)

definition good_path :: "pointer_scan_config \<Rightarrow> ptr_reader \<Rightarrow> usize \<Rightarrow> pointer_path \<Rightarrow> bool" where
  "good_path cfg rd goal p \<longleftrightarrow>
     PointerPath_resolve p rd = Some goal
     \<and> (\<exists>r\<in>set (pc_static_ranges cfg). covers r (pp_base p))
     \<and> pp_offsets p \<noteq> [] \<and> length (pp_offsets p) \<le> pc_max_depth cfg
     \<and> (\<forall>off\<in>set (pp_offsets p). off \<le> pc_max_offset cfg)"

lemma chain_paths_good:
  assumes "p \<in> chain_paths pm cfg (static_ranges_sorted cfg) {} (pc_max_depth cfg) goal []"
    "reads_index (set (pm_entries pm)) rd" "goal \<le> USIZE_MAX"
  shows "good_path cfg rd goal p"
proof -
  from assms(1) obtain rs base where p: "p = \<lparr>pp_base = base, pp_offsets = rev rs\<rparr>"
    and c: "chain (set (pm_entries pm)) (pc_max_offset cfg) (static_ranges_sorted cfg) {} (pc_max_depth cfg) goal rs base"
    by (auto simp: chain_paths_def)
  show ?thesis using chain_resolves[OF c assms(2,3)] chain_shape[OF c] static_covers
    by (simp add: good_path_def p)
qed

lemma find_paths_eq:
  assumes "sorted (map fst (pm_entries pm))"
  shows "set (pr_paths (find_paths pm goal cfg)) \<subseteq> chain_paths pm cfg (static_ranges_sorted cfg) {} (pc_max_depth cfg) goal []"
    and "length (pr_paths (find_paths pm goal cfg)) \<le> pc_max_results cfg"
    and "\<not> pr_truncated (find_paths pm goal cfg) \<Longrightarrow>
      set (pr_paths (find_paths pm goal cfg)) = chain_paths pm cfg (static_ranges_sorted cfg) {} (pc_max_depth cfg) goal []"
  using solve_extends[OF assms, of cfg "\<lparr>sv_visited = {}, sv_out = [], sv_truncated = False\<rparr>"
      "static_ranges_sorted cfg" "pc_max_depth cfg" goal "[]"]
  by (auto simp: extends_def find_paths_def Let_def)

section \<open>Properties\<close>

text \<open>
  C7. The pointer scan is sound, bounded and, unless it says that it was truncated, complete. On a target that reads its mapped
  regions in full it returns a result without panic; every path starts in a static range, has between
  one and the maximal number of offsets, none above the maximal offset, and following it in the target's memory lands on the goal; there are at most as
  many as the limit; and without truncation the paths are exactly the pointer chains of the memory.
\<close>

theorem pointer_scan_exact:
  assumes "full_target (tg_read t) mem mapped" "tg_regions t = Inr rs"
    "\<forall>r\<in>set rs. Region_end r + max (pc_alignment cfg) 1 \<le> USIZE_MAX \<and> (\<forall>x. covers r x \<longrightarrow> mapped x)"
    "unstable_sort srt" "0 < pc_pointer_size cfg" "goal \<le> USIZE_MAX"
  shows "\<exists>res. pointer_scan srt t goal cfg = Some (Inr res)
    \<and> (\<forall>p\<in>set (pr_paths res). good_path cfg (\<lambda>a. Some (mem_word mem (pc_pointer_size cfg) a)) goal p)
    \<and> length (pr_paths res) \<le> pc_max_results cfg
    \<and> (\<not> pr_truncated res \<longrightarrow> set (pr_paths res) =
         {\<lparr>pp_base = base, pp_offsets = rev offs\<rparr> | offs base.
            chain (\<Union>r\<in>set rs. pointers_in mem (region_pairs rs) (pc_pointer_size cfg) (max (pc_alignment cfg) 1)
                     (rg_base r) (Region_end r))
              (pc_max_offset cfg) (static_ranges_sorted cfg) {} (pc_max_depth cfg) goal offs base})"
proof -
  let ?psize = "pc_pointer_size cfg" and ?align = "max (pc_alignment cfg) 1"
  let ?E = "\<Union>r\<in>set rs. pointers_in mem (region_pairs rs) ?psize ?align (rg_base r) (Region_end r)"
  have ps: "max ?psize 1 = ?psize" "0 < ?align" using assms(5) by auto
  from full_target.harvest_regions_appends[OF assms(1) assms(5) ps(2) assms(3), of "region_pairs rs" "pc_max_map_entries cfg" "[]"]
  obtain tr es where h: "harvest_regions (tg_read t) (region_pairs rs) ?psize ?align (pc_max_map_entries cfg) rs [] = Some (Inr (tr, es))"
    and es: "set es \<subseteq> ?E" "\<not> tr \<Longrightarrow> set es = ?E" by (auto simp: appends_def)
  define pm where "pm = \<lparr>pm_entries = remdups_adj (srt es), pm_truncated = tr\<rparr>"
  have set_pm: "set (pm_entries pm) = set es" and sorted_pm: "sorted (map fst (pm_entries pm))"
    using unstable_sort.set_srt[OF assms(4)] unstable_sort.sorted_dedup[OF assms(4)] by (simp_all add: pm_def)
  have ri: "reads_index (set (pm_entries pm)) (\<lambda>a. Some (mem_word mem ?psize a))"
    using es(1) pointers_in_entry unfolding reads_index_def set_pm by fastforce
  have scan: "pointer_scan srt t goal cfg = Some (Inr ((find_paths pm goal cfg)
      \<lparr>pr_truncated := pr_truncated (find_paths pm goal cfg) \<or> tr\<rparr>))"
    unfolding pointer_scan_def PointerMap_build_def Let_def ps(1) assms(2) sum.case h
    by (simp add: pm_def)
  have "set (pr_paths (find_paths pm goal cfg)) = {\<lparr>pp_base = base, pp_offsets = rev offs\<rparr> | offs base.
      chain ?E (pc_max_offset cfg) (static_ranges_sorted cfg) {} (pc_max_depth cfg) goal offs base}"
    if "\<not> (pr_truncated (find_paths pm goal cfg) \<or> tr)"
    using find_paths_eq(3)[OF sorted_pm, of goal cfg] that es(2) by (simp add: chain_paths_def set_pm)
  then show ?thesis unfolding scan
    using find_paths_eq(1,2)[OF sorted_pm, of goal cfg] chain_paths_good[OF _ ri assms(6)] by auto
qed

theorem pointer_scan_exact_witness:
  "\<exists>res. pointer_scan (sort_key fst) (MockTarget_target (MockTarget_new 16 [20, 0, 0, 0, 0, 0])) 21
       (PointerScanConfig_default\<lparr>pc_pointer_size := 1, pc_static_ranges := [Region_new 16 1]\<rparr>) = Some (Inr res)
     \<and> length (pr_paths res) \<le> 5000
     \<and> (\<forall>p\<in>set (pr_paths res). \<exists>r\<in>set [Region_new 16 1]. covers r (pp_base p))"
proof -
  let ?t = "MockTarget_new 16 [20, 0, 0, 0, 0, 0]"
  let ?cfg = "PointerScanConfig_default\<lparr>pc_pointer_size := 1, pc_static_ranges := [Region_new 16 1]\<rparr>"
  have "full_target (MockTarget_read ?t) (MockTarget_mem ?t) (MockTarget_mapped ?t)" ..
  then have t: "full_target (tg_read (MockTarget_target ?t)) (MockTarget_mem ?t) (MockTarget_mapped ?t)"
    by (simp add: MockTarget_target_def)
  have r: "tg_regions (MockTarget_target ?t) = Inr [Region_new 16 6]"
    by (simp add: MockTarget_target_def MockTarget_new_def Region_new_def)
  have ok: "\<forall>r\<in>set [Region_new 16 6]. Region_end r + max (pc_alignment ?cfg) 1 \<le> USIZE_MAX \<and> (\<forall>x. covers r x \<longrightarrow> MockTarget_mapped ?t x)"
    by (simp add: Region_new_def Region_end_def saturating_add_def USIZE_MAX_def covers_def MockTarget_mapped_def
        MockTarget_new_def PointerScanConfig_default_def)
  have "unstable_sort (sort_key fst)" ..
  from pointer_scan_exact[OF t r ok this, of 21] show ?thesis
    by (auto simp: PointerScanConfig_default_def good_path_def USIZE_MAX_def)
qed

text \<open>
  On ranges in ascending order that do not overlap, the binary search decides whether an address is in
  one of them.
\<close>

theorem is_mapped_correct:
  assumes "sorted_wrt (\<lambda>x y. fst x \<le> fst y \<and> snd x \<le> fst y) ranges"
  shows "is_mapped ranges addr \<longleftrightarrow> (\<exists>(b, e)\<in>set ranges. b \<le> addr \<and> addr < e)"
  by (rule is_mapped_iff[OF assms])

theorem is_mapped_correct_witness: "is_mapped [(4, 8), (8, 10)] 9 \<and> \<not> is_mapped [(4, 8), (8, 10)] 3"
  using is_mapped_correct[of "[(4, 8), (8, 10)]" 9] is_mapped_correct[of "[(4, 8), (8, 10)]" 3] by simp

section \<open>Where the code departs from its documentation\<close>

text \<open>
  The last word of a region is harvested twice, and removing adjacent duplicates after an unstable sort by the
  value alone need not remove the second copy: another holder of the same value may stand between the two.
\<close>

lemma dedup_leaves_duplicates:
  "\<exists>srt. unstable_sort srt \<and> \<not> distinct (remdups_adj (srt [(5, 1), (5, 1), (5, 2)]))"
proof -
  let ?srt = "\<lambda>es. if es = [(5, 1), (5, 1), (5, 2)] then [(5, 1), (5, 2), (5, 1)] else sort_key fst es"
  have "unstable_sort ?srt" by unfold_locales auto
  then show ?thesis by (intro exI[of _ ?srt]) auto
qed

end
