(* ===== verification/Address_Tokenizer.thy ===== *)
theory Address_Tokenizer
  imports Rust_Text
begin

text \<open>
  The lexer of address formulas (nemclass-model/src/address/tokenizer.rs). It works on the bytes of the
  formula, here a character list. An error is the constructor of its message; the texts themselves are
  not modelled.
\<close>

datatype token =
    Number int
  | Identifier string
  | Plus | Minus | Star | Slash | Percent
  | OpenParen | CloseParen | OpenBracket | CloseBracket

datatype address_error =
    InvalidHexNumber nat
  | InvalidDecimalNumber nat
  | UnclosedAngle
  | UnclosedQuote
  | UnexpectedCharacter char
  | ExpectedToken token "token option"
  | NestedTooDeeply
  | UnexpectedToken token
  | UnexpectedEnd
  | TrailingTokens nat token
  | ModuleUnresolved string
  | DivisionByZero
  | ModuloByZero
  | ResolveFailed string

definition is_ws :: "char \<Rightarrow> bool" where
  "is_ws c \<longleftrightarrow> of_char c \<in> {32, 9, 13, 10 :: nat}"

definition is_dec_digit :: "char \<Rightarrow> bool" where
  "is_dec_digit c \<longleftrightarrow> 48 \<le> (of_char c :: nat) \<and> (of_char c :: nat) \<le> 57"

definition is_hex_digit :: "char \<Rightarrow> bool" where
  "is_hex_digit c \<longleftrightarrow> is_dec_digit c
     \<or> (97 \<le> (of_char c :: nat) \<and> (of_char c :: nat) \<le> 102) \<or> (65 \<le> (of_char c :: nat) \<and> (of_char c :: nat) \<le> 70)"

text \<open>\<open>i64::from_str_radix\<close> on a string of digits only.\<close>

definition i64_of_digits :: "nat \<Rightarrow> string \<Rightarrow> int option" where
  "i64_of_digits radix s =
     (if s = [] then None
      else case digits_value radix (codes s) 0 of
        None \<Rightarrow> None
      | Some v \<Rightarrow> if v < 2 ^ 63 then Some (int v) else None)"

text \<open>Each reader returns the token and what follows it.\<close>

definition read_number :: "nat \<Rightarrow> string \<Rightarrow> address_error + token \<times> string" where
  "read_number start s =
     (let is_hex = (take 1 s = ''0'' \<and> (take 1 (drop 1 s) = ''x'' \<or> take 1 (drop 1 s) = ''X''))
      in if is_hex then
           (case i64_of_digits 16 (takeWhile is_hex_digit (drop 2 s)) of
              None \<Rightarrow> Inl (InvalidHexNumber start)
            | Some v \<Rightarrow> Inr (Number v, dropWhile is_hex_digit (drop 2 s)))
         else
           (case i64_of_digits 10 (takeWhile is_dec_digit s) of
              None \<Rightarrow> Inl (InvalidDecimalNumber start)
            | Some v \<Rightarrow> Inr (Number v, dropWhile is_dec_digit s)))"

definition read_angle_identifier :: "string \<Rightarrow> address_error + token \<times> string" where
  "read_angle_identifier s =
     (let body = drop 1 s; rest = dropWhile (\<lambda>c. c \<noteq> CHR ''>'') body
      in if rest = [] then Inl UnclosedAngle
         else Inr (Identifier (takeWhile (\<lambda>c. c \<noteq> CHR ''>'') body), drop 1 rest))"

definition read_quoted_identifier :: "string \<Rightarrow> address_error + token \<times> string" where
  "read_quoted_identifier s =
     (let body = drop 1 s; rest = dropWhile (\<lambda>c. c \<noteq> CHR 0x22) body
      in if rest = [] then Inl UnclosedQuote
         else Inr (Identifier (takeWhile (\<lambda>c. c \<noteq> CHR 0x22) body), drop 1 rest))"

definition single_token :: "char \<Rightarrow> token option" where
  "single_token c =
     (if c = CHR ''+'' then Some Plus
      else if c = CHR ''-'' then Some Minus
      else if c = CHR ''*'' then Some Star
      else if c = CHR ''/'' then Some Slash
      else if c = CHR ''%'' then Some Percent
      else if c = CHR ''('' then Some OpenParen
      else if c = CHR '')'' then Some CloseParen
      else if c = CHR ''['' then Some OpenBracket
      else if c = CHR '']'' then Some CloseBracket
      else None)"

definition next_token :: "nat \<Rightarrow> string \<Rightarrow> address_error + token \<times> string" where
  "next_token pos s =
     (let ch = hd s
      in case single_token ch of
           Some t \<Rightarrow> Inr (t, tl s)
         | None \<Rightarrow>
             if ch = CHR ''<'' then read_angle_identifier s
             else if ch = CHR 0x22 then read_quoted_identifier s
             else if is_dec_digit ch then read_number pos s
             else Inl (UnexpectedCharacter ch))"

lemma dropWhile_length: "length (dropWhile p s) \<le> length s"
  by (induction s) auto

lemma next_token_shorter:
  assumes "next_token pos s = Inr (t, rest)" "s \<noteq> []"
  shows "length rest < length s"
proof -
  obtain c cs where s: "s = c # cs" using assms(2) by (cases s) auto
  have "length (dropWhile p (drop n cs)) < length s" for p n
    using dropWhile_length[of p "drop n cs"] by (simp add: s)
  moreover have "length (dropWhile is_dec_digit s) < length s" if "is_dec_digit c"
    using that dropWhile_length[of is_dec_digit cs] by (simp add: s)
  ultimately show ?thesis using assms(1)
    by (auto simp: next_token_def s read_angle_identifier_def read_quoted_identifier_def read_number_def Let_def
        split: option.splits if_splits) (metis drop0 drop_Suc_Cons length_Cons less_Suc_eq_le less_imp_diff_less)+
qed

function tokenize_from :: "nat \<Rightarrow> string \<Rightarrow> address_error + token list" where
  "tokenize_from pos s0 =
     (let s = dropWhile is_ws s0; pos = pos + (length s0 - length s)
      in if s = [] then Inr []
         else case next_token pos s of
           Inl e \<Rightarrow> Inl e
         | Inr (t, rest) \<Rightarrow>
             (case tokenize_from (pos + (length s - length rest)) rest of
                Inl e \<Rightarrow> Inl e
              | Inr ts \<Rightarrow> Inr (t # ts)))"
  by pat_completeness auto
termination
proof (relation "measure (\<lambda>(_, s). length s)", goal_cases)
  case (2 pos s0 s pos' x t rest)
  then have "length rest < length s" by (intro next_token_shorter) auto
  also have "length s \<le> length s0" using 2 dropWhile_length by simp
  finally show ?case by simp
qed simp

declare tokenize_from.simps [simp del]

definition tokenize :: "string \<Rightarrow> address_error + token list" where
  "tokenize input = tokenize_from 0 input"

section \<open>Facts\<close>

text \<open>The tokens of a text, whatever position the error messages count from.\<close>

definition lexes :: "string \<Rightarrow> token list \<Rightarrow> bool" where
  "lexes s ts \<longleftrightarrow> (\<forall>pos. tokenize_from pos s = Inr ts)"

lemma lexes_tokenize: "lexes s ts \<Longrightarrow> tokenize s = Inr ts"
  by (simp add: lexes_def tokenize_def)

lemma lexes_Nil: "lexes [] []"
  by (simp add: lexes_def tokenize_from.simps)

lemma lexes_space: "lexes s ts \<Longrightarrow> lexes (CHR '' '' # s) ts"
proof -
  assume l: "lexes s ts"
  have ws: "is_ws (CHR '' '')" by (simp add: is_ws_def)
  have p: "pos + (length (CHR '' '' # s) - length (dropWhile is_ws s))
      = Suc pos + (length s - length (dropWhile is_ws s))" for pos
    using dropWhile_length[of is_ws s] by (simp add: Suc_diff_le)
  have "tokenize_from pos (CHR '' '' # s) = tokenize_from (Suc pos) s" for pos
    by (simp only: tokenize_from.simps[of pos "CHR '' '' # s"] tokenize_from.simps[of "Suc pos" s]
        dropWhile.simps ws if_True Let_def p)
  then show ?thesis using l by (simp add: lexes_def)
qed

lemma lexes_step:
  assumes "\<And>pos. next_token pos (c # s) = Inr (t, rest)" "\<not> is_ws c" "lexes rest ts"
  shows "lexes (c # s) (t # ts)"
  unfolding lexes_def
proof
  fix pos
  show "tokenize_from pos (c # s) = Inr (t # ts)"
    using assms by (subst tokenize_from.simps) (simp add: lexes_def Let_def)
qed

lemma lexes_single:
  assumes "single_token c = Some t" "\<not> is_ws c" "lexes s ts"
  shows "lexes (c # s) (t # ts)"
  by (rule lexes_step[OF _ assms(2,3)]) (simp add: next_token_def assms(1))

lemma lexes_module:
  assumes "CHR ''>'' \<notin> set name" "lexes s ts"
  shows "lexes (CHR ''<'' # name @ CHR ''>'' # s) (Identifier name # ts)"
proof -
  have "takeWhile (\<lambda>c. c \<noteq> CHR ''>'') (name @ CHR ''>'' # s) = name"
    "dropWhile (\<lambda>c. c \<noteq> CHR ''>'') (name @ CHR ''>'' # s) = CHR ''>'' # s"
    using assms(1) by (auto simp: takeWhile_append dropWhile_append takeWhile_eq_all_conv)
  then have "next_token pos (CHR ''<'' # name @ CHR ''>'' # s) = Inr (Identifier name, s)" for pos
    by (simp add: next_token_def single_token_def read_angle_identifier_def Let_def)
  from lexes_step[OF this _ assms(2)] show ?thesis by (simp add: is_ws_def)
qed

lemma hex_digit_lower_is_hex: "d < 16 \<Longrightarrow> is_hex_digit (hex_digit_lower d)"
  using less_16_cases[of d] by (auto simp: hex_digit_lower_def is_hex_digit_def is_dec_digit_def)

lemma format_hex_is_hex: "c \<in> set (format_hex n) \<Longrightarrow> is_hex_digit c"
  using digits_of_chars[of 16 c hex_digit_lower n] hex_digit_lower_is_hex by (auto simp: format_hex_def)

lemma lexes_hex:
  assumes "n < 2 ^ 63" "s = [] \<or> \<not> is_hex_digit (hd s)" "lexes s ts"
  shows "lexes (''0x'' @ format_hex n @ s) (Number (int n) # ts)"
proof -
  have t: "takeWhile is_hex_digit (format_hex n @ s) = format_hex n"
    "dropWhile is_hex_digit (format_hex n @ s) = s"
    using assms(2) format_hex_is_hex[of _ n]
    by (cases s; auto simp: takeWhile_append dropWhile_append takeWhile_eq_all_conv)+
  have "i64_of_digits 16 (format_hex n) = Some (int n)"
    using assms(1) digits_value_format(3)[of n] by (simp add: i64_of_digits_def format_hex_def)
  with t have "next_token pos (''0x'' @ format_hex n @ s) = Inr (Number (int n), s)" for pos
    by (simp add: next_token_def single_token_def read_number_def is_dec_digit_def Let_def)
  then show ?thesis using assms(3) lexes_step[of "CHR ''0''" "''x'' @ format_hex n @ s"]
    by (simp add: is_ws_def)
qed

end
