(* ===== verification/Address_Parser.thy ===== *)
theory Address_Parser
  imports Address_Tokenizer Process_Types
begin

text \<open>
  The formula parser (nemclass-model/src/address/parser.rs, ast.rs), the interpreter (interpreter.rs) and the
  two entry points of address/mod.rs.

  The parser state is the list of tokens still to be read; the source's index \<open>pos\<close> is the length of what was
  read. The mutual recursion of the source is on its depth argument, which every nested call raises and
  \<open>parse_unary\<close> bounds by \<open>MAX_DEPTH\<close>: \<open>parse_unary_budget\<close> recurses on the remaining budget, and
  \<open>parse_unary_eq\<close> gives back the source's equation.
\<close>

datatype expr =
    Constant int
  | Module string
  | Add expr expr
  | Sub expr expr
  | Mul expr expr
  | Div expr expr
  | Rem expr expr
  | Negate expr
  | Deref expr

section \<open>Parser\<close>

definition MAX_DEPTH :: nat where "MAX_DEPTH = 128"

type_synonym parsed = "address_error + expr \<times> token list"
type_synonym sub_parser = "token list \<Rightarrow> parsed"

definition expect_token :: "token \<Rightarrow> token list \<Rightarrow> address_error + token list" where
  "expect_token expected ts =
     (case ts of
        t # rest \<Rightarrow> if t = expected then Inr rest else Inl (ExpectedToken expected (Some t))
      | [] \<Rightarrow> Inl (ExpectedToken expected None))"

fun add_op :: "token \<Rightarrow> (expr \<Rightarrow> expr \<Rightarrow> expr) option" where
  "add_op Plus = Some Add"
| "add_op Minus = Some Sub"
| "add_op _ = None"

fun mult_op :: "token \<Rightarrow> (expr \<Rightarrow> expr \<Rightarrow> expr) option" where
  "mult_op Star = Some Mul"
| "mult_op Slash = Some Div"
| "mult_op Percent = Some Rem"
| "mult_op _ = None"

text \<open>
  The loop both levels have: while the next token is one of the level's operators, an operand is parsed and
  the expression grows to the left. Every operand consumes a token (\<open>parse_unary_shorter\<close>), so the test of
  the lengths never fails; it makes the loop's end evident.
\<close>

function binary_loop :: "(token \<Rightarrow> (expr \<Rightarrow> expr \<Rightarrow> expr) option) \<Rightarrow> sub_parser \<Rightarrow> expr \<Rightarrow> token list \<Rightarrow> parsed" where
  "binary_loop ops operand lhs ts =
     (case ts of
        [] \<Rightarrow> Inr (lhs, ts)
      | t # rest \<Rightarrow>
          (case ops t of
             None \<Rightarrow> Inr (lhs, ts)
           | Some mk \<Rightarrow>
               (case operand rest of
                  Inl e \<Rightarrow> Inl e
                | Inr (rhs, rest') \<Rightarrow>
                    if length rest' < length ts then binary_loop ops operand (mk lhs rhs) rest'
                    else Inr (mk lhs rhs, rest'))))"
  by pat_completeness auto
termination
  by (relation "measure (\<lambda>(_, _, _, ts). length ts)") auto

declare binary_loop.simps [simp del]

definition chain :: "(token \<Rightarrow> (expr \<Rightarrow> expr \<Rightarrow> expr) option) \<Rightarrow> sub_parser \<Rightarrow> sub_parser" where
  "chain ops operand ts =
     (case operand ts of Inl e \<Rightarrow> Inl e | Inr (lhs, rest) \<Rightarrow> binary_loop ops operand lhs rest)"

definition primary_cases :: "sub_parser \<Rightarrow> sub_parser" where
  "primary_cases nested ts =
     (case ts of
        Number n # rest \<Rightarrow> Inr (Constant n, rest)
      | Identifier s # rest \<Rightarrow> Inr (Module s, rest)
      | OpenParen # rest \<Rightarrow>
          (case nested rest of
             Inl e \<Rightarrow> Inl e
           | Inr (inner, rest) \<Rightarrow>
               (case expect_token CloseParen rest of Inl e \<Rightarrow> Inl e | Inr rest \<Rightarrow> Inr (inner, rest)))
      | OpenBracket # rest \<Rightarrow>
          (case nested rest of
             Inl e \<Rightarrow> Inl e
           | Inr (inner, rest) \<Rightarrow>
               (case expect_token CloseBracket rest of Inl e \<Rightarrow> Inl e | Inr rest \<Rightarrow> Inr (Deref inner, rest)))
      | tok # rest \<Rightarrow> Inl (UnexpectedToken tok)
      | [] \<Rightarrow> Inl UnexpectedEnd)"

primrec parse_unary_budget :: "nat \<Rightarrow> sub_parser" where
  "parse_unary_budget 0 ts = Inl NestedTooDeeply"
| "parse_unary_budget (Suc n) ts =
     (case ts of
        Minus # rest \<Rightarrow>
          (case parse_unary_budget n rest of Inl e \<Rightarrow> Inl e | Inr (inner, rest) \<Rightarrow> Inr (Negate inner, rest))
      | _ \<Rightarrow> primary_cases (chain add_op (chain mult_op (parse_unary_budget n))) ts)"

definition parse_unary :: "nat \<Rightarrow> sub_parser" where
  "parse_unary depth = parse_unary_budget (Suc MAX_DEPTH - depth)"

definition parse_multiplicative :: "nat \<Rightarrow> sub_parser" where
  "parse_multiplicative depth = chain mult_op (parse_unary depth)"

definition parse_additive :: "nat \<Rightarrow> sub_parser" where
  "parse_additive depth = chain add_op (parse_multiplicative depth)"

definition parse_primary :: "nat \<Rightarrow> sub_parser" where
  "parse_primary depth ts =
     (if depth > MAX_DEPTH then Inl NestedTooDeeply else primary_cases (parse_additive (depth + 1)) ts)"

definition parse_expr :: sub_parser where
  "parse_expr ts = parse_additive 0 ts"

definition finish :: "token list \<Rightarrow> token list \<Rightarrow> address_error + unit" where
  "finish tokens rest =
     (let pos = length tokens - length rest
      in if pos < length tokens then Inl (TrailingTokens pos (tokens ! pos)) else Inr ())"

definition parse_tokens :: "token list \<Rightarrow> address_error + expr" where
  "parse_tokens tokens =
     (case parse_expr tokens of
        Inl e \<Rightarrow> Inl e
      | Inr (ex, rest) \<Rightarrow> (case finish tokens rest of Inl e \<Rightarrow> Inl e | Inr _ \<Rightarrow> Inr ex))"

definition parse :: "string \<Rightarrow> address_error + expr" where
  "parse input = (case tokenize input of Inl e \<Rightarrow> Inl e | Inr tokens \<Rightarrow> parse_tokens tokens)"

section \<open>Interpreter\<close>

type_synonym module_resolver = "string \<Rightarrow> usize option"
type_synonym memory_reader = "usize \<Rightarrow> address_error + usize"

definition lift2 :: "('a \<Rightarrow> 'b \<Rightarrow> 'c) \<Rightarrow> 'e + 'a \<Rightarrow> 'e + 'b \<Rightarrow> 'e + 'c" where
  "lift2 f x y = (case x of Inl e \<Rightarrow> Inl e | Inr a \<Rightarrow> (case y of Inl e \<Rightarrow> Inl e | Inr b \<Rightarrow> Inr (f a b)))"

primrec evaluate :: "expr \<Rightarrow> module_resolver \<Rightarrow> memory_reader \<Rightarrow> address_error + usize" where
  "evaluate (Constant n) modules reader = Inr (i64_as_usize n)"
| "evaluate (Module name) modules reader =
     (case modules name of None \<Rightarrow> Inl (ModuleUnresolved name) | Some base \<Rightarrow> Inr base)"
| "evaluate (Add lhs rhs) modules reader =
     lift2 wrapping_add (evaluate lhs modules reader) (evaluate rhs modules reader)"
| "evaluate (Sub lhs rhs) modules reader =
     lift2 wrapping_sub (evaluate lhs modules reader) (evaluate rhs modules reader)"
| "evaluate (Mul lhs rhs) modules reader =
     lift2 wrapping_mul (evaluate lhs modules reader) (evaluate rhs modules reader)"
| "evaluate (Div lhs rhs) modules reader =
     (case evaluate rhs modules reader of
        Inl e \<Rightarrow> Inl e
      | Inr divisor \<Rightarrow>
          if divisor = 0 then Inl DivisionByZero
          else (case evaluate lhs modules reader of Inl e \<Rightarrow> Inl e | Inr a \<Rightarrow> Inr (a div divisor)))"
| "evaluate (Rem lhs rhs) modules reader =
     (case evaluate rhs modules reader of
        Inl e \<Rightarrow> Inl e
      | Inr divisor \<Rightarrow>
          if divisor = 0 then Inl ModuloByZero
          else (case evaluate lhs modules reader of Inl e \<Rightarrow> Inl e | Inr a \<Rightarrow> Inr (a mod divisor)))"
| "evaluate (Negate inner) modules reader =
     (case evaluate inner modules reader of Inl e \<Rightarrow> Inl e | Inr a \<Rightarrow> Inr (wrapping_neg a))"
| "evaluate (Deref inner) modules reader =
     (case evaluate inner modules reader of Inl e \<Rightarrow> Inl e | Inr addr \<Rightarrow> reader addr)"

definition eq_ignore_ascii_case :: "string \<Rightarrow> string \<Rightarrow> bool" where
  "eq_ignore_ascii_case a b \<longleftrightarrow> to_ascii_lowercase (codes a) = to_ascii_lowercase (codes b)"

definition resolve_module :: "module_info list \<Rightarrow> module_resolver" where
  "resolve_module ms name =
     map_option mod_base (find (\<lambda>m. eq_ignore_ascii_case (mod_name m) name) ms)"

definition resolve_formula :: "string \<Rightarrow> module_resolver \<Rightarrow> memory_reader \<Rightarrow> address_error + usize" where
  "resolve_formula formula modules reader =
     (case parse formula of Inl e \<Rightarrow> Inl e | Inr ex \<Rightarrow> evaluate ex modules reader)"

section \<open>The recursion of the source\<close>

lemma parse_unary_eq:
  "parse_unary depth ts =
     (if depth > MAX_DEPTH then Inl NestedTooDeeply
      else case ts of
        Minus # rest \<Rightarrow>
          (case parse_unary (depth + 1) rest of Inl e \<Rightarrow> Inl e | Inr (inner, rest) \<Rightarrow> Inr (Negate inner, rest))
      | _ \<Rightarrow> parse_primary depth ts)"
proof (cases "depth > MAX_DEPTH")
  case False
  then have "Suc MAX_DEPTH - depth = Suc (Suc MAX_DEPTH - (depth + 1))" by simp
  then show ?thesis using False
    by (simp add: parse_unary_def parse_primary_def parse_additive_def parse_multiplicative_def
        split: list.split token.split)
qed (simp add: parse_unary_def)

section \<open>The grammar\<close>

text \<open>
  The language of formulas at a nesting depth: left-associative chains of the two binary levels, prefix minus,
  and primaries. The parser is compared with it.
\<close>

inductive g_additive :: "nat \<Rightarrow> expr \<Rightarrow> token list \<Rightarrow> bool"
  and g_multiplicative :: "nat \<Rightarrow> expr \<Rightarrow> token list \<Rightarrow> bool"
  and g_unary :: "nat \<Rightarrow> expr \<Rightarrow> token list \<Rightarrow> bool" where
  g_add1: "g_multiplicative d e ts \<Longrightarrow> g_additive d e ts"
| g_addn: "g_additive d l ts \<Longrightarrow> add_op t = Some mk \<Longrightarrow> g_multiplicative d r us \<Longrightarrow>
     g_additive d (mk l r) (ts @ t # us)"
| g_mul1: "g_unary d e ts \<Longrightarrow> g_multiplicative d e ts"
| g_muln: "g_multiplicative d l ts \<Longrightarrow> mult_op t = Some mk \<Longrightarrow> g_unary d r us \<Longrightarrow>
     g_multiplicative d (mk l r) (ts @ t # us)"
| g_neg: "d \<le> MAX_DEPTH \<Longrightarrow> g_unary (Suc d) e ts \<Longrightarrow> g_unary d (Negate e) (Minus # ts)"
| g_const: "d \<le> MAX_DEPTH \<Longrightarrow> g_unary d (Constant n) [Number n]"
| g_module: "d \<le> MAX_DEPTH \<Longrightarrow> g_unary d (Module s) [Identifier s]"
| g_paren: "d \<le> MAX_DEPTH \<Longrightarrow> g_additive (Suc d) e ts \<Longrightarrow> g_unary d e (OpenParen # ts @ [CloseParen])"
| g_deref: "d \<le> MAX_DEPTH \<Longrightarrow> g_additive (Suc d) e ts \<Longrightarrow> g_unary d (Deref e) (OpenBracket # ts @ [CloseBracket])"

text \<open>One level of the parser against one level of the grammar.\<close>

definition sound_for :: "sub_parser \<Rightarrow> (expr \<Rightarrow> token list \<Rightarrow> bool) \<Rightarrow> bool" where
  "sound_for p g \<longleftrightarrow> (\<forall>ts e rest. p ts = Inr (e, rest) \<longrightarrow> (\<exists>pre. ts = pre @ rest \<and> pre \<noteq> [] \<and> g e pre))"

lemma sound_forE:
  assumes "sound_for p g" "p ts = Inr (e, rest)"
  obtains pre where "ts = pre @ rest" "pre \<noteq> []" "g e pre"
  using assms unfolding sound_for_def by blast

text \<open>
  The contract a binary level has with its operand level: the operand parser accepts only operands, and
  chains of operands are in the level's language.
\<close>

locale binary_level =
  fixes ops :: "token \<Rightarrow> (expr \<Rightarrow> expr \<Rightarrow> expr) option"
    and operand :: sub_parser
    and R S :: "expr \<Rightarrow> token list \<Rightarrow> bool"
  assumes operand_sound: "sound_for operand R"
    and single: "R e ts \<Longrightarrow> S e ts"
    and grow: "S l ts \<Longrightarrow> ops t = Some mk \<Longrightarrow> R r us \<Longrightarrow> S (mk l r) (ts @ t # us)"
begin

lemma loop_sound:
  assumes "binary_loop ops operand lhs ts = Inr (e, rest)" "S lhs p"
  shows "\<exists>q. ts = q @ rest \<and> S e (p @ q)"
  using assms
proof (induction "length ts" arbitrary: ts lhs p rule: less_induct)
  case (less ts)
  show ?case
  proof (cases "ts = [] \<or> ops (hd ts) = None")
    case True
    then show ?thesis using less.prems by (subst (asm) binary_loop.simps) (auto split: list.splits)
  next
    case False
    then obtain t us mk where ts: "ts = t # us" "ops t = Some mk" by (cases ts) auto
    from less.prems(1) ts obtain r us' where op: "operand us = Inr (r, us')"
      by (subst (asm) binary_loop.simps) (auto split: sum.splits)
    from sound_forE[OF operand_sound op] obtain q where q: "us = q @ us'" "R r q" .
    then have S': "S (mk lhs r) (p @ t # q)" using grow less.prems(2) ts(2) by simp
    have "binary_loop ops operand (mk lhs r) us' = Inr (e, rest)"
      using less.prems(1) ts op q by (subst (asm) binary_loop.simps) simp
    from less.hyps[OF _ this S'] q ts show ?thesis by auto
  qed
qed

lemma level_sound: "sound_for (chain ops operand) S"
  unfolding sound_for_def
proof (intro allI impI)
  fix ts e rest
  assume "chain ops operand ts = Inr (e, rest)"
  then obtain l mid where l: "operand ts = Inr (l, mid)" "binary_loop ops operand l mid = Inr (e, rest)"
    by (auto simp: chain_def split: sum.splits)
  from sound_forE[OF operand_sound l(1)] obtain pre where "ts = pre @ mid" "pre \<noteq> []" "R l pre" .
  with loop_sound[OF l(2) single] show "\<exists>pre. ts = pre @ rest \<and> pre \<noteq> [] \<and> S e pre" by fastforce
qed

end

lemma primary_cases_sound:
  assumes "d \<le> MAX_DEPTH" "sound_for nested (g_additive (Suc d))"
  shows "sound_for (primary_cases nested) (g_unary d)"
  unfolding sound_for_def
proof (intro allI impI)
  fix ts e rest
  assume p: "primary_cases nested ts = Inr (e, rest)"
  show "\<exists>pre. ts = pre @ rest \<and> pre \<noteq> [] \<and> g_unary d e pre"
  proof (cases ts)
    case (Cons t us)
    have nest: "\<exists>pre. us = pre @ stop # rest \<and> g_additive (Suc d) inner pre"
      if "nested us = Inr (inner, us')" "expect_token stop us' = Inr rest" for inner us' stop
    proof -
      from that(2) have "us' = stop # rest" by (auto simp: expect_token_def split: list.splits if_splits)
      with sound_forE[OF assms(2) that(1)] show ?thesis by metis
    qed
    from p Cons consider (leaf) "us = rest" "g_unary d e [t]"
      | (paren) us' where "t = OpenParen" "nested us = Inr (e, us')" "expect_token CloseParen us' = Inr rest"
      | (deref) us' i where "t = OpenBracket" "e = Deref i" "nested us = Inr (i, us')"
          "expect_token CloseBracket us' = Inr rest"
      by (cases t) (auto simp: primary_cases_def intro: g_const g_module assms(1) split: sum.splits)
    then show ?thesis
    proof cases
      case leaf
      then show ?thesis using Cons by (intro exI[of _ "[t]"]) simp
    next
      case paren
      with nest[OF paren(2,3)] obtain pre where "us = pre @ CloseParen # rest" "g_additive (Suc d) e pre" by blast
      then show ?thesis using Cons paren(1) g_paren[OF assms(1)]
        by (intro exI[of _ "OpenParen # pre @ [CloseParen]"]) simp
    next
      case deref
      with nest[OF deref(3,4)] obtain pre where "us = pre @ CloseBracket # rest" "g_additive (Suc d) i pre" by blast
      then show ?thesis using Cons deref(1,2) g_deref[OF assms(1)]
        by (intro exI[of _ "OpenBracket # pre @ [CloseBracket]"]) simp
    qed
  qed (use p in \<open>simp add: primary_cases_def\<close>)
qed

lemma parse_unary_sound: "sound_for (parse_unary d) (g_unary d)"
proof (induction "Suc MAX_DEPTH - d" arbitrary: d rule: less_induct)
  case (less d)
  show ?case
  proof (cases "d \<le> MAX_DEPTH")
    case True
    then have IH: "sound_for (parse_unary (Suc d)) (g_unary (Suc d))" by (intro less) simp
    then have "binary_level mult_op (parse_unary (Suc d)) (g_unary (Suc d)) (g_multiplicative (Suc d))"
      by (unfold_locales) (auto intro: g_mul1 g_muln)
    then have "sound_for (parse_multiplicative (Suc d)) (g_multiplicative (Suc d))"
      unfolding parse_multiplicative_def by (rule binary_level.level_sound)
    then have "binary_level add_op (parse_multiplicative (Suc d)) (g_multiplicative (Suc d)) (g_additive (Suc d))"
      by (unfold_locales) (auto intro: g_add1 g_addn)
    then have "sound_for (parse_additive (Suc d)) (g_additive (Suc d))"
      unfolding parse_additive_def by (rule binary_level.level_sound)
    from primary_cases_sound[OF True this] have prim: "sound_for (parse_primary d) (g_unary d)"
      using True by (simp add: parse_primary_def sound_for_def)
    show ?thesis unfolding sound_for_def
    proof (intro allI impI)
      fix ts e rest
      assume p: "parse_unary d ts = Inr (e, rest)"
      show "\<exists>pre. ts = pre @ rest \<and> pre \<noteq> [] \<and> g_unary d e pre"
      proof (cases "\<exists>us. ts = Minus # us")
        case True
        then obtain us i where us: "ts = Minus # us" "parse_unary (Suc d) us = Inr (i, rest)" "e = Negate i"
          using p \<open>d \<le> MAX_DEPTH\<close> by (subst (asm) parse_unary_eq) (auto split: sum.splits)
        from sound_forE[OF IH us(2)] obtain pre where "us = pre @ rest" "g_unary (Suc d) i pre" .
        then show ?thesis using us g_neg[OF \<open>d \<le> MAX_DEPTH\<close>] by (intro exI[of _ "Minus # pre"]) simp
      next
        case False
        then have "parse_primary d ts = Inr (e, rest)"
          using p \<open>d \<le> MAX_DEPTH\<close> by (subst (asm) parse_unary_eq) (auto split: list.splits token.splits)
        from sound_forE[OF prim this] show ?thesis by blast
      qed
    qed
  qed (simp add: sound_for_def parse_unary_def)
qed

interpretation mult_level: binary_level mult_op "parse_unary d" "g_unary d" "g_multiplicative d" for d
  by unfold_locales (auto intro: parse_unary_sound g_mul1 g_muln)

interpretation add_level: binary_level add_op "parse_multiplicative d" "g_multiplicative d" "g_additive d" for d
  by unfold_locales (auto intro: mult_level.level_sound[folded parse_multiplicative_def] g_add1 g_addn)

text \<open>Completeness: no level looks past what it accepts, except for its own operators.\<close>

lemma binary_loop_stop: "ts = [] \<or> ops (hd ts) = None \<Longrightarrow> binary_loop ops p lhs ts = Inr (lhs, ts)"
  by (subst binary_loop.simps) (auto split: list.split)

lemma binary_loop_step:
  assumes "ops t = Some mk" "p (us @ rest) = Inr (r, rest)"
  shows "binary_loop ops p lhs (t # us @ rest) = binary_loop ops p (mk lhs r) rest"
  using assms by (subst binary_loop.simps) simp

definition stops :: "(token \<Rightarrow> (expr \<Rightarrow> expr \<Rightarrow> expr) option) \<Rightarrow> token list \<Rightarrow> bool" where
  "stops ops ts \<longleftrightarrow> ts = [] \<or> ops (hd ts) = None"

lemma grammar_complete:
  "g_additive d e ts \<Longrightarrow> stops mult_op rest \<Longrightarrow>
     parse_additive d (ts @ rest) = binary_loop add_op (parse_multiplicative d) e rest"
  "g_multiplicative d e ts \<Longrightarrow>
     parse_multiplicative d (ts @ rest') = binary_loop mult_op (parse_unary d) e rest'"
  "g_unary d e ts \<Longrightarrow> parse_unary d (ts @ rest'') = Inr (e, rest'')"
proof (induction arbitrary: rest and rest' and rest'' rule: g_additive_g_multiplicative_g_unary.inducts)
  case (g_add1 d e ts)
  then show ?case by (simp add: parse_additive_def chain_def binary_loop_stop stops_def)
next
  case (g_addn d l ts t mk r us)
  have "stops mult_op (t # us @ rest)" using g_addn by (cases t) (auto simp: stops_def)
  moreover have "parse_multiplicative d (us @ rest) = Inr (r, rest)"
    using g_addn by (simp add: binary_loop_stop stops_def)
  ultimately show ?case using g_addn by (simp add: binary_loop_step)
next
  case (g_mul1 d e ts)
  then show ?case by (simp add: parse_multiplicative_def chain_def)
next
  case (g_muln d l ts t mk r us)
  then show ?case by (simp add: binary_loop_step)
next
  case (g_neg d e ts)
  then show ?case by (subst parse_unary_eq) simp
next
  case (g_paren d e ts)
  then have "parse_additive (Suc d) (ts @ CloseParen # rest'') = Inr (e, CloseParen # rest'')"
    by (simp add: stops_def binary_loop_stop)
  then show ?case using g_paren
    by (subst parse_unary_eq) (simp add: parse_primary_def primary_cases_def expect_token_def)
next
  case (g_deref d e ts)
  then have "parse_additive (Suc d) (ts @ CloseBracket # rest'') = Inr (e, CloseBracket # rest'')"
    by (simp add: stops_def binary_loop_stop)
  then show ?case using g_deref
    by (subst parse_unary_eq) (simp add: parse_primary_def primary_cases_def expect_token_def)
qed (subst parse_unary_eq, simp add: parse_primary_def primary_cases_def)+

lemma g_plus:
  assumes "g_unary d l ts" "g_unary d r us"
  shows "g_additive d (Add l r) (ts @ Plus # us)"
  using g_addn[OF g_add1[OF g_mul1[OF assms(1)]] _ g_mul1[OF assms(2)], of Plus] by simp

lemma parse_additive_sound: "sound_for (parse_additive d) (g_additive d)"
  unfolding parse_additive_def by (rule add_level.level_sound)

text \<open>
  C8. The parser decides the grammar: it returns an expression for a token list exactly when the grammar derives
  that list from the expression at nesting depth zero, with at most \<open>MAX_DEPTH\<close> nested brackets, parentheses
  and prefix signs. Precedence and left associativity are the grammar's, and no token is left over.
\<close>

theorem parse_tokens_grammar: "parse_tokens ts = Inr e \<longleftrightarrow> g_additive 0 e ts"
proof
  assume "parse_tokens ts = Inr e"
  then obtain rest where r: "parse_additive 0 ts = Inr (e, rest)" "finish ts rest = Inr ()"
    by (auto simp: parse_tokens_def parse_expr_def split: sum.splits)
  from sound_forE[OF parse_additive_sound r(1)] obtain pre where "ts = pre @ rest" "pre \<noteq> []" "g_additive 0 e pre" .
  moreover from this r(2) have "rest = []" by (auto simp: finish_def Let_def split: if_splits)
  ultimately show "g_additive 0 e ts" by simp
next
  assume "g_additive 0 e ts"
  from grammar_complete(1)[OF this, of "[]"] show "parse_tokens ts = Inr e"
    by (simp add: stops_def binary_loop_stop parse_tokens_def parse_expr_def finish_def)
qed

lemma wraps_in_range: "n mod 2 ^ 64 \<le> USIZE_MAX" "nat (z mod 2 ^ 64) \<le> USIZE_MAX" for n :: nat and z :: int
proof -
  have "n mod 2 ^ 64 < 2 ^ 64" by simp
  then show "n mod 2 ^ 64 \<le> USIZE_MAX" unfolding USIZE_MAX_def by linarith
  have "nat (z mod 2 ^ 64) < nat (2 ^ 64)" by (subst nat_less_eq_zless) simp_all
  then show "nat (z mod 2 ^ 64) \<le> USIZE_MAX" unfolding USIZE_MAX_def by simp
qed

text \<open>
  Formula evaluation never leaves the address range: if module bases and values read are 64-bit, so is the
  address of every formula that resolves, whatever sums, differences, products and negations wrap on the way.
\<close>

theorem resolve_formula_in_range:
  assumes "resolve_formula formula modules reader = Inr a"
    and "\<And>n b. modules n = Some b \<Longrightarrow> b \<le> USIZE_MAX"
    and "\<And>x v. reader x = Inr v \<Longrightarrow> v \<le> USIZE_MAX"
  shows "a \<le> USIZE_MAX"
proof -
  have "evaluate ex modules reader = Inr v \<Longrightarrow> v \<le> USIZE_MAX" for ex v
  proof (induction ex arbitrary: v)
    case (Div l r)
    then show ?case by (fastforce split: sum.splits if_splits intro: le_trans[OF div_le_dividend])
  next
    case (Rem l r)
    then show ?case by (fastforce split: sum.splits if_splits intro: le_trans[OF mod_less_eq_dividend])
  qed (use assms(2,3) wraps_in_range in \<open>auto simp: lift2_def usize_defs split: sum.splits option.splits\<close>)
  then show ?thesis using assms(1) by (auto simp: resolve_formula_def split: sum.splits)
qed

theorem resolve_formula_in_range_witness:
  "resolve_formula ''<a>-0x1'' (resolve_module [\<lparr>mod_base = 0, mod_size = 1, mod_name = ''A''\<rparr>]) (\<lambda>x. Inr 0)
     = Inr USIZE_MAX \<and> USIZE_MAX \<le> USIZE_MAX"
proof -
  have t: "tokenize ''<a>-0x1'' = Inr [Identifier ''a'', Minus, Number 1]"
  proof -
    have "format_hex 1 = ''1''" by (simp add: format_hex_def digits_of.simps hex_digit_lower_def)
    then have "lexes ''0x1'' [Number 1]" using lexes_hex[of 1 "[]", OF _ _ lexes_Nil] by simp
    then have "lexes ''-0x1'' [Minus, Number 1]"
      using lexes_single[of "CHR ''-''" Minus] by (simp add: single_token_def is_ws_def)
    from lexes_module[OF _ this, of "''a''"] show ?thesis by (intro lexes_tokenize) simp
  qed
  have "g_additive 0 (Sub (Module ''a'') (Constant 1)) ([Identifier ''a''] @ Minus # [Number 1])"
    by (intro g_addn g_add1 g_mul1 g_module g_const) simp_all
  then have p: "parse ''<a>-0x1'' = Inr (Sub (Module ''a'') (Constant 1))"
    using grammar_complete(1)[of 0 _ _ "[]"]
    by (simp add: t parse_def stops_def binary_loop_stop parse_tokens_def parse_expr_def finish_def)
  have r: "resolve_formula ''<a>-0x1'' (resolve_module [\<lparr>mod_base = 0, mod_size = 1, mod_name = ''A''\<rparr>]) (\<lambda>x. Inr 0)
     = Inr USIZE_MAX"
    by (simp add: resolve_formula_def p resolve_module_def eq_ignore_ascii_case_def to_ascii_lowercase_def
        lift2_def i64_as_usize_def wrapping_sub_def USIZE_MAX_def)
  show ?thesis using resolve_formula_in_range[OF r] r
    by (auto simp: resolve_module_def split: if_splits)
qed

end
