(* ===== verification/Spider.thy ===== *)
theory Spider
  imports Pointer_Scan Scanner
begin

text \<open>
  The structure spider (nemclass-scan/src/spider.rs): a breadth-first search for a value inside the object graph
  below a root address, the paths it reports, and the refinement of earlier hits.

  As in the scanner, \<open>None\<close> is the overflow panic of a checked build, and the observer is a state with a
  tick function. The window buffer is reused from struct to struct, as in the source; what a read leaves
  unwritten keeps its old bytes.
\<close>

section \<open>Configuration, paths, hits\<close>

definition MAX_STRUCT_SIZE :: nat where "MAX_STRUCT_SIZE = 0x4000"
definition SPIDER_MAX_DEPTH :: nat where "SPIDER_MAX_DEPTH = 8"
definition PAGE :: nat where "PAGE = 4096"
definition SPIDER_PROGRESS_INTERVAL :: nat where "SPIDER_PROGRESS_INTERVAL = 64"

record spider_config =
  sc_struct_size :: nat
  sc_alignment :: nat
  sc_max_depth :: nat
  sc_pointer_size :: nat
  sc_max_results :: nat
  sc_max_nodes :: nat
  sc_dedupe_nodes :: bool

definition SpiderConfig_default :: spider_config where
  "SpiderConfig_default =
     \<lparr>sc_struct_size = 0x1000, sc_alignment = 4, sc_max_depth = 3, sc_pointer_size = 8,
      sc_max_results = 100000, sc_max_nodes = 1000000, sc_dedupe_nodes = True\<rparr>"

definition clamp :: "nat \<Rightarrow> nat \<Rightarrow> nat \<Rightarrow> nat" where
  "clamp x lo hi = (if x < lo then lo else if x > hi then hi else x)"

definition SpiderConfig_clamped :: "spider_config \<Rightarrow> spider_config" where
  "SpiderConfig_clamped c =
     \<lparr>sc_struct_size = clamp (sc_struct_size c) 1 MAX_STRUCT_SIZE,
      sc_alignment = sc_alignment c,
      sc_max_depth = min (sc_max_depth c) SPIDER_MAX_DEPTH,
      sc_pointer_size = clamp (sc_pointer_size c) 1 8,
      sc_max_results = max (sc_max_results c) 1,
      sc_max_nodes = max (sc_max_nodes c) 1,
      sc_dedupe_nodes = sc_dedupe_nodes c\<rparr>"

record spider_path =
  sp_root :: usize
  sp_parent_offsets :: "usize list"
  sp_offset :: usize

definition SpiderPath_depth :: "spider_path \<Rightarrow> nat" where
  "SpiderPath_depth p = length (sp_parent_offsets p)"

text \<open>The loop of \<open>SpiderPath::resolve\<close>: every parent offset is followed, and a null pointer ends the walk.\<close>

fun spider_hops :: "ptr_reader \<Rightarrow> usize list \<Rightarrow> usize \<Rightarrow> usize option" where
  "spider_hops rd [] addr = Some addr"
| "spider_hops rd (off # offs) addr =
     (case checked_add addr off of
        None \<Rightarrow> None
      | Some a \<Rightarrow>
          (case rd a of
             None \<Rightarrow> None
           | Some v \<Rightarrow> if v = 0 then None else spider_hops rd offs v))"

definition SpiderPath_resolve :: "spider_path \<Rightarrow> ptr_reader \<Rightarrow> usize option" where
  "SpiderPath_resolve p rd =
     (case spider_hops rd (sp_parent_offsets p) (sp_root p) of
        None \<Rightarrow> None
      | Some addr \<Rightarrow> checked_add addr (sp_offset p))"

definition SpiderPath_to_formula :: "spider_path \<Rightarrow> string \<Rightarrow> string" where
  "SpiderPath_to_formula p base_expr =
     foldl (\<lambda>expr off. ''['' @ expr @ '' + 0x'' @ format_hex off @ '']'') base_expr (sp_parent_offsets p)
       @ '' + 0x'' @ format_hex (sp_offset p)"

definition SpiderPath_to_formula_raw :: "spider_path \<Rightarrow> string" where
  "SpiderPath_to_formula_raw p = SpiderPath_to_formula p (''0x'' @ format_hex (sp_root p))"

definition SpiderPath_to_formula_at_module :: "spider_path \<Rightarrow> string \<Rightarrow> usize \<Rightarrow> string" where
  "SpiderPath_to_formula_at_module p module_name module_base =
     (let base_off = wrapping_sub (sp_root p) module_base
      in SpiderPath_to_formula p
           (if base_off = 0 then ''<'' @ module_name @ ''>''
            else ''<'' @ module_name @ ''> + 0x'' @ format_hex base_off))"

record spider_hit =
  sh_path :: spider_path
  sh_current :: bytes
  sh_previous :: bytes

record spider_result =
  so_hits :: "spider_hit list"
  so_truncated :: bool
  so_nodes_visited :: nat

record frame =
  fr_addr :: usize
  fr_depth :: nat
  fr_path :: "usize list"

section \<open>Reading a struct window\<close>

datatype cover = Full nat | Sparse "(nat \<times> nat) list"

fun Cover_has :: "cover \<Rightarrow> nat \<Rightarrow> nat \<Rightarrow> bool" where
  "Cover_has c off need =
     (case checked_add off need of
        None \<Rightarrow> False
      | Some e \<Rightarrow> (case c of Full n \<Rightarrow> e \<le> n | Sparse spans \<Rightarrow> (\<exists>(s, t)\<in>set spans. off \<ge> s \<and> e \<le> t)))"

declare Cover_has.simps [simp del]

fun Cover_limit :: "cover \<Rightarrow> nat" where
  "Cover_limit (Full n) = n"
| "Cover_limit (Sparse spans) = (if spans = [] then 0 else snd (last spans))"

definition put_bytes :: "bytes \<Rightarrow> nat \<Rightarrow> bytes \<Rightarrow> bytes" where
  "put_bytes buf off bs = take off buf @ take (length buf - off) bs @ drop (off + length bs) buf"

lemma length_put_bytes [simp]: "length (put_bytes buf off bs) = length buf"
  by (auto simp: put_bytes_def)

definition push_span :: "(nat \<times> nat) list \<Rightarrow> nat \<Rightarrow> nat \<Rightarrow> (nat \<times> nat) list" where
  "push_span spans off n =
     (if spans \<noteq> [] \<and> snd (last spans) = off then butlast spans @ [(fst (last spans), off + n)]
      else spans @ [(off, off + n)])"

type_synonym mem_read = "usize \<Rightarrow> nat \<Rightarrow> core_error + bytes"

text \<open>The page by page retry.\<close>

function read_pages :: "mem_read \<Rightarrow> usize \<Rightarrow> nat \<Rightarrow> bytes \<Rightarrow> (nat \<times> nat) list \<Rightarrow> (cover \<times> bytes) option" where
  "read_pages rd addr off buf spans =
     (if off < length buf then
        (case checked_add addr off of
           None \<Rightarrow> None
         | Some a \<Rightarrow>
             (case checked_next_multiple_of a PAGE of
                None \<Rightarrow> None
              | Some boundary \<Rightarrow>
                  let stop = clamp (boundary - addr) (off + 1) (length buf)
                  in (case rd a (stop - off) of
                        Inl e \<Rightarrow> read_pages rd addr stop buf spans
                      | Inr bs \<Rightarrow>
                          if length bs > 0
                          then read_pages rd addr stop (put_bytes buf off bs)
                                 (push_span spans off (length bs))
                          else read_pages rd addr stop buf spans)))
      else Some (Sparse spans, buf))"
  by pat_completeness auto
termination
  by (relation "measure (\<lambda>(_, _, off, buf, _). length buf - off)") (auto simp: clamp_def)

declare read_pages.simps [simp del]

definition read_window :: "mem_read \<Rightarrow> usize \<Rightarrow> bytes \<Rightarrow> (cover \<times> bytes) option" where
  "read_window rd addr buf =
     (case rd addr (length buf) of
        Inl e \<Rightarrow> read_pages rd addr 0 buf []
      | Inr bs \<Rightarrow>
          if length bs > 0 then Some (Full (length bs), put_bytes buf 0 bs)
          else read_pages rd addr 0 buf [])"

section \<open>The search\<close>

text \<open>What one pass keeps fixed, and what it changes.\<close>

record spider_env =
  se_read :: mem_read
  se_cfg :: spider_config
  se_root :: usize
  se_needle :: needle
  se_compare :: scan_compare_type
  se_stride :: nat
  se_align :: nat
  se_ranges :: "(usize \<times> usize) list"

record 'o spider_walk =
  sw_hits :: "spider_hit list"
  sw_visited :: "usize set"
  sw_next :: "frame list"
  sw_win :: bytes
  sw_nodes :: nat
  sw_truncated :: bool
  sw_obs :: 'o

definition value_branch :: "spider_env \<Rightarrow> frame \<Rightarrow> cover \<Rightarrow> nat \<Rightarrow> 'o spider_walk \<Rightarrow> bool \<times> 'o spider_walk" where
  "value_branch env f cover off w =
     (if Cover_has cover off (se_stride env) \<and> compare_first (se_needle env) (sw_win w) off (se_compare env) then
        let value = slice (sw_win w) off (se_stride env);
            hit = \<lparr>sh_path = \<lparr>sp_root = se_root env, sp_parent_offsets = fr_path f, sp_offset = off\<rparr>,
                   sh_current = value, sh_previous = value\<rparr>;
            w = w\<lparr>sw_hits := sw_hits w @ [hit]\<rparr>
        in if length (sw_hits w) \<ge> sc_max_results (se_cfg env) then (True, w\<lparr>sw_truncated := True\<rparr>) else (False, w)
      else (False, w))"

definition pointer_branch :: "spider_env \<Rightarrow> frame \<Rightarrow> cover \<Rightarrow> nat \<Rightarrow> 'o spider_walk \<Rightarrow> 'o spider_walk option" where
  "pointer_branch env f cover off w =
     (let psize = sc_pointer_size (se_cfg env)
      in if fr_depth f < sc_max_depth (se_cfg env) then
           (case checked_add (fr_addr f) off of
              None \<Rightarrow> None
            | Some slot \<Rightarrow>
                if slot mod psize = 0 \<and> Cover_has cover off psize then
                  let word = read_word (slice (sw_win w) off psize)
                  in if word \<noteq> 0 \<and> word \<noteq> fr_addr f \<and> is_mapped (se_ranges env) word then
                       let fresh = (if sc_dedupe_nodes (se_cfg env) then word \<notin> sw_visited w else True);
                           w = (if sc_dedupe_nodes (se_cfg env) then w\<lparr>sw_visited := insert word (sw_visited w)\<rparr> else w)
                       in if fresh then
                            Some (w\<lparr>sw_next := sw_next w @
                              [\<lparr>fr_addr = word, fr_depth = fr_depth f + 1, fr_path = fr_path f @ [off]\<rparr>]\<rparr>)
                          else Some w
                     else Some w
                else Some w)
         else Some w)"

text \<open>The slots of one window; the flag is the break out of the whole search.\<close>

function spider_slots ::
  "spider_env \<Rightarrow> frame \<Rightarrow> cover \<Rightarrow> nat \<Rightarrow> nat \<Rightarrow> nat \<Rightarrow> 'o spider_walk \<Rightarrow> (bool \<times> 'o spider_walk) option" where
  "spider_slots env f cover window_end limit off w =
     (if off < window_end \<and> off < limit \<and> 0 < se_align env then
        (case value_branch env f cover off w of
           (True, w) \<Rightarrow> Some (True, w)
         | (False, w) \<Rightarrow>
             (case pointer_branch env f cover off w of
                None \<Rightarrow> None
              | Some w \<Rightarrow> spider_slots env f cover window_end limit (off + se_align env) w))
      else Some (False, w))"
  by pat_completeness auto
termination
  by (relation "measure (\<lambda>(_, _, _, _, limit, off, _). limit - off)") auto

declare spider_slots.simps [simp del]

definition spider_frame :: "spider_env \<Rightarrow> frame \<Rightarrow> 'o spider_walk \<Rightarrow> (bool \<times> 'o spider_walk) option" where
  "spider_frame env f w =
     (case read_window (se_read env) (fr_addr f) (sw_win w) of
        None \<Rightarrow> None
      | Some (cover, win) \<Rightarrow>
          let w = w\<lparr>sw_win := win\<rparr>; limit = Cover_limit cover
          in if limit = 0 then Some (False, w)
             else
               (case checked_next_multiple_of (fr_addr f) (se_align env) of
                  None \<Rightarrow> None
                | Some first \<Rightarrow>
                    let start = first - fr_addr f; window_end = start + sc_struct_size (se_cfg env)
                    in spider_slots env f cover window_end limit start w))"

datatype spider_flow = Drained | Stopped | Aborted

definition node_tick :: "'o observer \<Rightarrow> nat \<Rightarrow> 'o spider_walk \<Rightarrow> bool \<times> 'o spider_walk" where
  "node_tick tick queued w =
     (if sw_nodes w mod SPIDER_PROGRESS_INTERVAL = 0 then
        let (go, obs) = tick (sw_obs w)
              \<lparr>pr_done = sw_nodes w, pr_total = sw_nodes w + queued + length (sw_next w),
               pr_matches = length (sw_hits w)\<rparr>
        in (go, w\<lparr>sw_obs := obs\<rparr>)
      else (True, w))"

fun spider_level ::
  "'o observer \<Rightarrow> spider_env \<Rightarrow> frame list \<Rightarrow> 'o spider_walk \<Rightarrow> (spider_flow \<times> 'o spider_walk) option" where
  "spider_level tick env [] w = Some (Drained, w)"
| "spider_level tick env (f # level) w =
     (if sw_nodes w \<ge> sc_max_nodes (se_cfg env) then Some (Stopped, w\<lparr>sw_truncated := True\<rparr>)
      else
        (case node_tick tick (length level) (w\<lparr>sw_nodes := sw_nodes w + 1\<rparr>) of
           (False, w) \<Rightarrow> Some (Aborted, w)
         | (True, w) \<Rightarrow>
             (case spider_frame env f w of
                None \<Rightarrow> None
              | Some (True, w) \<Rightarrow> Some (Stopped, w)
              | Some (False, w) \<Rightarrow> spider_level tick env level w)))"

lemma node_tick_keeps:
  "node_tick tick q w = (b, w') \<Longrightarrow> \<exists>obs. w' = w\<lparr>sw_obs := obs\<rparr>"
  by (auto simp: node_tick_def Let_def split: if_splits prod.splits intro: exI[of _ "sw_obs w"])

lemma spider_level_Cons_cases [consumes 1, case_names full abort stop step]:
  assumes "spider_level tick env (f # level) w = Some (fl, w')"
  obtains "sw_nodes w \<ge> sc_max_nodes (se_cfg env)" "fl = Stopped" "w' = w\<lparr>sw_truncated := True\<rparr>"
  | obs where "fl = Aborted" "w' = w\<lparr>sw_nodes := sw_nodes w + 1, sw_obs := obs\<rparr>"
      "sw_nodes w < sc_max_nodes (se_cfg env)"
  | obs where "fl = Stopped" "spider_frame env f (w\<lparr>sw_nodes := sw_nodes w + 1, sw_obs := obs\<rparr>) = Some (True, w')"
      "sw_nodes w < sc_max_nodes (se_cfg env)"
  | obs w1 where "spider_frame env f (w\<lparr>sw_nodes := sw_nodes w + 1, sw_obs := obs\<rparr>) = Some (False, w1)"
      "spider_level tick env level w1 = Some (fl, w')" "sw_nodes w < sc_max_nodes (se_cfg env)"
proof (cases "sw_nodes w \<ge> sc_max_nodes (se_cfg env)")
  case True
  then show ?thesis using assms that(1) by simp
next
  case False
  obtain go w1 where t: "node_tick tick (length level) (w\<lparr>sw_nodes := sw_nodes w + 1\<rparr>) = (go, w1)" by fastforce
  from node_tick_keeps[OF t] obtain obs where w1: "w1 = w\<lparr>sw_nodes := sw_nodes w + 1, sw_obs := obs\<rparr>" by auto
  show ?thesis
  proof (cases go)
    case False
    then show ?thesis using assms t w1 that(2) \<open>\<not> sw_nodes w \<ge> _\<close> by auto
  next
    case True
    with assms t \<open>\<not> sw_nodes w \<ge> _\<close> obtain b w2 where fr: "spider_frame env f w1 = Some (b, w2)"
      by (auto split: option.splits)
    show ?thesis
      by (cases b) (use assms t w1 fr True \<open>\<not> sw_nodes w \<ge> _\<close> that(3,4) in auto)
  qed
qed

text \<open>
  Every frame queued while a level is drained is one hop deeper than a frame of that level, and none is queued
  below the depth limit: the search ends.
\<close>

definition child_of :: "spider_env \<Rightarrow> frame set \<Rightarrow> frame \<Rightarrow> bool" where
  "child_of env fs g \<longleftrightarrow>
     (\<exists>f\<in>fs. fr_depth f < sc_max_depth (se_cfg env) \<and> fr_depth g = Suc (fr_depth f))"

lemma value_branch_next:
  "value_branch env f c off w = (b, w') \<Longrightarrow>
     sw_next w' = sw_next w \<and> sw_visited w' = sw_visited w \<and> sw_win w' = sw_win w \<and> sw_nodes w' = sw_nodes w"
  by (auto simp: value_branch_def Let_def split: if_splits)

lemma pointer_branch_next:
  "pointer_branch env f c off w = Some w' \<Longrightarrow> g \<in> set (sw_next w') \<Longrightarrow> g \<in> set (sw_next w) \<or> child_of env {f} g"
  by (auto simp: pointer_branch_def child_of_def Let_def split: if_splits option.splits)

lemma spider_slots_next:
  "spider_slots env f c e l off w = Some (b, w') \<Longrightarrow> g \<in> set (sw_next w') \<Longrightarrow>
     g \<in> set (sw_next w) \<or> child_of env {f} g"
proof (induction env f c e l off w arbitrary: b w' rule: spider_slots.induct)
  case (1 env f c e l off w)
  show ?case
  proof (cases "off < e \<and> off < l \<and> 0 < se_align env")
    case True
    obtain v w1 where v: "value_branch env f c off w = (v, w1)" by fastforce
    show ?thesis
    proof (cases v)
      case False
      with 1(2) True v obtain w2 where p: "pointer_branch env f c off w1 = Some w2"
        "spider_slots env f c e l (off + se_align env) w2 = Some (b, w')"
        by (subst (asm) spider_slots.simps) (auto split: option.splits)
      from 1(1)[OF True v[symmetric] _ p(1,2) 1(3)] False pointer_branch_next[OF p(1)] value_branch_next[OF v]
      show ?thesis by (cases v) auto
    qed (use 1 True v value_branch_next[OF v] in \<open>auto simp: spider_slots.simps\<close>)
  qed (use 1 in \<open>auto simp: spider_slots.simps\<close>)
qed

lemma spider_frame_next:
  "spider_frame env f w = Some (b, w') \<Longrightarrow> g \<in> set (sw_next w') \<Longrightarrow> g \<in> set (sw_next w) \<or> child_of env {f} g"
  by (auto simp: spider_frame_def Let_def split: option.splits if_splits dest!: spider_slots_next)

lemma spider_level_next:
  "spider_level tick env level w = Some (fl, w') \<Longrightarrow> g \<in> set (sw_next w') \<Longrightarrow>
     g \<in> set (sw_next w) \<or> child_of env (set level) g"
proof (induction level arbitrary: w)
  case (Cons f level)
  have mono: "child_of env {f} g \<or> child_of env (set level) g \<Longrightarrow> child_of env (set (f # level)) g"
    by (auto simp: child_of_def)
  from Cons.prems(1) show ?case
  proof (cases rule: spider_level_Cons_cases)
    case (stop obs)
    then show ?thesis using spider_frame_next[OF stop(2), of g] Cons.prems mono by auto
  next
    case (step obs w1)
    then show ?thesis using Cons.IH[OF step(2)] spider_frame_next[OF step(1), of g] Cons.prems mono by auto
  qed (use Cons.prems in auto)
qed simp

text \<open>The levels a frontier can still reach.\<close>

definition levels_left :: "spider_env \<Rightarrow> frame list \<Rightarrow> nat" where
  "levels_left env fs = Max (insert 0 ((\<lambda>f. Suc (sc_max_depth (se_cfg env)) - fr_depth f) ` set fs))"

lemma levels_left_child:
  assumes "level \<noteq> []" "\<And>g. g \<in> set nx \<Longrightarrow> child_of env (set level) g"
  shows "levels_left env nx < Suc (levels_left env level)"
    "nx \<noteq> [] \<Longrightarrow> levels_left env nx < levels_left env level"
proof -
  let ?h = "\<lambda>f. Suc (sc_max_depth (se_cfg env)) - fr_depth f"
  have each: "?h g < levels_left env level" if g: "g \<in> set nx" for g
  proof -
    from assms(2)[OF g] obtain f where f: "f \<in> set level" "fr_depth f < sc_max_depth (se_cfg env)"
      "fr_depth g = Suc (fr_depth f)" by (auto simp: child_of_def)
    then have "?h f \<le> levels_left env level" unfolding levels_left_def by (intro Max_ge) auto
    then show ?thesis using f by simp
  qed
  show "levels_left env nx < Suc (levels_left env level)"
    using each unfolding levels_left_def[of env nx] by (auto simp: Max_insert less_Suc_eq_le intro: less_imp_le)
  show "levels_left env nx < levels_left env level" if "nx \<noteq> []"
    using each that unfolding levels_left_def[of env nx]
    by (subst Max_less_iff) (auto, metis gr0I list.set_sel(1) not_less_zero)
qed

function spider_search ::
  "'o observer \<Rightarrow> spider_env \<Rightarrow> frame list \<Rightarrow> 'o spider_walk \<Rightarrow> (spider_flow \<times> 'o spider_walk) option" where
  "spider_search tick env frontier w =
     (if frontier = [] then Some (Drained, w)
      else
        (case spider_level tick env frontier (w\<lparr>sw_next := []\<rparr>) of
           None \<Rightarrow> None
         | Some (Drained, w) \<Rightarrow> spider_search tick env (sw_next w) w
         | Some (fl, w) \<Rightarrow> Some (fl, w)))"
  by pat_completeness auto
termination
proof (relation "measure (\<lambda>(_, env, frontier, _). if frontier = [] then 0 else Suc (levels_left env frontier))", goal_cases)
  case (2 tick env frontier w a fl w')
  then have "child_of env (set frontier) g" if "g \<in> set (sw_next w')" for g
    using that spider_level_next[of tick env frontier "w\<lparr>sw_next := []\<rparr>" Drained w' g] by simp
  from levels_left_child[OF 2(1) this] show ?case using 2(1) by simp
qed simp

declare spider_search.simps [simp del]

definition spider_env_for :: "target \<Rightarrow> region list \<Rightarrow> usize \<Rightarrow> spider_config \<Rightarrow> scan_compare_type \<Rightarrow> needle \<Rightarrow> spider_env" where
  "spider_env_for t regions base cfg compare needle =
     \<lparr>se_read = tg_read t, se_cfg = cfg, se_root = base, se_needle = needle, se_compare = compare,
      se_stride = stride needle,
      se_align = max (if sc_alignment cfg = 0 then stride needle else sc_alignment cfg) 1,
      se_ranges = region_pairs regions\<rparr>"

definition spider_start :: "spider_env \<Rightarrow> nat \<Rightarrow> 'o \<Rightarrow> 'o spider_walk" where
  "spider_start env win_len obs =
     \<lparr>sw_hits = [], sw_visited = {se_root env}, sw_next = [], sw_win = replicate win_len 0, sw_nodes = 0,
      sw_truncated = False, sw_obs = obs\<rparr>"

definition spider_scan_with ::
  "'o observer \<Rightarrow> 'o \<Rightarrow> target \<Rightarrow> usize \<Rightarrow> spider_config \<Rightarrow> scan_value_type \<Rightarrow> scan_compare_type \<Rightarrow> needle option \<Rightarrow>
   ('o \<times> (scan_error + spider_result)) option" where
  "spider_scan_with tick obs t base cfg0 ty compare needle0 =
     (let cfg = SpiderConfig_clamped cfg0
      in if is_baseline compare then Some (obs, Inl (CompareIsFirstScanOnly compare))
         else if needs_previous compare then Some (obs, Inl (CompareNeedsPrevious compare))
         else case needle0 of
           None \<Rightarrow> Some (obs, Inl (MissingNeedle compare))
         | Some needle \<Rightarrow>
             if nd_ty needle \<noteq> ty then Some (obs, Inl (NeedleTypeMismatch (nd_ty needle) ty))
             else if stride needle = 0 then Some (obs, Inl (NoStride ty))
             else
               (case tg_regions t of
                  Inl e \<Rightarrow> Some (obs, Inl (TargetError e))
                | Inr regions \<Rightarrow>
                    let env = spider_env_for t regions base cfg compare needle
                    in (case checked_add (sc_struct_size cfg + sc_pointer_size cfg) (se_align env) of
                          None \<Rightarrow> None
                        | Some win_len \<Rightarrow>
                            (case spider_search tick env [\<lparr>fr_addr = base, fr_depth = 0, fr_path = []\<rparr>]
                                    (spider_start env win_len obs) of
                               None \<Rightarrow> None
                             | Some (Aborted, w) \<Rightarrow> Some (sw_obs w, Inl ScanCancelled)
                             | Some (_, w) \<Rightarrow>
                                 Some (sw_obs w, Inr \<lparr>so_hits = sw_hits w, so_truncated = sw_truncated w,
                                                     so_nodes_visited = sw_nodes w\<rparr>)))))"

definition spider_scan ::
  "target \<Rightarrow> usize \<Rightarrow> spider_config \<Rightarrow> scan_value_type \<Rightarrow> scan_compare_type \<Rightarrow> needle option \<Rightarrow>
   (scan_error + spider_result) option" where
  "spider_scan t base cfg ty compare needle =
     map_option snd (spider_scan_with NoObserver () t base cfg ty compare needle)"

section \<open>Refinement of earlier hits\<close>

text \<open>The pointer reader of a refinement: a hop that is not read in full fails.\<close>

definition refine_read :: "target \<Rightarrow> nat \<Rightarrow> ptr_reader" where
  "refine_read t psize addr =
     (case tg_read t addr psize of
        Inl e \<Rightarrow> None
      | Inr bs \<Rightarrow> if length bs = psize then Some (read_word bs) else None)"

definition refine_verdict ::
  "target \<Rightarrow> nat \<Rightarrow> nat \<Rightarrow> scan_value_type \<Rightarrow> scan_compare_type \<Rightarrow> needle option \<Rightarrow> spider_hit \<Rightarrow> bytes option" where
  "refine_verdict t psize sz ty compare needle hit =
     (case SpiderPath_resolve (sh_path hit) (refine_read t psize) of
        None \<Rightarrow> None
      | Some addr \<Rightarrow>
          (case tg_read t addr sz of
             Inl e \<Rightarrow> None
           | Inr buf \<Rightarrow>
               if length buf < sz then None
               else if (case needle of
                          Some n \<Rightarrow> compare_next n buf 0 compare (sh_current hit)
                        | None \<Rightarrow> compare_change ty compare buf (sh_current hit))
                    then Some buf else None))"

fun refine_loop ::
  "'o observer \<Rightarrow> (spider_hit \<Rightarrow> bytes option) \<Rightarrow> nat \<Rightarrow> spider_hit list \<Rightarrow> nat \<Rightarrow> nat \<Rightarrow> bytes option list \<Rightarrow> 'o \<Rightarrow>
   'o \<times> bytes option list option" where
  "refine_loop tick verdict tot [] done kept verdicts obs = (obs, Some verdicts)"
| "refine_loop tick verdict tot (hit # hs) done kept verdicts obs =
     (let done = done + 1;
          (go, obs) = (if done mod SPIDER_PROGRESS_INTERVAL = 0
                       then tick obs \<lparr>pr_done = done, pr_total = tot, pr_matches = kept\<rparr> else (True, obs))
      in if \<not> go then (obs, None)
         else
           (case verdict hit of
              None \<Rightarrow> refine_loop tick verdict tot hs done kept (verdicts @ [None]) obs
            | Some buf \<Rightarrow> refine_loop tick verdict tot hs done (kept + 1) (verdicts @ [Some buf]) obs))"

text \<open>\<open>retain_mut\<close> with the iterator of verdicts.\<close>

fun retain_verdicts :: "spider_hit list \<Rightarrow> bytes option list \<Rightarrow> spider_hit list" where
  "retain_verdicts (hit # hs) (Some fresh # vs) =
     hit\<lparr>sh_previous := sh_current hit, sh_current := fresh\<rparr> # retain_verdicts hs vs"
| "retain_verdicts (hit # hs) (None # vs) = retain_verdicts hs vs"
| "retain_verdicts _ _ = []"

definition spider_refine_with ::
  "'o observer \<Rightarrow> 'o \<Rightarrow> target \<Rightarrow> spider_hit list \<Rightarrow> spider_config \<Rightarrow> scan_value_type \<Rightarrow> scan_compare_type \<Rightarrow>
   needle option \<Rightarrow> 'o \<times> (scan_error + unit) \<times> spider_hit list" where
  "spider_refine_with tick obs t hs cfg ty compare needle =
     (if is_baseline compare then (obs, Inl (CompareIsFirstScanOnly compare), hs)
      else if needs_needle compare \<and> needle = None then (obs, Inl (MissingNeedle compare), hs)
      else case (case needle of Some n \<Rightarrow> if nd_ty n \<noteq> ty then Some (nd_ty n) else None | None \<Rightarrow> None) of
        Some nty \<Rightarrow> (obs, Inl (NeedleTypeMismatch nty ty), hs)
      | None \<Rightarrow>
          let sz = (case needle of
                      Some n \<Rightarrow> stride n
                    | None \<Rightarrow> (case fixed_width ty of Some w \<Rightarrow> w | None \<Rightarrow> 0))
          in if sz = 0 then (obs, Inl (NoStride ty), hs)
             else
               let psize = sc_pointer_size (SpiderConfig_clamped cfg)
               in (case refine_loop tick (refine_verdict t psize sz ty compare needle) (length hs) hs 0 0 [] obs of
                     (obs, None) \<Rightarrow> (obs, Inl ScanCancelled, hs)
                   | (obs, Some verdicts) \<Rightarrow> (obs, Inr (), retain_verdicts hs verdicts)))"

section \<open>What a window shows\<close>

definition shows_mem :: "(usize \<Rightarrow> u8) \<Rightarrow> usize \<Rightarrow> bytes \<Rightarrow> nat \<Rightarrow> nat \<Rightarrow> bool" where
  "shows_mem mem addr buf s e \<longleftrightarrow>
     e \<le> length buf \<and> (\<forall>i. s \<le> i \<longrightarrow> i < e \<longrightarrow> buf ! i = mem (addr + i) \<and> addr + i \<le> USIZE_MAX)"

text \<open>No read reaches past the end of the address space.\<close>

definition reads_in_range :: "mem_read \<Rightarrow> bool" where
  "reads_in_range rd \<longleftrightarrow> (\<forall>a n bs. rd a n = Inr bs \<longrightarrow> bs \<noteq> [] \<longrightarrow> a + length bs \<le> USIZE_MAX + 1)"

lemma shows_mem_slice: "shows_mem mem addr buf off (off + n) \<Longrightarrow> slice buf off n = span mem n (addr + off)"
  by (auto simp: shows_mem_def span_def slice_simps intro!: nth_equalityI) (simp add: add.assoc)

lemma shows_mem_sub: "shows_mem mem addr buf s e \<Longrightarrow> s \<le> s' \<Longrightarrow> e' \<le> e \<Longrightarrow> shows_mem mem addr buf s' e'"
  by (auto simp: shows_mem_def)

lemma nth_put_bytes:
  "off + length bs \<le> length buf \<Longrightarrow> i < length buf \<Longrightarrow>
     put_bytes buf off bs ! i = (if off \<le> i \<and> i < off + length bs then bs ! (i - off) else buf ! i)"
  by (auto simp: put_bytes_def nth_append min_def)

lemma shows_mem_put_before:
  "shows_mem mem addr buf s e \<Longrightarrow> e \<le> off \<Longrightarrow> off + length bs \<le> length buf \<Longrightarrow>
     shows_mem mem addr (put_bytes buf off bs) s e"
  by (auto simp: shows_mem_def nth_put_bytes)

context scan_target
begin

lemma shows_mem_put:
  assumes "read (addr + off) n = Inr bs" "n \<le> length buf - off" "off \<le> length buf" "reads_in_range read"
  shows "shows_mem mem addr (put_bytes buf off bs) off (off + length bs)"
proof -
  have "length bs \<le> n" by (rule read_len) (rule assms)
  moreover have "bs \<noteq> [] \<Longrightarrow> addr + off + length bs \<le> USIZE_MAX + 1" using assms(1,4) by (auto simp: reads_in_range_def)
  ultimately show ?thesis using assms(2,3)
    by (cases "bs = []") (auto simp: shows_mem_def nth_put_bytes read_mem[OF assms(1)])
qed

lemma push_span_shows:
  assumes "\<forall>(s, e)\<in>set spans. shows_mem mem addr buf s e \<and> e \<le> off" "off + length bs \<le> length buf"
    "shows_mem mem addr (put_bytes buf off bs) off (off + length bs)"
  shows "\<forall>(s, e)\<in>set (push_span spans off (length bs)).
     shows_mem mem addr (put_bytes buf off bs) s e \<and> e \<le> off + length bs"
proof (cases "spans \<noteq> [] \<and> snd (last spans) = off")
  case True
  obtain s0 where l: "last spans = (s0, off)" using True by (cases "last spans") auto
  then have "(s0, off) \<in> set spans" using True last_in_set by metis
  with assms(1,2) have "shows_mem mem addr (put_bytes buf off bs) s0 off" by (auto intro: shows_mem_put_before)
  with assms(3) have "shows_mem mem addr (put_bytes buf off bs) s0 (off + length bs)"
    by (auto simp: shows_mem_def)
  then show ?thesis using True l assms(1,2)
    by (auto simp: push_span_def dest!: in_set_butlastD intro!: shows_mem_put_before)
next
  case False
  then have "push_span spans off (length bs) = spans @ [(off, off + length bs)]" by (auto simp: push_span_def)
  then show ?thesis using assms by (auto intro: shows_mem_put_before)
qed

lemma read_pages_shows:
  assumes "read_pages read addr off buf spans = Some (c, buf')" "off \<le> length buf" "reads_in_range read"
    "\<forall>(s, e)\<in>set spans. shows_mem mem addr buf s e \<and> e \<le> off"
  shows "length buf' = length buf \<and> (\<exists>spans'. c = Sparse spans' \<and> (\<forall>(s, e)\<in>set spans'. shows_mem mem addr buf' s e))"
  using assms(1,2,4)
proof (induction "length buf - off" arbitrary: off buf spans rule: less_induct)
  case less
  show ?case
  proof (cases "off < length buf")
    case False
    then show ?thesis using less.prems by (subst (asm) (1) read_pages.simps) auto
  next
    case True
    from less.prems(1) True obtain b where b: "checked_add addr off = Some (addr + off)"
      "checked_next_multiple_of (addr + off) PAGE = Some b"
      by (subst (asm) (1) read_pages.simps) (auto simp: checked_add_def split: option.splits if_splits)
    define stop where "stop = clamp (b - addr) (off + 1) (length buf)"
    have st: "off < stop" "stop \<le> length buf" using True by (auto simp: stop_def clamp_def)
    have IH: ?thesis if "read_pages read addr stop buf1 spans1 = Some (c, buf')" "length buf1 = length buf"
        "\<forall>(s, e)\<in>set spans1. shows_mem mem addr buf1 s e \<and> e \<le> stop" for buf1 spans1
    proof -
      have "length buf1 - stop < length buf - off" using st True that(2) by simp
      from less.hyps[OF this that(1) _ that(3)] st that(2) show ?thesis by simp
    qed
    have old: "\<forall>(s, e)\<in>set spans. shows_mem mem addr buf s e \<and> e \<le> stop" using less.prems(3) st by auto
    show ?thesis
    proof (cases "\<exists>bs. read (addr + off) (stop - off) = Inr bs \<and> length bs > 0")
      case True
      then obtain bs where bs: "read (addr + off) (stop - off) = Inr bs" "length bs > 0" by blast
      have len: "length bs \<le> stop - off" by (rule read_len) (rule bs)
      have sm: "shows_mem mem addr (put_bytes buf off bs) off (off + length bs)"
        using st by (intro shows_mem_put[OF bs(1)] assms(3)) auto
      have fit: "off + length bs \<le> length buf" using len st by simp
      have "read_pages read addr stop (put_bytes buf off bs) (push_span spans off (length bs)) = Some (c, buf')"
        using less.prems(1) \<open>off < length buf\<close> b bs
        by (subst (asm) (1) read_pages.simps) (simp add: Let_def stop_def)
      then show ?thesis
      proof (rule IH)
        from push_span_shows[OF less.prems(3) fit sm] show "\<forall>(s, e)\<in>set (push_span spans off (length bs)).
            shows_mem mem addr (put_bytes buf off bs) s e \<and> e \<le> stop" using len st by fastforce
      qed simp
    next
      case False
      then have "read_pages read addr stop buf spans = Some (c, buf')"
        using less.prems(1) \<open>off < length buf\<close> b
        by (subst (asm) (1) read_pages.simps) (auto simp: Let_def stop_def split: sum.splits)
      then show ?thesis by (rule IH[OF _ refl old])
    qed
  qed
qed

lemma read_window_shows:
  assumes "read_window read addr buf = Some (c, buf')" "reads_in_range read"
  shows "length buf' = length buf"
    and "Cover_has c off n \<Longrightarrow> shows_mem mem addr buf' off (off + n)"
proof -
  consider (full) bs where "read (addr + 0) (length buf) = Inr bs" "c = Full (length bs)" "buf' = put_bytes buf 0 bs"
    | (pages) "read_pages read addr 0 buf [] = Some (c, buf')"
  proof (cases "\<exists>bs. read addr (length buf) = Inr bs \<and> bs \<noteq> []")
    case True
    then obtain bs where "read addr (length buf) = Inr bs" "bs \<noteq> []" by blast
    with assms(1) show ?thesis by (intro full[of bs]) (simp_all add: read_window_def)
  next
    case False
    then show ?thesis using assms(1) by (intro pages) (auto simp: read_window_def split: sum.splits)
  qed
  then have "length buf' = length buf \<and> (Cover_has c off n \<longrightarrow> shows_mem mem addr buf' off (off + n))"
  proof cases
    case full
    with shows_mem_put[OF full(1) _ _ assms(2)] have "shows_mem mem addr buf' 0 (length bs)" by simp
    then show ?thesis using full by (auto simp: Cover_has.simps checked_add_def split: if_splits intro: shows_mem_sub)
  next
    case pages
    from read_pages_shows[OF pages _ assms(2)] obtain spans where "length buf' = length buf" "c = Sparse spans"
      "\<forall>(s, e)\<in>set spans. shows_mem mem addr buf' s e" by auto
    then show ?thesis by (fastforce simp: Cover_has.simps checked_add_def split: if_splits intro: shows_mem_sub)
  qed
  then show "length buf' = length buf" "Cover_has c off n \<Longrightarrow> shows_mem mem addr buf' off (off + n)" by auto
qed

end

text \<open>What is covered does not depend on what the buffer held before.\<close>

lemma read_pages_cover:
  "length buf2 = length buf \<Longrightarrow>
     map_option fst (read_pages rd addr off buf2 spans) = map_option fst (read_pages rd addr off buf spans)"
proof (induction "length buf - off" arbitrary: off buf buf2 spans rule: less_induct)
  case less
  show ?case
  proof (cases "off < length buf")
    case True
    have IH: "map_option fst (read_pages rd addr stop x2 sp) = map_option fst (read_pages rd addr stop x sp)"
      if "stop = clamp (b - addr) (off + 1) (length buf)" "length x2 = length buf" "length x = length buf" for stop b x x2 sp
    proof -
      have "off < stop" "stop \<le> length buf" using True that(1) by (auto simp: clamp_def)
      then have "length x - stop < length buf - off" using True that(3) by simp
      then show ?thesis by (rule less.hyps) (simp add: that(2,3))
    qed
    note eqs = read_pages.simps[of rd addr off buf spans] read_pages.simps[of rd addr off buf2 spans]
    show ?thesis
    proof (cases "Option.bind (checked_add addr off) (\<lambda>a. checked_next_multiple_of a PAGE)")
      case None
      then show ?thesis using less.prems by (auto simp: eqs split: option.splits)
    next
      case (Some b)
      then have a: "checked_add addr off = Some (addr + off)" "checked_next_multiple_of (addr + off) PAGE = Some b"
        by (auto simp: checked_add_def split: bind_splits if_splits)
      let ?stop = "clamp (b - addr) (off + 1) (length buf)"
      show ?thesis
        using True less.prems a IH[OF refl less.prems refl] IH[of _ b "put_bytes buf2 off _" "put_bytes buf off _", OF refl]
        by (cases "rd (addr + off) (?stop - off)")
          (simp only: eqs option.case sum.case Let_def if_True length_put_bytes split: if_split, blast?)+
    qed
  qed (use less.prems in \<open>simp add: read_pages.simps\<close>)
qed

lemma read_window_cover:
  "length buf2 = length buf \<Longrightarrow>
     map_option fst (read_window rd addr buf2) = map_option fst (read_window rd addr buf)"
  using read_pages_cover[of buf2 buf] by (auto simp: read_window_def split: sum.splits)

section \<open>Slots, edges and reachable structs\<close>

text \<open>
  What the search is compared with: the slots of a struct window, the slots whose memory matches, the structs
  a slot points at, and the structs within a number of hops of the root. \<open>cov a\<close> is the part of the window at
  \<open>a\<close> that can be read.
\<close>

definition word_at :: "spider_env \<Rightarrow> (usize \<Rightarrow> u8) \<Rightarrow> usize \<Rightarrow> usize" where
  "word_at env mem a = read_word (span mem (sc_pointer_size (se_cfg env)) a)"

definition slot_match :: "spider_env \<Rightarrow> (usize \<Rightarrow> u8) \<Rightarrow> (usize \<Rightarrow> cover) \<Rightarrow> usize \<Rightarrow> nat \<Rightarrow> bool" where
  "slot_match env mem cov a off \<longleftrightarrow>
     Cover_has (cov a) off (se_stride env) \<and>
     compare_first (se_needle env) (span mem (se_stride env) (a + off)) 0 (se_compare env)"

definition slot_target :: "spider_env \<Rightarrow> (usize \<Rightarrow> u8) \<Rightarrow> (usize \<Rightarrow> cover) \<Rightarrow> usize \<Rightarrow> nat \<Rightarrow> usize option" where
  "slot_target env mem cov a off =
     (let v = word_at env mem (a + off)
      in if a + off \<le> USIZE_MAX \<and> (a + off) mod sc_pointer_size (se_cfg env) = 0
           \<and> Cover_has (cov a) off (sc_pointer_size (se_cfg env)) \<and> v \<noteq> 0 \<and> v \<noteq> a \<and> is_mapped (se_ranges env) v
         then Some v else None)"

definition slot_offsets :: "spider_env \<Rightarrow> (usize \<Rightarrow> cover) \<Rightarrow> usize \<Rightarrow> nat set" where
  "slot_offsets env cov a =
     (let start = next_multiple_of a (se_align env) - a
      in {off. \<exists>k. off = start + k * se_align env \<and> off < start + sc_struct_size (se_cfg env)
               \<and> off < Cover_limit (cov a)})"

definition struct_edge :: "spider_env \<Rightarrow> (usize \<Rightarrow> u8) \<Rightarrow> (usize \<Rightarrow> cover) \<Rightarrow> usize \<Rightarrow> usize \<Rightarrow> bool" where
  "struct_edge env mem cov a b \<longleftrightarrow> (\<exists>off\<in>slot_offsets env cov a. slot_target env mem cov a off = Some b)"

primrec within_hops :: "spider_env \<Rightarrow> (usize \<Rightarrow> u8) \<Rightarrow> (usize \<Rightarrow> cover) \<Rightarrow> nat \<Rightarrow> usize set" where
  "within_hops env mem cov 0 = {se_root env}"
| "within_hops env mem cov (Suc n) = within_hops env mem cov n \<union> {b. \<exists>a\<in>within_hops env mem cov n. struct_edge env mem cov a b}"

definition hit_at :: "spider_env \<Rightarrow> (usize \<Rightarrow> u8) \<Rightarrow> frame \<Rightarrow> nat \<Rightarrow> spider_hit" where
  "hit_at env mem f off =
     \<lparr>sh_path = \<lparr>sp_root = se_root env, sp_parent_offsets = fr_path f, sp_offset = off\<rparr>,
      sh_current = span mem (se_stride env) (fr_addr f + off),
      sh_previous = span mem (se_stride env) (fr_addr f + off)\<rparr>"

definition child_at :: "frame \<Rightarrow> nat \<Rightarrow> usize \<Rightarrow> frame" where
  "child_at f off v = \<lparr>fr_addr = v, fr_depth = fr_depth f + 1, fr_path = fr_path f @ [off]\<rparr>"

text \<open>The hits and the children the slots in \<open>P\<close> have.\<close>

definition hits_of :: "spider_env \<Rightarrow> (usize \<Rightarrow> u8) \<Rightarrow> (usize \<Rightarrow> cover) \<Rightarrow> (frame \<times> nat) set \<Rightarrow> spider_hit set" where
  "hits_of env mem cov P = {hit_at env mem f off | f off. (f, off) \<in> P \<and> slot_match env mem cov (fr_addr f) off}"

definition children_of :: "spider_env \<Rightarrow> (usize \<Rightarrow> u8) \<Rightarrow> (usize \<Rightarrow> cover) \<Rightarrow> (frame \<times> nat) set \<Rightarrow> frame set" where
  "children_of env mem cov P =
     {child_at f off v | f off v. (f, off) \<in> P \<and> fr_depth f < sc_max_depth (se_cfg env)
        \<and> slot_target env mem cov (fr_addr f) off = Some v}"

lemma hits_of_Un: "hits_of env mem cov (P \<union> Q) = hits_of env mem cov P \<union> hits_of env mem cov Q"
  by (auto simp: hits_of_def)

lemma children_of_Un: "children_of env mem cov (P \<union> Q) = children_of env mem cov P \<union> children_of env mem cov Q"
  unfolding children_of_def by blast

text \<open>How a walk grows by the slots in \<open>P\<close>; all of them when \<open>full\<close>.\<close>

definition advances :: "spider_env \<Rightarrow> (usize \<Rightarrow> u8) \<Rightarrow> (usize \<Rightarrow> cover) \<Rightarrow> (frame \<times> nat) set \<Rightarrow> bool \<Rightarrow>
    'o spider_walk \<Rightarrow> 'o spider_walk \<Rightarrow> bool" where
  "advances env mem cov P full w w' \<longleftrightarrow>
     (\<exists>hs gs. sw_hits w' = sw_hits w @ hs \<and> set hs \<subseteq> hits_of env mem cov P
        \<and> sw_next w' = sw_next w @ gs \<and> set gs \<subseteq> children_of env mem cov P
        \<and> (full \<longrightarrow> hits_of env mem cov P \<subseteq> set hs)
        \<and> (full \<and> sc_dedupe_nodes (se_cfg env) \<longrightarrow>
             sw_visited w' = sw_visited w \<union> fr_addr ` children_of env mem cov P
             \<and> fr_addr ` set gs = sw_visited w' - sw_visited w))
     \<and> length (sw_win w') = length (sw_win w)"

lemma advances_refl:
  assumes "sw_hits w' = sw_hits w" "sw_next w' = sw_next w" "sw_visited w' = sw_visited w"
    "length (sw_win w') = length (sw_win w)" "full \<Longrightarrow> hits_of env mem cov P = {} \<and> children_of env mem cov P = {}"
  shows "advances env mem cov P full w w'"
  using assms by (auto simp: advances_def)

lemma advances_sets:
  assumes "advances env mem cov P full w w'"
  shows "set (sw_hits w') \<subseteq> set (sw_hits w) \<union> hits_of env mem cov P"
    "set (sw_next w') \<subseteq> set (sw_next w) \<union> children_of env mem cov P"
  using assms by (auto simp: advances_def)

lemma advances_weaken: "advances env mem cov P full w w' \<Longrightarrow> P \<subseteq> Q \<Longrightarrow> advances env mem cov Q False w w'"
  using hits_of_Un[of env mem cov P "Q - P"] children_of_Un[of env mem cov P "Q - P"]
  by (fastforce simp: advances_def Un_absorb1)

lemma advances_trans:
  assumes "advances env mem cov P True w1 w2" "advances env mem cov Q full w2 w3"
  shows "advances env mem cov (P \<union> Q) full w1 w3"
proof -
  from assms(1) obtain hs gs where 1: "sw_hits w2 = sw_hits w1 @ hs" "set hs = hits_of env mem cov P"
    "sw_next w2 = sw_next w1 @ gs" "set gs \<subseteq> children_of env mem cov P"
    "sc_dedupe_nodes (se_cfg env) \<Longrightarrow> sw_visited w2 = sw_visited w1 \<union> fr_addr ` children_of env mem cov P"
    "sc_dedupe_nodes (se_cfg env) \<Longrightarrow> fr_addr ` set gs = sw_visited w2 - sw_visited w1"
    by (auto simp: advances_def)
  from assms(2) obtain hs' gs' where 2: "sw_hits w3 = sw_hits w2 @ hs'" "set hs' \<subseteq> hits_of env mem cov Q"
    "sw_next w3 = sw_next w2 @ gs'" "set gs' \<subseteq> children_of env mem cov Q"
    "full \<Longrightarrow> hits_of env mem cov Q \<subseteq> set hs'"
    "full \<Longrightarrow> sc_dedupe_nodes (se_cfg env) \<Longrightarrow> sw_visited w3 = sw_visited w2 \<union> fr_addr ` children_of env mem cov Q"
    "full \<Longrightarrow> sc_dedupe_nodes (se_cfg env) \<Longrightarrow> fr_addr ` set gs' = sw_visited w3 - sw_visited w2"
    by (auto simp: advances_def)
  show ?thesis unfolding advances_def
  proof (intro conjI exI[of _ "hs @ hs'"] exI[of _ "gs @ gs'"] impI)
    assume a: "full \<and> sc_dedupe_nodes (se_cfg env)"
    show "sw_visited w3 = sw_visited w1 \<union> fr_addr ` children_of env mem cov (P \<union> Q)"
      using a 1(5) 2(6) by (simp add: children_of_Un image_Un Un_assoc)
    have "sw_visited w1 \<subseteq> sw_visited w2" "sw_visited w2 \<subseteq> sw_visited w3" using a 1(5) 2(6) by auto
    then show "fr_addr ` set (gs @ gs') = sw_visited w3 - sw_visited w1"
      using a 1(6) 2(7) by (auto simp: image_Un)
  qed (use 1 2 assms in \<open>auto simp: hits_of_Un children_of_Un advances_def\<close>)
qed

definition sees :: "(usize \<Rightarrow> u8) \<Rightarrow> (usize \<Rightarrow> cover) \<Rightarrow> usize \<Rightarrow> 'o spider_walk \<Rightarrow> bool" where
  "sees mem cov a w \<longleftrightarrow> (\<forall>off n. Cover_has (cov a) off n \<longrightarrow> shows_mem mem a (sw_win w) off (off + n))"

lemma sees_slice:
  assumes "sees mem cov a w" "Cover_has (cov a) off n"
  shows "slice (sw_win w) off n = span mem n (a + off)" "off + n \<le> length (sw_win w)"
proof -
  have "shows_mem mem a (sw_win w) off (off + n)"
    by (rule assms(1)[unfolded sees_def, rule_format, OF assms(2)])
  then show "slice (sw_win w) off n = span mem n (a + off)" "off + n \<le> length (sw_win w)"
    by (rule shows_mem_slice, simp add: shows_mem_def)
qed

lemma compare_first_local:
  assumes "off + stride n \<le> length data"
  shows "compare_first n data off compare = compare_first n (slice data off (stride n)) 0 compare"
  by (rule first_match_local[where needle = "Some n", unfolded first_match_def option.case, OF assms]) simp

lemma hits_of_single:
  "hits_of env mem cov {(f, off)} = (if slot_match env mem cov (fr_addr f) off then {hit_at env mem f off} else {})"
  by (auto simp: hits_of_def)

lemma children_of_single:
  "children_of env mem cov {(f, off)} =
     (if fr_depth f < sc_max_depth (se_cfg env) then
        (case slot_target env mem cov (fr_addr f) off of None \<Rightarrow> {} | Some v \<Rightarrow> {child_at f off v})
      else {})"
  by (auto simp: children_of_def split: option.splits)

lemma value_branch_hits:
  assumes "value_branch env f (cov (fr_addr f)) off w = (b, w')" "sees mem cov (fr_addr f) w"
    "stride (se_needle env) = se_stride env"
  shows "sw_hits w' = sw_hits w @ (if slot_match env mem cov (fr_addr f) off then [hit_at env mem f off] else [])"
    and "length (sw_hits w) < sc_max_results (se_cfg env) \<Longrightarrow> length (sw_hits w') \<le> sc_max_results (se_cfg env)"
    and "length (sw_hits w) < sc_max_results (se_cfg env) \<Longrightarrow> \<not> b \<Longrightarrow> length (sw_hits w') < sc_max_results (se_cfg env)"
    and "b \<Longrightarrow> sw_truncated w'"
proof -
  let ?has = "Cover_has (cov (fr_addr f)) off (se_stride env)"
  have sl: "slice (sw_win w) off (se_stride env) = span mem (se_stride env) (fr_addr f + off)"
    "off + se_stride env \<le> length (sw_win w)" if ?has
    using sees_slice[OF assms(2) that] by simp_all
  then have "?has \<Longrightarrow> compare_first (se_needle env) (sw_win w) off (se_compare env)
      = compare_first (se_needle env) (span mem (se_stride env) (fr_addr f + off)) 0 (se_compare env)"
    using compare_first_local[of off "se_needle env" "sw_win w"] assms(3) by auto
  then have m: "slot_match env mem cov (fr_addr f) off \<longleftrightarrow>
      ?has \<and> compare_first (se_needle env) (sw_win w) off (se_compare env)"
    by (auto simp: slot_match_def)
  show "sw_hits w' = sw_hits w @ (if slot_match env mem cov (fr_addr f) off then [hit_at env mem f off] else [])"
  proof (cases "slot_match env mem cov (fr_addr f) off")
    case True
    with m have "?has" "compare_first (se_needle env) (sw_win w) off (se_compare env)" by simp_all
    with assms(1) True sl(1)[OF \<open>?has\<close>] show ?thesis
      by (auto simp: value_branch_def hit_at_def Let_def split: if_splits)
  next
    case False
    with m assms(1) show ?thesis by (auto simp: value_branch_def)
  qed
  show "length (sw_hits w) < sc_max_results (se_cfg env) \<Longrightarrow> length (sw_hits w') \<le> sc_max_results (se_cfg env)"
    "length (sw_hits w) < sc_max_results (se_cfg env) \<Longrightarrow> \<not> b \<Longrightarrow> length (sw_hits w') < sc_max_results (se_cfg env)"
    "b \<Longrightarrow> sw_truncated w'"
    using assms(1) by (auto simp: value_branch_def Let_def split: if_splits)
qed

lemma pointer_branch_effect:
  assumes "pointer_branch env f (cov (fr_addr f)) off w = Some w'" "sees mem cov (fr_addr f) w"
  shows "sw_hits w' = sw_hits w \<and> sw_win w' = sw_win w \<and> sw_nodes w' = sw_nodes w \<and> sw_truncated w' = sw_truncated w"
    and "(\<exists>gs. sw_next w' = sw_next w @ gs \<and> set gs \<subseteq> children_of env mem cov {(f, off)}
        \<and> (sc_dedupe_nodes (se_cfg env) \<longrightarrow>
             sw_visited w' = sw_visited w \<union> fr_addr ` children_of env mem cov {(f, off)}
             \<and> fr_addr ` set gs = sw_visited w' - sw_visited w))"
proof -
  let ?ps = "sc_pointer_size (se_cfg env)"
  have "slice (sw_win w) off ?ps = span mem ?ps (fr_addr f + off)" if "Cover_has (cov (fr_addr f)) off ?ps"
    by (rule sees_slice(1)[OF assms(2) that])
  then have word: "read_word (slice (sw_win w) off ?ps) = word_at env mem (fr_addr f + off)"
    if "Cover_has (cov (fr_addr f)) off ?ps" using that by (simp add: word_at_def)
  show "sw_hits w' = sw_hits w \<and> sw_win w' = sw_win w \<and> sw_nodes w' = sw_nodes w \<and> sw_truncated w' = sw_truncated w"
    using assms(1) by (auto simp: pointer_branch_def Let_def split: if_splits option.splits)
  show "\<exists>gs. sw_next w' = sw_next w @ gs \<and> set gs \<subseteq> children_of env mem cov {(f, off)}
        \<and> (sc_dedupe_nodes (se_cfg env) \<longrightarrow>
             sw_visited w' = sw_visited w \<union> fr_addr ` children_of env mem cov {(f, off)}
             \<and> fr_addr ` set gs = sw_visited w' - sw_visited w)"
  proof (cases "fr_depth f < sc_max_depth (se_cfg env)")
    case True
    with assms(1) have le: "checked_add (fr_addr f) off = Some (fr_addr f + off)" "fr_addr f + off \<le> USIZE_MAX"
      by (auto simp: pointer_branch_def checked_add_def Let_def split: if_splits)
    show ?thesis
    proof (cases "slot_target env mem cov (fr_addr f) off")
      case None
      then have "w' = w" using assms(1) True le word
        by (auto simp: pointer_branch_def slot_target_def Let_def split: if_splits)
      then show ?thesis using None by (simp add: children_of_single)
    next
      case (Some v)
      then have v: "v = word_at env mem (fr_addr f + off)" by (simp add: slot_target_def Let_def split: if_splits)
      have "w' = (let w1 = (if sc_dedupe_nodes (se_cfg env) then w\<lparr>sw_visited := insert v (sw_visited w)\<rparr> else w)
          in if sc_dedupe_nodes (se_cfg env) \<and> v \<in> sw_visited w then w1
             else w1\<lparr>sw_next := sw_next w @ [child_at f off v]\<rparr>)"
        using assms(1) True le word Some v
        by (auto simp: pointer_branch_def slot_target_def child_at_def Let_def split: if_splits)
      then show ?thesis using Some True by (auto simp: children_of_single child_at_def Let_def)
    qed
  next
    case False
    then have "w' = w" using assms(1) by (simp add: pointer_branch_def)
    then show ?thesis using False by (simp add: children_of_single)
  qed
qed

lemma slot_advances:
  assumes "value_branch env f (cov (fr_addr f)) off w = (b, w1)" "sees mem cov (fr_addr f) w"
    "stride (se_needle env) = se_stride env"
  shows "b \<Longrightarrow> advances env mem cov {(f, off)} False w w1"
    and "pointer_branch env f (cov (fr_addr f)) off w1 = Some w2 \<Longrightarrow> advances env mem cov {(f, off)} True w w2"
proof -
  note vh = value_branch_hits(1)[OF assms] and vn = value_branch_next[OF assms(1)]
  show "advances env mem cov {(f, off)} False w w1"
    unfolding advances_def using vh vn by (auto simp: hits_of_single)
  assume p: "pointer_branch env f (cov (fr_addr f)) off w1 = Some w2"
  have "sees mem cov (fr_addr f) w1" using assms(2) vn by (simp add: sees_def)
  note pe = pointer_branch_effect[OF p this]
  from pe(2) obtain gs where "sw_next w2 = sw_next w1 @ gs" "set gs \<subseteq> children_of env mem cov {(f, off)}"
    "sc_dedupe_nodes (se_cfg env) \<longrightarrow> sw_visited w2 = sw_visited w1 \<union> fr_addr ` children_of env mem cov {(f, off)}
       \<and> fr_addr ` set gs = sw_visited w2 - sw_visited w1" by blast
  then show "advances env mem cov {(f, off)} True w w2"
    unfolding advances_def using vh vn pe(1)
    by (intro conjI exI[of _ "if slot_match env mem cov (fr_addr f) off then [hit_at env mem f off] else []"] exI[of _ gs])
      (auto simp: hits_of_single)
qed

text \<open>The bookkeeping of a walk: nodes, result limit, and the truncation flag of a break.\<close>

definition keeps_limits :: "spider_env \<Rightarrow> bool \<Rightarrow> 'o spider_walk \<Rightarrow> 'o spider_walk \<Rightarrow> bool" where
  "keeps_limits env b w w' \<longleftrightarrow>
     sw_nodes w' = sw_nodes w \<and> (b \<longrightarrow> sw_truncated w')
     \<and> (length (sw_hits w) < sc_max_results (se_cfg env) \<longrightarrow>
          length (sw_hits w') \<le> sc_max_results (se_cfg env)
          \<and> (\<not> b \<longrightarrow> length (sw_hits w') < sc_max_results (se_cfg env)))"

lemma keeps_limits_trans: "keeps_limits env False w1 w2 \<Longrightarrow> keeps_limits env b w2 w3 \<Longrightarrow> keeps_limits env b w1 w3"
  by (auto simp: keeps_limits_def)

definition lattice :: "nat \<Rightarrow> nat \<Rightarrow> nat \<Rightarrow> nat set" where
  "lattice align off e = {x. \<exists>k. x = off + k * align \<and> x < e}"

lemma lattice_step: "off < e \<Longrightarrow> lattice align off e = insert off (lattice align (off + align) e)"
proof (intro equalityI subsetI)
  fix x assume "off < e" "x \<in> lattice align off e"
  then obtain k where "x = off + k * align" "x < e" by (auto simp: lattice_def)
  then show "x \<in> insert off (lattice align (off + align) e)"
    by (cases k) (auto simp: lattice_def algebra_simps)
next
  fix x assume "off < e" "x \<in> insert off (lattice align (off + align) e)"
  then consider "x = off" | k where "x = off + Suc k * align" "x < e" by (auto simp: lattice_def algebra_simps)
  then show "x \<in> lattice align off e" using \<open>off < e\<close>
    by cases (auto simp: lattice_def intro: exI[of _ 0], metis mult_Suc)
qed

lemma lattice_empty: "e \<le> off \<Longrightarrow> lattice align off e = {}"
  by (auto simp: lattice_def)

lemma slot_offsets_lattice:
  "slot_offsets env cov a = lattice (se_align env) (next_multiple_of a (se_align env) - a)
     (min (next_multiple_of a (se_align env) - a + sc_struct_size (se_cfg env)) (Cover_limit (cov a)))"
  by (auto simp: slot_offsets_def lattice_def Let_def)

lemma spider_slots_advances:
  assumes "spider_slots env f (cov (fr_addr f)) e l off w = Some (b, w')" "sees mem cov (fr_addr f) w"
    "stride (se_needle env) = se_stride env" "0 < se_align env"
  shows "advances env mem cov ({f} \<times> lattice (se_align env) off (min e l)) (\<not> b) w w' \<and> keeps_limits env b w w'"
  using assms(1,2)
proof (induction "l - off" arbitrary: off w rule: less_induct)
  case less
  show ?case
  proof (cases "off < e \<and> off < l")
    case False
    then have "w' = w" "\<not> b" using less.prems(1) by (auto simp: spider_slots.simps)
    then show ?thesis using False
      by (auto simp: lattice_empty hits_of_def children_of_def keeps_limits_def min_def intro!: advances_refl)
  next
    case True
    then have lat: "{f} \<times> lattice (se_align env) off (min e l)
        = {(f, off)} \<union> {f} \<times> lattice (se_align env) (off + se_align env) (min e l)"
      by (simp add: lattice_step)
    obtain v w1 where v: "value_branch env f (cov (fr_addr f)) off w = (v, w1)" by fastforce
    note vb = value_branch_hits[OF v less.prems(2) assms(3)] and vn = value_branch_next[OF v]
      and sl = slot_advances[OF v less.prems(2) assms(3)]
    have kv: "keeps_limits env v w w1" using vb(2-4) vn by (auto simp: keeps_limits_def)
    show ?thesis
    proof (cases v)
      case True
      then have "w1 = w'" "b" using less.prems(1) \<open>off < e \<and> off < l\<close> assms(4) v
        by (auto simp: spider_slots.simps[of env f _ e l off w])
      then show ?thesis using advances_weaken[OF sl(1)] True kv lat by auto
    next
      case False
      then obtain w2 where p: "pointer_branch env f (cov (fr_addr f)) off w1 = Some w2"
        "spider_slots env f (cov (fr_addr f)) e l (off + se_align env) w2 = Some (b, w')"
        using less.prems(1) \<open>off < e \<and> off < l\<close> assms(4) v
        by (auto simp: spider_slots.simps[of env f _ e l off w] split: option.splits)
      have s1: "sees mem cov (fr_addr f) w1" using less.prems(2) vn by (simp add: sees_def)
      note pe = pointer_branch_effect(1)[OF p(1) s1]
      have s2: "sees mem cov (fr_addr f) w2" using s1 pe by (simp add: sees_def)
      have k12: "keeps_limits env False w w2" using kv False pe by (auto simp: keeps_limits_def)
      have "l - (off + se_align env) < l - off"
        using True assms(4) by (intro diff_less_mono2) simp_all
      from less.hyps[OF this p(2) s2] sl(2)[OF p(1)] show ?thesis
        unfolding lat using keeps_limits_trans[OF k12] by (blast intro: advances_trans)
    qed
  qed
qed

definition window_cover :: "mem_read \<Rightarrow> nat \<Rightarrow> usize \<Rightarrow> cover" where
  "window_cover rd len a = (case read_window rd a (replicate len 0) of Some (c, _) \<Rightarrow> c | None \<Rightarrow> Full 0)"

lemma window_cover_eq:
  assumes "read_window rd a buf = Some (c, buf')" "length buf = len"
  shows "window_cover rd len a = c"
  using read_window_cover[of "replicate len 0" buf rd a] assms
  by (auto simp: window_cover_def split: option.splits)

definition slots_of :: "spider_env \<Rightarrow> (usize \<Rightarrow> cover) \<Rightarrow> frame set \<Rightarrow> (frame \<times> nat) set" where
  "slots_of env cov fs = {(f, off). f \<in> fs \<and> off \<in> slot_offsets env cov (fr_addr f)}"

lemma slots_of_insert: "slots_of env cov (insert f fs) = {f} \<times> slot_offsets env cov (fr_addr f) \<union> slots_of env cov fs"
  by (auto simp: slots_of_def)

text \<open>What a drained, stopped or aborted level or search leaves.\<close>

definition flow_limits :: "spider_env \<Rightarrow> spider_flow \<Rightarrow> 'o spider_walk \<Rightarrow> bool" where
  "flow_limits env fl w \<longleftrightarrow>
     sw_nodes w \<le> sc_max_nodes (se_cfg env) \<and> length (sw_hits w) \<le> sc_max_results (se_cfg env)
     \<and> (fl = Stopped \<longrightarrow> sw_truncated w) \<and> (fl = Drained \<longrightarrow> length (sw_hits w) < sc_max_results (se_cfg env))"

lemma advances_cong:
  assumes "advances env mem cov P full w w'" "sw_hits w = sw_hits v" "sw_next w = sw_next v"
    "sw_visited w = sw_visited v" "length (sw_win w) = length (sw_win v)"
  shows "advances env mem cov P full v w'"
  using assms by (simp add: advances_def)

context scan_target
begin

lemma spider_frame_advances:
  assumes "spider_frame env f w = Some (b, w')" "se_read env = read" "reads_in_range read"
    "stride (se_needle env) = se_stride env" "0 < se_align env" "length (sw_win w) = len"
  shows "advances env mem (window_cover read len) ({f} \<times> slot_offsets env (window_cover read len) (fr_addr f)) (\<not> b) w w'
    \<and> keeps_limits env b w w'"
proof -
  let ?cov = "window_cover read len" and ?first = "next_multiple_of (fr_addr f) (se_align env)"
  from assms(1,2) obtain c win where rw: "read_window read (fr_addr f) (sw_win w) = Some (c, win)"
    by (auto simp: spider_frame_def split: option.splits)
  from window_cover_eq[OF rw assms(6)] have c: "c = ?cov (fr_addr f)" by simp
  note sm = read_window_shows[OF rw assms(3)]
  let ?w = "w\<lparr>sw_win := win\<rparr>"
  have sees: "sees mem ?cov (fr_addr f) ?w" using sm(2) by (simp add: sees_def c)
  show ?thesis
  proof (cases "Cover_limit c = 0")
    case True
    then have "slot_offsets env ?cov (fr_addr f) = {}" by (simp add: slot_offsets_def c)
    moreover have "w' = ?w" "\<not> b" using assms(1,2) rw True by (auto simp: spider_frame_def Let_def)
    ultimately show ?thesis using sm(1)
      by (auto simp: keeps_limits_def hits_of_def children_of_def intro!: advances_refl)
  next
    case False
    with assms(1,2) rw have "spider_slots env f (?cov (fr_addr f)) (?first - fr_addr f + sc_struct_size (se_cfg env))
        (Cover_limit (?cov (fr_addr f))) (?first - fr_addr f) ?w = Some (b, w')"
      by (auto simp: spider_frame_def Let_def c checked_next_multiple_of_def split: option.splits if_splits)
    from spider_slots_advances[OF this sees assms(4,5)]
    show ?thesis using sm(1) by (auto simp: slot_offsets_lattice keeps_limits_def intro: advances_cong)
  qed
qed

lemma spider_level_advances:
  assumes "se_read env = read" "reads_in_range read" "stride (se_needle env) = se_stride env" "0 < se_align env"
    and "spider_level tick env level w = Some (fl, w')" "length (sw_win w) = len" "flow_limits env Drained w"
  shows "advances env mem (window_cover read len) (slots_of env (window_cover read len) (set level)) (fl = Drained) w w'
    \<and> flow_limits env fl w'"
  using assms(5-7)
proof (induction level arbitrary: w)
  case Nil
  then show ?case by (auto simp: slots_of_def hits_of_def children_of_def intro!: advances_refl)
next
  case (Cons f level)
  let ?cov = "window_cover read len"
  have sub: "{f} \<times> slot_offsets env ?cov (fr_addr f) \<subseteq> slots_of env ?cov (set (f # level))" by (auto simp: slots_of_def)
  from Cons.prems(1) show ?case
  proof (cases rule: spider_level_Cons_cases)
    case full
    then show ?thesis using Cons.prems by (auto simp: flow_limits_def intro!: advances_refl)
  next
    case (abort obs)
    then show ?thesis using Cons.prems by (auto simp: flow_limits_def intro!: advances_refl)
  next
    case (stop obs)
    note fa = spider_frame_advances[OF stop(2) assms(1-4), of len]
    then have "advances env mem ?cov ({f} \<times> slot_offsets env ?cov (fr_addr f)) False w w'"
      using Cons.prems(2) by (auto intro: advances_cong)
    then show ?thesis using fa Cons.prems stop advances_weaken[OF _ sub]
      by (auto simp: keeps_limits_def flow_limits_def)
  next
    case (step obs w1)
    note fa = spider_frame_advances[OF step(1) assms(1-4), of len]
    then have a1: "advances env mem ?cov ({f} \<times> slot_offsets env ?cov (fr_addr f)) True w w1"
      using Cons.prems(2) by (auto intro: advances_cong)
    then have "length (sw_win w1) = len" using Cons.prems(2) by (simp add: advances_def)
    moreover have "flow_limits env Drained w1"
      using fa Cons.prems step(3) by (auto simp: keeps_limits_def flow_limits_def)
    ultimately show ?thesis using Cons.IH[OF step(2)] advances_trans[OF a1]
      by (auto simp: slots_of_insert)
  qed
qed

end

section \<open>Correctness of the search\<close>

definition mem_reader :: "spider_env \<Rightarrow> (usize \<Rightarrow> u8) \<Rightarrow> ptr_reader" where
  "mem_reader env mem a = Some (word_at env mem a)"

definition good_frame :: "spider_env \<Rightarrow> (usize \<Rightarrow> u8) \<Rightarrow> frame \<Rightarrow> bool" where
  "good_frame env mem f \<longleftrightarrow>
     spider_hops (mem_reader env mem) (fr_path f) (se_root env) = Some (fr_addr f)
     \<and> fr_depth f = length (fr_path f) \<and> length (fr_path f) \<le> sc_max_depth (se_cfg env)"

definition good_hit :: "spider_env \<Rightarrow> (usize \<Rightarrow> u8) \<Rightarrow> spider_hit \<Rightarrow> bool" where
  "good_hit env mem h \<longleftrightarrow>
     sp_root (sh_path h) = se_root env \<and> SpiderPath_depth (sh_path h) \<le> sc_max_depth (se_cfg env)
     \<and> sh_previous h = sh_current h \<and> compare_first (se_needle env) (sh_current h) 0 (se_compare env)
     \<and> (\<exists>a. SpiderPath_resolve (sh_path h) (mem_reader env mem) = Some a
           \<and> sh_current h = span mem (se_stride env) a)"

lemma spider_hops_snoc:
  "spider_hops rd (offs @ [off]) a =
     (case spider_hops rd offs a of None \<Rightarrow> None | Some b \<Rightarrow> spider_hops rd [off] b)"
  by (induction rd offs a rule: spider_hops.induct) (auto split: option.splits)

lemma good_frame_child:
  assumes "good_frame env mem f" "fr_depth f < sc_max_depth (se_cfg env)" "slot_target env mem cov (fr_addr f) off = Some v"
  shows "good_frame env mem (child_at f off v)"
  using assms
  by (auto simp: good_frame_def child_at_def spider_hops_snoc slot_target_def mem_reader_def checked_add_def Let_def
      split: if_splits)

lemma good_children:
  "(\<And>f. f \<in> fs \<Longrightarrow> good_frame env mem f) \<Longrightarrow> g \<in> children_of env mem cov (slots_of env cov fs) \<Longrightarrow>
     good_frame env mem g"
  by (auto simp: children_of_def slots_of_def intro: good_frame_child)

lemma window_cover_none: "read_window rd a (replicate len 0) = None \<Longrightarrow> 0 < n \<Longrightarrow> \<not> Cover_has (window_cover rd len a) off n"
  by (simp add: window_cover_def Cover_has.simps checked_add_def)

context scan_target
begin

lemma covered_in_range:
  assumes "Cover_has (window_cover read len a) off n" "0 < n" "reads_in_range read"
  shows "a + off \<le> USIZE_MAX"
proof -
  from window_cover_none[OF _ assms(2)] assms(1) obtain c buf where
    rw: "read_window read a (replicate len 0) = Some (c, buf)" by fastforce
  with assms(1) have "Cover_has c off n" by (simp add: window_cover_def)
  from read_window_shows(2)[OF rw assms(3) this] assms(2) show ?thesis by (auto simp: shows_mem_def)
qed

lemma good_hits:
  assumes "\<And>f. f \<in> fs \<Longrightarrow> good_frame env mem f" "reads_in_range read" "0 < se_stride env"
    "h \<in> hits_of env mem (window_cover read len) (slots_of env (window_cover read len) fs)"
  shows "good_hit env mem h"
proof -
  from assms(4) obtain f off where h: "h = hit_at env mem f off" "f \<in> fs"
    "slot_match env mem (window_cover read len) (fr_addr f) off" by (auto simp: hits_of_def slots_of_def)
  then have "fr_addr f + off \<le> USIZE_MAX" using covered_in_range assms(2,3) by (auto simp: slot_match_def)
  with h assms(1)[OF h(2)] show ?thesis
    by (auto simp: good_hit_def good_frame_def hit_at_def SpiderPath_resolve_def SpiderPath_depth_def checked_add_def
        slot_match_def)
qed

lemma spider_search_sound:
  assumes "se_read env = read" "reads_in_range read" "stride (se_needle env) = se_stride env" "0 < se_align env"
    "0 < se_stride env"
    and "spider_search tick env frontier w = Some (fl, w')"
    "\<And>f. f \<in> set frontier \<Longrightarrow> good_frame env mem f" "\<And>h. h \<in> set (sw_hits w) \<Longrightarrow> good_hit env mem h"
    "flow_limits env Drained w"
  shows "(\<forall>h\<in>set (sw_hits w'). good_hit env mem h) \<and> flow_limits env fl w'"
  using assms(1-9)
proof (induction tick env frontier w rule: spider_search.induct)
  case (1 tick env frontier w)
  show ?case
  proof (cases "frontier = []")
    case True
    then show ?thesis using "1.prems" by (auto simp: spider_search.simps)
  next
    case False
    let ?w = "w\<lparr>sw_next := []\<rparr>" and ?cov = "window_cover read (length (sw_win w))"
    from "1.prems"(6) False obtain fl1 w1 where l: "spider_level tick env frontier ?w = Some (fl1, w1)"
      by (auto simp: spider_search.simps[of tick env frontier w] split: option.splits)
    have "flow_limits env Drained ?w" using "1.prems"(9) by (simp add: flow_limits_def)
    from spider_level_advances[OF "1.prems"(1-4) l _ this]
    have adv: "advances env mem ?cov (slots_of env ?cov (set frontier)) (fl1 = Drained) ?w w1" "flow_limits env fl1 w1"
      by auto
    have good: "\<forall>h\<in>set (sw_hits w1). good_hit env mem h" "\<forall>g\<in>set (sw_next w1). good_frame env mem g"
      using advances_sets[OF adv(1)] good_hits[OF "1.prems"(7,2,5)] good_children[OF "1.prems"(7)] "1.prems"(8)
      by (auto dest!: subsetD)
    show ?thesis
    proof (cases fl1)
      case Drained
      then have "spider_search tick env (sw_next w1) w1 = Some (fl, w')"
        using "1.prems"(6) False l by (simp add: spider_search.simps[of tick env frontier w])
      from "1.IH"[OF False l refl Drained "1.prems"(1-5) this] good adv(2) Drained show ?thesis by auto
    qed (use "1.prems"(6) False l adv(2) good in \<open>auto simp: spider_search.simps[of tick env frontier w]\<close>)
  qed
qed

end

text \<open>The structs nearer than a level, and first visits.\<close>

definition nearer :: "spider_env \<Rightarrow> (usize \<Rightarrow> u8) \<Rightarrow> (usize \<Rightarrow> cover) \<Rightarrow> nat \<Rightarrow> usize set" where
  "nearer env mem cov k = (\<Union>j<k. within_hops env mem cov j)"

lemma within_hops_mono: "i \<le> j \<Longrightarrow> within_hops env mem cov i \<subseteq> within_hops env mem cov j"
  by (induction j) (auto simp: le_Suc_eq)

lemma nearer_Suc: "nearer env mem cov (Suc k) = within_hops env mem cov k"
proof -
  have "x \<in> within_hops env mem cov k" if "j < Suc k" "x \<in> within_hops env mem cov j" for j x
    using that within_hops_mono[of j k env mem cov] by auto
  then show ?thesis by (auto simp: nearer_def)
qed

lemma nearer_edge: "a \<in> nearer env mem cov k \<Longrightarrow> struct_edge env mem cov a b \<Longrightarrow> b \<in> within_hops env mem cov k"
proof -
  assume "a \<in> nearer env mem cov k" "struct_edge env mem cov a b"
  then obtain j where "j < k" "b \<in> within_hops env mem cov (Suc j)" by (auto simp: nearer_def)
  then show ?thesis using within_hops_mono[of "Suc j" k env mem cov] by auto
qed

lemma within_hops_level:
  "within_hops env mem cov (Suc k) = within_hops env mem cov k
     \<union> {b. \<exists>a\<in>within_hops env mem cov k - nearer env mem cov k. struct_edge env mem cov a b}"
  by (auto dest: nearer_edge)

text \<open>No new struct at a level means no new struct later.\<close>

lemma within_hops_fixed:
  assumes "within_hops env mem cov k \<subseteq> nearer env mem cov k"
  shows "within_hops env mem cov n \<subseteq> nearer env mem cov k"
proof (cases "n < k")
  case False
  then have "k \<le> n" by simp
  then show ?thesis
  proof (induction n rule: dec_induct)
    case (step n)
    then show ?case using assms nearer_edge[of _ env mem cov k] by auto
  qed (rule assms)
qed (auto simp: nearer_def)

definition first_visit :: "spider_env \<Rightarrow> (usize \<Rightarrow> u8) \<Rightarrow> (usize \<Rightarrow> cover) \<Rightarrow> frame \<Rightarrow> bool" where
  "first_visit env mem cov f \<longleftrightarrow>
     good_frame env mem f \<and> fr_addr f \<in> within_hops env mem cov (fr_depth f) - nearer env mem cov (fr_depth f)"

lemma first_visit_depth:
  assumes "first_visit env mem cov f"
  shows "fr_depth f = (LEAST n. fr_addr f \<in> within_hops env mem cov n)"
  by (rule Least_equality[symmetric]) (use assms in \<open>auto simp: first_visit_def nearer_def not_less[symmetric]\<close>)

text \<open>A drained level of first visits queues exactly the first visits of the next level.\<close>

lemma level_children:
  assumes "\<And>f. f \<in> fs \<Longrightarrow> fr_depth f = k" "fr_addr ` fs = within_hops env mem cov k - nearer env mem cov k"
    "k < sc_max_depth (se_cfg env)"
  shows "within_hops env mem cov k \<union> fr_addr ` children_of env mem cov (slots_of env cov fs)
     = within_hops env mem cov (Suc k)"
proof -
  have "fr_addr ` children_of env mem cov (slots_of env cov fs) = {b. \<exists>a\<in>fr_addr ` fs. struct_edge env mem cov a b}"
    using assms(1,3)
    by (fastforce simp: children_of_def slots_of_def struct_edge_def child_at_def image_iff)
  then show ?thesis unfolding assms(2) by (simp only: within_hops_level)
qed

context scan_target
begin

lemma spider_search_complete:
  assumes "se_read env = read" "reads_in_range read" "stride (se_needle env) = se_stride env" "0 < se_align env"
    "sc_dedupe_nodes (se_cfg env)" "cov = window_cover read (length (sw_win w))"
    and "spider_search tick env frontier w = Some (Drained, w')" "flow_limits env Drained w"
    "\<And>f. f \<in> set frontier \<Longrightarrow> good_frame env mem f \<and> fr_depth f = k" "k \<le> sc_max_depth (se_cfg env)"
    "sw_visited w = within_hops env mem cov k"
    "fr_addr ` set frontier = within_hops env mem cov k - nearer env mem cov k"
  shows "\<exists>fs. (\<forall>f\<in>fs. first_visit env mem cov f)
     \<and> fr_addr ` fs = within_hops env mem cov (sc_max_depth (se_cfg env)) - nearer env mem cov k
     \<and> set (sw_hits w') = set (sw_hits w) \<union> hits_of env mem cov (slots_of env cov fs)"
  using assms
proof (induction tick env frontier w arbitrary: k rule: spider_search.induct)
  case (1 tick env frontier w)
  note P = "1.prems"
  have fv: "\<forall>f\<in>set frontier. first_visit env mem cov f" using P(9,12) by (auto simp: first_visit_def)
  show ?case
  proof (cases "frontier = []")
    case True
    then have "within_hops env mem cov k \<subseteq> nearer env mem cov k" using P(12) by auto
    from within_hops_fixed[OF this] show ?thesis using P(7) True
      by (intro exI[of _ "{}"]) (auto simp: spider_search.simps hits_of_def slots_of_def)
  next
    case False
    let ?w = "w\<lparr>sw_next := []\<rparr>"
    from P(7) False obtain w1 where l: "spider_level tick env frontier ?w = Some (Drained, w1)"
      and rest: "spider_search tick env (sw_next w1) w1 = Some (Drained, w')"
      by (auto simp: spider_search.simps[of tick env frontier w] split: option.splits spider_flow.splits)
    have "flow_limits env Drained ?w" using P(8) by (simp add: flow_limits_def)
    from spider_level_advances[OF P(1-4) l _ this] P(6)
    have "advances env mem cov (slots_of env cov (set frontier)) True ?w w1" and lim: "flow_limits env Drained w1"
      by auto
    then have adv: "set (sw_hits w1) = set (sw_hits w) \<union> hits_of env mem cov (slots_of env cov (set frontier))"
      "set (sw_next w1) \<subseteq> children_of env mem cov (slots_of env cov (set frontier))"
      "sw_visited w1 = sw_visited w \<union> fr_addr ` children_of env mem cov (slots_of env cov (set frontier))"
      "fr_addr ` set (sw_next w1) = sw_visited w1 - sw_visited w" "length (sw_win w1) = length (sw_win w)"
      using P(5) unfolding advances_def by auto
    show ?thesis
    proof (cases "k < sc_max_depth (se_cfg env)")
      case True
      have vis: "sw_visited w1 = within_hops env mem cov (Suc k)"
        unfolding adv(3) P(11) by (rule level_children) (use P(9,12) True in auto)
      have nx: "good_frame env mem g \<and> fr_depth g = Suc k" if "g \<in> set (sw_next w1)" for g
      proof -
        from that adv(2) have c: "g \<in> children_of env mem cov (slots_of env cov (set frontier))" by auto
        with P(9) have "fr_depth g = Suc k" by (auto simp: children_of_def slots_of_def child_at_def)
        with good_children[OF _ c] P(9) show ?thesis by simp
      qed
      have "fr_addr ` set (sw_next w1) = within_hops env mem cov (Suc k) - nearer env mem cov (Suc k)"
        unfolding adv(4) vis P(11) nearer_Suc ..
      with "1.IH"[OF False l refl refl P(1-5) _ rest lim nx _ vis] P(6) adv(5) True obtain fs where
        fs: "\<forall>f\<in>fs. first_visit env mem cov f"
        "fr_addr ` fs = within_hops env mem cov (sc_max_depth (se_cfg env)) - nearer env mem cov (Suc k)"
        "set (sw_hits w') = set (sw_hits w1) \<union> hits_of env mem cov (slots_of env cov fs)" by auto
      have "fr_addr ` (set frontier \<union> fs) = within_hops env mem cov (sc_max_depth (se_cfg env)) - nearer env mem cov k"
        unfolding image_Un fs(2) P(12) nearer_Suc
        using within_hops_mono[of k "sc_max_depth (se_cfg env)" env mem cov] nearer_Suc[of env mem cov k] True
        by (auto simp: nearer_def)
      moreover have "slots_of env cov (set frontier \<union> fs) = slots_of env cov (set frontier) \<union> slots_of env cov fs"
        by (auto simp: slots_of_def)
      ultimately show ?thesis using fv fs adv(1)
        by (intro exI[of _ "set frontier \<union> fs"]) (auto simp: hits_of_Un)
    next
      case False
      then have k: "k = sc_max_depth (se_cfg env)" using P(10) by simp
      then have "children_of env mem cov (slots_of env cov (set frontier)) = {}"
        using P(9) by (auto simp: children_of_def slots_of_def)
      with adv(2) rest have "w' = w1" by (simp add: spider_search.simps)
      then show ?thesis using fv adv(1) P(12) k by (intro exI[of _ "set frontier"]) auto
    qed
  qed
qed

end

section \<open>The properties\<close>

lemma spider_scan_run:
  assumes "spider_scan_with tick obs t base cfg ty compare needle0 = Some (obs', Inr res)"
  obtains needle regions win_len fl w where "needle0 = Some needle" "tg_regions t = Inr regions" "0 < stride needle"
    "win_len = sc_struct_size (SpiderConfig_clamped cfg) + sc_pointer_size (SpiderConfig_clamped cfg)
       + se_align (spider_env_for t regions base (SpiderConfig_clamped cfg) compare needle)"
    "spider_search tick (spider_env_for t regions base (SpiderConfig_clamped cfg) compare needle)
       [\<lparr>fr_addr = base, fr_depth = 0, fr_path = []\<rparr>]
       (spider_start (spider_env_for t regions base (SpiderConfig_clamped cfg) compare needle) win_len obs) = Some (fl, w)"
    "fl \<noteq> Aborted" "res = \<lparr>so_hits = sw_hits w, so_truncated = sw_truncated w, so_nodes_visited = sw_nodes w\<rparr>"
proof -
  from assms obtain needle regions where n: "needle0 = Some needle" "tg_regions t = Inr regions" "0 < stride needle"
    by (auto simp: spider_scan_with_def Let_def split: if_splits option.splits sum.splits)
  let ?env = "spider_env_for t regions base (SpiderConfig_clamped cfg) compare needle"
  from assms n obtain win_len where wl: "checked_add (sc_struct_size (SpiderConfig_clamped cfg)
      + sc_pointer_size (SpiderConfig_clamped cfg)) (se_align ?env) = Some win_len"
    by (auto simp: spider_scan_with_def Let_def split: if_splits option.splits)
  from assms n wl obtain fl w where "spider_search tick ?env [\<lparr>fr_addr = base, fr_depth = 0, fr_path = []\<rparr>]
      (spider_start ?env win_len obs) = Some (fl, w)"
    by (auto simp: spider_scan_with_def Let_def split: if_splits option.splits)
  with assms n wl show ?thesis
    by (intro that[of needle regions win_len fl w])
      (auto simp: spider_scan_with_def Let_def checked_add_def split: if_splits spider_flow.splits)
qed

lemma spider_env_simps [simp]:
  "se_read (spider_env_for t rs b c cmp n) = tg_read t" "se_cfg (spider_env_for t rs b c cmp n) = c"
  "se_root (spider_env_for t rs b c cmp n) = b" "se_needle (spider_env_for t rs b c cmp n) = n"
  "se_compare (spider_env_for t rs b c cmp n) = cmp" "se_stride (spider_env_for t rs b c cmp n) = stride n"
  "se_ranges (spider_env_for t rs b c cmp n) = region_pairs rs" "0 < se_align (spider_env_for t rs b c cmp n)"
  by (simp_all add: spider_env_for_def)

lemma spider_start_simps [simp]:
  "sw_hits (spider_start env n obs) = []" "sw_visited (spider_start env n obs) = {se_root env}"
  "length (sw_win (spider_start env n obs)) = n"
  by (simp_all add: spider_start_def)

lemma spider_start_limits: "flow_limits (spider_env_for t rs b (SpiderConfig_clamped c) cmp n) Drained
    (spider_start (spider_env_for t rs b (SpiderConfig_clamped c) cmp n) k obs)"
  by (simp add: flow_limits_def spider_start_def SpiderConfig_clamped_def)

lemma MockTarget_reads_in_range:
  assumes "mk_base t + length (mk_buf t) \<le> USIZE_MAX + 1"
  shows "reads_in_range (tg_read (MockTarget_target t))"
  using assms
  by (auto simp: reads_in_range_def MockTarget_target_def MockTarget_read_def MockTarget_offset_of_def checked_sub_def
      slice_def Let_def split: option.splits if_splits)

text \<open>A search over two structs, one pointing at the other.\<close>

lemmas spider_evaluation = spider_scan_with_def spider_env_for_def spider_start_def SpiderConfig_clamped_def clamp_def
  MAX_STRUCT_SIZE_def SPIDER_MAX_DEPTH_def SPIDER_PROGRESS_INTERVAL_def MockTarget_target_def MockTarget_new_def
  Region_new_def Region_end_def region_pairs_def checked_add_def saturating_add_def USIZE_MAX_def stride_def
  spider_frame_def read_window_def MockTarget_read_def MockTarget_offset_of_def checked_sub_def slice_def put_bytes_def
  checked_next_multiple_of_def next_multiple_of_def node_tick_def value_branch_def pointer_branch_def Cover_has.simps
  compare_first_def Needle_compare_def read_int_def get_range_def read_word_def is_mapped_def partition_point_def
  spider_search.simps spider_slots.simps Let_def

lemma spider_two_structs:
  "spider_scan_with NoObserver () (MockTarget_target (MockTarget_new 16 [18, 0, 7])) 16
     \<lparr>sc_struct_size = 1, sc_alignment = 1, sc_max_depth = 1, sc_pointer_size = 1, sc_max_results = 9,
      sc_max_nodes = 9, sc_dedupe_nodes = True\<rparr> U8 Exact
     (Some \<lparr>nd_ty = U8, nd_value = NI 7 1 None, nd_tolerance = Fin 0\<rparr>) =
   Some ((), Inr \<lparr>so_hits = [\<lparr>sh_path = \<lparr>sp_root = 16, sp_parent_offsets = [0], sp_offset = 0\<rparr>,
     sh_current = [7], sh_previous = [7]\<rparr>], so_truncated = False, so_nodes_visited = 2\<rparr>)"
  by (simp add: spider_evaluation)

lemma spider_two_structs_target:
  "scan_target (tg_read (MockTarget_target (MockTarget_new 16 [18, 0, 7]))) (MockTarget_mem (MockTarget_new 16 [18, 0, 7]))"
  "reads_in_range (tg_read (MockTarget_target (MockTarget_new 16 [18, 0, 7])))"
  "tg_regions (MockTarget_target (MockTarget_new 16 [18, 0, 7])) = Inr [Region_new 16 3]"
proof -
  let ?t = "MockTarget_new 16 [18, 0, 7]"
  show "scan_target (tg_read (MockTarget_target ?t)) (MockTarget_mem ?t)"
    using mock.scan_target_axioms[of ?t] by (simp add: MockTarget_target_def)
  show "reads_in_range (tg_read (MockTarget_target ?t))"
    by (rule MockTarget_reads_in_range) (simp add: MockTarget_new_def USIZE_MAX_def)
  show "tg_regions (MockTarget_target ?t) = Inr [Region_new 16 3]"
    by (simp add: MockTarget_target_def MockTarget_new_def Region_new_def)
qed

text \<open>
  C6. Every hit of a spider search is real, truncated or not and with or without deduplication: following its
  path from the root through memory, without a null pointer or an overflow on the way, leads to an address that
  holds exactly the recorded bytes, these satisfy the comparison, the path has at most the configured number of
  dereferences (never more than eight), and the limits on hits and visited structs are kept.
\<close>

theorem spider_scan_sound:
  assumes "spider_scan_with tick obs t base cfg ty compare (Some needle) = Some (obs', Inr res)"
    and "scan_target (tg_read t) mem" "reads_in_range (tg_read t)"
  shows "(\<forall>h\<in>set (so_hits res).
      sp_root (sh_path h) = base \<and> SpiderPath_depth (sh_path h) \<le> min (sc_max_depth cfg) 8
      \<and> sh_previous h = sh_current h \<and> compare_first needle (sh_current h) 0 compare
      \<and> (\<exists>a. SpiderPath_resolve (sh_path h) (\<lambda>x. Some (read_word (span mem (clamp (sc_pointer_size cfg) 1 8) x))) = Some a
            \<and> sh_current h = span mem (stride needle) a))
    \<and> length (so_hits res) \<le> max (sc_max_results cfg) 1 \<and> so_nodes_visited res \<le> max (sc_max_nodes cfg) 1"
  using assms(1)
proof (cases rule: spider_scan_run)
  case (1 n regions win_len fl w)
  let ?env = "spider_env_for t regions base (SpiderConfig_clamped cfg) compare needle"
  have n: "n = needle" using 1(1) by simp
  have "mem_reader ?env mem = (\<lambda>x. Some (read_word (span mem (clamp (sc_pointer_size cfg) 1 8) x)))"
    by (simp add: fun_eq_iff mem_reader_def word_at_def SpiderConfig_clamped_def)
  moreover have "(\<forall>h\<in>set (sw_hits w). good_hit ?env mem h) \<and> flow_limits ?env fl w"
    by (rule scan_target.spider_search_sound[OF assms(2) _ assms(3) _ _ _ 1(5)[unfolded n]])
      (use 1(3) n spider_start_limits[of t regions base cfg compare needle win_len obs] in \<open>auto simp: good_frame_def\<close>)
  ultimately show ?thesis using 1(7)
    by (auto simp: good_hit_def flow_limits_def SpiderConfig_clamped_def SPIDER_MAX_DEPTH_def)
qed

theorem spider_scan_sound_witness:
  "\<exists>a. SpiderPath_resolve \<lparr>sp_root = 16, sp_parent_offsets = [0], sp_offset = 0\<rparr>
      (\<lambda>x. Some (read_word (span (MockTarget_mem (MockTarget_new 16 [18, 0, 7])) 1 x))) = Some a
    \<and> [7] = span (MockTarget_mem (MockTarget_new 16 [18, 0, 7])) 1 a"
  using spider_scan_sound[OF spider_two_structs spider_two_structs_target(1,2)]
  by (simp add: clamp_def stride_def)

text \<open>
  C5. A search with deduplication that was not truncated misses nothing and takes shortest paths. The structs
  reachable from the root by at most the configured number of pointer hops are all examined; for every slot of
  such a struct whose readable bytes match there is a hit whose path leads to that struct; and every hit is such
  a slot, with a path of the least number of hops that reaches its struct.
\<close>

theorem spider_scan_shortest:
  assumes "spider_scan_with tick obs t base cfg ty compare (Some needle) = Some (obs', Inr res)"
    and "scan_target (tg_read t) mem" "reads_in_range (tg_read t)" "tg_regions t = Inr regions"
    and "sc_dedupe_nodes cfg" "\<not> so_truncated res"
    and "env = spider_env_for t regions base (SpiderConfig_clamped cfg) compare needle"
    and "cov = window_cover (tg_read t) (sc_struct_size (se_cfg env) + sc_pointer_size (se_cfg env) + se_align env)"
    and "reach = within_hops env mem cov (min (sc_max_depth cfg) 8)"
  shows "(\<forall>a\<in>reach. \<forall>off\<in>slot_offsets env cov a. slot_match env mem cov a off \<longrightarrow>
        (\<exists>h\<in>set (so_hits res). spider_hops (mem_reader env mem) (sp_parent_offsets (sh_path h)) base = Some a
           \<and> sp_offset (sh_path h) = off))
    \<and> (\<forall>h\<in>set (so_hits res). \<exists>a\<in>reach.
        spider_hops (mem_reader env mem) (sp_parent_offsets (sh_path h)) base = Some a
        \<and> SpiderPath_depth (sh_path h) = (LEAST n. a \<in> within_hops env mem cov n)
        \<and> sp_offset (sh_path h) \<in> slot_offsets env cov a \<and> slot_match env mem cov a (sp_offset (sh_path h)))"
  using assms(1)
proof (cases rule: spider_scan_run)
  case (1 n regions' win_len fl w)
  have eq: "n = needle" "regions' = regions" using 1(1,2) assms(4) by simp_all
  let ?start = "spider_start env win_len obs" and ?f0 = "\<lparr>fr_addr = base, fr_depth = 0, fr_path = []\<rparr>"
  have s: "spider_search tick env [?f0] ?start = Some (fl, w)" using 1(5) assms(7) eq by simp
  have len: "cov = window_cover (tg_read t) (length (sw_win ?start))" using 1(4) assms(7,8) eq by simp
  have env: "se_read env = tg_read t" "stride (se_needle env) = se_stride env" "0 < se_align env" "0 < se_stride env"
    "sc_dedupe_nodes (se_cfg env)" "se_root env = base" "sc_max_depth (se_cfg env) = min (sc_max_depth cfg) 8"
    using assms(5,7) 1(3) eq by (simp_all add: SpiderConfig_clamped_def SPIDER_MAX_DEPTH_def)
  have lim: "flow_limits env Drained ?start" unfolding assms(7) by (rule spider_start_limits)
  have g0: "good_frame env mem ?f0" using env by (simp add: good_frame_def)
  have "flow_limits env fl w"
    using scan_target.spider_search_sound[OF assms(2) env(1) assms(3) env(2-4) s] g0 lim by simp
  then have "fl = Drained" using 1(6,7) assms(6) by (cases fl) (auto simp: flow_limits_def)
  from scan_target.spider_search_complete[OF assms(2) env(1) assms(3) env(2,3,5) len s[unfolded this] lim, of 0] g0 env(6)
  obtain fs where fs: "\<forall>f\<in>fs. first_visit env mem cov f" "fr_addr ` fs = reach"
    "set (sw_hits w) = hits_of env mem cov (slots_of env cov fs)"
    unfolding assms(9) env(7)[symmetric] by (auto simp: nearer_def)
  have hit: "hit_at env mem f off \<in> set (so_hits res)"
    if "f \<in> fs" "off \<in> slot_offsets env cov (fr_addr f)" "slot_match env mem cov (fr_addr f) off" for f off
    using that fs(3) 1(7) by (auto simp: hits_of_def slots_of_def)
  have path: "spider_hops (mem_reader env mem) (sp_parent_offsets (sh_path (hit_at env mem f off))) base = Some (fr_addr f)
      \<and> SpiderPath_depth (sh_path (hit_at env mem f off)) = (LEAST n. fr_addr f \<in> within_hops env mem cov n)
      \<and> sp_offset (sh_path (hit_at env mem f off)) = off" if "f \<in> fs" for f off
    using fs(1) that env(6) first_visit_depth[of env mem cov f]
    by (auto simp: first_visit_def good_frame_def hit_at_def SpiderPath_depth_def)
  show ?thesis
  proof (intro conjI ballI impI)
    fix a off assume "a \<in> reach" "off \<in> slot_offsets env cov a" "slot_match env mem cov a off"
    moreover from this(1) fs(2) obtain f where "f \<in> fs" "fr_addr f = a" by auto
    ultimately show "\<exists>h\<in>set (so_hits res). spider_hops (mem_reader env mem) (sp_parent_offsets (sh_path h)) base = Some a
        \<and> sp_offset (sh_path h) = off"
      using hit path by blast
  next
    fix h assume "h \<in> set (so_hits res)"
    then obtain f off where h: "h = hit_at env mem f off" "f \<in> fs" "off \<in> slot_offsets env cov (fr_addr f)"
      "slot_match env mem cov (fr_addr f) off" using fs(3) 1(7) by (auto simp: hits_of_def slots_of_def)
    then show "\<exists>a\<in>reach. spider_hops (mem_reader env mem) (sp_parent_offsets (sh_path h)) base = Some a
        \<and> SpiderPath_depth (sh_path h) = (LEAST n. a \<in> within_hops env mem cov n)
        \<and> sp_offset (sh_path h) \<in> slot_offsets env cov a \<and> slot_match env mem cov a (sp_offset (sh_path h))"
      using path[OF h(2), of off] fs(2) by (intro bexI[of _ "fr_addr f"]) auto
  qed
qed

theorem spider_scan_shortest_witness:
  "let env = spider_env_for (MockTarget_target (MockTarget_new 16 [18, 0, 7])) [Region_new 16 3] 16
       (SpiderConfig_clamped \<lparr>sc_struct_size = 1, sc_alignment = 1, sc_max_depth = 1, sc_pointer_size = 1,
          sc_max_results = 9, sc_max_nodes = 9, sc_dedupe_nodes = True\<rparr>) Exact
       \<lparr>nd_ty = U8, nd_value = NI 7 1 None, nd_tolerance = Fin 0\<rparr>;
       mem = MockTarget_mem (MockTarget_new 16 [18, 0, 7]);
       cov = window_cover (tg_read (MockTarget_target (MockTarget_new 16 [18, 0, 7])))
         (sc_struct_size (se_cfg env) + sc_pointer_size (se_cfg env) + se_align env)
   in \<exists>a\<in>within_hops env mem cov 1. spider_hops (mem_reader env mem) [0] 16 = Some a
        \<and> Suc 0 = (LEAST n. a \<in> within_hops env mem cov n)
        \<and> 0 \<in> slot_offsets env cov a \<and> slot_match env mem cov a 0"
  using spider_scan_shortest[OF spider_two_structs spider_two_structs_target(1-3) _ _ refl refl refl]
  by (simp add: Let_def SpiderPath_depth_def)

lemma refine_loop_verdicts:
  "refine_loop tick v tot hs d k vs obs = (obs', Some vs') \<Longrightarrow> vs' = vs @ map v hs"
  by (induction hs arbitrary: d k vs obs) (fastforce simp: Let_def split: if_splits option.splits prod.splits)+

lemma retain_map:
  "retain_verdicts hs (map v hs) =
     map (\<lambda>h. h\<lparr>sh_previous := sh_current h, sh_current := the (v h)\<rparr>) (filter (\<lambda>h. v h \<noteq> None) hs)"
proof (induction hs)
  case (Cons h hs)
  then show ?case by (cases "v h") auto
qed simp

text \<open>
  C14. Refining hits keeps, in order, exactly those whose path still resolves, whose value can still be read in full
  and satisfies the comparison with the value seen last; the value seen last becomes the previous one. A rejected or
  cancelled refinement leaves the hits untouched.
\<close>

theorem spider_refine_narrows:
  assumes "spider_refine_with tick obs t hs cfg ty compare needle = (obs', r, hs')"
  shows "case r of
      Inl e \<Rightarrow> hs' = hs
    | Inr _ \<Rightarrow>
        let sz = (case needle of Some n \<Rightarrow> stride n | None \<Rightarrow> the (fixed_width ty));
            fresh = (\<lambda>h. case SpiderPath_resolve (sh_path h) (refine_read t (clamp (sc_pointer_size cfg) 1 8)) of
                       None \<Rightarrow> None
                     | Some a \<Rightarrow> (case tg_read t a sz of Inl _ \<Rightarrow> None | Inr bs \<Rightarrow> if length bs < sz then None else Some bs))
        in hs' = map (\<lambda>h. h\<lparr>sh_previous := sh_current h, sh_current := the (fresh h)\<rparr>)
             (filter (\<lambda>h. case fresh h of
                None \<Rightarrow> False
              | Some bs \<Rightarrow> (case needle of Some n \<Rightarrow> compare_next n bs 0 compare (sh_current h)
                                       | None \<Rightarrow> compare_change ty compare bs (sh_current h))) hs)"
proof -
  let ?keep = "\<lambda>h bs. case needle of Some n \<Rightarrow> compare_next n bs 0 compare (sh_current h)
      | None \<Rightarrow> compare_change ty compare bs (sh_current h)"
  define ps where "ps = clamp (sc_pointer_size cfg) 1 8"
  define sz where "sz = (case needle of Some n \<Rightarrow> stride n | None \<Rightarrow> the (fixed_width ty))"
  define fresh where "fresh h = (case SpiderPath_resolve (sh_path h) (refine_read t ps) of
      None \<Rightarrow> None
    | Some a \<Rightarrow> (case tg_read t a sz of Inl _ \<Rightarrow> None | Inr bs \<Rightarrow> if length bs < sz then None else Some bs))" for h :: spider_hit
  let ?v = "refine_verdict t ps sz ty compare needle"
  have v: "?v h = (case fresh h of None \<Rightarrow> None | Some bs \<Rightarrow> if ?keep h bs then Some bs else None)" for h
    by (auto simp: refine_verdict_def fresh_def split: option.splits sum.splits)
  show ?thesis
  proof (cases r)
    case (Inl e)
    then show ?thesis using assms
      by (auto simp: spider_refine_with_def Let_def split: if_splits option.splits prod.splits)
  next
    case (Inr u)
    with assms obtain vs where "refine_loop tick ?v (length hs) hs 0 0 [] obs = (obs', Some vs)" "hs' = retain_verdicts hs vs"
      by (auto simp: spider_refine_with_def sz_def ps_def SpiderConfig_clamped_def Let_def
          split: if_splits option.splits prod.splits)
    then have "hs' = map (\<lambda>h. h\<lparr>sh_previous := sh_current h, sh_current := the (?v h)\<rparr>) (filter (\<lambda>h. ?v h \<noteq> None) hs)"
      using refine_loop_verdicts retain_map by force
    also have "filter (\<lambda>h. ?v h \<noteq> None) hs = filter (\<lambda>h. case fresh h of None \<Rightarrow> False | Some bs \<Rightarrow> ?keep h bs) hs"
      by (rule filter_cong) (auto simp: v split: option.splits)
    also have "map (\<lambda>h. h\<lparr>sh_previous := sh_current h, sh_current := the (?v h)\<rparr>) \<dots>
        = map (\<lambda>h. h\<lparr>sh_previous := sh_current h, sh_current := the (fresh h)\<rparr>) \<dots>"
      by (rule map_cong) (auto simp: v split: option.splits)
    finally show ?thesis using Inr unfolding sz_def[symmetric] ps_def[symmetric] Let_def fresh_def by simp
  qed
qed

theorem spider_refine_narrows_witness:
  "snd (snd (spider_refine_with NoObserver () (MockTarget_target (MockTarget_new 16 [18, 0, 7]))
     [\<lparr>sh_path = \<lparr>sp_root = 16, sp_parent_offsets = [0], sp_offset = 0\<rparr>, sh_current = [5], sh_previous = [5]\<rparr>]
     \<lparr>sc_struct_size = 1, sc_alignment = 1, sc_max_depth = 1, sc_pointer_size = 1, sc_max_results = 9,
      sc_max_nodes = 9, sc_dedupe_nodes = True\<rparr> U8 Increased None))
   = [\<lparr>sh_path = \<lparr>sp_root = 16, sp_parent_offsets = [0], sp_offset = 0\<rparr>, sh_current = [7], sh_previous = [5]\<rparr>]"
proof -
  let ?t = "MockTarget_target (MockTarget_new 16 [18, 0, 7])"
  let ?h = "\<lparr>sh_path = \<lparr>sp_root = 16, sp_parent_offsets = [0], sp_offset = 0\<rparr>, sh_current = [5], sh_previous = [5]\<rparr>"
  let ?cfg = "\<lparr>sc_struct_size = 1, sc_alignment = 1, sc_max_depth = 1, sc_pointer_size = 1, sc_max_results = 9,
      sc_max_nodes = 9, sc_dedupe_nodes = True\<rparr>"
  obtain obs' r hs' where run: "spider_refine_with NoObserver () ?t [?h] ?cfg U8 Increased None = (obs', r, hs')"
    by (metis prod.exhaust)
  then have "r = Inr ()" by (auto simp: spider_refine_with_def SPIDER_PROGRESS_INTERVAL_def Let_def split: option.splits)
  with spider_refine_narrows[OF run] run show ?thesis
    by (simp add: SpiderPath_resolve_def refine_read_def spider_evaluation compare_change_def is_some_and_def)
qed

end
