(* ===== verification/Analysis.thy ===== *)
theory Analysis
  imports Process_Types Rust_Text
begin

text \<open>
  The pure memory analyses of nemclass-core/src/internal/analysis: printable runs (strings.rs), the region
  index (region_index.rs) and the pointer classifier (pointer.rs).

  The text of a run is the list of its character codes; every one is printable ASCII, so its length in bytes is
  its length in characters.
\<close>

section \<open>Printable runs\<close>

datatype str_kind = Ascii | Utf16Le

record string_run =
  sr_offset :: nat
  sr_len_bytes :: nat
  sr_text :: utext
  sr_kind :: str_kind

definition is_printable :: "u8 \<Rightarrow> bool" where
  "is_printable b \<longleftrightarrow> b = 9 \<or> (0x20 \<le> b \<and> b \<le> 0x7E)"

function measure_utf16le :: "bytes \<Rightarrow> nat \<Rightarrow> utext" where
  "measure_utf16le buf i =
     (if i + 1 < length buf \<and> is_printable (buf ! i) \<and> buf ! (i + 1) = 0
      then unat (buf ! i) # measure_utf16le buf (i + 2) else [])"
  by pat_completeness auto
termination by (relation "measure (\<lambda>(buf, i). length buf - i)") auto

function measure_ascii :: "bytes \<Rightarrow> nat \<Rightarrow> utext" where
  "measure_ascii buf i =
     (if i < length buf \<and> is_printable (buf ! i) then unat (buf ! i) # measure_ascii buf (i + 1) else [])"
  by pat_completeness auto
termination by (relation "measure (\<lambda>(buf, i). length buf - i)") auto

declare measure_utf16le.simps [simp del] measure_ascii.simps [simp del]

definition string_at :: "bytes \<Rightarrow> nat \<Rightarrow> nat \<Rightarrow> string_run option" where
  "string_at buf offset min_len0 =
     (let min_len = max min_len0 1
      in if offset \<ge> length buf then None
         else
           let u16_text = measure_utf16le buf offset
           in if length u16_text \<ge> min_len then
                Some \<lparr>sr_offset = offset, sr_len_bytes = length u16_text * 2, sr_text = u16_text, sr_kind = Utf16Le\<rparr>
              else
                let a_text = measure_ascii buf offset
                in if length a_text \<ge> min_len then
                     Some \<lparr>sr_offset = offset, sr_len_bytes = length a_text, sr_text = a_text, sr_kind = Ascii\<rparr>
                   else None)"

function detect_from :: "bytes \<Rightarrow> nat \<Rightarrow> nat \<Rightarrow> string_run list" where
  "detect_from buf min_len i =
     (if i < length buf then
        let u16_text = measure_utf16le buf i
        in if length u16_text \<ge> min_len \<and> u16_text \<noteq> [] then
             \<lparr>sr_offset = i, sr_len_bytes = length u16_text * 2, sr_text = u16_text, sr_kind = Utf16Le\<rparr>
               # detect_from buf min_len (i + length u16_text * 2)
           else
             let a_text = measure_ascii buf i
             in if length a_text \<ge> min_len \<and> a_text \<noteq> [] then
                  \<lparr>sr_offset = i, sr_len_bytes = length a_text, sr_text = a_text, sr_kind = Ascii\<rparr>
                    # detect_from buf min_len (i + length a_text)
                else detect_from buf min_len (i + 1)
      else [])"
  by pat_completeness auto
termination by (relation "measure (\<lambda>(buf, _, i). length buf - i)") (auto intro!: diff_less_mono2)

declare detect_from.simps [simp del]

definition detect_strings :: "bytes \<Rightarrow> nat \<Rightarrow> string_run list" where
  "detect_strings buf min_len = detect_from buf (max min_len 1) 0"

section \<open>Region index\<close>

datatype addr_class =
    Unmapped
  | Data "string option"
  | Executable "string option"

record addr_range =
  ra_start :: usize
  ra_end :: usize
  ra_prot :: protection
  ra_module :: "string option"

type_synonym region_index = "addr_range list"

definition RegionIndex_from_sections :: "sect list \<Rightarrow> region_index" where
  "RegionIndex_from_sections sections =
     sort_key ra_start
       (map (\<lambda>s. \<lparr>ra_start = sec_base s, ra_end = saturating_add (sec_base s) (sec_size s), ra_prot = sec_prot s,
               ra_module = sec_module s\<rparr>)
         (filter (\<lambda>s. sec_size s \<noteq> 0) sections))"

definition covering :: "region_index \<Rightarrow> usize \<Rightarrow> addr_range option" where
  "covering index addr =
     (let idx = partition_point (\<lambda>r. ra_start r \<le> addr) index
      in if idx = 0 then None
         else let candidate = index ! (idx - 1) in if addr < ra_end candidate then Some candidate else None)"

definition RegionIndex_classify :: "region_index \<Rightarrow> usize \<Rightarrow> addr_class" where
  "RegionIndex_classify index addr =
     (case covering index addr of
        None \<Rightarrow> Unmapped
      | Some r \<Rightarrow> if Protection_execute (ra_prot r) then Executable (ra_module r) else Data (ra_module r))"

definition RegionIndex_is_executable :: "region_index \<Rightarrow> usize \<Rightarrow> bool" where
  "RegionIndex_is_executable index addr =
     (case covering index addr of None \<Rightarrow> False | Some r \<Rightarrow> Protection_execute (ra_prot r))"

definition RegionIndex_is_mapped :: "region_index \<Rightarrow> usize \<Rightarrow> bool" where
  "RegionIndex_is_mapped index addr = (covering index addr \<noteq> None)"

section \<open>Pointer classes\<close>

definition MAX_VTABLE_PROBE :: nat where "MAX_VTABLE_PROBE = 8"
definition MIN_VTABLE_METHODS :: nat where "MIN_VTABLE_METHODS = 2"
definition ENTRY_SIZE :: nat where "ENTRY_SIZE = 8"

datatype pointer_class = Null | NotPointer | DataPtr | CodePtr | VTablePtr nat

text \<open>The probe from entry \<open>i\<close> on; the bound is that of the \<open>for\<close> loop.\<close>

function count_code_from :: "(usize \<Rightarrow> nat \<Rightarrow> core_error + bytes) \<Rightarrow> region_index \<Rightarrow> usize \<Rightarrow> nat \<Rightarrow> nat" where
  "count_code_from rd index table i =
     (if i < MAX_VTABLE_PROBE then
        (case checked_add table (i * ENTRY_SIZE) of
           None \<Rightarrow> 0
         | Some entry_addr \<Rightarrow>
             (case rd entry_addr ENTRY_SIZE of
                Inl e \<Rightarrow> 0
              | Inr bs \<Rightarrow>
                  if length bs = ENTRY_SIZE \<and> RegionIndex_is_executable index (le_nat bs)
                  then Suc (count_code_from rd index table (i + 1)) else 0))
      else 0)"
  by pat_completeness auto
termination by (relation "measure (\<lambda>(_, _, _, i). MAX_VTABLE_PROBE - i)") auto

declare count_code_from.simps [simp del]

definition count_leading_code_entries :: "(usize \<Rightarrow> nat \<Rightarrow> core_error + bytes) \<Rightarrow> region_index \<Rightarrow> usize \<Rightarrow> nat" where
  "count_leading_code_entries rd index table = count_code_from rd index table 0"

definition classify_value :: "64 word \<Rightarrow> region_index \<Rightarrow> (usize \<Rightarrow> nat \<Rightarrow> core_error + bytes) \<Rightarrow> pointer_class" where
  "classify_value value index rd =
     (if value = 0 then Null
      else
        let addr = unat value
        in case RegionIndex_classify index addr of
             Unmapped \<Rightarrow> NotPointer
           | Executable _ \<Rightarrow> CodePtr
           | Data _ \<Rightarrow>
               if addr mod ENTRY_SIZE \<noteq> 0 then DataPtr
               else
                 let methods = count_leading_code_entries rd index addr
                 in if methods \<ge> MIN_VTABLE_METHODS then VTablePtr methods else DataPtr)"

section \<open>Facts about printable runs\<close>

lemma measure_ascii_props:
  "i + length (measure_ascii buf i) \<le> max i (length buf)"
  "k < length (measure_ascii buf i) \<Longrightarrow> is_printable (buf ! (i + k)) \<and> measure_ascii buf i ! k = unat (buf ! (i + k))"
proof (induction buf i arbitrary: k rule: measure_ascii.induct)
  case (1 buf i)
  { case 1
    then show ?case using "1.IH"(1) by (subst measure_ascii.simps) auto
  next
    case 2
    then show ?case using "1.IH"(2)[of "k - 1"]
      by (subst measure_ascii.simps, subst (asm) measure_ascii.simps) (auto simp: nth_Cons split: nat.splits if_splits) }
qed

lemma measure_utf16le_props:
  "i + 2 * length (measure_utf16le buf i) \<le> max i (length buf)"
  "k < length (measure_utf16le buf i) \<Longrightarrow>
     is_printable (buf ! (i + 2 * k)) \<and> measure_utf16le buf i ! k = unat (buf ! (i + 2 * k)) \<and> buf ! (i + 2 * k + 1) = 0"
proof (induction buf i arbitrary: k rule: measure_utf16le.induct)
  case (1 buf i)
  { case 1
    then show ?case using "1.IH"(1) by (subst measure_utf16le.simps) auto
  next
    case 2
    then show ?case using "1.IH"(2)[of "k - 1"]
      by (subst measure_utf16le.simps, subst (asm) measure_utf16le.simps)
        (auto simp: nth_Cons split: nat.splits if_splits) }
qed

lemma detect_from_eq:
  assumes "0 < m"
  shows "detect_from buf m i =
     (if i < length buf then
        (case string_at buf i m of
           Some r \<Rightarrow> r # detect_from buf m (i + sr_len_bytes r)
         | None \<Rightarrow> detect_from buf m (i + 1))
      else [])"
  using assms by (subst detect_from.simps) (auto simp: string_at_def Let_def max_def not_le)

lemma string_at_offset: "string_at buf i m = Some r \<Longrightarrow> sr_offset r = i \<and> 0 < sr_len_bytes r \<and> i + sr_len_bytes r \<le> length buf"
  using measure_ascii_props(1)[of i buf] measure_utf16le_props(1)[of i buf]
  by (auto simp: string_at_def Let_def max_def split: if_splits)

lemma detect_from_ge: "r \<in> set (detect_from buf m i) \<Longrightarrow> 0 < m \<Longrightarrow> i \<le> sr_offset r"
proof (induction "length buf - i" arbitrary: i rule: less_induct)
  case less
  show ?case
  proof (cases "i < length buf")
    case True
    show ?thesis
    proof (cases "string_at buf i m")
      case None
      then have "r \<in> set (detect_from buf m (i + 1))" using less.prems True by (simp add: detect_from_eq[of m buf i])
      moreover have "length buf - (i + 1) < length buf - i" using True by linarith
      ultimately show ?thesis using less.hyps[of "i + 1"] less.prems(2) by simp
    next
      case (Some q)
      note q = string_at_offset[OF this]
      from less.prems True Some have "r = q \<or> r \<in> set (detect_from buf m (i + sr_len_bytes q))"
        by (simp add: detect_from_eq[of m buf i])
      then show ?thesis using less.hyps[of "i + sr_len_bytes q"] less.prems(2) q True by force
    qed
  qed (use less.prems in \<open>simp add: detect_from_eq[of m buf i]\<close>)
qed

lemma detect_from_spec:
  assumes "0 < m"
  shows "(\<forall>r\<in>set (detect_from buf m i). string_at buf (sr_offset r) m = Some r)
    \<and> sorted_wrt (\<lambda>r s. sr_offset r + sr_len_bytes r \<le> sr_offset s) (detect_from buf m i)
    \<and> (\<forall>j r. i \<le> j \<longrightarrow> string_at buf j m = Some r \<longrightarrow>
         (\<exists>s\<in>set (detect_from buf m i). sr_offset s \<le> j \<and> j < sr_offset s + sr_len_bytes s))"
proof (induction "length buf - i" arbitrary: i rule: less_induct)
  case less
  show ?case
  proof (cases "i < length buf")
    case False
    have "string_at buf j m = None" if "i \<le> j" for j using False that by (simp add: string_at_def Let_def)
    then show ?thesis using False assms by (simp add: detect_from_eq[of m buf i])
  next
    case True
    show ?thesis
    proof (cases "string_at buf i m")
      case None
      have IH: "length buf - (i + 1) < length buf - i" using True by simp
      from None True have "detect_from buf m i = detect_from buf m (i + 1)" using assms by (simp add: detect_from_eq[of m buf i])
      with less.hyps[OF IH] None show ?thesis by (metis Suc_eq_plus1 Suc_leI le_neq_implies_less option.distinct(1))
    next
      case (Some q)
      note q = string_at_offset[OF this]
      have IH: "length buf - (i + sr_len_bytes q) < length buf - i" using True q by (intro diff_less_mono2) auto
      have d: "detect_from buf m i = q # detect_from buf m (i + sr_len_bytes q)"
        using Some True assms by (simp add: detect_from_eq[of m buf i])
      have later: "\<exists>s\<in>set (detect_from buf m i). sr_offset s \<le> j \<and> j < sr_offset s + sr_len_bytes s"
        if "i \<le> j" "string_at buf j m = Some r" for j r
      proof (cases "j < i + sr_len_bytes q")
        case True
        then show ?thesis using that q by (simp add: d)
      next
        case False
        then show ?thesis using less.hyps[OF IH] that unfolding d by (simp add: not_less)
      qed
      have "i + sr_len_bytes q \<le> sr_offset s" if "s \<in> set (detect_from buf m (i + sr_len_bytes q))" for s
        by (rule detect_from_ge[OF that assms])
      then show ?thesis using less.hyps[OF IH] Some q later by (simp add: d)
    qed
  qed
qed

text \<open>The bytes of a run in its encoding.\<close>

definition encode_run :: "string_run \<Rightarrow> bytes" where
  "encode_run r =
     (case sr_kind r of
        Ascii \<Rightarrow> map of_nat (sr_text r)
      | Utf16Le \<Rightarrow> concat (map (\<lambda>c. [of_nat c, 0]) (sr_text r)))"

lemma nth_concat_pairs:
  "i < 2 * length xs \<Longrightarrow> concat (map (\<lambda>c. [f c, z]) xs) ! i = (if even i then f (xs ! (i div 2)) else z)"
proof (induction xs arbitrary: i)
  case (Cons x xs)
  consider "i = 0" | "i = 1" | j where "i = Suc (Suc j)" by (metis One_nat_def not0_implies_Suc)
  then show ?case using Cons by cases auto
qed simp

lemma length_concat_pairs: "length (concat (map (\<lambda>c. [f c, z]) xs)) = 2 * length xs"
  by (induction xs) auto

lemma string_at_bytes:
  assumes "string_at buf i m = Some r"
  shows "slice buf i (sr_len_bytes r) = encode_run r \<and> max m 1 \<le> length (sr_text r)
    \<and> (\<forall>c\<in>set (sr_text r). is_printable (of_nat c) \<and> c < 256)"
proof -
  note le = string_at_offset[OF assms]
  have c256: "unat b < 256" for b :: u8 using unsigned_less[of b] by simp
  from assms consider
    (wide) "sr_text r = measure_utf16le buf i" "sr_len_bytes r = 2 * length (sr_text r)" "sr_kind r = Utf16Le" "max m 1 \<le> length (sr_text r)"
  | (ascii) "sr_text r = measure_ascii buf i" "sr_len_bytes r = length (sr_text r)" "sr_kind r = Ascii" "max m 1 \<le> length (sr_text r)"
    by (auto simp: string_at_def Let_def split: if_splits)
  then show ?thesis
  proof cases
    case wide
    have "slice buf i (sr_len_bytes r) = encode_run r"
    proof (rule nth_equalityI)
      fix k assume "k < length (slice buf i (sr_len_bytes r))"
      then have k: "k div 2 < length (measure_utf16le buf i)" "k < sr_len_bytes r" using le wide by (auto simp: slice_simps)
      consider j where "k = 2 * j" | j where "k = 2 * j + 1" by (metis oddE evenE)
      then show "slice buf i (sr_len_bytes r) ! k = encode_run r ! k"
        using measure_utf16le_props(2)[OF k(1)] k wide le
        by cases (auto simp: encode_run_def nth_concat_pairs slice_simps)
    qed (use wide le in \<open>simp add: encode_run_def length_concat_pairs slice_simps\<close>)
    moreover have "\<forall>c\<in>set (sr_text r). is_printable (of_nat c) \<and> c < 256"
      using measure_utf16le_props(2) c256 unfolding wide by (auto simp: in_set_conv_nth)
    ultimately show ?thesis using wide by simp
  next
    case ascii
    have "slice buf i (sr_len_bytes r) = encode_run r"
      by (rule nth_equalityI) (use ascii le measure_ascii_props(2) in \<open>auto simp: encode_run_def slice_simps\<close>)
    moreover have "\<forall>c\<in>set (sr_text r). is_printable (of_nat c) \<and> c < 256"
      using measure_ascii_props(2) c256 unfolding ascii by (auto simp: in_set_conv_nth)
    ultimately show ?thesis using ascii by simp
  qed
qed



section \<open>Facts about the region index\<close>

definition range_of :: "sect \<Rightarrow> addr_range" where
  "range_of s = \<lparr>ra_start = sec_base s, ra_end = saturating_add (sec_base s) (sec_size s), ra_prot = sec_prot s,
     ra_module = sec_module s\<rparr>"

definition sections_disjoint :: "sect list \<Rightarrow> bool" where
  "sections_disjoint secs \<longleftrightarrow>
     sorted_wrt (\<lambda>s t. sec_base s + sec_size s \<le> sec_base t \<or> sec_base t + sec_size t \<le> sec_base s) secs"

lemma covering_iff:
  assumes "sorted_wrt (\<lambda>x y. ra_start x \<le> ra_start y \<and> ra_end x \<le> ra_start y) index"
  shows "covering index addr = Some r \<longleftrightarrow> r \<in> set index \<and> ra_start r \<le> addr \<and> addr < ra_end r"
proof -
  let ?pre = "takeWhile (\<lambda>r. ra_start r \<le> addr) index"
  have split: "index = ?pre @ dropWhile (\<lambda>r. ra_start r \<le> addr) index" by simp
  have cand: "covering index addr = (if ?pre = [] then None else if addr < ra_end (last ?pre) then Some (last ?pre) else None)"
  proof (cases "?pre = []")
    case False
    then have "index ! (length ?pre - 1) = last ?pre"
      by (subst split, subst nth_append) (simp add: last_conv_nth)
    then show ?thesis using False by (simp add: covering_def partition_point_def Let_def)
  qed (simp add: covering_def partition_point_def)
  have pre: "x \<in> set ?pre" if "x \<in> set index" "ra_start x \<le> addr" for x
  proof (rule ccontr)
    assume "x \<notin> set ?pre"
    then have x: "x \<in> set (dropWhile (\<lambda>r. ra_start r \<le> addr) index)" using that(1) by (subst (asm) split) (simp only: set_append, blast)
    then obtain y ys where y: "dropWhile (\<lambda>r. ra_start r \<le> addr) index = y # ys" by (cases "dropWhile (\<lambda>r. ra_start r \<le> addr) index") auto
    then have "\<not> ra_start y \<le> addr" by (simp add: dropWhile_eq_Cons_conv)
    moreover have "sorted_wrt (\<lambda>x y. ra_start x \<le> ra_start y \<and> ra_end x \<le> ra_start y) (y # ys)"
      using assms by (subst (asm) split) (simp only: sorted_wrt_append y)
    ultimately show False using x that(2) y by auto
  qed
  show ?thesis
  proof
    assume "covering index addr = Some r"
    then have r: "?pre \<noteq> []" "r = last ?pre" "addr < ra_end r" by (auto simp: cand split: if_splits)
    then have "r \<in> set ?pre" by simp
    with r(3) show "r \<in> set index \<and> ra_start r \<le> addr \<and> addr < ra_end r" by (auto dest: set_takeWhileD)
  next
    assume r: "r \<in> set index \<and> ra_start r \<le> addr \<and> addr < ra_end r"
    with pre have "r \<in> set ?pre" by blast
    then obtain as bs where ab: "?pre = as @ r # bs" by (auto dest: split_list)
    have "sorted_wrt (\<lambda>x y. ra_start x \<le> ra_start y \<and> ra_end x \<le> ra_start y) ?pre"
      using assms by (subst (asm) split) (simp only: sorted_wrt_append)
    then have "\<forall>y\<in>set bs. ra_end r \<le> ra_start y" unfolding ab by (simp add: sorted_wrt_append)
    moreover have "\<forall>y\<in>set bs. ra_start y \<le> addr" using ab set_takeWhileD[of _ "\<lambda>r. ra_start r \<le> addr" index] by simp
    ultimately have "bs = []" using r by (cases bs) auto
    then show "covering index addr = Some r" using ab r by (simp add: cand)
  qed
qed

lemma sorted_wrt_insort:
  assumes "sorted_wrt R xs" "\<And>y. y \<in> set xs \<Longrightarrow> R x y \<and> R y x"
  shows "sorted_wrt R (insort_key f x xs)"
  using assms by (induction xs) (auto simp: set_insort_key)

lemma sorted_wrt_sort_key:
  assumes "sorted_wrt R xs" "\<And>x y. R x y \<Longrightarrow> R y x"
  shows "sorted_wrt R (sort_key f xs)"
  using assms(1)
proof (induction xs)
  case (Cons x xs)
  then have "R x y \<and> R y x" if "y \<in> set (sort_key f xs)" for y using that assms(2)[of x y] by simp
  moreover have "sorted_wrt R (sort_key f xs)" using Cons by simp
  ultimately have "sorted_wrt R (insort_key f x (sort_key f xs))" by (intro sorted_wrt_insort)
  then show ?case by simp
qed simp

lemma from_sections_sorted:
  assumes "sections_disjoint secs" "\<And>s. s \<in> set secs \<Longrightarrow> sec_base s + sec_size s \<le> USIZE_MAX"
  shows "sorted_wrt (\<lambda>x y. ra_start x \<le> ra_start y \<and> ra_end x \<le> ra_start y) (RegionIndex_from_sections secs)"
proof -
  let ?D = "\<lambda>x y. ra_end x \<le> ra_start y \<or> ra_end y \<le> ra_start x"
  let ?rs = "map range_of (filter (\<lambda>s. sec_size s \<noteq> 0) secs)"
  have idx: "RegionIndex_from_sections secs = sort_key ra_start ?rs"
    by (simp add: RegionIndex_from_sections_def range_of_def[abs_def])
  have "sorted_wrt ?D ?rs"
    unfolding sorted_wrt_map
    by (rule sorted_wrt_filter, rule sorted_wrt_mono_rel[OF _ assms(1)[unfolded sections_disjoint_def]])
      (use assms(2) in \<open>auto simp: range_of_def saturating_add_def min_def\<close>)
  then have d: "sorted_wrt ?D (sort_key ra_start ?rs)" by (rule sorted_wrt_sort_key) blast
  have ne: "ra_start x < ra_end x" if "x \<in> set (sort_key ra_start ?rs)" for x
    using that assms(2) by (auto simp: range_of_def saturating_add_def min_def)
  let ?xs = "sort_key ra_start ?rs"
  have "sorted (map ra_start ?xs)" by simp
  then have s: "ra_start (?xs ! i) \<le> ra_start (?xs ! j)" if "i < j" "j < length ?xs" for i j
    using that sorted_nth_mono[of "map ra_start ?xs" i j] by simp
  show ?thesis unfolding idx sorted_wrt_iff_nth_less
  proof (intro allI impI)
    fix i j assume ij: "i < j" "j < length ?xs"
    then have "?D (?xs ! i) (?xs ! j)" using d unfolding sorted_wrt_iff_nth_less by blast
    with s[OF ij] ne[OF nth_mem[OF ij(2)]]
    show "ra_start (?xs ! i) \<le> ra_start (?xs ! j) \<and> ra_end (?xs ! i) \<le> ra_start (?xs ! j)" by linarith
  qed
qed

lemma classify_sections:
  assumes "sections_disjoint secs" "\<And>s. s \<in> set secs \<Longrightarrow> sec_base s + sec_size s \<le> USIZE_MAX"
  shows "RegionIndex_classify (RegionIndex_from_sections secs) addr =
    (case find (\<lambda>s. sec_base s \<le> addr \<and> addr < sec_base s + sec_size s) secs of
       None \<Rightarrow> Unmapped
     | Some s \<Rightarrow> if Protection_execute (sec_prot s) then Executable (sec_module s) else Data (sec_module s))"
proof -
  let ?P = "\<lambda>s. sec_base s \<le> addr \<and> addr < sec_base s + sec_size s"
  note cov = covering_iff[OF from_sections_sorted[OF assms], of addr]
  have set_idx: "set (RegionIndex_from_sections secs) = range_of ` {s \<in> set secs. sec_size s \<noteq> 0}"
    by (auto simp: RegionIndex_from_sections_def range_of_def)
  have r: "ra_start (range_of s) = sec_base s" "ra_end (range_of s) = sec_base s + sec_size s" if "s \<in> set secs" for s
    using assms(2)[OF that] by (simp_all add: range_of_def saturating_add_def)
  show ?thesis
  proof (cases "find ?P secs")
    case None
    then have "\<not> ?P s" if "s \<in> set secs" for s using that by (auto simp: find_None_iff)
    then have "covering (RegionIndex_from_sections secs) addr \<noteq> Some a" for a
      using cov[of a] r unfolding set_idx by auto
    then have "covering (RegionIndex_from_sections secs) addr = None" by (meson not_Some_eq)
    then show ?thesis using None by (simp add: RegionIndex_classify_def)
  next
    case (Some s)
    then have s: "s \<in> set secs" "?P s" by (auto simp: find_Some_iff)
    then have "covering (RegionIndex_from_sections secs) addr = Some (range_of s)"
      using cov[of "range_of s"] r[OF s(1)] unfolding set_idx by auto
    then show ?thesis using Some by (simp add: RegionIndex_classify_def range_of_def)
  qed
qed

text \<open>
  Over disjoint sections the binary search of the region index gives every address the class of the section
  that covers it: unmapped when there is none, and otherwise executable or data with the section's module.
\<close>

theorem RegionIndex_classify_correct:
  assumes "sections_disjoint secs" "\<And>s. s \<in> set secs \<Longrightarrow> sec_base s + sec_size s \<le> USIZE_MAX"
  shows "RegionIndex_classify (RegionIndex_from_sections secs) addr =
    (case find (\<lambda>s. sec_base s \<le> addr \<and> addr < sec_base s + sec_size s) secs of
       None \<Rightarrow> Unmapped
     | Some s \<Rightarrow> if Protection_execute (sec_prot s) then Executable (sec_module s) else Data (sec_module s))"
  by (rule classify_sections[OF assms])

theorem RegionIndex_classify_correct_witness:
  "RegionIndex_classify (RegionIndex_from_sections
     [\<lparr>sec_base = 8, sec_size = 8, sec_prot = PROT_R, sec_kind = Private, sec_module = None\<rparr>,
      \<lparr>sec_base = 0, sec_size = 4, sec_prot = PROT_X, sec_kind = Image, sec_module = Some ''m''\<rparr>]) 3 = Executable (Some ''m'')"
proof -
  let ?secs = "[\<lparr>sec_base = 8, sec_size = 8, sec_prot = PROT_R, sec_kind = Private, sec_module = None\<rparr>,
       \<lparr>sec_base = 0, sec_size = 4, sec_prot = PROT_X, sec_kind = Image, sec_module = Some ''m''\<rparr>]"
  have "sections_disjoint ?secs" by (simp add: sections_disjoint_def)
  moreover have "sec_base s + sec_size s \<le> USIZE_MAX" if "s \<in> set ?secs" for s
    using that by (auto simp: USIZE_MAX_def)
  ultimately show ?thesis
    by (subst RegionIndex_classify_correct) (simp_all add: Protection_predicates prot_contains_def prot_consts)
qed

section \<open>Facts about pointer classes\<close>

definition code_entry :: "(usize \<Rightarrow> nat \<Rightarrow> core_error + bytes) \<Rightarrow> region_index \<Rightarrow> usize \<Rightarrow> nat \<Rightarrow> bool" where
  "code_entry rd index table i \<longleftrightarrow>
     table + i * 8 \<le> USIZE_MAX
     \<and> (\<exists>bs. rd (table + i * 8) 8 = Inr bs \<and> length bs = 8 \<and> RegionIndex_is_executable index (le_nat bs))"

lemma count_code_from_eq:
  "count_code_from rd index table i =
     (if i < 8 \<and> code_entry rd index table i then Suc (count_code_from rd index table (Suc i)) else 0)"
  by (subst count_code_from.simps)
    (auto simp: code_entry_def checked_add_def MAX_VTABLE_PROBE_def ENTRY_SIZE_def split: sum.splits)

lemma count_code_from_iff:
  "i \<le> 8 \<Longrightarrow> count_code_from rd index table i = n \<longleftrightarrow>
     i + n \<le> 8 \<and> (\<forall>j<n. code_entry rd index table (i + j)) \<and> (i + n < 8 \<longrightarrow> \<not> code_entry rd index table (i + n))"
proof (induction "8 - i" arbitrary: i n)
  case 0
  then have "i = 8" by simp
  then show ?case using count_code_from_eq[of rd index table 8] by auto
next
  case (Suc k)
  then have IH: "count_code_from rd index table (Suc i) = m \<longleftrightarrow>
     Suc i + m \<le> 8 \<and> (\<forall>j<m. code_entry rd index table (Suc i + j)) \<and> (Suc i + m < 8 \<longrightarrow> \<not> code_entry rd index table (Suc i + m))" for m
    by simp
  have "i < 8" using Suc(2) by simp
  note eq = count_code_from_eq[of rd index table i]
  show ?case
  proof (cases n)
    case 0
    then show ?thesis using eq \<open>i < 8\<close> by simp
  next
    case (Suc m)
    have "(\<forall>j<Suc m. code_entry rd index table (i + j)) \<longleftrightarrow>
        code_entry rd index table i \<and> (\<forall>j<m. code_entry rd index table (Suc i + j))"
      unfolding All_less_Suc2 by simp
    then show ?thesis using IH[of m] eq \<open>i < 8\<close> unfolding Suc by simp
  qed
qed

text \<open>
  A word is classified as a vtable pointer with \<open>n\<close> methods exactly when it is an aligned non-null pointer into
  data whose first \<open>n\<close> eight-byte entries can be read and point into executable memory, with \<open>n\<close> between two and
  eight and no further such entry at position \<open>n\<close> unless \<open>n\<close> is eight.
\<close>

theorem classify_value_vtable:
  "classify_value v index rd = VTablePtr n \<longleftrightarrow>
     v \<noteq> 0 \<and> (\<exists>m. RegionIndex_classify index (unat v) = Data m) \<and> unat v mod 8 = 0 \<and> 2 \<le> n \<and> n \<le> 8
     \<and> (\<forall>i<n. code_entry rd index (unat v) i) \<and> (n = 8 \<or> \<not> code_entry rd index (unat v) n)"
proof -
  have "count_leading_code_entries rd index (unat v) = n \<longleftrightarrow>
      n \<le> 8 \<and> (\<forall>i<n. code_entry rd index (unat v) i) \<and> (n = 8 \<or> \<not> code_entry rd index (unat v) n)"
    using count_code_from_iff[of 0 rd index "unat v" n] by (auto simp: count_leading_code_entries_def)
  then show ?thesis
    by (auto simp: classify_value_def Let_def ENTRY_SIZE_def MIN_VTABLE_METHODS_def split: addr_class.splits if_splits)
qed

theorem classify_value_vtable_witness:
  "let index = [\<lparr>ra_start = 1, ra_end = 2, ra_prot = PROT_X, ra_module = None\<rparr>,
       \<lparr>ra_start = 8, ra_end = 32, ra_prot = PROT_R, ra_module = None\<rparr>];
       rd = (\<lambda>a n. Inr (if a < 24 then [1, 0, 0, 0, 0, 0, 0, 0] else []))
   in classify_value 8 index rd = VTablePtr 2"
  by (auto simp: Let_def classify_value_vtable code_entry_def RegionIndex_classify_def covering_def partition_point_def
      RegionIndex_is_executable_def Protection_predicates prot_contains_def prot_consts USIZE_MAX_def less_2_cases_iff)

end
