(* ===== verification/Nodes.thy ===== *)
theory Nodes
  imports Rust_Text
begin

text \<open>
  The node tree of a class (nemclass-model/src/node/mod.rs, builtins.rs, function.rs, vtable.rs, vector.rs,
  class.rs) and the serialisation record of a node (serialize.rs).

  A boxed \<open>dyn Node\<close> is one value of the datatype \<open>node\<close>, with a constructor per struct; the structs that
  hold a name and a comment only share \<open>SimpleNode\<close>. Names, comments and attribute strings are lists of
  code points, type tags and attribute keys are ASCII strings, and a \<open>usize\<close> is a natural number.
  The \<open>uuid\<close> crate is a parameter: a record with the text of a \<open>Uuid\<close> and the parser of such texts.
  Rendering to display text is not modelled.
\<close>

section \<open>Library types\<close>

type_synonym uuid = "128 word"

record uuid_lib =
  uuid_to_string :: "uuid \<Rightarrow> utext"
  uuid_parse :: "utext \<Rightarrow> uuid option"

definition uuid_nil :: uuid where
  "uuid_nil = 0"

text \<open>What the \<open>uuid\<close> crate documents: a printed \<open>Uuid\<close> parses back, and the empty text is no \<open>Uuid\<close>.\<close>

definition uuid_laws :: "uuid_lib \<Rightarrow> bool" where
  "uuid_laws U \<longleftrightarrow> (\<forall>u. uuid_parse U (uuid_to_string U u) = Some u) \<and> uuid_parse U [] = None"

text \<open>The values of a TOML attribute that the code looks at; \<open>TOther\<close> is every other kind of value.\<close>

datatype toml_value = TString utext | TInteger int | TOther

definition as_str :: "toml_value \<Rightarrow> utext option" where
  "as_str v = (case v of TString s \<Rightarrow> Some s | _ \<Rightarrow> None)"

definition as_integer :: "toml_value \<Rightarrow> int option" where
  "as_integer v = (case v of TInteger i \<Rightarrow> Some i | _ \<Rightarrow> None)"

text \<open>\<open>as i64\<close> on a \<open>usize\<close>.\<close>

definition usize_as_i64 :: "usize \<Rightarrow> int" where
  "usize_as_i64 n = (if n < 2 ^ 63 then int n else int n - 2 ^ 64)"

lemma i64_as_usize_of_usize [simp]: "n \<le> USIZE_MAX \<Longrightarrow> i64_as_usize (usize_as_i64 n) = n"
proof -
  assume "n \<le> USIZE_MAX"
  then have "int n < 2 ^ 64" by (simp add: USIZE_MAX_def)
  moreover have "(int n - 2 ^ 64) mod 2 ^ 64 = int n mod 2 ^ 64" by (rule minus_mod_self2)
  ultimately show ?thesis by (simp add: i64_as_usize_def usize_as_i64_def)
qed

section \<open>Vector and matrix shapes\<close>

datatype float_width = F32 | F64

definition FloatWidth_size :: "float_width \<Rightarrow> usize" where
  "FloatWidth_size w = (case w of F32 \<Rightarrow> 4 | F64 \<Rightarrow> 8)"

definition rust_ty :: "float_width \<Rightarrow> string" where
  "rust_ty w = (case w of F32 \<Rightarrow> ''f32'' | F64 \<Rightarrow> ''f64'')"

definition c_ty :: "float_width \<Rightarrow> string" where
  "c_ty w = (case w of F32 \<Rightarrow> ''float'' | F64 \<Rightarrow> ''double'')"

definition VECTOR_SHAPES :: "(string \<times> nat \<times> float_width) list" where
  "VECTOR_SHAPES =
    [(''Vector2'', 2, F32), (''Vector3'', 3, F32), (''Vector4'', 4, F32),
     (''Vector2d'', 2, F64), (''Vector3d'', 3, F64), (''Vector4d'', 4, F64)]"

definition MATRIX_SHAPES :: "(string \<times> nat \<times> nat \<times> float_width) list" where
  "MATRIX_SHAPES =
    [(''Matrix3x3'', 3, 3, F32), (''Matrix3x4'', 3, 4, F32), (''Matrix4x4'', 4, 4, F32),
     (''Matrix3x3d'', 3, 3, F64), (''Matrix3x4d'', 3, 4, F64), (''Matrix4x4d'', 4, 4, F64)]"

definition vector_shape :: "string \<Rightarrow> (nat \<times> float_width) option" where
  "vector_shape tag = map_option snd (find (\<lambda>e. fst e = tag) VECTOR_SHAPES)"

definition matrix_shape :: "string \<Rightarrow> (nat \<times> nat \<times> float_width) option" where
  "matrix_shape tag = map_option snd (find (\<lambda>e. fst e = tag) MATRIX_SHAPES)"

definition vector_tag :: "nat \<Rightarrow> float_width \<Rightarrow> string" where
  "vector_tag components width =
     (case find (\<lambda>e. snd e = (components, width)) VECTOR_SHAPES of
        Some e \<Rightarrow> fst e
      | None \<Rightarrow> (case width of F32 \<Rightarrow> ''Vector3'' | F64 \<Rightarrow> ''Vector3d''))"

definition matrix_tag :: "nat \<Rightarrow> nat \<Rightarrow> float_width \<Rightarrow> string" where
  "matrix_tag rows cols width =
     (case find (\<lambda>e. snd e = (rows, cols, width)) MATRIX_SHAPES of
        Some e \<Rightarrow> fst e
      | None \<Rightarrow> (case width of F32 \<Rightarrow> ''Matrix4x4'' | F64 \<Rightarrow> ''Matrix4x4d''))"

section \<open>Nodes\<close>

datatype simple_kind =
    Int8Node | Int16Node | Int32Node | Int64Node
  | UInt8Node | UInt16Node | UInt32Node | UInt64Node
  | Float32Node | Float64Node | BoolNode
  | Hex8Node | Hex16Node | Hex32Node | Hex64Node
  | StrPtrNode | VMethodNode | FunctionPtrNode

datatype node =
    SimpleNode simple_kind utext utext
  | PointerNode utext utext "uuid option"
  | ClassInstanceNode utext utext uuid
  | ArrayNode utext utext usize usize
  | Utf8TextNode utext utext usize
  | Utf16TextNode utext utext usize
  | VectorNode utext utext nat float_width
  | MatrixNode utext utext nat nat float_width
  | VTableNode utext utext "node list"
  | FunctionNode utext utext utext
  | ClassChild class_node
and class_node = ClassNode (cl_uuid: uuid) (cl_name: utext) (cl_comment: utext) (cl_formula: utext) (cl_children: "node list")

fun simple_tag :: "simple_kind \<Rightarrow> string" where
  "simple_tag Int8Node = ''Int8''"
| "simple_tag Int16Node = ''Int16''"
| "simple_tag Int32Node = ''Int32''"
| "simple_tag Int64Node = ''Int64''"
| "simple_tag UInt8Node = ''UInt8''"
| "simple_tag UInt16Node = ''UInt16''"
| "simple_tag UInt32Node = ''UInt32''"
| "simple_tag UInt64Node = ''UInt64''"
| "simple_tag Float32Node = ''Float''"
| "simple_tag Float64Node = ''Double''"
| "simple_tag BoolNode = ''Bool''"
| "simple_tag Hex8Node = ''Hex8''"
| "simple_tag Hex16Node = ''Hex16''"
| "simple_tag Hex32Node = ''Hex32''"
| "simple_tag Hex64Node = ''Hex64''"
| "simple_tag StrPtrNode = ''StrPtr''"
| "simple_tag VMethodNode = ''VMethod''"
| "simple_tag FunctionPtrNode = ''FunctionPtr''"

fun simple_size :: "simple_kind \<Rightarrow> usize" where
  "simple_size Int8Node = 1"
| "simple_size Int16Node = 2"
| "simple_size Int32Node = 4"
| "simple_size Int64Node = 8"
| "simple_size UInt8Node = 1"
| "simple_size UInt16Node = 2"
| "simple_size UInt32Node = 4"
| "simple_size UInt64Node = 8"
| "simple_size Float32Node = 4"
| "simple_size Float64Node = 8"
| "simple_size BoolNode = 1"
| "simple_size Hex8Node = 1"
| "simple_size Hex16Node = 2"
| "simple_size Hex32Node = 4"
| "simple_size Hex64Node = 8"
| "simple_size StrPtrNode = 8"
| "simple_size VMethodNode = 8"
| "simple_size FunctionPtrNode = 8"

definition VectorNode_new :: "utext \<Rightarrow> nat \<Rightarrow> float_width \<Rightarrow> node" where
  "VectorNode_new name components width = VectorNode name [] (max 2 (min components 4)) width"

definition MatrixNode_new :: "utext \<Rightarrow> nat \<Rightarrow> nat \<Rightarrow> float_width \<Rightarrow> node" where
  "MatrixNode_new name rows cols width =
     (let (rows, cols) = (if (rows, cols) \<in> {(3, 3), (3, 4), (4, 4)} then (rows, cols) else (4, 4))
      in MatrixNode name [] rows cols width)"

definition FunctionNode_new :: "utext \<Rightarrow> node" where
  "FunctionNode_new name = FunctionNode name [] (codes ''void Func()'')"

definition ClassNode_with_uuid :: "uuid \<Rightarrow> utext \<Rightarrow> class_node" where
  "ClassNode_with_uuid uuid name = ClassNode uuid name [] [] []"

fun type_tag :: "node \<Rightarrow> string" where
  "type_tag (SimpleNode k n c) = simple_tag k"
| "type_tag (PointerNode n c t) = ''Pointer''"
| "type_tag (ClassInstanceNode n c u) = ''ClassInstance''"
| "type_tag (ArrayNode n c k e) = ''Array''"
| "type_tag (Utf8TextNode n c l) = ''Utf8Text''"
| "type_tag (Utf16TextNode n c l) = ''Utf16Text''"
| "type_tag (VectorNode n c k w) = vector_tag k w"
| "type_tag (MatrixNode n c r k w) = matrix_tag r k w"
| "type_tag (VTableNode n c ch) = ''VTable''"
| "type_tag (FunctionNode n c s) = ''Function''"
| "type_tag (ClassChild cl) = ''Class''"

fun node_name :: "node \<Rightarrow> utext" where
  "node_name (SimpleNode k n c) = n"
| "node_name (PointerNode n c t) = n"
| "node_name (ClassInstanceNode n c u) = n"
| "node_name (ArrayNode n c k e) = n"
| "node_name (Utf8TextNode n c l) = n"
| "node_name (Utf16TextNode n c l) = n"
| "node_name (VectorNode n c k w) = n"
| "node_name (MatrixNode n c r k w) = n"
| "node_name (VTableNode n c ch) = n"
| "node_name (FunctionNode n c s) = n"
| "node_name (ClassChild cl) = cl_name cl"

fun node_comment :: "node \<Rightarrow> utext" where
  "node_comment (SimpleNode k n c) = c"
| "node_comment (PointerNode n c t) = c"
| "node_comment (ClassInstanceNode n c u) = c"
| "node_comment (ArrayNode n c k e) = c"
| "node_comment (Utf8TextNode n c l) = c"
| "node_comment (Utf16TextNode n c l) = c"
| "node_comment (VectorNode n c k w) = c"
| "node_comment (MatrixNode n c r k w) = c"
| "node_comment (VTableNode n c ch) = c"
| "node_comment (FunctionNode n c s) = c"
| "node_comment (ClassChild cl) = cl_comment cl"

fun set_comment :: "utext \<Rightarrow> node \<Rightarrow> node" where
  "set_comment c' (SimpleNode k n c) = SimpleNode k n c'"
| "set_comment c' (PointerNode n c t) = PointerNode n c' t"
| "set_comment c' (ClassInstanceNode n c u) = ClassInstanceNode n c' u"
| "set_comment c' (ArrayNode n c k e) = ArrayNode n c' k e"
| "set_comment c' (Utf8TextNode n c l) = Utf8TextNode n c' l"
| "set_comment c' (Utf16TextNode n c l) = Utf16TextNode n c' l"
| "set_comment c' (VectorNode n c k w) = VectorNode n c' k w"
| "set_comment c' (MatrixNode n c r k w) = MatrixNode n c' r k w"
| "set_comment c' (VTableNode n c ch) = VTableNode n c' ch"
| "set_comment c' (FunctionNode n c s) = FunctionNode n c' s"
| "set_comment c' (ClassChild cl) = ClassChild (ClassNode (cl_uuid cl) (cl_name cl) c' (cl_formula cl) (cl_children cl))"

fun set_name :: "utext \<Rightarrow> node \<Rightarrow> node" where
  "set_name n' (SimpleNode k n c) = SimpleNode k n' c"
| "set_name n' (PointerNode n c t) = PointerNode n' c t"
| "set_name n' (ClassInstanceNode n c u) = ClassInstanceNode n' c u"
| "set_name n' (ArrayNode n c k e) = ArrayNode n' c k e"
| "set_name n' (Utf8TextNode n c l) = Utf8TextNode n' c l"
| "set_name n' (Utf16TextNode n c l) = Utf16TextNode n' c l"
| "set_name n' (VectorNode n c k w) = VectorNode n' c k w"
| "set_name n' (MatrixNode n c r k w) = MatrixNode n' c r k w"
| "set_name n' (VTableNode n c ch) = VTableNode n' c ch"
| "set_name n' (FunctionNode n c s) = FunctionNode n' c s"
| "set_name n' (ClassChild cl) = ClassChild (ClassNode (cl_uuid cl) n' (cl_comment cl) (cl_formula cl) (cl_children cl))"

fun node_children :: "node \<Rightarrow> node list" where
  "node_children (VTableNode n c ch) = ch"
| "node_children (ClassChild cl) = cl_children cl"
| "node_children _ = []"

definition pointer_target_class :: "node \<Rightarrow> uuid option" where
  "pointer_target_class n = (case n of PointerNode _ _ t \<Rightarrow> t | _ \<Rightarrow> None)"

definition set_pointer_target :: "uuid \<Rightarrow> node \<Rightarrow> bool \<times> node" where
  "set_pointer_target target n = (case n of PointerNode name c _ \<Rightarrow> (True, PointerNode name c (Some target)) | _ \<Rightarrow> (False, n))"

lemma size_children [termination_simp]: "m \<in> set (node_children n) \<Longrightarrow> size m < size n"
proof (cases n)
  case (ClassChild cl)
  assume "m \<in> set (node_children n)"
  with ClassChild show ?thesis by (cases cl) (auto dest: size_list_estimation'[where f = size, OF _ order_refl])
qed (auto dest: size_list_estimation'[where f = size, OF _ order_refl])

definition ArrayNode_memory_size :: "usize \<Rightarrow> usize \<Rightarrow> usize" where
  [simp]: "ArrayNode_memory_size cnt element_size = saturating_mul cnt element_size"

definition VectorNode_memory_size :: "nat \<Rightarrow> float_width \<Rightarrow> usize" where
  [simp]: "VectorNode_memory_size components width = components * FloatWidth_size width"

definition MatrixNode_memory_size :: "nat \<Rightarrow> nat \<Rightarrow> float_width \<Rightarrow> usize" where
  [simp]: "MatrixNode_memory_size rows cols width = rows * cols * FloatWidth_size width"

fun memory_size :: "node \<Rightarrow> usize"
and ClassNode_memory_size :: "class_node \<Rightarrow> usize" where
  "memory_size (SimpleNode k n c) = simple_size k"
| "memory_size (PointerNode n c t) = 8"
| "memory_size (ClassInstanceNode n c u) = 0"
| "memory_size (ArrayNode n c k e) = ArrayNode_memory_size k e"
| "memory_size (Utf8TextNode n c l) = l"
| "memory_size (Utf16TextNode n c l) = l"
| "memory_size (VectorNode n c k w) = VectorNode_memory_size k w"
| "memory_size (MatrixNode n c r k w) = MatrixNode_memory_size r k w"
| "memory_size (VTableNode n c ch) = 8"
| "memory_size (FunctionNode n c s) = 8"
| "memory_size (ClassChild cl) = ClassNode_memory_size cl"
| "ClassNode_memory_size (ClassNode u n c a ch) = foldl saturating_add 0 (map memory_size ch)"

section \<open>Serialisation record\<close>

datatype node_def = NodeDef (nd_type_tag: string) (nd_name: utext) (nd_comment: utext)
  (nd_attrs: "string \<rightharpoonup> toml_value") (nd_nodes: "node_def list")

definition simple_def :: "string \<Rightarrow> utext \<Rightarrow> utext \<Rightarrow> node_def" where
  "simple_def tag name comment = NodeDef tag name comment Map.empty []"

definition PointerNode_to_node_def :: "uuid_lib \<Rightarrow> utext \<Rightarrow> utext \<Rightarrow> uuid option \<Rightarrow> node_def" where
  [simp]: "PointerNode_to_node_def U name comment target =
     NodeDef ''Pointer'' name comment
       (case target of None \<Rightarrow> Map.empty | Some u \<Rightarrow> [''target_class_uuid'' \<mapsto> TString (uuid_to_string U u)]) []"

definition ClassInstanceNode_to_node_def :: "uuid_lib \<Rightarrow> utext \<Rightarrow> utext \<Rightarrow> uuid \<Rightarrow> node_def" where
  [simp]: "ClassInstanceNode_to_node_def U name comment class_uuid =
     NodeDef ''ClassInstance'' name comment [''class_uuid'' \<mapsto> TString (uuid_to_string U class_uuid)] []"

definition ArrayNode_to_node_def :: "utext \<Rightarrow> utext \<Rightarrow> usize \<Rightarrow> usize \<Rightarrow> node_def" where
  [simp]: "ArrayNode_to_node_def name comment cnt element_size =
     NodeDef ''Array'' name comment
       [''count'' \<mapsto> TInteger (usize_as_i64 cnt), ''element_size'' \<mapsto> TInteger (usize_as_i64 element_size)] []"

definition Utf8TextNode_to_node_def :: "utext \<Rightarrow> utext \<Rightarrow> usize \<Rightarrow> node_def" where
  [simp]: "Utf8TextNode_to_node_def name comment len =
     NodeDef ''Utf8Text'' name comment [''length'' \<mapsto> TInteger (usize_as_i64 len)] []"

definition Utf16TextNode_to_node_def :: "utext \<Rightarrow> utext \<Rightarrow> usize \<Rightarrow> node_def" where
  [simp]: "Utf16TextNode_to_node_def name comment len =
     NodeDef ''Utf16Text'' name comment [''length'' \<mapsto> TInteger (usize_as_i64 len)] []"

definition VectorNode_to_node_def :: "utext \<Rightarrow> utext \<Rightarrow> nat \<Rightarrow> float_width \<Rightarrow> node_def" where
  [simp]: "VectorNode_to_node_def name comment components width =
     NodeDef (vector_tag components width) name comment Map.empty []"

definition MatrixNode_to_node_def :: "utext \<Rightarrow> utext \<Rightarrow> nat \<Rightarrow> nat \<Rightarrow> float_width \<Rightarrow> node_def" where
  [simp]: "MatrixNode_to_node_def name comment rows cols width =
     NodeDef (matrix_tag rows cols width) name comment Map.empty []"

definition VTableNode_to_node_def :: "utext \<Rightarrow> utext \<Rightarrow> node_def" where
  [simp]: "VTableNode_to_node_def name comment = NodeDef ''VTable'' name comment Map.empty []"

definition FunctionNode_to_node_def :: "utext \<Rightarrow> utext \<Rightarrow> utext \<Rightarrow> node_def" where
  [simp]: "FunctionNode_to_node_def name comment signature =
     NodeDef ''Function'' name comment [''signature'' \<mapsto> TString signature] []"

definition ClassNode_to_node_def :: "uuid_lib \<Rightarrow> class_node \<Rightarrow> node_def" where
  [simp]: "ClassNode_to_node_def U cl =
     NodeDef ''Class'' (cl_name cl) (cl_comment cl)
       [''uuid'' \<mapsto> TString (uuid_to_string U (cl_uuid cl)), ''address_formula'' \<mapsto> TString (cl_formula cl)] []"

fun to_node_def :: "uuid_lib \<Rightarrow> node \<Rightarrow> node_def" where
  "to_node_def U (SimpleNode k n c) = simple_def (simple_tag k) n c"
| "to_node_def U (PointerNode n c t) = PointerNode_to_node_def U n c t"
| "to_node_def U (ClassInstanceNode n c u) = ClassInstanceNode_to_node_def U n c u"
| "to_node_def U (ArrayNode n c k e) = ArrayNode_to_node_def n c k e"
| "to_node_def U (Utf8TextNode n c l) = Utf8TextNode_to_node_def n c l"
| "to_node_def U (Utf16TextNode n c l) = Utf16TextNode_to_node_def n c l"
| "to_node_def U (VectorNode n c k w) = VectorNode_to_node_def n c k w"
| "to_node_def U (MatrixNode n c r k w) = MatrixNode_to_node_def n c r k w"
| "to_node_def U (VTableNode n c ch) = VTableNode_to_node_def n c"
| "to_node_def U (FunctionNode n c s) = FunctionNode_to_node_def n c s"
| "to_node_def U (ClassChild cl) = ClassNode_to_node_def U cl"

section \<open>References to a class\<close>

text \<open>The test of one child in the loop of \<open>children_reference_class\<close>.\<close>

definition attr_is :: "node_def \<Rightarrow> string \<Rightarrow> utext \<Rightarrow> bool" where
  "attr_is d key target_str =
     (case Option.bind (nd_attrs d key) as_str of Some s \<Rightarrow> s = target_str | None \<Rightarrow> False)"

function (sequential) children_reference_class :: "uuid_lib \<Rightarrow> node list \<Rightarrow> uuid \<Rightarrow> bool" where
  "children_reference_class U [] target = False"
| "children_reference_class U (child # rest) target =
     (let target_str = uuid_to_string U target; d = to_node_def U child
      in if nd_type_tag d = ''ClassInstance'' \<and> attr_is d ''class_uuid'' target_str then True
         else if nd_type_tag d = ''Pointer'' \<and> attr_is d ''target_class_uuid'' target_str then True
         else if children_reference_class U (node_children child) target then True
         else children_reference_class U rest target)"
  by pat_completeness auto

lemma size_list_children [termination_simp]: "size_list size (node_children n) < Suc (size n + k)"
proof (cases n)
  case (ClassChild cl)
  then show ?thesis by (cases cl) simp
qed simp_all

termination children_reference_class
  by (relation "measure (\<lambda>(U, ns, t). size_list size ns)") (auto simp: termination_simp)

definition references_class :: "uuid_lib \<Rightarrow> class_node \<Rightarrow> uuid \<Rightarrow> bool" where
  "references_class U cl target = children_reference_class U (cl_children cl) target"

section \<open>Well-formed nodes\<close>

text \<open>
  What the constructors establish and every field's type gives: sizes are machine words, and a vector or matrix
  has one of the shapes with a type tag of its own.
\<close>

definition node_fields_wf :: "node \<Rightarrow> bool" where
  "node_fields_wf n =
     (case n of
        ArrayNode _ _ k e \<Rightarrow> k \<le> USIZE_MAX \<and> e \<le> USIZE_MAX
      | Utf8TextNode _ _ l \<Rightarrow> l \<le> USIZE_MAX
      | Utf16TextNode _ _ l \<Rightarrow> l \<le> USIZE_MAX
      | VectorNode _ _ k w \<Rightarrow> k \<in> {2, 3, 4}
      | MatrixNode _ _ r k w \<Rightarrow> (r, k) \<in> {(3, 3), (3, 4), (4, 4)}
      | _ \<Rightarrow> True)"

fun node_wf :: "node \<Rightarrow> bool" where
  "node_wf n \<longleftrightarrow> node_fields_wf n \<and> (\<forall>m\<in>set (node_children n). node_wf m)"

declare node_wf.simps [simp del]

lemma node_wf_fields: "node_wf n \<Longrightarrow> node_fields_wf n"
  by (subst (asm) node_wf.simps) simp

lemma node_wf_child: "node_wf n \<Longrightarrow> m \<in> set (node_children n) \<Longrightarrow> node_wf m"
  by (subst (asm) node_wf.simps) simp

fun node_depth :: "node \<Rightarrow> nat" where
  "node_depth n = Suc (Max (insert 0 (set (map node_depth (node_children n)))))"

declare node_depth.simps [simp del]

lemma node_children_induct [case_names node]:
  assumes "\<And>n. (\<And>m. m \<in> set (node_children n) \<Longrightarrow> P m) \<Longrightarrow> P n"
  shows "P n"
  using assms by (induction n rule: measure_induct_rule[where f = size]) (blast intro: size_children)

lemma vector_shape_tag [simp]: "k \<in> {2, 3, 4} \<Longrightarrow> vector_shape (vector_tag k w) = Some (k, w)"
  by (cases w) (auto simp: vector_tag_def vector_shape_def VECTOR_SHAPES_def)

lemma matrix_shape_tag [simp]:
  "(r, k) \<in> {(3, 3), (3, 4), (4, 4)} \<Longrightarrow> matrix_shape (matrix_tag r k w) = Some (r, k, w)"
  by (cases w) (auto simp: matrix_tag_def matrix_shape_def MATRIX_SHAPES_def)

lemma to_node_def_own [simp]:
  "nd_type_tag (to_node_def U n) = type_tag n" "nd_name (to_node_def U n) = node_name n"
  "nd_comment (to_node_def U n) = node_comment n" "nd_nodes (to_node_def U n) = []"
  by (cases n; simp add: simple_def_def)+

lemma saturating_add_le [simp]: "saturating_add a b \<le> USIZE_MAX"
  by (simp add: saturating_add_def)

lemma foldl_saturating_add: "a \<le> USIZE_MAX \<Longrightarrow> foldl saturating_add a xs = min (a + sum_list xs) USIZE_MAX"
  by (induction xs arbitrary: a) (auto simp: saturating_add_def min_def)

lemma memory_size_class: "ClassNode_memory_size cl = min (\<Sum>n\<leftarrow>cl_children cl. memory_size n) USIZE_MAX"
  by (cases cl) (simp add: foldl_saturating_add)

lemma small_le_USIZE_MAX: "n \<le> 128 \<Longrightarrow> n \<le> USIZE_MAX"
  by (simp add: USIZE_MAX_def)

lemma memory_size_bounded: "node_wf n \<Longrightarrow> memory_size n \<le> USIZE_MAX"
proof -
  assume "node_wf n"
  then have "node_fields_wf n" by (rule node_wf_fields)
  then show ?thesis
  proof (cases n)
    case (SimpleNode k a b)
    then show ?thesis by (cases k) (simp_all add: small_le_USIZE_MAX)
  next
    case (VectorNode a b k w)
    with \<open>node_fields_wf n\<close> show ?thesis by (cases w) (auto simp: node_fields_wf_def FloatWidth_size_def small_le_USIZE_MAX)
  next
    case (MatrixNode a b r k w)
    with \<open>node_fields_wf n\<close> show ?thesis by (cases w) (auto simp: node_fields_wf_def FloatWidth_size_def small_le_USIZE_MAX)
  qed (simp_all add: node_fields_wf_def saturating_mul_def memory_size_class small_le_USIZE_MAX)
qed

section \<open>What counts as a reference\<close>

inductive subnode :: "node \<Rightarrow> node \<Rightarrow> bool" where
  subnode_self: "subnode n n"
| subnode_child: "c \<in> set (node_children n) \<Longrightarrow> subnode m c \<Longrightarrow> subnode m n"

definition refers :: "node \<Rightarrow> uuid \<Rightarrow> bool" where
  "refers n u = (case n of PointerNode _ _ t \<Rightarrow> t = Some u | ClassInstanceNode _ _ v \<Rightarrow> v = u | _ \<Rightarrow> False)"

lemma subnode_unfold: "subnode m n \<longleftrightarrow> m = n \<or> (\<exists>c\<in>set (node_children n). subnode m c)"
  by (auto intro: subnode.intros elim: subnode.cases)

lemma uuid_to_string_inj: "uuid_laws U \<Longrightarrow> uuid_to_string U u = uuid_to_string U v \<longleftrightarrow> u = v"
  unfolding uuid_laws_def by (metis option.inject)

lemma simple_tag_plain [simp]:
  "simple_tag k \<noteq> ''ClassInstance''" "simple_tag k \<noteq> ''Pointer''"
  by (cases k; simp)+

lemma vector_tag_cases: "vector_tag k w \<in> fst ` set VECTOR_SHAPES"
  by (cases w) (auto simp: vector_tag_def VECTOR_SHAPES_def)

lemma matrix_tag_cases: "matrix_tag r k w \<in> fst ` set MATRIX_SHAPES"
  by (cases w) (auto simp: matrix_tag_def MATRIX_SHAPES_def)

lemma shape_tag_plain [simp]:
  "vector_tag k w \<noteq> ''ClassInstance''" "vector_tag k w \<noteq> ''Pointer''"
  "matrix_tag r k w \<noteq> ''ClassInstance''" "matrix_tag r k w \<noteq> ''Pointer''"
  using vector_tag_cases[of k w] matrix_tag_cases[of r k w] by (auto simp: VECTOR_SHAPES_def MATRIX_SHAPES_def)

lemma child_test_refers:
  assumes "uuid_laws U"
  shows "(type_tag n = ''ClassInstance'' \<and> attr_is (to_node_def U n) ''class_uuid'' (uuid_to_string U u)
      \<or> type_tag n = ''Pointer'' \<and> attr_is (to_node_def U n) ''target_class_uuid'' (uuid_to_string U u))
     \<longleftrightarrow> refers n u"
  by (cases n) (auto simp: refers_def attr_is_def as_str_def uuid_to_string_inj[OF assms] split: option.splits)

lemma children_reference_class_unfold:
  assumes "uuid_laws U"
  shows "children_reference_class U ns u \<longleftrightarrow> (\<exists>c\<in>set ns. refers c u \<or> children_reference_class U (node_children c) u)"
proof (induction ns)
  case (Cons c ns)
  show ?case using child_test_refers[OF assms, of c u] by (auto simp: Let_def Cons)
qed simp

lemma references_class_iff:
  assumes "uuid_laws U"
  shows "references_class U cl u \<longleftrightarrow> (\<exists>c\<in>set (cl_children cl). \<exists>m. subnode m c \<and> refers m u)"
proof -
  have "children_reference_class U (node_children n) u \<longleftrightarrow> (\<exists>c\<in>set (node_children n). \<exists>m. subnode m c \<and> refers m u)" for n
  proof (induction n rule: node_children_induct)
    case (node n)
    show ?case
      unfolding children_reference_class_unfold[OF assms, of "node_children n"]
      using node subnode_unfold by (metis (no_types, lifting))
  qed
  from this[of "ClassChild cl"] show ?thesis by (simp add: references_class_def)
qed

text \<open>
  The reference search of a class finds exactly the pointers to the class and the inline instances of it, at
  any depth of the node tree.
\<close>

theorem references_class_correct:
  assumes "uuid_laws U"
  shows "references_class U cl u \<longleftrightarrow> (\<exists>c\<in>set (cl_children cl). \<exists>m. subnode m c \<and> refers m u)"
  by (rule references_class_iff[OF assms])

text \<open>A concrete library for the examples: identifiers written in plain hexadecimal.\<close>

definition hex_uuid :: uuid_lib where
  "hex_uuid = \<lparr>uuid_to_string = \<lambda>u. codes (format_hex (unat u)),
     uuid_parse = \<lambda>s. if s = [] then None else map_option of_nat (digits_value 16 s 0)\<rparr>"

lemma hex_uuid_laws: "uuid_laws hex_uuid"
proof -
  have "codes (format_hex n) \<noteq> []" for n by (simp add: codes_def format_hex_def)
  then show ?thesis by (simp add: uuid_laws_def hex_uuid_def digits_value_format)
qed

theorem references_class_correct_witness:
  "references_class hex_uuid (ClassNode 1 [] [] [] [VTableNode [] [] [PointerNode [] [] (Some 7)]]) 7
   \<and> \<not> references_class hex_uuid (ClassNode 1 [] [] [] [ArrayNode [] [] 2 4]) 7"
proof -
  have a: "subnode (PointerNode [] [] (Some 7)) (VTableNode [] [] [PointerNode [] [] (Some 7)])"
    by (rule subnode_child[where c = "PointerNode [] [] (Some 7)"]) (simp_all add: subnode_self)
  have b: "subnode m (ArrayNode [] [] 2 4) \<longleftrightarrow> m = ArrayNode [] [] 2 4" for m
    by (simp add: subnode_unfold[of m "ArrayNode [] [] 2 4"])
  show ?thesis
    unfolding references_class_correct[OF hex_uuid_laws] using a by (auto simp: refers_def b)
qed

end
