(* ===== verification/Registry.thy ===== *)
theory Registry
  imports Nodes
begin

text \<open>
  The node registry (nemclass-model/src/node/registry.rs): recursive serialisation of a node tree, the depth
  check on untrusted input and deserialisation by type tag.

  An entry of the registry, a pair of function pointers in the code, is a value of \<open>registry_entry\<close>; what the
  two functions do is given by \<open>entry_ctor\<close> and \<open>deserialize_node_inner\<close>. \<open>Uuid::new_v4\<close> is a parameter:
  the sequence of identifiers it returns, with the number of those already drawn passed along.
\<close>

section \<open>Errors\<close>

text \<open>\<open>ModelError\<close>; the texts of the messages are the constructors of their causes.\<close>

datatype deserialize_cause = BadClassNodeUuid utext | BadClassUuid utext | TomlMessage utext

datatype model_error =
    ClassReferenced utext usize
  | ClassNotFound uuid
  | ParseError utext
  | ResolveError utext
  | SerializeError utext
  | DeserializeError deserialize_cause
  | UnknownNodeType string
  | CycleDetected
  | BufferTooSmall usize usize usize
  | MaxDepthExceeded usize

section \<open>Depth check\<close>

definition MAX_NODE_DEPTH :: usize where
  "MAX_NODE_DEPTH = 128"

text \<open>The explicit stack: its head is the end of the vector, so children are pushed in reverse.\<close>

function depth_loop :: "(node_def \<times> usize) list \<Rightarrow> model_error + unit" where
  "depth_loop [] = Inr ()"
| "depth_loop ((d, depth) # stack) =
     (if depth > MAX_NODE_DEPTH then Inl (MaxDepthExceeded MAX_NODE_DEPTH)
      else depth_loop (rev (map (\<lambda>child. (child, depth + 1)) (nd_nodes d)) @ stack))"
  by pat_completeness auto

lemma sum_size_nodes: "(\<Sum>c\<leftarrow>nd_nodes d. size c) < size (d :: node_def)"
proof (cases d)
  case (NodeDef t n c a ns)
  have "(\<Sum>x\<leftarrow>ns. size x) \<le> size_list size ns" by (induction ns) auto
  with NodeDef show ?thesis by simp
qed

termination depth_loop
proof (relation "measure (\<lambda>st. \<Sum>x\<leftarrow>st. size (fst x))")
  show "((rev (map (\<lambda>child. (child, depth + 1)) (nd_nodes d)) @ stack), ((d, depth) # stack))
      \<in> measure (\<lambda>st. \<Sum>x\<leftarrow>st. size (fst x))" for d :: node_def and depth stack
    using sum_size_nodes[of d] by (simp add: rev_map sum_list_rev[of "map size (nd_nodes d)", symmetric] o_def)
qed simp

definition check_node_depth :: "node_def \<Rightarrow> model_error + unit" where
  "check_node_depth d = depth_loop [(d, 1)]"

section \<open>The registry\<close>

datatype registry_entry =
    SimpleEntry simple_kind
  | PointerEntry
  | ClassInstanceEntry
  | ArrayEntry
  | Utf8TextEntry
  | Utf16TextEntry
  | VectorEntry nat float_width
  | MatrixEntry nat nat float_width
  | VTableEntry
  | FunctionEntry
  | ClassEntry

type_synonym registry = "string \<rightharpoonup> registry_entry"

definition NodeRegistry_new :: registry where
  "NodeRegistry_new = Map.empty"

definition register :: "string \<Rightarrow> registry_entry \<Rightarrow> registry \<Rightarrow> registry" where
  "register tag e reg = reg(tag \<mapsto> e)"

text \<open>The registrations of \<open>register_builtins\<close>, in its order.\<close>

definition simple_entries :: "(string \<times> registry_entry) list" where
  "simple_entries =
    map (\<lambda>k. (simple_tag k, SimpleEntry k))
      [Int8Node, Int16Node, Int32Node, Int64Node, UInt8Node, UInt16Node, UInt32Node, UInt64Node,
       Float32Node, Float64Node, BoolNode, Hex8Node, Hex16Node, Hex32Node, Hex64Node]"

definition shape_entries :: "(string \<times> registry_entry) list" where
  "shape_entries =
    [(''StrPtr'', SimpleEntry StrPtrNode),
     (''Vector2'', VectorEntry 2 F32), (''Vector3'', VectorEntry 3 F32), (''Vector4'', VectorEntry 4 F32),
     (''Vector2d'', VectorEntry 2 F64), (''Vector3d'', VectorEntry 3 F64), (''Vector4d'', VectorEntry 4 F64),
     (''Matrix3x3'', MatrixEntry 3 3 F32), (''Matrix3x4'', MatrixEntry 3 4 F32), (''Matrix4x4'', MatrixEntry 4 4 F32),
     (''Matrix3x3d'', MatrixEntry 3 3 F64), (''Matrix3x4d'', MatrixEntry 3 4 F64), (''Matrix4x4d'', MatrixEntry 4 4 F64)]"

definition builtin_entries :: "(string \<times> registry_entry) list" where
  "builtin_entries = simple_entries
    @ [(''Pointer'', PointerEntry), (''ClassInstance'', ClassInstanceEntry), (''Array'', ArrayEntry),
       (''Utf8Text'', Utf8TextEntry), (''Utf16Text'', Utf16TextEntry)]
    @ shape_entries
    @ [(''VTable'', VTableEntry), (''VMethod'', SimpleEntry VMethodNode), (''Function'', FunctionEntry),
       (''FunctionPtr'', SimpleEntry FunctionPtrNode), (''Class'', ClassEntry)]"

lemmas entry_lists = builtin_entries_def simple_entries_def shape_entries_def

definition register_builtins :: "registry \<Rightarrow> registry" where
  "register_builtins reg = foldl (\<lambda>r (tag, e). register tag e r) reg builtin_entries"

definition builtins :: registry where
  "builtins = register_builtins NodeRegistry_new"

text \<open>The constructor half of an entry, with the identifier a new class draws.\<close>

fun entry_ctor :: "uuid \<Rightarrow> registry_entry \<Rightarrow> node" where
  "entry_ctor new_v4 (SimpleEntry k) = SimpleNode k [] []"
| "entry_ctor new_v4 PointerEntry = PointerNode [] [] None"
| "entry_ctor new_v4 ClassInstanceEntry = ClassInstanceNode [] [] uuid_nil"
| "entry_ctor new_v4 ArrayEntry = ArrayNode [] [] 0 1"
| "entry_ctor new_v4 Utf8TextEntry = Utf8TextNode [] [] 64"
| "entry_ctor new_v4 Utf16TextEntry = Utf16TextNode [] [] 64"
| "entry_ctor new_v4 (VectorEntry k w) = VectorNode_new [] k w"
| "entry_ctor new_v4 (MatrixEntry r k w) = MatrixNode_new [] r k w"
| "entry_ctor new_v4 VTableEntry = VTableNode [] [] []"
| "entry_ctor new_v4 FunctionEntry = FunctionNode_new []"
| "entry_ctor new_v4 ClassEntry = ClassChild (ClassNode_with_uuid new_v4 [])"

definition construct :: "uuid \<Rightarrow> registry \<Rightarrow> string \<Rightarrow> node option" where
  "construct new_v4 reg tag = map_option (entry_ctor new_v4) (reg tag)"

section \<open>Serialisation\<close>

function serialize_node_recursive :: "uuid_lib \<Rightarrow> node \<Rightarrow> node_def" where
  "serialize_node_recursive U n =
     (case to_node_def U n of NodeDef t name c attrs nodes \<Rightarrow>
        NodeDef t name c attrs (nodes @ map (serialize_node_recursive U) (node_children n)))"
  by pat_completeness auto

termination serialize_node_recursive
  by (relation "measure (\<lambda>(U, n). size n)") (simp_all add: size_children)

declare serialize_node_recursive.simps [simp del]

section \<open>Deserialisation\<close>

definition attr_usize :: "node_def \<Rightarrow> string \<Rightarrow> usize \<Rightarrow> usize" where
  "attr_usize d key dflt = (case nd_attrs d key of Some (TInteger i) \<Rightarrow> i64_as_usize i | _ \<Rightarrow> dflt)"

definition attr_text :: "node_def \<Rightarrow> string \<Rightarrow> utext \<Rightarrow> utext" where
  "attr_text d key dflt = (case nd_attrs d key of Some (TString s) \<Rightarrow> s | _ \<Rightarrow> dflt)"

definition de_pointer :: "uuid_lib \<Rightarrow> node_def \<Rightarrow> node" where
  "de_pointer U d = PointerNode (nd_name d) (nd_comment d)
     (case nd_attrs d ''target_class_uuid'' of Some (TString s) \<Rightarrow> uuid_parse U s | _ \<Rightarrow> None)"

definition de_class_instance :: "uuid_lib \<Rightarrow> node_def \<Rightarrow> node" where
  "de_class_instance U d = ClassInstanceNode (nd_name d) (nd_comment d)
     (case uuid_parse U (attr_text d ''class_uuid'' []) of Some u \<Rightarrow> u | None \<Rightarrow> uuid_nil)"

definition de_array :: "node_def \<Rightarrow> node" where
  "de_array d = ArrayNode (nd_name d) (nd_comment d) (attr_usize d ''count'' 0) (attr_usize d ''element_size'' 1)"

definition de_utf8_text :: "node_def \<Rightarrow> node" where
  "de_utf8_text d = Utf8TextNode (nd_name d) (nd_comment d) (attr_usize d ''length'' 64)"

definition de_utf16_text :: "node_def \<Rightarrow> node" where
  "de_utf16_text d = Utf16TextNode (nd_name d) (nd_comment d) (attr_usize d ''length'' 64)"

definition de_function :: "node_def \<Rightarrow> node" where
  "de_function d = FunctionNode (nd_name d) (nd_comment d) (attr_text d ''signature'' (codes ''void Func()''))"

text \<open>The identifier of a class node: a new one when the attribute is absent or empty, an error when it is malformed.\<close>

definition de_class_uuid :: "uuid_lib \<Rightarrow> (nat \<Rightarrow> uuid) \<Rightarrow> node_def \<Rightarrow> nat \<Rightarrow> (model_error + uuid) \<times> nat" where
  "de_class_uuid U new_v4 d drawn =
     (let uuid_str = attr_text d ''uuid'' []
      in if uuid_str = [] then (Inr (new_v4 drawn), drawn + 1)
         else case uuid_parse U uuid_str of
           Some u \<Rightarrow> (Inr u, drawn)
         | None \<Rightarrow> (Inl (DeserializeError (BadClassNodeUuid uuid_str)), drawn))"

fun deserialize_node_inner :: "uuid_lib \<Rightarrow> (nat \<Rightarrow> uuid) \<Rightarrow> registry \<Rightarrow> node_def \<Rightarrow> nat \<Rightarrow> (model_error + node) \<times> nat"
and deserialize_children :: "uuid_lib \<Rightarrow> (nat \<Rightarrow> uuid) \<Rightarrow> registry \<Rightarrow> node_def list \<Rightarrow> nat \<Rightarrow> (model_error + node list) \<times> nat" where
  "deserialize_node_inner U new_v4 reg (NodeDef tag name comment attrs nodes) drawn =
     (let d = NodeDef tag name comment attrs nodes
      in case reg tag of
        None \<Rightarrow> (Inl (UnknownNodeType tag), drawn)
      | Some (SimpleEntry k) \<Rightarrow> (Inr (SimpleNode k name comment), drawn)
      | Some PointerEntry \<Rightarrow> (Inr (de_pointer U d), drawn)
      | Some ClassInstanceEntry \<Rightarrow> (Inr (de_class_instance U d), drawn)
      | Some ArrayEntry \<Rightarrow> (Inr (de_array d), drawn)
      | Some Utf8TextEntry \<Rightarrow> (Inr (de_utf8_text d), drawn)
      | Some Utf16TextEntry \<Rightarrow> (Inr (de_utf16_text d), drawn)
      | Some (VectorEntry k w) \<Rightarrow> (Inr (set_comment comment (VectorNode_new name k w)), drawn)
      | Some (MatrixEntry r k w) \<Rightarrow> (Inr (set_comment comment (MatrixNode_new name r k w)), drawn)
      | Some VTableEntry \<Rightarrow>
          (case deserialize_children U new_v4 reg nodes drawn of
             (Inl e, drawn) \<Rightarrow> (Inl e, drawn)
           | (Inr ch, drawn) \<Rightarrow> (Inr (VTableNode name comment ch), drawn))
      | Some FunctionEntry \<Rightarrow> (Inr (de_function d), drawn)
      | Some ClassEntry \<Rightarrow>
          (case de_class_uuid U new_v4 d drawn of
             (Inl e, drawn) \<Rightarrow> (Inl e, drawn)
           | (Inr uuid, drawn) \<Rightarrow>
               (case deserialize_children U new_v4 reg nodes drawn of
                  (Inl e, drawn) \<Rightarrow> (Inl e, drawn)
                | (Inr ch, drawn) \<Rightarrow>
                    (Inr (ClassChild (ClassNode uuid name comment (attr_text d ''address_formula'' []) ch)), drawn))))"
| "deserialize_children U new_v4 reg [] drawn = (Inr [], drawn)"
| "deserialize_children U new_v4 reg (d # ds) drawn =
     (case deserialize_node_inner U new_v4 reg d drawn of
        (Inl e, drawn) \<Rightarrow> (Inl e, drawn)
      | (Inr n, drawn) \<Rightarrow>
          (case deserialize_children U new_v4 reg ds drawn of
             (Inl e, drawn) \<Rightarrow> (Inl e, drawn)
           | (Inr ns, drawn) \<Rightarrow> (Inr (n # ns), drawn)))"

definition deserialize_node :: "uuid_lib \<Rightarrow> (nat \<Rightarrow> uuid) \<Rightarrow> registry \<Rightarrow> node_def \<Rightarrow> nat \<Rightarrow> (model_error + node) \<times> nat" where
  "deserialize_node U new_v4 reg d drawn =
     (case check_node_depth d of
        Inl e \<Rightarrow> (Inl e, drawn)
      | Inr _ \<Rightarrow> deserialize_node_inner U new_v4 reg d drawn)"

section \<open>The depth check measures the nesting\<close>

fun def_depth :: "node_def \<Rightarrow> nat" where
  "def_depth (NodeDef t n c a ns) = Suc (Max (insert 0 (set (map def_depth ns))))"

declare def_depth.simps [simp del]

lemma Max_insert_0_le: "finite A \<Longrightarrow> Max (insert 0 A) \<le> k \<longleftrightarrow> (\<forall>a\<in>A. a \<le> (k :: nat))"
  by (subst Max_le_iff) auto

lemma def_depth_le: "def_depth d \<le> Suc k \<longleftrightarrow> (\<forall>c\<in>set (nd_nodes d). def_depth c \<le> k)"
  by (cases d) (simp add: def_depth.simps Max_insert_0_le)

lemma node_depth_le: "node_depth n \<le> Suc k \<longleftrightarrow> (\<forall>c\<in>set (node_children n). node_depth c \<le> k)"
  by (subst node_depth.simps) (simp add: Max_insert_0_le)

lemma depth_loop_eq:
  "depth_loop stack =
     (if \<forall>(d, depth)\<in>set stack. depth + def_depth d \<le> Suc MAX_NODE_DEPTH then Inr ()
      else Inl (MaxDepthExceeded MAX_NODE_DEPTH))"
proof (induction stack rule: depth_loop.induct)
  case (2 d depth stack)
  have step: "depth + def_depth d \<le> Suc MAX_NODE_DEPTH \<longleftrightarrow>
      depth \<le> MAX_NODE_DEPTH \<and> (\<forall>c\<in>set (nd_nodes d). depth + 1 + def_depth c \<le> Suc MAX_NODE_DEPTH)"
  proof (cases "depth \<le> MAX_NODE_DEPTH")
    case True
    then obtain k where k: "MAX_NODE_DEPTH = depth + k" using le_Suc_ex by blast
    show ?thesis using def_depth_le[of d k] by (auto simp: k)
  next
    case False
    have "0 < def_depth d" by (cases d) (simp add: def_depth.simps)
    with False show ?thesis by auto
  qed
  show ?case
  proof (cases "depth > MAX_NODE_DEPTH")
    case True
    then show ?thesis using step by auto
  next
    case False
    then show ?thesis using 2[OF False] step by (auto simp: ball_Un)
  qed
qed simp

text \<open>
  The iterative depth check accepts a tree exactly when its nesting is at most 128 levels, and otherwise
  returns the depth error.
\<close>

theorem check_node_depth_correct:
  "check_node_depth d = (if def_depth d \<le> 128 then Inr () else Inl (MaxDepthExceeded 128))"
  by (simp add: check_node_depth_def depth_loop_eq MAX_NODE_DEPTH_def)

section \<open>Lookup of the built-in entries\<close>

lemma foldl_register:
  "distinct (map fst es) \<Longrightarrow> foldl (\<lambda>r (tag, e). register tag e r) reg es = reg ++ map_of es"
proof (induction es arbitrary: reg)
  case (Cons te es)
  obtain t e where te: "te = (t, e)" by (cases te)
  with Cons(2) have "t \<notin> dom (map_of es)" by (simp add: dom_map_of_conv_image_fst)
  then have "register t e reg ++ map_of es = reg ++ map_of (te # es)"
    by (auto simp: te register_def fun_eq_iff map_add_def domIff split: option.splits)
  moreover have "foldl (\<lambda>r (tag, e). register tag e r) reg (te # es) = register t e reg ++ map_of es"
    using Cons(1)[of "register t e reg"] Cons(2) by (simp add: te del: map_add_upd)
  ultimately show ?case by (rule trans[rotated])
qed simp

lemma builtins_map_of: "builtins = map_of builtin_entries"
proof -
  have "distinct (map fst builtin_entries)" by (simp add: entry_lists)
  then show ?thesis by (simp add: builtins_def register_builtins_def foldl_register NodeRegistry_new_def)
qed

lemma builtins_lookup [simp]:
  "builtins (simple_tag k) = Some (SimpleEntry k)"
  "builtins ''Pointer'' = Some PointerEntry" "builtins ''ClassInstance'' = Some ClassInstanceEntry"
  "builtins ''Array'' = Some ArrayEntry" "builtins ''Utf8Text'' = Some Utf8TextEntry"
  "builtins ''Utf16Text'' = Some Utf16TextEntry" "builtins ''VTable'' = Some VTableEntry"
  "builtins ''Function'' = Some FunctionEntry" "builtins ''Class'' = Some ClassEntry"
  by (cases k; simp add: builtins_map_of entry_lists) (simp_all add: builtins_map_of entry_lists)

lemma builtins_vector [simp]: "k \<in> {2, 3, 4} \<Longrightarrow> builtins (vector_tag k w) = Some (VectorEntry k w)"
  by (cases w) (auto simp: vector_tag_def VECTOR_SHAPES_def builtins_map_of entry_lists)

lemma builtins_matrix [simp]:
  "(r, k) \<in> {(3, 3), (3, 4), (4, 4)} \<Longrightarrow> builtins (matrix_tag r k w) = Some (MatrixEntry r k w)"
  by (cases w) (auto simp: matrix_tag_def MATRIX_SHAPES_def builtins_map_of entry_lists)

section \<open>Round trip\<close>

lemma serialize_own [simp]:
  "nd_type_tag (serialize_node_recursive U n) = type_tag n"
  "nd_nodes (serialize_node_recursive U n) = map (serialize_node_recursive U) (node_children n)"
  by (simp_all add: serialize_node_recursive.simps[of U n] split: node_def.split)
    (metis to_node_def_own node_def.sel)+

lemma def_depth_serialize [simp]: "def_depth (serialize_node_recursive U n) = node_depth n"
proof (induction n rule: node_children_induct)
  case (node n)
  have *: "def_depth d = Suc (Max (insert 0 (set (map def_depth (nd_nodes d)))))" for d
    by (cases d) (simp add: def_depth.simps)
  show ?case using node by (subst *, subst node_depth.simps) (simp add: image_image cong: image_cong)
qed

lemma deserialize_children_serialize:
  assumes "\<And>n k. n \<in> set ns \<Longrightarrow> deserialize_node_inner U new_v4 reg (f n) k = (Inr n, k)"
  shows "deserialize_children U new_v4 reg (map f ns) k = (Inr ns, k)"
  using assms by (induction ns arbitrary: k) auto

lemma serialize_eq:
  "serialize_node_recursive U n =
     NodeDef (type_tag n) (node_name n) (node_comment n) (nd_attrs (to_node_def U n))
       (map (serialize_node_recursive U) (node_children n))"
  by (subst serialize_node_recursive.simps) (cases "to_node_def U n", use to_node_def_own[of U n] in simp)

lemma uuid_text_not_empty: "uuid_laws U \<Longrightarrow> uuid_to_string U u \<noteq> []"
  unfolding uuid_laws_def by (metis option.distinct(1))

lemma uuid_parse_text [simp]: "uuid_laws U \<Longrightarrow> uuid_parse U (uuid_to_string U u) = Some u"
  by (simp add: uuid_laws_def)

lemmas deserialize_attrs = attr_usize_def attr_text_def de_pointer_def de_class_instance_def de_array_def
  de_utf8_text_def de_utf16_text_def de_function_def de_class_uuid_def VectorNode_new_def MatrixNode_new_def

lemma deserialize_inner_serialize:
  assumes U: "uuid_laws U"
  shows "node_wf n \<Longrightarrow> deserialize_node_inner U new_v4 builtins (serialize_node_recursive U n) k = (Inr n, k)"
proof (induction n arbitrary: k rule: node_children_induct)
  case (node n)
  have children: "deserialize_children U new_v4 builtins (map (serialize_node_recursive U) (node_children n)) k
      = (Inr (node_children n), k)" for k
    using node by (intro deserialize_children_serialize) (auto intro: node_wf_child)
  have "node_fields_wf n" using node(2) by (rule node_wf_fields)
  then have "deserialize_node_inner U new_v4 builtins (NodeDef (type_tag n) (node_name n) (node_comment n)
      (nd_attrs (to_node_def U n)) (map (serialize_node_recursive U) (node_children n))) k = (Inr n, k)"
  proof (cases n)
    case (ClassChild cl)
    then show ?thesis using children uuid_text_not_empty[OF U]
      by (cases cl) (simp add: deserialize_attrs Let_def U)
  next
    case (VectorNode a b c w)
    then show ?thesis using \<open>node_fields_wf n\<close>
      by (auto simp: node_fields_wf_def deserialize_attrs)
  next
    case (MatrixNode a b r c w)
    then show ?thesis using \<open>node_fields_wf n\<close>
      by (auto simp: node_fields_wf_def deserialize_attrs)
  qed (use children in \<open>auto simp: simple_def_def node_fields_wf_def deserialize_attrs U split: option.splits\<close>)
  then show ?case by (simp only: serialize_eq[of U n])
qed

lemma deserialize_serialize:
  assumes "uuid_laws U" "node_wf n"
  shows "deserialize_node U new_v4 builtins (serialize_node_recursive U n) k =
    (if node_depth n \<le> 128 then (Inr n, k) else (Inl (MaxDepthExceeded 128), k))"
  by (simp add: deserialize_node_def check_node_depth_def depth_loop_eq MAX_NODE_DEPTH_def
      deserialize_inner_serialize[OF assms])

text \<open>
  C16. Serialising a well-formed node tree and reading it back with the built-in registry returns the same tree and
  draws no new identifier, as long as the tree is at most 128 levels deep; a deeper tree is refused.
\<close>

theorem deserialize_serialize_roundtrip:
  assumes "uuid_laws U" "node_wf n"
  shows "deserialize_node U new_v4 builtins (serialize_node_recursive U n) k =
    (if node_depth n \<le> 128 then (Inr n, k) else (Inl (MaxDepthExceeded 128), k))"
  by (rule deserialize_serialize[OF assms])

lemma node_wf_iff: "node_wf n \<longleftrightarrow> node_fields_wf n \<and> (\<forall>m\<in>set (node_children n). node_wf m)"
  by (rule node_wf.simps)

theorem deserialize_serialize_roundtrip_witness:
  "deserialize_node hex_uuid (\<lambda>_. 0) builtins
     (serialize_node_recursive hex_uuid (VTableNode [65] [] [SimpleNode VMethodNode [66] [67], VectorNode [] [] 3 F64])) 5
   = (Inr (VTableNode [65] [] [SimpleNode VMethodNode [66] [67], VectorNode [] [] 3 F64]), 5)"
proof -
  let ?c1 = "SimpleNode VMethodNode [66] [67]" and ?c2 = "VectorNode [] [] 3 F64"
  let ?n = "VTableNode [65] [] [?c1, ?c2]"
  have wf: "node_wf ?n" using node_wf_iff[of ?n] node_wf_iff[of ?c1] node_wf_iff[of ?c2]
    by (simp add: node_fields_wf_def)
  have "node_depth ?n \<le> 128"
    using node_depth_le[of ?n 127] node_depth_le[of ?c1 126] node_depth_le[of ?c2 126] by simp
  then show ?thesis using deserialize_serialize_roundtrip[OF hex_uuid_laws wf, of "\<lambda>_. 0" 5] by simp
qed

section \<open>What deserialisation returns\<close>

text \<open>What holds of a node built from a definition: it is well formed, is what the tag says and is not deeper.\<close>

definition built_from :: "node_def \<Rightarrow> node \<Rightarrow> bool" where
  "built_from d n \<longleftrightarrow> node_wf n \<and> type_tag n = nd_type_tag d \<and> node_name n = nd_name d
     \<and> node_comment n = nd_comment d \<and> node_depth n \<le> def_depth d"

lemma i64_as_usize_le: "i64_as_usize i \<le> USIZE_MAX"
proof -
  have "i mod 2 ^ 64 < 2 ^ 64" by simp
  then have "nat (i mod 2 ^ 64) < nat (2 ^ 64)" by (subst nat_less_eq_zless) simp_all
  then show ?thesis by (simp add: i64_as_usize_def USIZE_MAX_def)
qed

lemma builtins_tag:
  assumes "builtins tag = Some e"
  shows "(case e of
      SimpleEntry k \<Rightarrow> tag = simple_tag k
    | VectorEntry k w \<Rightarrow> k \<in> {2, 3, 4} \<and> tag = vector_tag k w
    | MatrixEntry r k w \<Rightarrow> (r, k) \<in> {(3, 3), (3, 4), (4, 4)} \<and> tag = matrix_tag r k w
    | PointerEntry \<Rightarrow> tag = ''Pointer'' | ClassInstanceEntry \<Rightarrow> tag = ''ClassInstance'' | ArrayEntry \<Rightarrow> tag = ''Array''
    | Utf8TextEntry \<Rightarrow> tag = ''Utf8Text'' | Utf16TextEntry \<Rightarrow> tag = ''Utf16Text'' | VTableEntry \<Rightarrow> tag = ''VTable''
    | FunctionEntry \<Rightarrow> tag = ''Function'' | ClassEntry \<Rightarrow> tag = ''Class'')"
proof -
  have "(tag, e) \<in> set builtin_entries" using assms by (simp add: builtins_map_of map_of_SomeD)
  then show ?thesis
    unfolding entry_lists by (auto simp: vector_tag_def VECTOR_SHAPES_def matrix_tag_def MATRIX_SHAPES_def)
qed

lemma node_depth_built:
  "list_all2 built_from ds (node_children n) \<Longrightarrow> node_depth n \<le> def_depth (NodeDef t a c at ds)"
proof -
  assume *: "list_all2 built_from ds (node_children n)"
  let ?k = "Max (insert 0 (set (map def_depth ds)))"
  have "node_depth m \<le> ?k" if m: "m \<in> set (node_children n)" for m
  proof -
    obtain d where "d \<in> set ds" "built_from d m" using * m by (force simp: list_all2_conv_all_nth in_set_conv_nth)
    then have "node_depth m \<le> def_depth d" by (simp add: built_from_def)
    also have "def_depth d \<le> ?k" using \<open>d \<in> set ds\<close> by (intro Max_ge) auto
    finally show ?thesis .
  qed
  then show ?thesis by (simp add: def_depth.simps node_depth_le)
qed

lemma built_fromI:
  assumes "node_fields_wf n" "type_tag n = t" "node_name n = a" "node_comment n = c"
    "list_all2 built_from (if node_children n = [] then [] else ds) (node_children n)"
  shows "built_from (NodeDef t a c at ds) n"
proof -
  have "node_wf m" if "m \<in> set (node_children n)" for m
    using assms(5) that by (auto simp: list_all2_conv_all_nth in_set_conv_nth built_from_def split: if_splits)
  moreover have "node_depth n \<le> def_depth (NodeDef t a c at ds)"
  proof (cases "node_children n = []")
    case True
    then show ?thesis by (subst node_depth.simps) (simp add: def_depth.simps)
  next
    case False
    then show ?thesis using assms(5) by (intro node_depth_built) simp
  qed
  ultimately show ?thesis using assms by (simp add: built_from_def node_wf_iff[of n])
qed

lemma deserialize_built:
  "reg = builtins \<Longrightarrow> deserialize_node_inner U new_v4 reg d k = (Inr n, k') \<Longrightarrow> built_from d n"
  "reg = builtins \<Longrightarrow> deserialize_children U new_v4 reg ds k = (Inr ns, k') \<Longrightarrow> list_all2 built_from ds ns"
proof (induction U new_v4 reg d k and U new_v4 reg ds k arbitrary: n k' and ns k'
    rule: deserialize_node_inner_deserialize_children.induct)
  case (1 U new_v4 reg tag name comment attrs nodes drawn)
  from 1(4) obtain e where e: "reg tag = Some e" by (cases "reg tag") (simp_all add: Let_def)
  note tag = builtins_tag[OF e[unfolded 1(3)]]
  show ?case
  proof (cases e)
    case VTableEntry
    with 1(4) e obtain ch where ch: "deserialize_children U new_v4 reg nodes drawn = (Inr ch, k')"
        and n: "n = VTableNode name comment ch"
      by (auto simp: Let_def split: prod.splits sum.splits)
    from 1(1)[OF refl e VTableEntry 1(3) ch] show ?thesis
      using n tag VTableEntry by (intro built_fromI) (auto simp: node_fields_wf_def)
  next
    case ClassEntry
    with 1(4) e obtain uuid drawn' ch where u: "de_class_uuid U new_v4 (NodeDef tag name comment attrs nodes) drawn = (Inr uuid, drawn')"
        and ch: "deserialize_children U new_v4 reg nodes drawn' = (Inr ch, k')"
        and n: "\<exists>f. n = ClassChild (ClassNode uuid name comment f ch)"
      by (auto simp: Let_def split: prod.splits sum.splits)
    have "list_all2 built_from nodes ch"
      using 1(2)[OF refl e ClassEntry u[symmetric] refl 1(3) ch] .
    then show ?thesis using n tag ClassEntry by (intro built_fromI) (auto simp: node_fields_wf_def)
  qed (use 1(4) e tag in \<open>auto simp: Let_def node_fields_wf_def deserialize_attrs i64_as_usize_le small_le_USIZE_MAX
        intro!: built_fromI split: toml_value.splits option.splits if_splits\<close>)
next
  case (3 U new_v4 reg d ds drawn)
  then show ?case by (auto split: prod.splits sum.splits)
qed simp

text \<open>
  Whatever definition is read, a node that deserialisation returns is well formed (its shape is one of the
  supported ones, its sizes are machine words), has the type, name and comment of the definition and is nested at
  most 128 levels deep.
\<close>

theorem deserialize_node_wf:
  assumes "deserialize_node U new_v4 builtins d k = (Inr n, k')"
  shows "node_wf n \<and> type_tag n = nd_type_tag d \<and> node_name n = nd_name d \<and> node_comment n = nd_comment d
    \<and> node_depth n \<le> 128"
proof -
  have ok: "def_depth d \<le> 128" and d: "deserialize_node_inner U new_v4 builtins d k = (Inr n, k')"
    using assms by (auto simp: deserialize_node_def check_node_depth_def depth_loop_eq MAX_NODE_DEPTH_def split: if_splits)
  from deserialize_built(1)[OF refl d] ok show ?thesis by (auto simp: built_from_def)
qed

theorem deserialize_node_wf_witness:
  "node_wf (ArrayNode [65] [] 18446744073709551615 1) \<and> node_depth (ArrayNode [65] [] 18446744073709551615 1) \<le> 128"
proof -
  have "deserialize_node hex_uuid (\<lambda>_. 0) builtins (NodeDef ''Array'' [65] [] [''count'' \<mapsto> TInteger (- 1)] []) 0
      = (Inr (ArrayNode [65] [] 18446744073709551615 1), 0)"
    by (simp add: deserialize_node_def check_node_depth_def MAX_NODE_DEPTH_def deserialize_attrs i64_as_usize_def)
  from deserialize_node_wf[OF this] show ?thesis by simp
qed

end
