(* ===== verification/Project.thy ===== *)
theory Project
  imports Registry "HOL-Library.AList"
begin

text \<open>
  The project (nemclass-model/src/project.rs, enums.rs, serialize.rs): a hash map of classes with their display
  order, and the enums. The hash map is an association list with distinct keys: its order stands for the
  unspecified iteration order, which only a count depends on. The \<open>toml\<close> crate is a parameter: a printer and a
  reader of project files.
\<close>

section \<open>State\<close>

record enum_description =
  en_name :: utext
  en_size :: nat
  en_use_flags :: bool
  en_values :: "(utext \<times> int) list"

definition EnumDescription_new :: "utext \<Rightarrow> enum_description" where
  "EnumDescription_new name = \<lparr>en_name = name, en_size = 4, en_use_flags = False, en_values = []\<rparr>"

record project =
  pr_name :: utext
  pr_classes :: "(uuid \<times> class_node) list"
  pr_order :: "uuid list"
  pr_enums :: "enum_description list"

definition Project_new :: "utext \<Rightarrow> project" where
  "Project_new name = \<lparr>pr_name = name, pr_classes = [], pr_order = [], pr_enums = []\<rparr>"

section \<open>Operations\<close>

definition get_class :: "project \<Rightarrow> uuid \<Rightarrow> class_node option" where
  "get_class p u = map_of (pr_classes p) u"

definition add_class :: "class_node \<Rightarrow> project \<Rightarrow> project" where
  "add_class cl p =
     (let uuid = cl_uuid cl;
          order = (if get_class p uuid = None then pr_order p @ [uuid] else pr_order p)
      in p\<lparr>pr_order := order, pr_classes := AList.update uuid cl (pr_classes p)\<rparr>)"

text \<open>What a caller does through \<open>get_class_mut\<close>: change the class in place, when it exists.\<close>

definition get_class_mut :: "uuid \<Rightarrow> (class_node \<Rightarrow> class_node) \<Rightarrow> project \<Rightarrow> project option" where
  "get_class_mut u f p =
     map_option (\<lambda>cl. p\<lparr>pr_classes := AList.update u (f cl) (pr_classes p)\<rparr>) (get_class p u)"

definition classes_in_order :: "project \<Rightarrow> class_node list" where
  "classes_in_order p = List.map_filter (get_class p) (pr_order p)"

definition remove_class :: "uuid_lib \<Rightarrow> uuid \<Rightarrow> project \<Rightarrow> (model_error + class_node) \<times> project" where
  "remove_class U u p =
     (case get_class p u of
        None \<Rightarrow> (Inl (ClassNotFound u), p)
      | Some cl \<Rightarrow>
          (let ref_count = length (filter (\<lambda>e. children_reference_class U (cl_children (snd e)) u)
                             (filter (\<lambda>e. fst e \<noteq> u) (pr_classes p)))
           in if ref_count > 0 then (Inl (ClassReferenced (cl_name cl) ref_count), p)
              else (Inr cl, p\<lparr>pr_order := filter (\<lambda>i. i \<noteq> u) (pr_order p), pr_classes := AList.delete u (pr_classes p)\<rparr>)))"

section \<open>Project files\<close>

record enum_value_def =
  evd_name :: utext
  evd_value :: int

record enum_def =
  ed_name :: utext
  ed_size :: nat
  ed_use_flags :: bool
  ed_values :: "enum_value_def list"

record class_def =
  cd_uuid :: utext
  cd_name :: utext
  cd_comment :: utext
  cd_formula :: utext
  cd_nodes :: "node_def list"

record project_meta =
  pm_name :: utext
  pm_version :: utext

record project_file =
  pf_project :: project_meta
  pf_enums :: "enum_def list"
  pf_classes :: "class_def list"

definition class_to_def :: "uuid_lib \<Rightarrow> class_node \<Rightarrow> class_def" where
  "class_to_def U cl = \<lparr>cd_uuid = uuid_to_string U (cl_uuid cl), cd_name = cl_name cl, cd_comment = cl_comment cl,
     cd_formula = cl_formula cl, cd_nodes = map (serialize_node_recursive U) (cl_children cl)\<rparr>"

definition enum_to_def :: "enum_description \<Rightarrow> enum_def" where
  "enum_to_def e = \<lparr>ed_name = en_name e, ed_size = en_size e, ed_use_flags = en_use_flags e,
     ed_values = map (\<lambda>(name, value). \<lparr>evd_name = name, evd_value = value\<rparr>) (en_values e)\<rparr>"

definition to_file :: "uuid_lib \<Rightarrow> project \<Rightarrow> project_file" where
  "to_file U p = \<lparr>pf_project = \<lparr>pm_name = pr_name p, pm_version = codes ''1''\<rparr>,
     pf_enums = map enum_to_def (pr_enums p),
     pf_classes = map (class_to_def U) (List.map_filter (get_class p) (pr_order p))\<rparr>"

definition to_toml :: "uuid_lib \<Rightarrow> (project_file \<Rightarrow> utext + utext) \<Rightarrow> project \<Rightarrow> model_error + utext" where
  "to_toml U toml_to_string p = map_sum SerializeError id (toml_to_string (to_file U p))"

definition enum_from_def :: "enum_def \<Rightarrow> enum_description" where
  "enum_from_def e = \<lparr>en_name = ed_name e, en_size = ed_size e, en_use_flags = ed_use_flags e,
     en_values = map (\<lambda>v. (evd_name v, evd_value v)) (ed_values e)\<rparr>"

text \<open>The loop over the nodes of a class, with the depth check at every node of the top level.\<close>

fun load_nodes :: "uuid_lib \<Rightarrow> (nat \<Rightarrow> uuid) \<Rightarrow> registry \<Rightarrow> node_def list \<Rightarrow> nat \<Rightarrow> (model_error + node list) \<times> nat" where
  "load_nodes U new_v4 reg [] drawn = (Inr [], drawn)"
| "load_nodes U new_v4 reg (d # ds) drawn =
     (case deserialize_node U new_v4 reg d drawn of
        (Inl e, drawn) \<Rightarrow> (Inl e, drawn)
      | (Inr n, drawn) \<Rightarrow>
          (case load_nodes U new_v4 reg ds drawn of
             (Inl e, drawn) \<Rightarrow> (Inl e, drawn)
           | (Inr ns, drawn) \<Rightarrow> (Inr (n # ns), drawn)))"

fun load_classes :: "uuid_lib \<Rightarrow> (nat \<Rightarrow> uuid) \<Rightarrow> registry \<Rightarrow> class_def list \<Rightarrow> nat \<Rightarrow> project \<Rightarrow> model_error + project" where
  "load_classes U new_v4 reg [] drawn p = Inr p"
| "load_classes U new_v4 reg (c # cs) drawn p =
     (case uuid_parse U (cd_uuid c) of
        None \<Rightarrow> Inl (DeserializeError (BadClassUuid (cd_uuid c)))
      | Some u \<Rightarrow>
          (case load_nodes U new_v4 reg (cd_nodes c) drawn of
             (Inl e, drawn) \<Rightarrow> Inl e
           | (Inr ns, drawn) \<Rightarrow>
               load_classes U new_v4 reg cs drawn (add_class (ClassNode u (cd_name c) (cd_comment c) (cd_formula c) ns) p)))"

definition from_file :: "uuid_lib \<Rightarrow> (nat \<Rightarrow> uuid) \<Rightarrow> registry \<Rightarrow> project_file \<Rightarrow> model_error + project" where
  "from_file U new_v4 reg f =
     load_classes U new_v4 reg (pf_classes f) 0
       ((Project_new (pm_name (pf_project f)))\<lparr>pr_enums := map enum_from_def (pf_enums f)\<rparr>)"

definition from_toml :: "uuid_lib \<Rightarrow> (nat \<Rightarrow> uuid) \<Rightarrow> (utext \<Rightarrow> utext + project_file) \<Rightarrow> registry \<Rightarrow> utext \<Rightarrow> model_error + project" where
  "from_toml U new_v4 toml_from_str reg s =
     (case toml_from_str s of
        Inl e \<Rightarrow> Inl (DeserializeError (TomlMessage e))
      | Inr f \<Rightarrow> from_file U new_v4 reg f)"

section \<open>Invariant\<close>

text \<open>
  The order lists every class once, and a class is stored under its own identifier.
\<close>

definition project_inv :: "project \<Rightarrow> bool" where
  "project_inv p \<longleftrightarrow> distinct (map fst (pr_classes p)) \<and> distinct (pr_order p)
     \<and> set (pr_order p) = fst ` set (pr_classes p) \<and> (\<forall>e\<in>set (pr_classes p). cl_uuid (snd e) = fst e)"

text \<open>The steps of a project's life: the calls that change it.\<close>

inductive project_step :: "uuid_lib \<Rightarrow> project \<Rightarrow> project \<Rightarrow> bool" for U where
  step_add: "project_step U p (add_class cl p)"
| step_remove: "project_step U p (snd (remove_class U u p))"
| step_edit: "(\<And>cl. cl_uuid (f cl) = cl_uuid cl) \<Longrightarrow> get_class_mut u f p = Some p' \<Longrightarrow> project_step U p p'"
| step_enums: "project_step U p (p\<lparr>pr_enums := es\<rparr>)"
| step_rename: "project_step U p (p\<lparr>pr_name := name\<rparr>)"

inductive project_reachable :: "uuid_lib \<Rightarrow> project \<Rightarrow> bool" for U where
  reach_new: "project_reachable U (Project_new name)"
| reach_load: "from_toml U new_v4 toml_from_str reg s = Inr p \<Longrightarrow> project_reachable U p"
| reach_step: "project_reachable U p \<Longrightarrow> project_step U p p' \<Longrightarrow> project_reachable U p'"

lemma get_class_Some_iff: "project_inv p \<Longrightarrow> get_class p u = Some cl \<longleftrightarrow> (u, cl) \<in> set (pr_classes p)"
  by (simp add: project_inv_def get_class_def)

lemma get_class_None_iff: "project_inv p \<Longrightarrow> get_class p u = None \<longleftrightarrow> u \<notin> set (pr_order p)"
  by (simp add: project_inv_def get_class_def map_of_eq_None_iff)

lemma fst_set_update: "fst ` set (AList.update k v al) = insert k (fst ` set al)"
  using dom_update[of k v al] by simp

lemma set_update_values: "e \<in> set (AList.update k v al) \<Longrightarrow> e = (k, v) \<or> e \<in> set al"
  by (induction al) (auto split: if_splits)

lemma project_inv_new: "project_inv (Project_new name)"
  by (simp add: project_inv_def Project_new_def)

lemma get_class_new: "get_class (Project_new name) = Map.empty"
  by (simp add: get_class_def Project_new_def fun_eq_iff)

lemma project_inv_fields [simp]:
  "project_inv (p\<lparr>pr_enums := es\<rparr>) = project_inv p" "project_inv (p\<lparr>pr_name := name\<rparr>) = project_inv p"
  by (simp_all add: project_inv_def)

lemma get_class_map_of: "get_class p = map_of (pr_classes p)"
  by (simp add: get_class_def fun_eq_iff)

lemma get_class_add [simp]: "get_class (add_class cl p) = (get_class p)(cl_uuid cl \<mapsto> cl)"
  by (simp add: get_class_map_of add_class_def Let_def update_conv')

lemma add_class_fields [simp]:
  "pr_name (add_class cl p) = pr_name p" "pr_enums (add_class cl p) = pr_enums p"
  "get_class p (cl_uuid cl) = None \<Longrightarrow> pr_order (add_class cl p) = pr_order p @ [cl_uuid cl]"
  by (simp_all add: add_class_def Let_def)

lemma project_inv_add: "project_inv p \<Longrightarrow> project_inv (add_class cl p)"
  using get_class_None_iff[of p "cl_uuid cl"]
  by (auto simp: project_inv_def add_class_def Let_def fst_set_update distinct_update dest!: set_update_values)

lemma project_inv_remove: "project_inv p \<Longrightarrow> project_inv (snd (remove_class U u p))"
  by (force simp: project_inv_def remove_class_def Let_def AList.delete_eq distinct_map_filter split: option.splits)

lemma project_inv_edit:
  assumes "project_inv p" "\<And>cl. cl_uuid (f cl) = cl_uuid cl" "get_class_mut u f p = Some p'"
  shows "project_inv p'"
proof -
  obtain cl where cl: "get_class p u = Some cl" and p': "p' = p\<lparr>pr_classes := AList.update u (f cl) (pr_classes p)\<rparr>"
    using assms(3) by (auto simp: get_class_mut_def)
  then have "(u, cl) \<in> set (pr_classes p)" using get_class_Some_iff[OF assms(1)] by simp
  then have "cl_uuid cl = u" "u \<in> fst ` set (pr_classes p)" using assms(1) by (force simp: project_inv_def)+
  then show ?thesis
    using assms(1,2) by (auto simp: p' project_inv_def fst_set_update distinct_update dest!: set_update_values)
qed

lemma project_inv_load:
  "load_classes U new_v4 reg cs drawn p = Inr p' \<Longrightarrow> project_inv p \<Longrightarrow> project_inv p'"
  by (induction U new_v4 reg cs drawn p rule: load_classes.induct)
    (auto split: option.splits prod.splits sum.splits intro: project_inv_add)

text \<open>
  Every project that loading and the editing calls can reach lists each of its classes exactly once in its
  display order, and stores each class under that class's own identifier.
\<close>

theorem project_inv_reachable: "project_reachable U p \<Longrightarrow> project_inv p"
proof (induction rule: project_reachable.induct)
  case (reach_load new_v4 toml_from_str reg s p)
  then obtain f :: project_file where "load_classes U new_v4 reg (pf_classes f) 0
      ((Project_new (pm_name (pf_project f)))\<lparr>pr_enums := map enum_from_def (pf_enums f)\<rparr>) = Inr p"
    unfolding from_toml_def from_file_def by (cases "toml_from_str s") auto
  then show ?case by (rule project_inv_load) (simp add: project_inv_def Project_new_def)
next
  case (reach_step p p')
  from reach_step(2) show ?case
    using reach_step.IH
    by cases (auto intro: project_inv_add project_inv_remove project_inv_edit)
qed (rule project_inv_new)

theorem project_inv_reachable_witness:
  "project_inv (snd (remove_class hex_uuid 2 (add_class (ClassNode 2 [] [] [] []) (add_class (ClassNode 1 [66] [] [] []) (Project_new [65])))))"
  by (rule project_inv_reachable[where U = hex_uuid])
    (rule reach_step[OF reach_step[OF reach_step[OF reach_new step_add] step_add] step_remove])

section \<open>Removing a class\<close>

definition refers_to_class :: "class_node \<Rightarrow> uuid \<Rightarrow> bool" where
  "refers_to_class cl u \<longleftrightarrow> (\<exists>n\<in>set (cl_children cl). \<exists>m. subnode m n \<and> refers m u)"

definition referrers :: "project \<Rightarrow> uuid \<Rightarrow> uuid set" where
  "referrers p u = {v. v \<noteq> u \<and> (\<exists>cl. get_class p v = Some cl \<and> refers_to_class cl u)}"

lemma ref_count_card:
  assumes "uuid_laws U" "project_inv p"
  shows "length (filter (\<lambda>e. children_reference_class U (cl_children (snd e)) u)
           (filter (\<lambda>e. fst e \<noteq> u) (pr_classes p))) = card (referrers p u)"
proof -
  let ?es = "filter (\<lambda>e. refers_to_class (snd e) u \<and> fst e \<noteq> u) (pr_classes p)"
  have test: "children_reference_class U (cl_children cl) u \<longleftrightarrow> refers_to_class cl u" for cl
    using references_class_iff[OF assms(1), of cl u] by (simp add: references_class_def refers_to_class_def)
  have "distinct (map fst ?es)" using assms(2) by (simp add: project_inv_def distinct_map_filter)
  then have "length ?es = card (set (map fst ?es))" using distinct_card[of "map fst ?es"] by simp
  also have "set (map fst ?es) = referrers p u"
    by (force simp: referrers_def get_class_Some_iff[OF assms(2)] image_iff)
  finally show ?thesis by (simp add: test conj_commute)
qed

lemma remove_class_eq:
  assumes "uuid_laws U" "project_inv p"
  shows "remove_class U u p =
      (case get_class p u of
         None \<Rightarrow> (Inl (ClassNotFound u), p)
       | Some cl \<Rightarrow>
           if referrers p u \<noteq> {} then (Inl (ClassReferenced (cl_name cl) (card (referrers p u))), p)
           else (Inr cl, p\<lparr>pr_order := filter (\<lambda>i. i \<noteq> u) (pr_order p), pr_classes := AList.delete u (pr_classes p)\<rparr>))"
proof -
  have "finite (referrers p u)"
    by (rule finite_subset[of _ "dom (get_class p)"]) (auto simp: referrers_def get_class_def finite_dom_map_of)
  then have "card (referrers p u) > 0 \<longleftrightarrow> referrers p u \<noteq> {}" by (simp add: card_gt_0_iff)
  then show ?thesis unfolding remove_class_def ref_count_card[OF assms] Let_def by (simp split: option.split)
qed

text \<open>
  C18. A class is removed exactly when it is in the project and no other class refers to it; the errors name what is
  missing or how many other classes refer to it and change nothing. After a removal the class is gone from map and
  order, the others are as before, and none of them refers to it.
\<close>

theorem remove_class_correct:
  assumes "uuid_laws U" "project_inv p"
  shows "remove_class U u p =
      (case get_class p u of
         None \<Rightarrow> (Inl (ClassNotFound u), p)
       | Some cl \<Rightarrow>
           if referrers p u \<noteq> {} then (Inl (ClassReferenced (cl_name cl) (card (referrers p u))), p)
           else (Inr cl, snd (remove_class U u p)))
    \<and> (\<forall>cl. fst (remove_class U u p) = Inr cl \<longrightarrow>
         get_class (snd (remove_class U u p)) = (get_class p)(u := None)
         \<and> pr_order (snd (remove_class U u p)) = filter (\<lambda>v. v \<noteq> u) (pr_order p)
         \<and> (\<forall>v c. get_class (snd (remove_class U u p)) v = Some c \<longrightarrow> \<not> refers_to_class c u))"
proof -
  have "get_class p v = Some c \<Longrightarrow> v \<noteq> u \<Longrightarrow> referrers p u = {} \<Longrightarrow> \<not> refers_to_class c u" for v c
    by (auto simp: referrers_def)
  then show ?thesis
    unfolding remove_class_eq[OF assms]
    by (cases "get_class p u") (auto simp: get_class_def delete_conv' split: if_splits)
qed

theorem remove_class_correct_witness:
  "remove_class hex_uuid 7 (add_class (ClassNode 1 [] [] [] [PointerNode [] [] (Some 7)])
       (add_class (ClassNode 7 [66] [] [] []) (Project_new [])))
   = (Inl (ClassReferenced [66] 1), add_class (ClassNode 1 [] [] [] [PointerNode [] [] (Some 7)])
       (add_class (ClassNode 7 [66] [] [] []) (Project_new [])))"
proof -
  let ?a = "ClassNode 1 [] [] [] [PointerNode [] [] (Some 7)]" and ?b = "ClassNode 7 [66] [] [] []"
  let ?p = "add_class ?a (add_class ?b (Project_new []))"
  have inv: "project_inv ?p" by (intro project_inv_add project_inv_new)
  have get: "get_class ?p = [7 \<mapsto> ?b, 1 \<mapsto> ?a]"
    by (simp add: get_class_new)
  have "refers_to_class ?a 7" unfolding refers_to_class_def
    by (rule bexI[of _ "PointerNode [] [] (Some 7)"], rule exI[of _ "PointerNode [] [] (Some 7)"])
      (simp_all add: refers_def subnode_self)
  then have "referrers ?p 7 = {1}" by (auto simp: referrers_def get get_class_new split: if_splits)
  then show ?thesis using remove_class_correct[OF hex_uuid_laws inv, of 7] by (simp add: get)
qed

section \<open>Round trip through a project file\<close>

text \<open>Every class holds well-formed nodes, nested at most 128 levels deep.\<close>

definition project_wf :: "project \<Rightarrow> bool" where
  "project_wf p \<longleftrightarrow> project_inv p
     \<and> (\<forall>e\<in>set (pr_classes p). \<forall>n\<in>set (cl_children (snd e)). node_wf n \<and> node_depth n \<le> 128)"

lemma load_nodes_serialize:
  assumes "uuid_laws U"
  shows "(\<And>n. n \<in> set ns \<Longrightarrow> node_wf n \<and> node_depth n \<le> 128) \<Longrightarrow>
    load_nodes U new_v4 builtins (map (serialize_node_recursive U) ns) k = (Inr ns, k)"
  by (induction ns) (simp_all add: deserialize_serialize[OF assms])

lemma load_classes_defs:
  assumes "uuid_laws U"
  shows "(\<And>cl n. cl \<in> set cls \<Longrightarrow> n \<in> set (cl_children cl) \<Longrightarrow> node_wf n \<and> node_depth n \<le> 128) \<Longrightarrow>
    load_classes U new_v4 builtins (map (class_to_def U) cls) k p = Inr (fold add_class cls p)"
proof (induction cls arbitrary: p)
  case (Cons cl cls)
  have "load_nodes U new_v4 builtins (map (serialize_node_recursive U) (cl_children cl)) k = (Inr (cl_children cl), k)"
    using Cons(2)[of cl] by (intro load_nodes_serialize[OF assms]) simp
  moreover have "load_classes U new_v4 builtins (map (class_to_def U) cls) k (add_class cl p)
      = Inr (fold add_class cls (add_class cl p))"
    by (intro Cons(1)) (meson Cons(2) list.set_intros(2))
  ultimately show ?case using assms by (simp add: class_to_def_def[of U cl])
qed simp

lemma fold_add_class:
  assumes "distinct (map cl_uuid cls)" "\<And>cl. cl \<in> set cls \<Longrightarrow> get_class p (cl_uuid cl) = None"
  shows "pr_order (fold add_class cls p) = pr_order p @ map cl_uuid cls
    \<and> get_class (fold add_class cls p) = get_class p ++ map_of (map (\<lambda>cl. (cl_uuid cl, cl)) cls)
    \<and> pr_name (fold add_class cls p) = pr_name p \<and> pr_enums (fold add_class cls p) = pr_enums p"
  using assms
proof (induction cls arbitrary: p)
  case (Cons cl cls)
  have "get_class (add_class cl p) (cl_uuid c) = None" if "c \<in> set cls" for c
    using Cons(2,3) that by (auto simp: image_iff)
  with Cons have IH: "pr_order (fold add_class cls (add_class cl p)) = pr_order (add_class cl p) @ map cl_uuid cls
      \<and> get_class (fold add_class cls (add_class cl p)) = get_class (add_class cl p) ++ map_of (map (\<lambda>cl. (cl_uuid cl, cl)) cls)
      \<and> pr_name (fold add_class cls (add_class cl p)) = pr_name (add_class cl p)
      \<and> pr_enums (fold add_class cls (add_class cl p)) = pr_enums (add_class cl p)" by simp
  have "map_of (map (\<lambda>cl. (cl_uuid cl, cl)) cls) (cl_uuid cl) = None"
    using Cons(2) by (force simp: map_of_eq_None_iff)
  then have get: "get_class (add_class cl p) ++ map_of (map (\<lambda>cl. (cl_uuid cl, cl)) cls)
      = get_class p ++ map_of (map (\<lambda>cl. (cl_uuid cl, cl)) (cl # cls))"
    by (auto simp: fun_eq_iff map_add_def split: option.splits)
  have "pr_order (add_class cl p) = pr_order p @ [cl_uuid cl]" using Cons(3)[of cl] by simp
  then show ?case using IH[unfolded get] by (simp only: fold_simps add_class_fields append_assoc append_Cons append_Nil list.map)
qed simp

lemma enum_roundtrip [simp]: "enum_from_def (enum_to_def e) = e"
  by (simp add: enum_from_def_def enum_to_def_def o_def case_prod_unfold)

lemma set_classes_in_order: "set (classes_in_order p) = {cl. \<exists>u\<in>set (pr_order p). get_class p u = Some cl}"
proof -
  have "set (List.map_filter g xs) = {y. \<exists>x\<in>set xs. g x = Some y}" for g :: "'x \<Rightarrow> 'y option" and xs
    by (induction xs) (auto simp: List.map_filter_simps split: option.splits)
  then show ?thesis by (simp add: classes_in_order_def)
qed

lemma classes_in_order_all:
  assumes "project_inv p"
  shows "map cl_uuid (classes_in_order p) = pr_order p
    \<and> (\<forall>u. map_of (map (\<lambda>cl. (cl_uuid cl, cl)) (classes_in_order p)) u = get_class p u)
    \<and> (\<forall>cl\<in>set (classes_in_order p). get_class p (cl_uuid cl) = Some cl)"
proof -
  have own: "get_class p u = Some cl \<Longrightarrow> cl_uuid cl = u" for u cl
    using assms by (force simp: get_class_Some_iff[OF assms] project_inv_def)
  have some: "\<exists>cl. get_class p u = Some cl" if "u \<in> set (pr_order p)" for u
    using get_class_None_iff[OF assms, of u] that by auto
  have "map cl_uuid (List.map_filter (get_class p) us) = us" if "set us \<subseteq> set (pr_order p)" for us
    using that
  proof (induction us)
    case (Cons u us)
    then obtain cl where "get_class p u = Some cl" using some by auto
    then show ?case using Cons own by (simp add: List.map_filter_simps)
  qed (simp add: List.map_filter_simps)
  then have order: "map cl_uuid (classes_in_order p) = pr_order p" by (simp add: classes_in_order_def)
  have listed: "get_class p u = Some cl \<Longrightarrow> u \<in> set (pr_order p)" for u cl
    using get_class_None_iff[OF assms, of u] by auto
  have mem: "cl \<in> set (classes_in_order p) \<longleftrightarrow> get_class p (cl_uuid cl) = Some cl" for cl
    unfolding set_classes_in_order using own listed by blast
  let ?m = "map (\<lambda>cl. (cl_uuid cl, cl)) (classes_in_order p)"
  have "distinct (map fst ?m)" using assms by (simp add: o_def order project_inv_def)
  note lookup = map_of_eq_Some_iff[OF this]
  have same: "map_of ?m u = Some cl \<longleftrightarrow> get_class p u = Some cl" for u cl
    unfolding lookup using mem[of cl] own[of u cl] by (simp add: image_iff) blast
  have "map_of ?m u = get_class p u" for u
    using same[of u "the (get_class p u)"] same[of u "the (map_of ?m u)"]
    by (cases "get_class p u"; cases "map_of ?m u") auto
  with order mem show ?thesis by blast
qed

lemma from_file_to_file:
  assumes "uuid_laws U" "project_wf p"
  shows "\<exists>p'. from_file U new_v4 builtins (to_file U p) = Inr p' \<and> pr_name p' = pr_name p \<and> pr_enums p' = pr_enums p
    \<and> pr_order p' = pr_order p \<and> (\<forall>u. get_class p' u = get_class p u)"
proof -
  have inv: "project_inv p" using assms(2) by (simp add: project_wf_def)
  let ?p0 = "(Project_new (pr_name p))\<lparr>pr_enums := pr_enums p\<rparr>"
  let ?cls = "classes_in_order p"
  have cls: "\<exists>u. (u, cl) \<in> set (pr_classes p)" if "cl \<in> set ?cls" for cl
    using that classes_in_order_all[OF inv] get_class_Some_iff[OF inv] by blast
  have "load_classes U new_v4 builtins (map (class_to_def U) ?cls) 0 ?p0 = Inr (fold add_class ?cls ?p0)"
    using assms(2) cls by (intro load_classes_defs[OF assms(1)]) (fastforce simp: project_wf_def)
  moreover have "map (enum_from_def \<circ> enum_to_def) (pr_enums p) = pr_enums p" by (simp add: o_def)
  ultimately have loaded: "from_file U new_v4 builtins (to_file U p) = Inr (fold add_class ?cls ?p0)"
    by (simp add: from_file_def to_file_def classes_in_order_def[symmetric])
  have new: "get_class ?p0 = Map.empty" by (simp add: get_class_def Project_new_def fun_eq_iff)
  have "distinct (map cl_uuid ?cls)" using classes_in_order_all[OF inv] inv by (simp add: project_inv_def)
  from fold_add_class[OF this, of ?p0] loaded classes_in_order_all[OF inv] new show ?thesis
    by (intro exI[of _ "fold add_class ?cls ?p0"]) (simp add: Project_new_def)
qed

text \<open>
  C17. A project whose nodes are well formed and at most 128 levels deep survives saving and loading, as far as the
  TOML library reads back the file it printed: name, enums, class order and every class are the same.
\<close>

theorem project_toml_roundtrip:
  assumes "uuid_laws U" "project_wf p"
    and "\<And>s. toml_to_string (to_file U p) = Inr s \<Longrightarrow> toml_from_str s = Inr (to_file U p)"
    and "to_toml U toml_to_string p = Inr s"
  shows "\<exists>p'. from_toml U new_v4 toml_from_str builtins s = Inr p' \<and> pr_name p' = pr_name p \<and> pr_enums p' = pr_enums p
    \<and> pr_order p' = pr_order p \<and> (\<forall>u. get_class p' u = get_class p u)"
proof -
  have "toml_from_str s = Inr (to_file U p)"
    using assms(3,4) by (cases "toml_to_string (to_file U p)") (auto simp: to_toml_def)
  then show ?thesis using from_file_to_file[OF assms(1,2)] by (simp add: from_toml_def)
qed

theorem project_toml_roundtrip_witness:
  "\<exists>p'. from_toml hex_uuid (\<lambda>_. 0)
      (\<lambda>_. Inr (to_file hex_uuid (add_class (ClassNode 3 [67] [] [] [PointerNode [68] [] (Some 3)]) (Project_new [65]))))
      builtins [] = Inr p' \<and> pr_order p' = [3] \<and> get_class p' 3 = Some (ClassNode 3 [67] [] [] [PointerNode [68] [] (Some 3)])"
proof -
  let ?n = "PointerNode [68] [] (Some 3)"
  let ?p = "add_class (ClassNode 3 [67] [] [] [?n]) (Project_new [65])"
  have "node_wf ?n" "node_depth ?n \<le> 128"
    using node_wf_iff[of ?n] node_depth_le[of ?n 127] by (simp_all add: node_fields_wf_def)
  moreover have "pr_classes ?p = [(3, ClassNode 3 [67] [] [] [?n])]"
    by (simp add: add_class_def Let_def Project_new_def)
  ultimately have "project_wf ?p"
    using project_inv_add[OF project_inv_new] by (simp add: project_wf_def)
  from project_toml_roundtrip[OF hex_uuid_laws this, of "\<lambda>_. Inr []" "\<lambda>_. Inr (to_file hex_uuid ?p)" "[]" "\<lambda>_. 0"]
  obtain p' where "from_toml hex_uuid (\<lambda>_. 0) (\<lambda>_. Inr (to_file hex_uuid ?p)) builtins [] = Inr p'"
      "pr_order p' = pr_order ?p" "\<forall>u. get_class p' u = get_class ?p u"
    by (auto simp: to_toml_def)
  moreover have "pr_order ?p = [3]" by (simp add: add_class_def Let_def get_class_new) (simp add: Project_new_def)
  ultimately show ?thesis by auto
qed

end
