(* ===== verification/Codegen.thy ===== *)
theory Codegen
  imports Project
begin

text \<open>
  The layout half of code generation (nemclass-model/src/codegen/mod.rs) and \<open>Project::resolved_class_size\<close>:
  identifiers, the size a class instance contributes inline with its guard against cyclic embedding, and the
  fields of a class with their offsets.

  The visited set is inserted into before the recursive call and removed from after it, so it is passed by value.
  \<open>char::is_alphanumeric\<close> is written out for ASCII; its Unicode part is a parameter, a predicate on code points.
\<close>

section \<open>Identifiers\<close>

definition is_ascii_digit :: "nat \<Rightarrow> bool" where
  "is_ascii_digit c \<longleftrightarrow> 48 \<le> c \<and> c \<le> 57"

definition is_alphanumeric :: "(nat \<Rightarrow> bool) \<Rightarrow> nat \<Rightarrow> bool" where
  "is_alphanumeric uni c \<longleftrightarrow>
     (if c < 128 then is_ascii_digit c \<or> (65 \<le> c \<and> c \<le> 90) \<or> (97 \<le> c \<and> c \<le> 122) else uni c)"

definition sanitize_ident :: "(nat \<Rightarrow> bool) \<Rightarrow> utext \<Rightarrow> utext" where
  "sanitize_ident uni name =
     (if name = [] then codes ''_unnamed''
      else let out = map (\<lambda>c. if is_alphanumeric uni c \<or> c = 95 then c else 95) name
           in if is_ascii_digit (hd out) then 95 # out else out)"

section \<open>Resolved sizes\<close>

definition instance_target :: "uuid_lib \<Rightarrow> node_def \<Rightarrow> uuid option" where
  "instance_target U d = Option.bind (Option.bind (nd_attrs d ''class_uuid'') as_str) (uuid_parse U)"

function resolved_class_size :: "uuid_lib \<Rightarrow> project \<Rightarrow> uuid set \<Rightarrow> class_node \<Rightarrow> usize"
and resolved_node_size :: "uuid_lib \<Rightarrow> project \<Rightarrow> uuid set \<Rightarrow> node \<Rightarrow> usize" where
  "resolved_class_size U p visited cl = foldl saturating_add 0 (map (resolved_node_size U p visited) (cl_children cl))"
| "resolved_node_size U p visited n =
     (let d = to_node_def U n
      in if nd_type_tag d = ''ClassInstance'' then
           (case instance_target U d of
              None \<Rightarrow> 0
            | Some uuid \<Rightarrow>
                if uuid \<in> visited then 0
                else (case get_class p uuid of
                        None \<Rightarrow> 0
                      | Some target \<Rightarrow> resolved_class_size U p (insert uuid visited) target))
         else memory_size n)"
  by pat_completeness auto

lemma card_unvisited_less:
  assumes "get_class p u = Some cl" "u \<notin> V"
  shows "card (fst ` set (pr_classes p) - insert u V) < card (fst ` set (pr_classes p) - V)"
proof (rule psubset_card_mono)
  have "u \<in> fst ` set (pr_classes p)" using assms(1) by (force simp: get_class_def dest: map_of_SomeD)
  then show "fst ` set (pr_classes p) - insert u V \<subset> fst ` set (pr_classes p) - V" using assms(2) by auto
qed simp

text \<open>Termination: an inline embedding visits one more class of the project.\<close>

termination resolved_class_size
proof (relation "measures
    [\<lambda>x. case x of Inl (U, p, V, cl) \<Rightarrow> card (fst ` set (pr_classes p) - V) | Inr (U, p, V, n) \<Rightarrow> card (fst ` set (pr_classes p) - V),
     \<lambda>x. case x of Inl _ \<Rightarrow> 1 | Inr _ \<Rightarrow> 0]", goal_cases)
  case (3 U p visited n d uuid target)
  then show ?case using card_unvisited_less[of p uuid target visited] by simp
qed simp_all

declare resolved_class_size.simps [simp del] resolved_node_size.simps [simp del]

definition Project_resolved_class_size :: "uuid_lib \<Rightarrow> project \<Rightarrow> uuid \<Rightarrow> usize" where
  "Project_resolved_class_size U p u =
     (case get_class p u of None \<Rightarrow> 0 | Some cl \<Rightarrow> resolved_class_size U p {u} cl)"

section \<open>Fields\<close>

datatype prim_kind =
    PInt8 | PInt16 | PInt32 | PInt64 | PUInt8 | PUInt16 | PUInt32 | PUInt64 | PFloat | PDouble | PBool

datatype field_kind =
    Primitive prim_kind
  | RawBytes usize
  | PointerField "utext option"
  | ClassInstanceField utext
  | ArrayField usize
  | Utf8TextField usize
  | Utf16TextField usize
  | VectorField nat float_width
  | MatrixField nat nat float_width

record field_info =
  fi_name :: utext
  fi_offset :: usize
  fi_kind :: field_kind
  fi_comment :: utext

definition prim_tags :: "(string \<times> field_kind) list" where
  "prim_tags =
    [(''Int8'', Primitive PInt8), (''Int16'', Primitive PInt16), (''Int32'', Primitive PInt32), (''Int64'', Primitive PInt64),
     (''UInt8'', Primitive PUInt8), (''UInt16'', Primitive PUInt16), (''UInt32'', Primitive PUInt32),
     (''UInt64'', Primitive PUInt64), (''Float'', Primitive PFloat), (''Double'', Primitive PDouble),
     (''Bool'', Primitive PBool),
     (''Hex8'', RawBytes 1), (''Hex16'', RawBytes 2), (''Hex32'', RawBytes 4), (''Hex64'', RawBytes 8)]"

text \<open>The comment of an instance whose class is missing, or whose class cannot be read.\<close>

definition unresolved_comment :: "utext \<Rightarrow> utext \<Rightarrow> utext" where
  "unresolved_comment comment what = (if comment = [] then what else comment @ codes '' '' @ what)"

text \<open>Kind and comment of one child: the match on the type tag.\<close>

definition field_kind_of :: "uuid_lib \<Rightarrow> (nat \<Rightarrow> bool) \<Rightarrow> project \<Rightarrow> node_def \<Rightarrow> usize \<Rightarrow> field_kind \<times> utext" where
  "field_kind_of U uni p d contributed_size =
     (let tag = nd_type_tag d; comment = nd_comment d
      in case map_of prim_tags tag of
        Some k \<Rightarrow> (k, comment)
      | None \<Rightarrow>
        if tag = ''Pointer'' then
          (PointerField
             (map_option (\<lambda>c. sanitize_ident uni (cl_name c))
               (Option.bind (Option.bind (Option.bind (nd_attrs d ''target_class_uuid'') as_str) (uuid_parse U)) (get_class p))),
           comment)
        else if tag = ''ClassInstance'' then
          (case instance_target U d of
             Some uuid \<Rightarrow>
               (case get_class p uuid of
                  Some c \<Rightarrow> (ClassInstanceField (sanitize_ident uni (cl_name c)), comment)
                | None \<Rightarrow> (RawBytes 0, unresolved_comment comment (codes ''UNRESOLVED '' @ uuid_to_string U uuid)))
           | None \<Rightarrow> (RawBytes 0, unresolved_comment comment (codes ''UNRESOLVED (missing class_uuid)'')))
        else if tag = ''Array'' then
          (ArrayField (saturating_mul (attr_usize d ''count'' 0) (attr_usize d ''element_size'' 1)), comment)
        else if tag = ''Utf8Text'' then (Utf8TextField (attr_usize d ''length'' 0), comment)
        else if tag = ''Utf16Text'' then (Utf16TextField (attr_usize d ''length'' 0), comment)
        else if tag = ''StrPtr'' then (PointerField None, comment)
        else case vector_shape tag of
          Some (components, width) \<Rightarrow> (VectorField components width, comment)
        | None \<Rightarrow>
            (case matrix_shape tag of
               Some (rows, cols, width) \<Rightarrow> (MatrixField rows cols width, comment)
             | None \<Rightarrow> (RawBytes contributed_size, comment)))"

text \<open>The loop of \<open>resolve_fields\<close>, with its running offset.\<close>

fun fields_loop :: "uuid_lib \<Rightarrow> (nat \<Rightarrow> bool) \<Rightarrow> project \<Rightarrow> usize \<Rightarrow> node list \<Rightarrow> field_info list" where
  "fields_loop U uni p offset [] = []"
| "fields_loop U uni p offset (child # rest) =
     (let contributed_size = resolved_node_size U p {} child;
          (kind, comment) = field_kind_of U uni p (to_node_def U child) contributed_size
      in \<lparr>fi_name = sanitize_ident uni (node_name child), fi_offset = offset, fi_kind = kind, fi_comment = comment\<rparr>
         # fields_loop U uni p (saturating_add offset contributed_size) rest)"

definition resolve_fields :: "uuid_lib \<Rightarrow> (nat \<Rightarrow> bool) \<Rightarrow> project \<Rightarrow> class_node \<Rightarrow> field_info list" where
  "resolve_fields U uni p cl = fields_loop U uni p 0 (cl_children cl)"

section \<open>Identifiers are valid\<close>

definition ident_char :: "(nat \<Rightarrow> bool) \<Rightarrow> nat \<Rightarrow> bool" where
  "ident_char uni c \<longleftrightarrow> is_alphanumeric uni c \<or> c = 95"

lemma sanitize_ident_keep:
  assumes "s \<noteq> []" "list_all (ident_char uni) s" "\<not> is_ascii_digit (hd s)"
  shows "sanitize_ident uni s = s"
proof -
  have "map (\<lambda>c. if is_alphanumeric uni c \<or> c = 95 then c else 95) s = s"
    using assms(2) by (induction s) (auto simp: ident_char_def)
  then show ?thesis using assms by (simp add: sanitize_ident_def Let_def)
qed

text \<open>
  A sanitised name is never empty, consists of alphanumeric characters and underscores, does not start with a
  digit, and is left alone when it is sanitised again.
\<close>

theorem sanitize_ident_valid:
  "sanitize_ident uni name \<noteq> [] \<and> list_all (ident_char uni) (sanitize_ident uni name)
   \<and> \<not> is_ascii_digit (hd (sanitize_ident uni name))
   \<and> sanitize_ident uni (sanitize_ident uni name) = sanitize_ident uni name"
proof -
  let ?f = "\<lambda>c. if is_alphanumeric uni c \<or> c = 95 then c else 95"
  have chars: "list_all (ident_char uni) (map ?f xs)" for xs by (auto simp: list_all_iff ident_char_def)
  have "sanitize_ident uni name \<noteq> [] \<and> list_all (ident_char uni) (sanitize_ident uni name)
      \<and> \<not> is_ascii_digit (hd (sanitize_ident uni name))"
  proof (cases "name = []")
    case True
    then show ?thesis
      by (simp add: sanitize_ident_def list_all_iff ident_char_def is_alphanumeric_def is_ascii_digit_def)
  next
    case False
    have "ident_char uni 95" "\<not> is_ascii_digit 95" by (simp_all add: ident_char_def is_ascii_digit_def)
    with False chars[of name] show ?thesis by (auto simp: sanitize_ident_def Let_def)
  qed
  then show ?thesis using sanitize_ident_keep by blast
qed

section \<open>Embedding\<close>

text \<open>The classes a class embeds inline, and the relation this gives on the classes of a project.\<close>

definition embedded :: "node list \<Rightarrow> uuid set" where
  "embedded ns = {v. \<exists>n c. ClassInstanceNode n c v \<in> set ns}"

definition embeds :: "project \<Rightarrow> (uuid \<times> uuid) set" where
  "embeds p = {(u, v). \<exists>cl. get_class p u = Some cl \<and> v \<in> embedded (cl_children cl)}"

definition unreachable :: "project \<Rightarrow> uuid set \<Rightarrow> uuid set \<Rightarrow> bool" where
  "unreachable p A V \<longleftrightarrow> (\<forall>v\<in>A. \<forall>x. (v, x) \<in> (embeds p)\<^sup>* \<longrightarrow> x \<notin> V)"

lemma instance_target_instance: "uuid_laws U \<Longrightarrow> instance_target U (to_node_def U (ClassInstanceNode n c v)) = Some v"
  by (simp add: instance_target_def as_str_def)

lemma resolved_node_size_instance:
  "uuid_laws U \<Longrightarrow> resolved_node_size U p V (ClassInstanceNode n c v) =
     (if v \<in> V then 0 else case get_class p v of None \<Rightarrow> 0 | Some t \<Rightarrow> resolved_class_size U p (insert v V) t)"
  by (subst resolved_node_size.simps) (simp add: Let_def instance_target_instance del: to_node_def.simps)

lemma type_tag_instance: "type_tag n = ''ClassInstance'' \<longleftrightarrow> (\<exists>a c v. n = ClassInstanceNode a c v)"
  by (cases n) simp_all

lemma resolved_node_size_other:
  "type_tag n \<noteq> ''ClassInstance'' \<Longrightarrow> resolved_node_size U p V n = memory_size n"
  by (subst resolved_node_size.simps) (simp add: Let_def)

lemma unreachable_step:
  assumes "acyclic (embeds p)" "unreachable p {v} V" "get_class p v = Some t"
  shows "unreachable p (embedded (cl_children t)) (insert v V)"
  unfolding unreachable_def
proof (intro ballI allI impI)
  fix w x assume "w \<in> embedded (cl_children t)" "(w, x) \<in> (embeds p)\<^sup>*"
  moreover from this(1) assms(3) have "(v, w) \<in> embeds p" by (simp add: embeds_def)
  ultimately have "(v, x) \<in> (embeds p)\<^sup>+" by simp
  then show "x \<notin> insert v V"
    using assms(1,2) trancl_into_rtrancl by (fastforce simp: acyclic_def unreachable_def)
qed

text \<open>The visited set does not matter to a class that cannot reach it.\<close>

lemma resolved_size_unreachable:
  assumes U: "uuid_laws U" and ac: "acyclic (embeds p)"
  shows "unreachable p (embedded (cl_children cl)) V \<Longrightarrow> unreachable p (embedded (cl_children cl)) W \<Longrightarrow>
      resolved_class_size U p V cl = resolved_class_size U p W cl"
    and "unreachable p (embedded [n]) V \<Longrightarrow> unreachable p (embedded [n]) W \<Longrightarrow>
      resolved_node_size U p V n = resolved_node_size U p W n"
  using assms
proof (induction U p V cl and U p V n arbitrary: W and W rule: resolved_class_size_resolved_node_size.induct)
  case (1 U p V cl)
  have "resolved_node_size U p V n = resolved_node_size U p W n" if "n \<in> set (cl_children cl)" for n
  proof -
    have "embedded [n] \<subseteq> embedded (cl_children cl)" using that by (auto simp: embedded_def)
    then have "unreachable p (embedded [n]) V" "unreachable p (embedded [n]) W"
      using 1(2,3) by (auto simp: unreachable_def)
    with 1(1)[OF that] 1(4,5) show ?thesis by blast
  qed
  then show ?case
    by (simp add: resolved_class_size.simps[of U p V] resolved_class_size.simps[of U p W] cong: map_cong)
next
  case (2 U p V n)
  show ?case
  proof (cases "type_tag n = ''ClassInstance''")
    case True
    then obtain a c v where n: "n = ClassInstanceNode a c v" by (auto simp: type_tag_instance)
    have sets: "unreachable p {v} V" "unreachable p {v} W" using 2(2,3) by (simp_all add: n embedded_def)
    then have notin: "v \<notin> V" "v \<notin> W" by (auto simp: unreachable_def)
    have "resolved_class_size U p (insert v V) t = resolved_class_size U p (insert v W) t" if t: "get_class p v = Some t" for t
    proof (rule 2(1)[OF refl _ _ notin(1) t])
      show "nd_type_tag (to_node_def U n) = ''ClassInstance''" "instance_target U (to_node_def U n) = Some v"
        using True instance_target_instance[OF 2(4)] by (simp_all only: to_node_def_own n)
    qed (use 2(4,5) sets t unreachable_step in blast)+
    then show ?thesis by (simp add: n resolved_node_size_instance[OF 2(4)] notin split: option.split)
  qed (simp add: resolved_node_size_other)
qed

text \<open>
  In a project whose classes do not embed each other in a circle, the resolved size of a class is the sum of the
  sizes of its nodes, where an inline instance counts the resolved size of the class it names: the recursion with
  its visited set computes this bottom-up layout.
\<close>

theorem resolved_size_compositional:
  assumes "uuid_laws U" "acyclic (embeds p)" "get_class p u = Some cl"
  shows "Project_resolved_class_size U p u =
      foldl saturating_add 0 (map (\<lambda>n. case n of ClassInstanceNode _ _ v \<Rightarrow> Project_resolved_class_size U p v | _ \<Rightarrow> memory_size n)
        (cl_children cl))
    \<and> resolved_class_size U p {} cl = Project_resolved_class_size U p u"
proof -
  have no_self: "unreachable p {v} {u}" "v \<noteq> u" if "v \<in> embedded (cl_children cl)" for v
  proof -
    have "(u, v) \<in> embeds p" using that assms(3) by (simp add: embeds_def)
    then have "(v, u) \<notin> (embeds p)\<^sup>*" using assms(2) by (meson acyclic_def rtrancl_into_trancl2)
    then show "unreachable p {v} {u}" "v \<noteq> u" by (auto simp: unreachable_def)
  qed
  have empty: "unreachable p A {}" for A by (simp add: unreachable_def)
  have node: "resolved_node_size U p {u} n =
      (case n of ClassInstanceNode _ _ v \<Rightarrow> Project_resolved_class_size U p v | _ \<Rightarrow> memory_size n)"
    if "n \<in> set (cl_children cl)" for n
  proof (cases "type_tag n = ''ClassInstance''")
    case True
    then obtain a c v where n: "n = ClassInstanceNode a c v" by (auto simp: type_tag_instance)
    have v: "v \<in> embedded (cl_children cl)" using that by (auto simp: n embedded_def)
    have "resolved_class_size U p (insert v {u}) t = resolved_class_size U p (insert v {}) t" if "get_class p v = Some t" for t
      using unreachable_step[OF assms(2) no_self(1)[OF v] that] unreachable_step[OF assms(2) empty that]
      by (rule resolved_size_unreachable(1)[OF assms(1,2)])
    then show ?thesis using no_self(2)[OF v]
      by (simp add: n resolved_node_size_instance[OF assms(1)] Project_resolved_class_size_def split: option.split)
  next
    case False
    then show ?thesis by (cases n) (simp_all add: resolved_node_size_other)
  qed
  have "unreachable p (embedded (cl_children cl)) {u}" using no_self(1) by (auto simp: unreachable_def)
  then have "resolved_class_size U p {} cl = resolved_class_size U p {u} cl"
    by (intro resolved_size_unreachable(1)[OF assms(1,2)] empty)
  then show ?thesis
    by (simp add: Project_resolved_class_size_def assms(3) resolved_class_size.simps[of U p "{u}"] node cong: map_cong)
qed

definition example_project :: project where
  "example_project = add_class (ClassNode 1 [65] [] [] [SimpleNode Int32Node [66] [], ClassInstanceNode [67] [] 2])
     (add_class (ClassNode 2 [68] [] [] [SimpleNode Int64Node [69] []]) (Project_new []))"

lemma example_get_class: "get_class example_project =
    [2 \<mapsto> ClassNode 2 [68] [] [] [SimpleNode Int64Node [69] []],
     1 \<mapsto> ClassNode 1 [65] [] [] [SimpleNode Int32Node [66] [], ClassInstanceNode [67] [] 2]]"
  by (simp add: example_project_def get_class_new)

lemma example_acyclic: "acyclic (embeds example_project)"
proof (rule acyclic_subset)
  show "embeds example_project \<subseteq> {(1, 2)}"
    by (auto simp: embeds_def example_get_class embedded_def split: if_splits)
  show "acyclic {(1 :: uuid, 2 :: uuid)}" by (simp add: acyclic_insert wf_acyclic)
qed

theorem resolved_size_compositional_witness: "Project_resolved_class_size hex_uuid example_project 1 = 12"
proof -
  note eq = resolved_size_compositional[OF hex_uuid_laws example_acyclic]
  have "Project_resolved_class_size hex_uuid example_project 2 = 8"
    using eq[of 2] by (simp add: example_get_class saturating_add_def small_le_USIZE_MAX min_absorb1)
  then show ?thesis
    using eq[of 1] by (simp add: example_get_class saturating_add_def small_le_USIZE_MAX min_absorb1)
qed

text \<open>
  A class that embeds itself has two sizes: the one the interface shows starts with the class visited, the one the
  generators assert does not.
\<close>

lemma self_embedding_sizes_differ:
  assumes "uuid_laws U" "get_class p u = Some (ClassNode u a b f [SimpleNode Int32Node c d, ClassInstanceNode g h u])"
  shows "Project_resolved_class_size U p u = 4"
    and "resolved_class_size U p {} (ClassNode u a b f [SimpleNode Int32Node c d, ClassInstanceNode g h u]) = 8"
proof -
  have four: "resolved_class_size U p {u} (ClassNode u a b f [SimpleNode Int32Node c d, ClassInstanceNode g h u]) = 4"
    by (subst resolved_class_size.simps)
      (simp add: resolved_node_size_instance[OF assms(1)] resolved_node_size_other saturating_add_def small_le_USIZE_MAX min_absorb1)
  then show "Project_resolved_class_size U p u = 4" by (simp add: Project_resolved_class_size_def assms(2))
  show "resolved_class_size U p {} (ClassNode u a b f [SimpleNode Int32Node c d, ClassInstanceNode g h u]) = 8"
    by (subst resolved_class_size.simps)
      (simp add: resolved_node_size_instance[OF assms(1)] resolved_node_size_other saturating_add_def small_le_USIZE_MAX
        min_absorb1 assms(2) four)
qed

section \<open>Layout\<close>

text \<open>The bytes a field's declared type stands for; an inline instance takes the size of the class it names.\<close>

fun prim_width :: "prim_kind \<Rightarrow> usize" where
  "prim_width PInt8 = 1" | "prim_width PInt16 = 2" | "prim_width PInt32 = 4" | "prim_width PInt64 = 8"
| "prim_width PUInt8 = 1" | "prim_width PUInt16 = 2" | "prim_width PUInt32 = 4" | "prim_width PUInt64 = 8"
| "prim_width PFloat = 4" | "prim_width PDouble = 8" | "prim_width PBool = 1"

fun field_width :: "field_kind \<Rightarrow> usize \<Rightarrow> usize" where
  "field_width (Primitive k) inst = prim_width k"
| "field_width (RawBytes n) inst = n"
| "field_width (PointerField t) inst = 8"
| "field_width (ClassInstanceField t) inst = inst"
| "field_width (ArrayField n) inst = n"
| "field_width (Utf8TextField n) inst = n"
| "field_width (Utf16TextField n) inst = n"
| "field_width (VectorField k w) inst = k * FloatWidth_size w"
| "field_width (MatrixField r k w) inst = r * k * FloatWidth_size w"

definition instance_size :: "uuid_lib \<Rightarrow> project \<Rightarrow> node \<Rightarrow> usize" where
  "instance_size U p n =
     (case n of
        ClassInstanceNode _ _ v \<Rightarrow> (case get_class p v of Some t \<Rightarrow> resolved_class_size U p {v} t | None \<Rightarrow> 0)
      | _ \<Rightarrow> 0)"

lemma prim_tags_simple:
  "map_of prim_tags (simple_tag k) =
     (if k \<in> {StrPtrNode, VMethodNode, FunctionPtrNode} then None
      else Some (case k of
        Int8Node \<Rightarrow> Primitive PInt8 | Int16Node \<Rightarrow> Primitive PInt16 | Int32Node \<Rightarrow> Primitive PInt32 | Int64Node \<Rightarrow> Primitive PInt64
      | UInt8Node \<Rightarrow> Primitive PUInt8 | UInt16Node \<Rightarrow> Primitive PUInt16 | UInt32Node \<Rightarrow> Primitive PUInt32
      | UInt64Node \<Rightarrow> Primitive PUInt64 | Float32Node \<Rightarrow> Primitive PFloat | Float64Node \<Rightarrow> Primitive PDouble
      | BoolNode \<Rightarrow> Primitive PBool | _ \<Rightarrow> RawBytes (simple_size k)))"
  by (cases k) (simp_all add: prim_tags_def)

lemma prim_tags_other:
  "map_of prim_tags ''Pointer'' = None" "map_of prim_tags ''ClassInstance'' = None" "map_of prim_tags ''Array'' = None"
  "map_of prim_tags ''Utf8Text'' = None" "map_of prim_tags ''Utf16Text'' = None" "map_of prim_tags ''VTable'' = None"
  "map_of prim_tags ''Function'' = None" "map_of prim_tags ''Class'' = None"
  by (simp_all add: prim_tags_def)

text \<open>The tags of the shapes, checked one by one.\<close>

definition shape_tag_ok :: "string \<Rightarrow> bool" where
  "shape_tag_ok t \<longleftrightarrow> map_of prim_tags t = None \<and> t \<notin> set [''Array'', ''Utf8Text'', ''Utf16Text'', ''StrPtr'']"

lemma shape_tags_ok:
  "list_all (\<lambda>e. shape_tag_ok (fst e)) VECTOR_SHAPES"
  "list_all (\<lambda>e. shape_tag_ok (fst e) \<and> vector_shape (fst e) = None) MATRIX_SHAPES"
  by code_simp+

lemma vector_tag_ok: "shape_tag_ok (vector_tag k w)"
  using vector_tag_cases[of k w] shape_tags_ok(1) by (auto simp: list_all_iff)

lemma matrix_tag_ok: "shape_tag_ok (matrix_tag r c w)" "vector_shape (matrix_tag r c w) = None"
  using matrix_tag_cases[of r c w] shape_tags_ok(2) by (auto simp: list_all_iff)

lemma shape_tag_okD:
  "shape_tag_ok t \<Longrightarrow> map_of prim_tags t = None \<and> t \<noteq> ''Array'' \<and> t \<noteq> ''Utf8Text'' \<and> t \<noteq> ''Utf16Text'' \<and> t \<noteq> ''StrPtr''"
  by (simp add: shape_tag_ok_def)

lemma no_shape:
  "vector_shape ''VTable'' = None" "vector_shape ''Function'' = None" "vector_shape ''Class'' = None"
  "vector_shape ''VMethod'' = None" "vector_shape ''FunctionPtr'' = None"
  "matrix_shape ''VTable'' = None" "matrix_shape ''Function'' = None" "matrix_shape ''Class'' = None"
  "matrix_shape ''VMethod'' = None" "matrix_shape ''FunctionPtr'' = None"
  by code_simp+

lemma field_width_simple:
  "field_width (fst (field_kind_of U uni p (to_node_def U (SimpleNode k a b)) (simple_size k))) inst = simple_size k"
  by (cases k) (simp_all add: field_kind_of_def simple_def_def prim_tags_def no_shape)

lemma field_width_instance:
  assumes "uuid_laws U"
  shows "field_width (fst (field_kind_of U uni p (to_node_def U (ClassInstanceNode a b v)) 0))
      (instance_size U p (ClassInstanceNode a b v))
    = resolved_node_size U p {} (ClassInstanceNode a b v)"
  using instance_target_instance[OF assms, of a b v]
  by (auto simp: field_kind_of_def Let_def prim_tags_other resolved_node_size_instance[OF assms] instance_size_def
      split: option.splits)

text \<open>The width of a field's type is what the node contributes to the running offset.\<close>

lemma field_width_correct:
  assumes U: "uuid_laws U" and wf: "node_fields_wf n"
  shows "field_width (fst (field_kind_of U uni p (to_node_def U n) (resolved_node_size U p {} n))) (instance_size U p n)
    = resolved_node_size U p {} n"
proof (cases n)
  case (SimpleNode k a b)
  then show ?thesis by (simp add: resolved_node_size_other field_width_simple del: to_node_def.simps)
next
  case (ClassInstanceNode a b v)
  have "field_kind_of U uni p (to_node_def U n) k = field_kind_of U uni p (to_node_def U n) 0" for k
    using instance_target_instance[OF U, of a b v] by (simp add: ClassInstanceNode field_kind_of_def Let_def prim_tags_other)
  then show ?thesis using field_width_instance[OF U] ClassInstanceNode by metis
next
  case (VectorNode a b k w)
  then show ?thesis using wf shape_tag_okD[OF vector_tag_ok[of k w]]
    by (auto simp: resolved_node_size_other field_kind_of_def Let_def node_fields_wf_def)
next
  case (MatrixNode a b r k w)
  then show ?thesis using wf shape_tag_okD[OF matrix_tag_ok(1)[of r k w]]
    by (auto simp: resolved_node_size_other field_kind_of_def Let_def node_fields_wf_def matrix_tag_ok(2))
qed (use wf in \<open>simp_all add: node_fields_wf_def resolved_node_size_other field_kind_of_def Let_def prim_tags_other no_shape
    attr_usize_def\<close>)

lemma fields_loop_length [simp]: "length (fields_loop U uni p off ns) = length ns"
  by (induction ns arbitrary: off) (simp_all add: Let_def split: prod.split)

lemma fields_loop_name: "i < length ns \<Longrightarrow> fi_name (fields_loop U uni p off ns ! i) = sanitize_ident uni (node_name (ns ! i))"
  by (induction ns arbitrary: off i) (auto simp: Let_def nth_Cons split: prod.split nat.split)

lemma min_saturating_add: "min (saturating_add a b + c) USIZE_MAX = min (a + (b + c)) USIZE_MAX"
  by (simp add: saturating_add_def)

lemma fields_loop_nth:
  "i < length ns \<Longrightarrow> off \<le> USIZE_MAX \<Longrightarrow>
   fi_offset (fields_loop U uni p off ns ! i) = min (off + (\<Sum>n\<leftarrow>take i ns. resolved_node_size U p {} n)) USIZE_MAX
   \<and> fi_kind (fields_loop U uni p off ns ! i)
      = fst (field_kind_of U uni p (to_node_def U (ns ! i)) (resolved_node_size U p {} (ns ! i)))"
proof (induction ns arbitrary: off i)
  case (Cons n ns)
  show ?case
  proof (cases i)
    case 0
    with Cons(3) show ?thesis by (simp add: Let_def split: prod.split)
  next
    case (Suc j)
    with Cons(1)[of j "saturating_add off (resolved_node_size U p {} n)"] Cons(2) show ?thesis
      by (simp add: Let_def min_saturating_add split: prod.split)
  qed
qed simp

text \<open>
  C19. The fields of a class follow its nodes one for one; each starts where the ones before it end (clamped to the
  address range), its declared type is as wide as its node, and the resolved size of the class is the sum of the widths.
\<close>

theorem resolve_fields_layout:
  assumes "uuid_laws U" "\<And>n. n \<in> set (cl_children cl) \<Longrightarrow> node_wf n"
  shows "length (resolve_fields U uni p cl) = length (cl_children cl)
    \<and> (\<forall>i<length (cl_children cl).
         fi_offset (resolve_fields U uni p cl ! i)
           = min (\<Sum>j<i. field_width (fi_kind (resolve_fields U uni p cl ! j)) (instance_size U p (cl_children cl ! j))) USIZE_MAX)
    \<and> resolved_class_size U p {} cl
        = min (\<Sum>j<length (cl_children cl). field_width (fi_kind (resolve_fields U uni p cl ! j)) (instance_size U p (cl_children cl ! j))) USIZE_MAX"
proof -
  let ?ns = "cl_children cl" and ?size = "resolved_node_size U p {}"
  have width: "field_width (fi_kind (resolve_fields U uni p cl ! j)) (instance_size U p (?ns ! j)) = ?size (?ns ! j)"
    if "j < length ?ns" for j
    using that fields_loop_nth[of j ?ns 0 U uni p] assms(2)[of "?ns ! j"]
    by (simp add: resolve_fields_def field_width_correct[OF assms(1)] node_wf_fields)
  have sum: "(\<Sum>n\<leftarrow>take i ?ns. ?size n)
      = (\<Sum>j<i. field_width (fi_kind (resolve_fields U uni p cl ! j)) (instance_size U p (?ns ! j)))" if "i \<le> length ?ns" for i
    using that by (simp add: sum_list_sum_nth atLeast0LessThan width)
  have "fi_offset (resolve_fields U uni p cl ! i) = min (\<Sum>n\<leftarrow>take i ?ns. ?size n) USIZE_MAX" if "i < length ?ns" for i
    using fields_loop_nth[OF that, of 0 U uni p] by (simp add: resolve_fields_def)
  moreover have "resolved_class_size U p {} cl = min (\<Sum>n\<leftarrow>?ns. ?size n) USIZE_MAX"
    by (simp add: resolved_class_size.simps[of U p] foldl_saturating_add)
  ultimately show ?thesis using sum sum[of "length ?ns"] by (simp add: resolve_fields_def)
qed

theorem resolve_fields_layout_witness:
  "map fi_offset (resolve_fields hex_uuid (\<lambda>_. False) example_project (the (get_class example_project 1))) = [0, 4]"
proof -
  let ?cl = "ClassNode 1 [65] [] [] [SimpleNode Int32Node [66] [], ClassInstanceNode [67] [] 2]"
  let ?fs = "resolve_fields hex_uuid (\<lambda>_. False) example_project ?cl"
  have wf: "n \<in> set (cl_children ?cl) \<Longrightarrow> node_wf n" for n
    using node_wf_iff[of n] by (auto simp: node_fields_wf_def)
  note layout = resolve_fields_layout[OF hex_uuid_laws, of ?cl, OF wf, of "\<lambda>_. False" example_project]
  have "fi_kind (?fs ! 0) = Primitive PInt32"
    by (simp add: resolve_fields_def Let_def field_kind_of_def simple_def_def prim_tags_def split: prod.split)
  then have "fi_offset (?fs ! 0) = 0" "fi_offset (?fs ! 1) = 4" "length ?fs = 2"
    using layout by (auto simp: small_le_USIZE_MAX min_absorb1)
  then have "map fi_offset ?fs = [0, 4]" by (cases ?fs; cases "tl ?fs") auto
  then show ?thesis by (simp add: example_get_class)
qed

end
