(* ===== verification/Dissect.thy ===== *)
theory Dissect
  imports Analysis Codegen
begin

text \<open>
  Auto-dissect (nemclass-model/src/dissect.rs) and its acceptance into a class
  (\<open>accept_auto_dissect\<close> in nemclass-ui/src/views/mod.rs).

  A buffer is walked in pointer-sized steps: a printable run at the offset becomes a text node, any other eight
  bytes are classified as a machine word. The classifier is an argument, as it is in the code; \<open>auto_dissect\<close>
  passes \<open>classify_value\<close> of theory \<open>Analysis\<close> with the region index and the reads of the process.
\<close>

section \<open>Building definitions\<close>

definition STRING_MIN_LEN :: nat where "STRING_MIN_LEN = 4"
definition INT64_SMALL_BOUND :: int where "INT64_SMALL_BOUND = 0x100000000"

definition leaf_def :: "string \<Rightarrow> utext \<Rightarrow> node_def" where
  "leaf_def tag name = NodeDef tag name [] Map.empty []"

definition leaf_def_with_int :: "string \<Rightarrow> utext \<Rightarrow> string \<Rightarrow> int \<Rightarrow> node_def" where
  "leaf_def_with_int tag name attr val = NodeDef tag name [] [attr \<mapsto> TInteger val] []"

text \<open>\<open>(n + align - 1) & !(align - 1)\<close>.\<close>

definition round_up :: "usize \<Rightarrow> usize \<Rightarrow> usize" where
  "round_up n align = nat (int (n + align - 1) AND NOT (int (align - 1)))"

text \<open>\<open>format!("field_{offset:#x}")\<close> and \<open>format!("method_{i}")\<close>.\<close>

definition field_name :: "usize \<Rightarrow> utext" where
  "field_name offset = codes ''field_0x'' @ codes (format_hex offset)"

definition method_name :: "nat \<Rightarrow> utext" where
  "method_name i = codes ''method_'' @ codes (format_dec i)"

text \<open>\<open>u64::from_le_bytes\<close> of the eight bytes at an offset.\<close>

definition word_at :: "bytes \<Rightarrow> usize \<Rightarrow> 64 word" where
  "word_at buf offset = of_nat (le_nat (slice buf offset 8))"

text \<open>\<open>i64::unsigned_abs\<close>, whose value is at most \<open>2 ^ 63\<close>.\<close>

definition unsigned_abs :: "int \<Rightarrow> int" where
  "unsigned_abs v = abs v"

section \<open>The walk\<close>

text \<open>The match on the class of a word.\<close>

definition dissect_word :: "utext \<Rightarrow> pointer_class \<Rightarrow> 64 word \<Rightarrow> node_def" where
  "dissect_word name cls value =
     (case cls of
        VTablePtr method_count \<Rightarrow>
          NodeDef ''VTable'' name [] Map.empty (map (\<lambda>i. leaf_def ''VMethod'' (method_name i)) [0..<method_count])
      | CodePtr \<Rightarrow> leaf_def ''FunctionPtr'' name
      | DataPtr \<Rightarrow> leaf_def ''Pointer'' name
      | _ \<Rightarrow> if unsigned_abs (sint value) < INT64_SMALL_BOUND then leaf_def ''Int64'' name else leaf_def ''Hex64'' name)"

lemma and_not_7: "(m :: int) AND - 8 = m div 8 * 8"
proof -
  have "m AND NOT (mask 3) = push_bit 3 (drop_bit 3 m)"
    by (rule bit_eqI) (auto simp: bit_and_iff bit_not_iff bit_mask_iff bit_push_bit_iff bit_drop_bit_eq)
  moreover have "NOT (mask 3 :: int) = - 8" by (simp add: mask_eq_exp_minus_1)
  ultimately show ?thesis by (simp add: push_bit_eq_mult drop_bit_eq_div)
qed

lemma round_up_8: "round_up n 8 = (n + 7) div 8 * 8"
proof -
  have "int (n + 8 - 1) AND NOT (int (8 - 1)) = int ((n + 7) div 8 * 8)"
    using and_not_7[of "int (n + 7)"] by (simp add: zdiv_int add.commute)
  then show ?thesis unfolding round_up_def by (simp only: nat_int)
qed

lemma round_up_8_ge: "n \<le> round_up n 8"
  unfolding round_up_8 by linarith

function dissect_from :: "bytes \<Rightarrow> (64 word \<Rightarrow> pointer_class) \<Rightarrow> usize \<Rightarrow> node_def list" where
  "dissect_from buf classify offset =
     (if saturating_sub (length buf) offset \<ge> 8 then
        let name = field_name offset
        in case string_at buf offset STRING_MIN_LEN of
          Some run \<Rightarrow>
            let (tag, length_bytes) =
                  (case sr_kind run of Ascii \<Rightarrow> (''Utf8Text'', sr_len_bytes run) | Utf16Le \<Rightarrow> (''Utf16Text'', sr_len_bytes run))
            in leaf_def_with_int tag name ''length'' (usize_as_i64 length_bytes)
                 # dissect_from buf classify (offset + round_up (sr_len_bytes run) 8)
        | None \<Rightarrow>
            let value = word_at buf offset
            in dissect_word name (classify value) value # dissect_from buf classify (offset + 8)
      else [])"
  by pat_completeness auto

text \<open>Termination: a run is never empty, so every step moves forward.\<close>

termination dissect_from
proof (relation "measure (\<lambda>(buf, _, offset). length buf - offset)", goal_cases)
  case (3 buf classify offset name run)
  from 3(3) have "0 < sr_len_bytes run" using string_at_offset by blast
  then show ?case using 3(1) round_up_8_ge[of "sr_len_bytes run"] by (simp add: saturating_sub_def)
qed (simp_all add: saturating_sub_def)

declare dissect_from.simps [simp del]

definition dissect_buffer :: "usize \<Rightarrow> bytes \<Rightarrow> (64 word \<Rightarrow> pointer_class) \<Rightarrow> node_def list" where
  "dissect_buffer base buf classify = dissect_from buf classify 0"

text \<open>
  \<open>auto_dissect\<close>: the buffer holds the bytes that arrived; a failed read or a failed enumeration of the sections
  is returned.
\<close>

definition auto_dissect :: "(usize \<Rightarrow> nat \<Rightarrow> core_error + bytes) \<Rightarrow> (core_error + region_index) \<Rightarrow> usize \<Rightarrow> usize \<Rightarrow>
    core_error + node_def list" where
  "auto_dissect read_buf from_pid base len =
     (case read_buf base len of
        Inl e \<Rightarrow> Inl e
      | Inr bs \<Rightarrow>
          (case from_pid of
             Inl e \<Rightarrow> Inl e
           | Inr index \<Rightarrow> Inr (dissect_buffer base bs (\<lambda>value. classify_value value index read_buf))))"

section \<open>Acceptance into a class\<close>

record auto_dissect_preview =
  ap_defs :: "node_def list"
  ap_target_class :: uuid

datatype accept_outcome = NothingPending | NodeRejected model_error | ClassGone | Applied

definition set_children :: "node list \<Rightarrow> class_node \<Rightarrow> class_node" where
  "set_children ns cl = ClassNode (cl_uuid cl) (cl_name cl) (cl_comment cl) (cl_formula cl) ns"

text \<open>The preview is taken; the outcome is what the interface reports.\<close>

definition accept_auto_dissect :: "uuid_lib \<Rightarrow> (nat \<Rightarrow> uuid) \<Rightarrow> registry \<Rightarrow> auto_dissect_preview option \<Rightarrow> nat \<Rightarrow> project \<Rightarrow>
    accept_outcome \<times> nat \<times> project" where
  "accept_auto_dissect U new_v4 reg preview drawn p =
     (case preview of
        None \<Rightarrow> (NothingPending, drawn, p)
      | Some pv \<Rightarrow>
          (case load_nodes U new_v4 reg (ap_defs pv) drawn of
             (Inl e, drawn) \<Rightarrow> (NodeRejected e, drawn, p)
           | (Inr live_nodes, drawn) \<Rightarrow>
               (case get_class_mut (ap_target_class pv) (set_children live_nodes) p of
                  Some p' \<Rightarrow> (Applied, drawn, p')
                | None \<Rightarrow> (ClassGone, drawn, p))))"

section \<open>What the nodes say about the buffer\<close>

definition is_small :: "64 word \<Rightarrow> bool" where
  "is_small w \<longleftrightarrow> - (2 ^ 32) < sint w \<and> sint w < 2 ^ 32"

definition not_data :: "pointer_class \<Rightarrow> bool" where
  "not_data c \<longleftrightarrow> c = Null \<or> c = NotPointer"

definition printable_run :: "bytes \<Rightarrow> nat \<Rightarrow> nat \<Rightarrow> bool" where
  "printable_run buf i k \<longleftrightarrow> i + k \<le> length buf \<and> (\<forall>j<k. is_printable (buf ! (i + j)))
     \<and> (i + k < length buf \<longrightarrow> \<not> is_printable (buf ! (i + k)))"

definition wide_unit :: "bytes \<Rightarrow> nat \<Rightarrow> bool" where
  "wide_unit buf i \<longleftrightarrow> i + 1 < length buf \<and> is_printable (buf ! i) \<and> buf ! (i + 1) = 0"

definition wide_run :: "bytes \<Rightarrow> nat \<Rightarrow> nat \<Rightarrow> bool" where
  "wide_run buf i k \<longleftrightarrow> (\<forall>j<k. wide_unit buf (i + 2 * j)) \<and> \<not> wide_unit buf (i + 2 * k)"

text \<open>
  A text node is a maximal run of at least four characters, wide characters first; any other node is the class of
  the word, which is then no text.
\<close>

definition describes :: "bytes \<Rightarrow> (64 word \<Rightarrow> pointer_class) \<Rightarrow> nat \<Rightarrow> node \<Rightarrow> bool" where
  "describes buf classify i n \<longleftrightarrow>
     (let w = word_at buf i;
          wide = (\<exists>k\<ge>4. wide_run buf i k);
          narrow = (\<exists>k\<ge>4. printable_run buf i k)
      in case n of
          Utf16TextNode _ _ l \<Rightarrow> (\<exists>k\<ge>4. l = 2 * k \<and> wide_run buf i k)
        | Utf8TextNode _ _ l \<Rightarrow> \<not> wide \<and> l \<ge> 4 \<and> printable_run buf i l
        | VTableNode _ _ ch \<Rightarrow> \<not> wide \<and> \<not> narrow \<and> classify w = VTablePtr (length ch)
            \<and> ch = map (\<lambda>j. SimpleNode VMethodNode (method_name j) []) [0..<length ch]
        | PointerNode _ _ t \<Rightarrow> \<not> wide \<and> \<not> narrow \<and> classify w = DataPtr \<and> t = None
        | SimpleNode k _ _ \<Rightarrow> \<not> wide \<and> \<not> narrow
            \<and> (k = FunctionPtrNode \<and> classify w = CodePtr \<or> k = Int64Node \<and> not_data (classify w) \<and> is_small w
               \<or> k = Hex64Node \<and> not_data (classify w) \<and> \<not> is_small w)
        | _ \<Rightarrow> False)"

text \<open>The nodes from offset \<open>i\<close> on: each named after its offset, the offset moving by the padded size.\<close>

fun dissected :: "bytes \<Rightarrow> (64 word \<Rightarrow> pointer_class) \<Rightarrow> nat \<Rightarrow> node list \<Rightarrow> bool" where
  "dissected buf classify i [] \<longleftrightarrow> length buf < i + 8"
| "dissected buf classify i (n # ns) \<longleftrightarrow> i + 8 \<le> length buf \<and> node_name n = field_name i \<and> node_comment n = []
     \<and> describes buf classify i n \<and> dissected buf classify (i + round_up (memory_size n) 8) ns"

section \<open>Runs at an offset\<close>

lemma printable_run_0: "printable_run buf i 0 \<longleftrightarrow> i \<le> length buf \<and> (i < length buf \<longrightarrow> \<not> is_printable (buf ! i))"
  by (simp add: printable_run_def)

lemma printable_run_Suc:
  "printable_run buf i (Suc k) \<longleftrightarrow> i < length buf \<and> is_printable (buf ! i) \<and> printable_run buf (i + 1) k"
  by (auto simp: printable_run_def All_less_Suc2)

lemma printable_run_iff: "i \<le> length buf \<Longrightarrow> printable_run buf i k \<longleftrightarrow> k = length (measure_ascii buf i)"
proof (induction buf i arbitrary: k rule: measure_ascii.induct)
  case (1 buf i)
  then show ?case
    by (cases k) (auto simp: measure_ascii.simps[of buf i] printable_run_0 printable_run_Suc)
qed

lemma wide_run_0: "wide_run buf i 0 \<longleftrightarrow> \<not> wide_unit buf i"
  by (simp add: wide_run_def)

lemma wide_run_Suc: "wide_run buf i (Suc k) \<longleftrightarrow> wide_unit buf i \<and> wide_run buf (i + 2) k"
  by (auto simp: wide_run_def All_less_Suc2 algebra_simps)

lemma wide_run_iff: "wide_run buf i k \<longleftrightarrow> k = length (measure_utf16le buf i)"
proof (induction buf i arbitrary: k rule: measure_utf16le.induct)
  case (1 buf i)
  then show ?case
    by (cases k) (auto simp: measure_utf16le.simps[of buf i] wide_unit_def[of buf i] wide_run_0 wide_run_Suc)
qed

lemma string_at_4:
  assumes "i < length buf"
  shows "string_at buf i STRING_MIN_LEN = None \<Longrightarrow> \<not> (\<exists>k\<ge>4. wide_run buf i k) \<and> \<not> (\<exists>k\<ge>4. printable_run buf i k)"
    and "string_at buf i STRING_MIN_LEN = Some r \<Longrightarrow>
      (case sr_kind r of
         Utf16Le \<Rightarrow> \<exists>k\<ge>4. sr_len_bytes r = 2 * k \<and> wide_run buf i k
       | Ascii \<Rightarrow> \<not> (\<exists>k\<ge>4. wide_run buf i k) \<and> 4 \<le> sr_len_bytes r \<and> printable_run buf i (sr_len_bytes r))"
  using assms by (auto simp: string_at_def STRING_MIN_LEN_def Let_def wide_run_iff printable_run_iff split: if_splits)

section \<open>Reading the definitions back\<close>

lemma deserialize_leaf [simp]:
  "deserialize_node U new_v4 builtins (leaf_def (simple_tag k) name) d = (Inr (SimpleNode k name []), d)"
  "deserialize_node U new_v4 builtins (leaf_def ''Pointer'' name) d = (Inr (PointerNode name [] None), d)"
  by (simp_all add: deserialize_node_def leaf_def_def check_node_depth_def MAX_NODE_DEPTH_def de_pointer_def)

lemma deserialize_text [simp]:
  assumes "l \<le> USIZE_MAX"
  shows "deserialize_node U new_v4 builtins (leaf_def_with_int ''Utf8Text'' name ''length'' (usize_as_i64 l)) d
      = (Inr (Utf8TextNode name [] l), d)"
    and "deserialize_node U new_v4 builtins (leaf_def_with_int ''Utf16Text'' name ''length'' (usize_as_i64 l)) d
      = (Inr (Utf16TextNode name [] l), d)"
  using assms by (simp_all add: deserialize_node_def leaf_def_with_int_def check_node_depth_def MAX_NODE_DEPTH_def
      deserialize_attrs)

lemma deserialize_methods:
  "deserialize_children U new_v4 builtins (map (\<lambda>i. leaf_def ''VMethod'' (f i)) is) d
     = (Inr (map (\<lambda>i. SimpleNode VMethodNode (f i) []) is), d)"
proof (induction "is")
  case (Cons a "is")
  then show ?case using builtins_lookup(1)[of VMethodNode] by (simp add: leaf_def_def)
qed simp

lemma deserialize_vtable [simp]:
  "deserialize_node U new_v4 builtins
      (NodeDef ''VTable'' name [] Map.empty (map (\<lambda>i. leaf_def ''VMethod'' (f i)) is)) d
     = (Inr (VTableNode name [] (map (\<lambda>i. SimpleNode VMethodNode (f i) []) is)), d)"
proof -
  have "check_node_depth (NodeDef ''VTable'' name [] Map.empty (map (\<lambda>i. leaf_def ''VMethod'' (f i)) is)) = Inr ()"
    by (simp add: check_node_depth_def depth_loop_eq MAX_NODE_DEPTH_def)
      (auto simp: def_depth.simps leaf_def_def image_image intro!: Max_ge)
  then show ?thesis by (simp add: deserialize_node_def deserialize_methods)
qed

text \<open>What is to be shown of the node read back from the definition at an offset.\<close>

definition node_at :: "bytes \<Rightarrow> (64 word \<Rightarrow> pointer_class) \<Rightarrow> nat \<Rightarrow> node \<Rightarrow> bool" where
  "node_at buf classify i n \<longleftrightarrow> node_name n = field_name i \<and> node_comment n = [] \<and> describes buf classify i n \<and> node_wf n"

lemma is_small_iff: "unsigned_abs (sint value) < INT64_SMALL_BOUND \<longleftrightarrow> is_small value"
  by (auto simp: unsigned_abs_def INT64_SMALL_BOUND_def is_small_def)

lemma node_wf_simple [simp]: "node_wf (SimpleNode k a c)" "node_wf (PointerNode a c t)"
  by (simp_all add: node_wf_iff[of "SimpleNode k a c"] node_wf_iff[of "PointerNode a c t"] node_fields_wf_def)

lemma dissect_word_node:
  assumes "\<not> (\<exists>k\<ge>4. wide_run buf i k)" "\<not> (\<exists>k\<ge>4. printable_run buf i k)"
  shows "\<exists>n. deserialize_node U new_v4 builtins (dissect_word (field_name i) (classify (word_at buf i)) (word_at buf i)) d = (Inr n, d)
    \<and> node_at buf classify i n \<and> memory_size n = 8"
proof (cases "classify (word_at buf i)")
  case (VTablePtr k)
  have "node_wf (VTableNode a [] (map (\<lambda>i. SimpleNode VMethodNode (f i) []) is))" for a f "is"
    by (subst node_wf_iff) (auto simp: node_fields_wf_def)
  then show ?thesis using assms VTablePtr by (simp add: dissect_word_def node_at_def describes_def)
qed (use assms deserialize_leaf(1)[of U new_v4 Int64Node] deserialize_leaf(1)[of U new_v4 Hex64Node]
    deserialize_leaf(1)[of U new_v4 FunctionPtrNode]
  in \<open>auto simp: dissect_word_def node_at_def describes_def not_data_def is_small_iff\<close>)

lemma dissect_text_node:
  assumes "string_at buf i STRING_MIN_LEN = Some run" "i < length buf" "length buf \<le> USIZE_MAX"
  shows "\<exists>n. deserialize_node U new_v4 builtins
      (leaf_def_with_int (case sr_kind run of Ascii \<Rightarrow> ''Utf8Text'' | Utf16Le \<Rightarrow> ''Utf16Text'') (field_name i) ''length''
        (usize_as_i64 (sr_len_bytes run))) d = (Inr n, d)
    \<and> node_at buf classify i n \<and> memory_size n = sr_len_bytes run"
proof -
  have len: "sr_len_bytes run \<le> USIZE_MAX" using string_at_offset[OF assms(1)] assms(3) by simp
  have wf: "node_wf (Utf8TextNode a [] (sr_len_bytes run))" "node_wf (Utf16TextNode a [] (sr_len_bytes run))" for a
    using len by (subst node_wf_iff, simp add: node_fields_wf_def)+
  show ?thesis
    using string_at_4(2)[OF assms(2,1)] len wf by (cases "sr_kind run") (auto simp: node_at_def describes_def)
qed

lemma dissect_from_eq:
  "dissect_from buf classify i =
     (if i + 8 \<le> length buf then
        case string_at buf i STRING_MIN_LEN of
          Some run \<Rightarrow>
            leaf_def_with_int (case sr_kind run of Ascii \<Rightarrow> ''Utf8Text'' | Utf16Le \<Rightarrow> ''Utf16Text'') (field_name i) ''length''
              (usize_as_i64 (sr_len_bytes run)) # dissect_from buf classify (i + round_up (sr_len_bytes run) 8)
        | None \<Rightarrow> dissect_word (field_name i) (classify (word_at buf i)) (word_at buf i) # dissect_from buf classify (i + 8)
      else [])"
proof -
  have "8 \<le> length buf - i \<longleftrightarrow> i + 8 \<le> length buf" by linarith
  then show ?thesis
    by (simp add: dissect_from.simps[of buf classify i] saturating_sub_def Let_def split: option.split str_kind.split)
qed

lemma dissect_from_loads:
  assumes "length buf \<le> USIZE_MAX"
  shows "\<exists>ns. load_nodes U new_v4 builtins (dissect_from buf classify i) d = (Inr ns, d)
    \<and> dissected buf classify i ns \<and> list_all node_wf ns"
proof (induction "length buf - i" arbitrary: i rule: less_induct)
  case less
  show ?case
  proof (cases "i + 8 \<le> length buf")
    case False
    then show ?thesis by (simp add: dissect_from_eq[of buf classify i])
  next
    case True
    show ?thesis
    proof (cases "string_at buf i STRING_MIN_LEN")
      case None
      from string_at_4(1)[OF _ None] True have "\<not> (\<exists>k\<ge>4. wide_run buf i k)" "\<not> (\<exists>k\<ge>4. printable_run buf i k)" by auto
      from dissect_word_node[OF this, of U new_v4 classify d] obtain n
        where n: "deserialize_node U new_v4 builtins (dissect_word (field_name i) (classify (word_at buf i)) (word_at buf i)) d = (Inr n, d)"
          "node_at buf classify i n" "memory_size n = 8" by blast
      have "length buf - (i + 8) < length buf - i" using True by linarith
      from less.hyps[OF this] obtain ns where
        "load_nodes U new_v4 builtins (dissect_from buf classify (i + 8)) d = (Inr ns, d)"
        "dissected buf classify (i + 8) ns" "list_all node_wf ns" by blast
      with n None True show ?thesis
        by (intro exI[of _ "n # ns"]) (simp add: dissect_from_eq[of buf classify i] round_up_8 node_at_def)
    next
      case (Some run)
      let ?j = "i + round_up (sr_len_bytes run) 8"
      have "0 < round_up (sr_len_bytes run) 8"
        using string_at_offset[OF Some] round_up_8_ge[of "sr_len_bytes run"] by linarith
      then have "length buf - ?j < length buf - i" using True by linarith
      from less.hyps[OF this] obtain ns where
        "load_nodes U new_v4 builtins (dissect_from buf classify ?j) d = (Inr ns, d)"
        "dissected buf classify ?j ns" "list_all node_wf ns" by blast
      moreover from dissect_text_node[OF Some _ assms] True obtain n where
        "deserialize_node U new_v4 builtins
          (leaf_def_with_int (case sr_kind run of Ascii \<Rightarrow> ''Utf8Text'' | Utf16Le \<Rightarrow> ''Utf16Text'') (field_name i) ''length''
            (usize_as_i64 (sr_len_bytes run))) d = (Inr n, d)"
        "node_at buf classify i n" "memory_size n = sr_len_bytes run" by fastforce
      ultimately show ?thesis using Some True
        by (intro exI[of _ "n # ns"]) (simp add: dissect_from_eq[of buf classify i] node_at_def)
    qed
  qed
qed

section \<open>Accepting a dissection\<close>

lemma class_fields_set_children [simp]:
  "cl_uuid (set_children ns cl) = cl_uuid cl" "cl_children (set_children ns cl) = ns"
  by (simp_all add: set_children_def)

lemma get_class_edit:
  assumes "get_class_mut u f p = Some p'"
  shows "get_class p' = (get_class p)(u := map_option f (get_class p u)) \<and> pr_order p' = pr_order p \<and> get_class p u \<noteq> None"
  using assms by (auto simp: get_class_mut_def get_class_map_of update_conv')

text \<open>
  C20. Accepting the dissection of a buffer into a class of the project succeeds: the class keeps its identity and its
  place, no other class changes, and its new fields are well formed and describe the buffer from its first byte on,
  each named after its offset, with fewer than eight bytes left over.
\<close>

theorem accept_dissection_describes_buffer:
  assumes "project_inv p" "get_class p u = Some cl" "length buf \<le> USIZE_MAX"
  shows "\<exists>ns p'. accept_auto_dissect U new_v4 builtins
        (Some \<lparr>ap_defs = dissect_buffer base buf classify, ap_target_class = u\<rparr>) drawn p = (Applied, drawn, p')
    \<and> get_class p' = (get_class p)(u \<mapsto> set_children ns cl) \<and> pr_order p' = pr_order p \<and> project_inv p'
    \<and> dissected buf classify 0 ns \<and> list_all node_wf ns"
proof -
  obtain ns where ns: "load_nodes U new_v4 builtins (dissect_from buf classify 0) drawn = (Inr ns, drawn)"
    "dissected buf classify 0 ns" "list_all node_wf ns" using dissect_from_loads[OF assms(3)] by blast
  obtain p' where p': "get_class_mut u (set_children ns) p = Some p'" using assms(2) by (simp add: get_class_mut_def)
  have "project_inv p'" by (rule project_inv_edit[OF assms(1) _ p']) simp
  with ns get_class_edit[OF p'] p' assms(2) show ?thesis
    by (auto simp: accept_auto_dissect_def dissect_buffer_def)
qed

definition hello_buffer :: bytes where
  "hello_buffer = [0x48, 0x65, 0x6C, 0x6C, 0x6F, 0, 0, 0, 42, 0, 0, 0, 0, 0, 0, 0]"

theorem accept_dissection_describes_buffer_witness:
  "\<exists>ns p'. accept_auto_dissect hex_uuid (\<lambda>_. 0) builtins
        (Some \<lparr>ap_defs = dissect_buffer 0 hello_buffer (\<lambda>_. NotPointer), ap_target_class = 7\<rparr>) 0
          (add_class (ClassNode 7 [] [] [] []) (Project_new []))
      = (Applied, 0, p') \<and> get_class p' 7 = Some (ClassNode 7 [] [] [] ns) \<and> dissected hello_buffer (\<lambda>_. NotPointer) 0 ns"
proof -
  let ?p = "add_class (ClassNode 7 [] [] [] []) (Project_new [])"
  have "project_inv ?p" by (intro project_inv_add project_inv_new)
  moreover have "get_class ?p 7 = Some (ClassNode 7 [] [] [] [])" by simp
  moreover have "length hello_buffer \<le> USIZE_MAX" by (simp add: hello_buffer_def USIZE_MAX_def)
  ultimately show ?thesis
    using accept_dissection_describes_buffer[of ?p 7 _ hello_buffer hex_uuid "\<lambda>_. 0" 0 "\<lambda>_. NotPointer" 0]
    by (fastforce simp: set_children_def)
qed

section \<open>Where the accepted fields lie\<close>

lemma field_name_inj: "field_name i = field_name j \<longleftrightarrow> i = j"
  unfolding field_name_def same_append_eq by (metis digits_value_format(3) option.inject)

definition padded_size :: "node list \<Rightarrow> nat" where
  "padded_size ns = (\<Sum>n\<leftarrow>ns. round_up (memory_size n) 8)"

lemma dissected_nth:
  "dissected buf classify j ns \<Longrightarrow> i < length ns \<Longrightarrow>
     node_name (ns ! i) = field_name (j + padded_size (take i ns)) \<and> j + padded_size (take i ns) + 8 \<le> length buf
     \<and> describes buf classify (j + padded_size (take i ns)) (ns ! i)"
proof (induction ns arbitrary: i j)
  case (Cons n ns)
  then show ?case by (cases i) (fastforce simp: padded_size_def add.assoc)+
qed simp

lemma sum_eq_padded_iff:
  "(\<Sum>n\<leftarrow>ns. memory_size n) \<le> padded_size ns \<and>
   ((\<Sum>n\<leftarrow>ns. memory_size n) = padded_size ns \<longleftrightarrow> (\<forall>n\<in>set ns. 8 dvd memory_size n))"
proof (induction ns)
  case (Cons n ns)
  have "memory_size n \<le> round_up (memory_size n) 8" by (rule round_up_8_ge)
  moreover have "memory_size n = round_up (memory_size n) 8 \<longleftrightarrow> 8 dvd memory_size n"
    unfolding round_up_8 by presburger
  ultimately show ?case using Cons by (auto simp: padded_size_def)
qed (simp add: padded_size_def)

lemma field_name_ident [simp]: "sanitize_ident uni (field_name i) = field_name i"
proof (rule sanitize_ident_keep)
  have "ident_char uni (of_char c)" if c: "c \<in> set (format_hex i)" for c
  proof -
    obtain d where "d < 16" "c = hex_digit_lower d" using digits_of_chars[of 16 c hex_digit_lower i] c by (auto simp: format_hex_def)
    then show ?thesis using less_16_cases[of d]
      by (auto simp: hex_digit_lower_def ident_char_def is_alphanumeric_def is_ascii_digit_def)
  qed
  then show "list_all (ident_char uni) (field_name i)"
    by (auto simp: field_name_def list_all_iff codes_def ident_char_def is_alphanumeric_def is_ascii_digit_def)
qed (simp_all add: field_name_def is_ascii_digit_def)

lemma describes_not_instance: "describes buf classify i n \<Longrightarrow> type_tag n \<noteq> ''ClassInstance''"
  by (cases n) (auto simp: describes_def Let_def)

text \<open>
  In the code generated for an accepted dissection, a field lies at the offset its name carries exactly when every
  text before it fills whole eight-byte words: the walk pads a text to the next word, the text node does not.
\<close>

theorem accepted_fields_drift:
  assumes "length buf \<le> USIZE_MAX" "dissected buf classify 0 (cl_children cl)" "i < length (cl_children cl)"
  shows "fi_name (resolve_fields U uni p cl ! i) = field_name (fi_offset (resolve_fields U uni p cl ! i))
    \<longleftrightarrow> (\<forall>n\<in>set (take i (cl_children cl)). 8 dvd memory_size n)"
proof -
  let ?ns = "cl_children cl"
  have size: "resolved_node_size U p {} n = memory_size n" if "n \<in> set (take i ?ns)" for n
  proof -
    obtain j where "j < length ?ns" "n = ?ns ! j" using in_set_takeD[OF \<open>n \<in> set (take i ?ns)\<close>] by (auto simp: in_set_conv_nth)
    then have "type_tag n \<noteq> ''ClassInstance''" using dissected_nth[OF assms(2)] describes_not_instance by blast
    then show ?thesis by (rule resolved_node_size_other)
  qed
  note at_i = dissected_nth[OF assms(2,3)]
  note sizes = sum_eq_padded_iff[of "take i ?ns"]
  have "(\<Sum>n\<leftarrow>take i ?ns. resolved_node_size U p {} n) = (\<Sum>n\<leftarrow>take i ?ns. memory_size n)"
    using size by (intro arg_cong[of _ _ sum_list] map_cong) auto
  then have "fi_offset (resolve_fields U uni p cl ! i) = (\<Sum>n\<leftarrow>take i ?ns. memory_size n)"
    using fields_loop_nth[OF assms(3), of 0 U uni p] at_i sizes assms(1) by (simp add: resolve_fields_def)
  moreover have "fi_name (resolve_fields U uni p cl ! i) = field_name (padded_size (take i ?ns))"
    using at_i by (simp add: resolve_fields_def fields_loop_name[OF assms(3)])
  ultimately show ?thesis using sizes by (metis field_name_inj)
qed

theorem accepted_fields_drift_witness:
  "fi_name (resolve_fields hex_uuid (\<lambda>_. False) (Project_new []) (set_children
       [Utf8TextNode (field_name 0) [] 5, SimpleNode Int64Node (field_name 8) []] (ClassNode 7 [] [] [] [])) ! 1)
   \<noteq> field_name (fi_offset (resolve_fields hex_uuid (\<lambda>_. False) (Project_new []) (set_children
       [Utf8TextNode (field_name 0) [] 5, SimpleNode Int64Node (field_name 8) []] (ClassNode 7 [] [] [] [])) ! 1))"
proof -
  let ?ns = "[Utf8TextNode (field_name 0) [] 5, SimpleNode Int64Node (field_name 8) []]"
  let ?cl = "set_children ?ns (ClassNode 7 [] [] [] [])"
  have "\<not> (\<exists>k\<ge>4. wide_run hello_buffer 0 k)" "\<not> (\<exists>k\<ge>4. wide_run hello_buffer 8 k)"
    by (simp_all add: wide_run_iff hello_buffer_def is_printable_def measure_utf16le.simps)
  moreover have "printable_run hello_buffer 0 5"
    by (simp add: printable_run_iff hello_buffer_def is_printable_def measure_ascii.simps)
  moreover have "\<not> (\<exists>k\<ge>4. printable_run hello_buffer 8 k)"
    by (simp add: printable_run_iff hello_buffer_def is_printable_def measure_ascii.simps)
  moreover have "is_small (word_at hello_buffer 8)"
    by (simp add: is_small_def word_at_def hello_buffer_def slice_def)
  ultimately have d: "dissected hello_buffer (\<lambda>_. NotPointer) 0 (cl_children ?cl)"
    by (simp add: describes_def Let_def not_data_def hello_buffer_def round_up_8)
  have len: "length hello_buffer \<le> USIZE_MAX" by (simp add: hello_buffer_def USIZE_MAX_def)
  have "1 < length (cl_children ?cl)" "\<not> (\<forall>n\<in>set (take 1 (cl_children ?cl)). 8 dvd memory_size n)" by simp_all
  with accepted_fields_drift[OF len d, of 1 hex_uuid "\<lambda>_. False" "Project_new []"] show ?thesis by blast
qed

end
