(* ===== verification/Repr_C.thy ===== *)
theory Repr_C
  imports Prelude
begin

text \<open>
  The layout of a \<open>repr(C)\<close> struct, which the ABI structs of the kernel interface and the generated Rust structs
  have: every field is put at the next multiple of its alignment, and the whole is padded to the largest alignment.
\<close>

text \<open>A field is its size and its alignment.\<close>

definition repr_c_end :: "(nat \<times> nat) list \<Rightarrow> nat \<Rightarrow> nat" where
  "repr_c_end fs start = foldl (\<lambda>off (sz, al). next_multiple_of off al + sz) start fs"

definition repr_c_align :: "(nat \<times> nat) list \<Rightarrow> nat" where
  "repr_c_align fs = fold (max \<circ> snd) fs 1"

definition repr_c_size :: "(nat \<times> nat) list \<Rightarrow> nat" where
  "repr_c_size fs = next_multiple_of (repr_c_end fs 0) (repr_c_align fs)"

lemma next_multiple_of_eq_iff: "0 < m \<Longrightarrow> next_multiple_of a m = a \<longleftrightarrow> m dvd a"
proof -
  assume "0 < m"
  then have "a mod m < m" by simp
  then have "a < a + (m - a mod m)" by linarith
  then show ?thesis by (auto simp: next_multiple_of_def mod_eq_0_iff_dvd)
qed

lemma repr_c_end_ge:
  "list_all (\<lambda>f. 0 < snd f) fs \<Longrightarrow> start + (\<Sum>f\<leftarrow>fs. fst f) \<le> repr_c_end fs start"
proof (induction fs arbitrary: start)
  case (Cons f fs)
  obtain sz al where f: "f = (sz, al)" by fastforce
  have "start + sz \<le> next_multiple_of start al + sz" using next_multiple_of_ge[of start al] by simp
  then show ?case using Cons.IH[of "next_multiple_of start al + sz"] Cons.prems by (simp add: f repr_c_end_def)
qed (simp add: repr_c_end_def)

text \<open>No field is moved exactly when each starts at a multiple of its alignment anyway.\<close>

lemma repr_c_end_packed:
  "list_all (\<lambda>f. 0 < snd f) fs \<Longrightarrow>
   repr_c_end fs start = start + (\<Sum>f\<leftarrow>fs. fst f)
     \<longleftrightarrow> (\<forall>i<length fs. snd (fs ! i) dvd start + (\<Sum>f\<leftarrow>take i fs. fst f))"
proof (induction fs arbitrary: start)
  case (Cons f fs)
  obtain sz al where f: "f = (sz, al)" by fastforce
  have pos: "0 < al" "list_all (\<lambda>f. 0 < snd f) fs" using Cons.prems by (simp_all add: f)
  have split: "(\<forall>i<length (f # fs). snd ((f # fs) ! i) dvd start + (\<Sum>f\<leftarrow>take i (f # fs). fst f))
      \<longleftrightarrow> al dvd start \<and> (\<forall>i<length fs. snd (fs ! i) dvd (start + sz) + (\<Sum>f\<leftarrow>take i fs. fst f))"
    by (simp add: f All_less_Suc2 add.assoc)
  show ?case
  proof (cases "al dvd start")
    case True
    then have "repr_c_end (f # fs) start = repr_c_end fs (start + sz)"
      using next_multiple_of_eq_iff[OF pos(1)] by (simp add: f repr_c_end_def)
    then show ?thesis using Cons.IH[OF pos(2), of "start + sz"] True by (simp only: split) (simp add: f add.assoc)
  next
    case False
    then have "start < next_multiple_of start al"
      using next_multiple_of_eq_iff[OF pos(1)] next_multiple_of_ge le_neq_implies_less by metis
    moreover have "next_multiple_of start al + sz + (\<Sum>f\<leftarrow>fs. fst f) \<le> repr_c_end (f # fs) start"
      using repr_c_end_ge[OF pos(2)] by (simp add: f repr_c_end_def)
    ultimately show ?thesis using False by (simp only: split) (simp add: f)
  qed
qed (simp add: repr_c_end_def)

lemma repr_c_align_pos: "0 < repr_c_align fs"
proof -
  have "0 < n \<Longrightarrow> 0 < fold (max \<circ> snd) fs n" for n :: nat by (induction fs arbitrary: n) auto
  then show ?thesis by (simp add: repr_c_align_def)
qed

lemma repr_c_size_packed:
  assumes "list_all (\<lambda>f. 0 < snd f) fs"
  shows "repr_c_size fs = (\<Sum>f\<leftarrow>fs. fst f)
    \<longleftrightarrow> (\<forall>i<length fs. snd (fs ! i) dvd (\<Sum>f\<leftarrow>take i fs. fst f)) \<and> repr_c_align fs dvd (\<Sum>f\<leftarrow>fs. fst f)"
proof -
  have "(\<Sum>f\<leftarrow>fs. fst f) \<le> repr_c_end fs 0" using repr_c_end_ge[OF assms, of 0] by simp
  moreover have "repr_c_end fs 0 \<le> repr_c_size fs"
    unfolding repr_c_size_def by (rule next_multiple_of_ge)
  ultimately have "repr_c_size fs = (\<Sum>f\<leftarrow>fs. fst f) \<longleftrightarrow>
      repr_c_end fs 0 = (\<Sum>f\<leftarrow>fs. fst f) \<and> next_multiple_of (\<Sum>f\<leftarrow>fs. fst f) (repr_c_align fs) = (\<Sum>f\<leftarrow>fs. fst f)"
    unfolding repr_c_size_def by (metis le_antisym)
  then show ?thesis using repr_c_end_packed[OF assms, of 0] next_multiple_of_eq_iff[OF repr_c_align_pos] by simp
qed

end
