(* ===== verification/Kernel_Abi.thy ===== *)
theory Kernel_Abi
  imports Repr_C
begin

text \<open>
  The ioctl interface of the kernel module as the client sees it (nemclass-core/src/internal/process/kernel/abi.rs):
  the selector codes, the argument structs with their \<open>repr(C)\<close> sizes, and the request codes.

  A struct is a record of its fields, padding left out; its layout is the list of its field types, padding included.
  A C \<open>i32\<close> is an integer, an unsigned field a word of its width.
\<close>

type_synonym u32 = "32 word"
type_synonym u64 = "64 word"

definition NEMCLASS_ABI_VERSION :: u32 where "NEMCLASS_ABI_VERSION = 1"
definition NEMCLASS_IOC_MAGIC :: u32 where "NEMCLASS_IOC_MAGIC = 0x4E"
definition NEMCLASS_KEY_MAX :: nat where "NEMCLASS_KEY_MAX = 64"

section \<open>Selectors\<close>

definition NEMCLASS_BP_KIND_HW :: u32 where "NEMCLASS_BP_KIND_HW = 0"
definition NEMCLASS_BP_KIND_UPROBE :: u32 where "NEMCLASS_BP_KIND_UPROBE = 1"
definition NEMCLASS_BP_X :: u32 where "NEMCLASS_BP_X = 0"
definition NEMCLASS_BP_W :: u32 where "NEMCLASS_BP_W = 1"
definition NEMCLASS_BP_RW :: u32 where "NEMCLASS_BP_RW = 2"
definition NEMCLASS_BP_R :: u32 where "NEMCLASS_BP_R = 3"

lemmas bp_codes = NEMCLASS_BP_KIND_HW_def NEMCLASS_BP_KIND_UPROBE_def NEMCLASS_BP_X_def NEMCLASS_BP_W_def
  NEMCLASS_BP_RW_def NEMCLASS_BP_R_def

datatype breakpoint_kind = HardwareKind | UprobeKind

definition BreakpointKind_to_raw :: "breakpoint_kind \<Rightarrow> u32" where
  "BreakpointKind_to_raw k = (case k of HardwareKind \<Rightarrow> NEMCLASS_BP_KIND_HW | UprobeKind \<Rightarrow> NEMCLASS_BP_KIND_UPROBE)"

definition BreakpointKind_from_raw :: "u32 \<Rightarrow> breakpoint_kind option" where
  "BreakpointKind_from_raw raw =
     (if raw = NEMCLASS_BP_KIND_HW then Some HardwareKind
      else if raw = NEMCLASS_BP_KIND_UPROBE then Some UprobeKind else None)"

datatype hw_breakpoint_type = ExecuteBp | WriteBp | ReadWriteBp | ReadBp

definition HwBreakpointType_to_raw :: "hw_breakpoint_type \<Rightarrow> u32" where
  "HwBreakpointType_to_raw t =
     (case t of ExecuteBp \<Rightarrow> NEMCLASS_BP_X | WriteBp \<Rightarrow> NEMCLASS_BP_W | ReadWriteBp \<Rightarrow> NEMCLASS_BP_RW | ReadBp \<Rightarrow> NEMCLASS_BP_R)"

lemma BreakpointKind_raw [simp]: "BreakpointKind_from_raw (BreakpointKind_to_raw k) = Some k"
  by (cases k) (simp_all add: BreakpointKind_from_raw_def BreakpointKind_to_raw_def bp_codes)

section \<open>Argument structs\<close>

record nemclass_auth =
  au_key :: bytes
  au_key_len :: u32

record nemclass_version =
  ve_abi :: u32

record nemclass_rw =
  rw_pid :: int
  rw_addr :: u64
  rw_len :: u64
  rw_done :: u64

record nemclass_region =
  rg_start :: u64
  rg_end :: u64
  rg_file_off :: u64
  rg_prot :: u32

record nemclass_enum_regions =
  er_pid :: int
  er_max :: u32
  er_count :: u32
  er_total :: u32

record nemclass_bp_set =
  bs_pid :: int
  bs_kind :: u32
  bs_addr :: u64
  bs_len :: u32
  bs_type :: u32
  bs_slot :: int

record nemclass_bp_clear =
  bc_slot :: int

record nemclass_event =
  ev_slot :: int
  ev_pid :: int
  ev_tid :: int
  ev_kind :: u32
  ev_addr :: u64
  ev_ip :: u64
  ev_sp :: u64
  ev_flags :: u64
  ev_ax :: u64
  ev_bx :: u64
  ev_cx :: u64
  ev_dx :: u64
  ev_si :: u64
  ev_di :: u64
  ev_bp :: u64
  ev_r8 :: u64
  ev_r9 :: u64
  ev_r10 :: u64
  ev_r11 :: u64
  ev_r12 :: u64
  ev_r13 :: u64
  ev_r14 :: u64
  ev_r15 :: u64

record nemclass_wait =
  wt_timeout_ms :: int

record nemclass_ptrace =
  pt_pid :: int
  pt_tracer_pid :: int
  pt_traced :: u8

section \<open>Sizes\<close>

datatype c_type = C_u8 | C_i32 | C_u32 | C_u64 | C_bytes nat

fun c_size :: "c_type \<Rightarrow> nat" where
  "c_size C_u8 = 1" | "c_size C_i32 = 4" | "c_size C_u32 = 4" | "c_size C_u64 = 8" | "c_size (C_bytes n) = n"

fun c_align :: "c_type \<Rightarrow> nat" where
  "c_align C_u8 = 1" | "c_align C_i32 = 4" | "c_align C_u32 = 4" | "c_align C_u64 = 8" | "c_align (C_bytes n) = 1"

definition size_of :: "c_type list \<Rightarrow> nat" where
  "size_of fs = repr_c_size (map (\<lambda>f. (c_size f, c_align f)) fs)"

definition auth_layout :: "c_type list" where "auth_layout = [C_bytes NEMCLASS_KEY_MAX, C_u32, C_u32]"
definition version_layout :: "c_type list" where "version_layout = [C_u32, C_u32]"
definition rw_layout :: "c_type list" where "rw_layout = [C_i32, C_u32, C_u64, C_u64, C_u64, C_u64]"
definition region_layout :: "c_type list" where "region_layout = [C_u64, C_u64, C_u64, C_u32, C_u32]"
definition enum_regions_layout :: "c_type list" where "enum_regions_layout = [C_i32, C_u32, C_u64, C_u32, C_u32]"
definition bp_set_layout :: "c_type list" where "bp_set_layout = [C_i32, C_u32, C_u64, C_u32, C_u32, C_i32, C_u32]"
definition bp_clear_layout :: "c_type list" where "bp_clear_layout = [C_i32, C_u32]"
definition event_layout :: "c_type list" where "event_layout = [C_i32, C_i32, C_i32, C_u32] @ replicate 19 C_u64"
definition wait_layout :: "c_type list" where "wait_layout = [C_u64, C_i32, C_u32]"
definition ptrace_layout :: "c_type list" where "ptrace_layout = [C_i32, C_i32, C_u8, C_bytes 7]"

lemmas layouts = auth_layout_def version_layout_def rw_layout_def region_layout_def enum_regions_layout_def bp_set_layout_def
  bp_clear_layout_def event_layout_def wait_layout_def ptrace_layout_def NEMCLASS_KEY_MAX_def

text \<open>The sizes the source asserts at compile time.\<close>

lemma struct_sizes:
  "map size_of [auth_layout, version_layout, rw_layout, region_layout, enum_regions_layout, bp_set_layout, bp_clear_layout,
     event_layout, wait_layout, ptrace_layout] = [72, 8, 40, 32, 24, 32, 8, 168, 16, 16]"
  by code_simp

section \<open>Request codes\<close>

definition IOC_NRBITS :: nat where "IOC_NRBITS = 8"
definition IOC_TYPEBITS :: nat where "IOC_TYPEBITS = 8"
definition IOC_SIZEBITS :: nat where "IOC_SIZEBITS = 14"
definition IOC_NRSHIFT :: nat where "IOC_NRSHIFT = 0"
definition IOC_TYPESHIFT :: nat where "IOC_TYPESHIFT = IOC_NRSHIFT + IOC_NRBITS"
definition IOC_SIZESHIFT :: nat where "IOC_SIZESHIFT = IOC_TYPESHIFT + IOC_TYPEBITS"
definition IOC_DIRSHIFT :: nat where "IOC_DIRSHIFT = IOC_SIZESHIFT + IOC_SIZEBITS"
definition IOC_WRITE :: u32 where "IOC_WRITE = 1"
definition IOC_READ :: u32 where "IOC_READ = 2"

lemmas ioc_consts = IOC_NRBITS_def IOC_TYPEBITS_def IOC_SIZEBITS_def IOC_NRSHIFT_def IOC_TYPESHIFT_def IOC_SIZESHIFT_def
  IOC_DIRSHIFT_def IOC_WRITE_def IOC_READ_def

definition ioc :: "u32 \<Rightarrow> u32 \<Rightarrow> u32 \<Rightarrow> u32 \<Rightarrow> u64" where
  "ioc dir ty nr sz =
     ucast (push_bit IOC_DIRSHIFT (dir AND 3) OR push_bit IOC_TYPESHIFT ty OR push_bit IOC_NRSHIFT nr
       OR push_bit IOC_SIZESHIFT (sz AND (push_bit IOC_SIZEBITS 1 - 1)))"

definition iow :: "c_type list \<Rightarrow> u32 \<Rightarrow> u64" where
  "iow layout nr = ioc IOC_WRITE NEMCLASS_IOC_MAGIC nr (of_nat (size_of layout))"

definition ior :: "c_type list \<Rightarrow> u32 \<Rightarrow> u64" where
  "ior layout nr = ioc IOC_READ NEMCLASS_IOC_MAGIC nr (of_nat (size_of layout))"

definition iowr :: "c_type list \<Rightarrow> u32 \<Rightarrow> u64" where
  "iowr layout nr = ioc (IOC_READ OR IOC_WRITE) NEMCLASS_IOC_MAGIC nr (of_nat (size_of layout))"

definition request_codes :: "(string \<times> u64) list" where
  "request_codes =
    [(''AUTH'', iow auth_layout 0x01), (''VERSION'', ior version_layout 0x02),
     (''READ'', iowr rw_layout 0x10), (''WRITE'', iowr rw_layout 0x11), (''ENUM_REGIONS'', iowr enum_regions_layout 0x12),
     (''BP_SET'', iowr bp_set_layout 0x20), (''BP_CLEAR'', iow bp_clear_layout 0x21), (''WAIT_EVENT'', iowr wait_layout 0x22),
     (''PTRACE_QUERY'', iowr ptrace_layout 0x30), (''PTRACE_HIDE'', iow ptrace_layout 0x31)]"

text \<open>The decoding of the kernel's headers (\<open>_IOC_DIR\<close> and its siblings).\<close>

definition ioc_fields :: "u64 \<Rightarrow> u64 \<times> u64 \<times> u64 \<times> u64" where
  "ioc_fields c = (drop_bit 30 c AND 3, drop_bit 8 c AND 0xFF, c AND 0xFF, drop_bit 16 c AND 0x3FFF)"

lemma bit_less:
  assumes "unat (w :: 'a::len word) < 2 ^ k" "bit w n"
  shows "n < k"
proof -
  have "bit (unat w) n" using assms(2) by (simp add: bit_unsigned_iff)
  moreover have "take_bit k (unat w) = unat w" using assms(1) by (simp add: take_bit_nat_eq_self)
  ultimately show ?thesis by (metis bit_take_bit_iff)
qed

lemma ioc_decodes:
  assumes "dir < 4" "ty < 0x100" "nr < 0x100" "sz < 0x4000"
  shows "ioc_fields (ioc dir ty nr sz) = (ucast dir, ucast ty, ucast nr, ucast sz)"
proof -
  have b: "bit dir n \<Longrightarrow> n < 2" "bit ty n \<Longrightarrow> n < 8" "bit nr n \<Longrightarrow> n < 8" "bit sz n \<Longrightarrow> n < 14" for n
    using bit_less[of dir 2 n] bit_less[of ty 8 n] bit_less[of nr 8 n] bit_less[of sz 14 n] assms
    by (simp_all add: word_less_nat_alt)
  have m: "(3 :: u64) = mask 2" "(0xFF :: u64) = mask 8" "(0x3FFF :: u64) = mask 14" "(3 :: u32) = mask 2"
    "(push_bit 14 1 - 1 :: u32) = mask 14" by (simp_all add: mask_eq_exp_minus_1)
  show ?thesis
    unfolding ioc_fields_def ioc_def ioc_consts prod.inject m add_0
    by (intro conjI; rule bit_word_eqI; auto simp: bit_simps dest: b bit_imp_le_length)
qed

lemma request_codes_values:
  "request_codes =
    [(''AUTH'', 0x40484E01), (''VERSION'', 0x80084E02), (''READ'', 0xC0284E10), (''WRITE'', 0xC0284E11),
     (''ENUM_REGIONS'', 0xC0184E12), (''BP_SET'', 0xC0204E20), (''BP_CLEAR'', 0x40084E21), (''WAIT_EVENT'', 0xC0104E22),
     (''PTRACE_QUERY'', 0xC0104E30), (''PTRACE_HIDE'', 0x40104E31)]"
  by code_simp

end
