(* ===== verification/Kernel_Module.thy ===== *)
theory Kernel_Module
  imports Kernel_Abi Freeze
begin

text \<open>
  The kernel module's side of the interface (linux/nemclass_mod/src/main.c, debugger.c, memory_access.c): one session
  per open file, with its handshake, slot table and event queue, and the transfers to and from the target.

  An operation returns the positive error number or its result. What the kernel decides during one call (the caller's
  allowlist entry, whether the target exists, the outcome of arming, pending signals, what \<open>access_process_vm\<close> can
  reach) is the call's environment. The caller passes pointers to live structs, so copying them does not fault. Calls of
  one session do not overlap, and a hit is one on a registered slot: those that fall between arming a slot and listing
  it, or between unlisting and disarming it, are left out.
\<close>

section \<open>State\<close>

definition EACCES :: int where "EACCES = 13"
definition ESRCH :: int where "ESRCH = 3"
definition EINVAL :: int where "EINVAL = 22"
definition ENOENT :: int where "ENOENT = 2"
definition ENOMEM :: int where "ENOMEM = 12"
definition EINTR :: int where "EINTR = 4"
definition EAGAIN :: int where "EAGAIN = 11"
definition ETIMEDOUT :: int where "ETIMEDOUT = 110"
definition ERESTARTSYS :: int where "ERESTARTSYS = 512"

lemmas errnos = EACCES_def ESRCH_def EINVAL_def ENOENT_def ENOMEM_def EINTR_def EAGAIN_def ETIMEDOUT_def ERESTARTSYS_def

definition NEMCLASS_EVENT_DEPTH :: nat where "NEMCLASS_EVENT_DEPTH = 256"
definition NEMCLASS_AUTH_MAX_FAILURES :: nat where "NEMCLASS_AUTH_MAX_FAILURES = 16"
definition NEM_CHUNK :: nat where "NEM_CHUNK = 64 * 1024"

record nemclass_slot =
  sl_id :: int
  sl_kind :: u32
  sl_pid :: int
  sl_addr :: u64

record nemclass_session =
  ss_authed :: bool
  ss_auth_failures :: nat
  ss_slots :: "nemclass_slot list"
  ss_next_slot :: int
  ss_events :: "nemclass_event list"

text \<open>A hit: the slot whose handler runs, the thread, and the registers, taken from an event.\<close>

record hit =
  ht_slot :: int
  ht_tid :: int
  ht_regs :: nemclass_event

record env =
  en_allowed :: bool
  en_task :: bool
  en_memory :: bool
  en_arm :: int
  en_hits :: "hit list"
  en_vm :: "usize \<Rightarrow> nat \<Rightarrow> nat"
  en_signal :: "nat \<Rightarrow> bool"
  en_regions :: "nemclass_region list"

definition nemclass_open :: nemclass_session where
  "nemclass_open = \<lparr>ss_authed = False, ss_auth_failures = 0, ss_slots = [], ss_next_slot = 0, ss_events = []\<rparr>"

section \<open>Handshake\<close>

text \<open>The module's key is a list of bytes, empty when it was loaded without one.\<close>

definition nemclass_do_auth :: "bytes \<Rightarrow> nemclass_auth \<Rightarrow> nemclass_session \<Rightarrow> (int + unit) \<times> nemclass_session" where
  "nemclass_do_auth key a s =
     (if key = [] then (Inl EACCES, s)
      else if ss_auth_failures s \<ge> NEMCLASS_AUTH_MAX_FAILURES then (Inl EACCES, s)
      else if unat (au_key_len a) \<noteq> length key \<or> take (length key) (au_key a) \<noteq> key
        then (Inl EACCES, s\<lparr>ss_auth_failures := ss_auth_failures s + 1\<rparr>)
      else (Inr (), s\<lparr>ss_authed := True, ss_auth_failures := 0\<rparr>))"

text \<open>Every other request first passes this gate.\<close>

definition privileged :: "env \<Rightarrow> nemclass_session \<Rightarrow> bool" where
  "privileged e s \<longleftrightarrow> ss_authed s \<and> en_allowed e"

section \<open>Breakpoint slots\<close>

text \<open>\<open>next_slot++\<close> on a 32-bit counter.\<close>

definition next_slot_id :: "int \<Rightarrow> int" where
  "next_slot_id n = sint (word_of_int (n + 1) :: 32 word)"

definition arm_result :: "env \<Rightarrow> nemclass_bp_set \<Rightarrow> int" where
  "arm_result e req =
     (if bs_kind req = NEMCLASS_BP_KIND_HW then
        (if bs_type req \<notin> {NEMCLASS_BP_X, NEMCLASS_BP_W, NEMCLASS_BP_R, NEMCLASS_BP_RW} then EINVAL
         else if bs_len req \<notin> {1, 2, 4, 8} then EINVAL
         else en_arm e)
      else if bs_kind req = NEMCLASS_BP_KIND_UPROBE then en_arm e
      else EINVAL)"

definition nemclass_bp_set :: "env \<Rightarrow> nemclass_bp_set \<Rightarrow> nemclass_session \<Rightarrow> (int + nemclass_bp_set) \<times> nemclass_session" where
  "nemclass_bp_set e req s =
     (if \<not> privileged e s then (Inl EACCES, s)
      else if \<not> en_task e then (Inl ESRCH, s)
      else if \<not> en_memory e then (Inl ENOMEM, s)
      else
        let slot = \<lparr>sl_id = ss_next_slot s, sl_kind = bs_kind req, sl_pid = bs_pid req, sl_addr = bs_addr req\<rparr>;
            s = s\<lparr>ss_next_slot := next_slot_id (ss_next_slot s)\<rparr>;
            ret = arm_result e req
        in if ret \<noteq> 0 then (Inl ret, s)
           else (Inr (req\<lparr>bs_slot := sl_id slot\<rparr>), s\<lparr>ss_slots := ss_slots s @ [slot]\<rparr>))"

fun remove_slot :: "int \<Rightarrow> nemclass_slot list \<Rightarrow> nemclass_slot list option" where
  "remove_slot i [] = None"
| "remove_slot i (s # ss) = (if sl_id s = i then Some ss else map_option ((#) s) (remove_slot i ss))"

definition nemclass_bp_clear :: "env \<Rightarrow> nemclass_bp_clear \<Rightarrow> nemclass_session \<Rightarrow> (int + unit) \<times> nemclass_session" where
  "nemclass_bp_clear e req s =
     (if \<not> privileged e s then (Inl EACCES, s)
      else case remove_slot (bc_slot req) (ss_slots s) of
        None \<Rightarrow> (Inl ENOENT, s)
      | Some slots \<Rightarrow> (Inr (), s\<lparr>ss_slots := slots\<rparr>))"

section \<open>Events\<close>

text \<open>The handler of a registered slot; the event is dropped when the ring is full.\<close>

definition nemclass_emit_event :: "nemclass_slot \<Rightarrow> hit \<Rightarrow> nemclass_session \<Rightarrow> nemclass_session" where
  "nemclass_emit_event slot h s =
     (let ev = (ht_regs h)\<lparr>ev_slot := sl_id slot, ev_pid := sl_pid slot, ev_tid := ht_tid h, ev_kind := sl_kind slot,
            ev_addr := sl_addr slot\<rparr>
      in if length (ss_events s) < NEMCLASS_EVENT_DEPTH then s\<lparr>ss_events := ss_events s @ [ev]\<rparr> else s)"

definition session_hit :: "hit \<Rightarrow> nemclass_session \<Rightarrow> nemclass_session" where
  "session_hit h s =
     (case find (\<lambda>slot. sl_id slot = ht_slot h) (ss_slots s) of
        None \<Rightarrow> s
      | Some slot \<Rightarrow> nemclass_emit_event slot h s)"

text \<open>While a caller blocks, the hits of the environment arrive; without one the wait ends by its timeout or a signal.\<close>

definition nemclass_wait_event :: "env \<Rightarrow> int \<Rightarrow> nemclass_session \<Rightarrow> (int + nemclass_event) \<times> nemclass_session" where
  "nemclass_wait_event e timeout_ms s =
     (if \<not> privileged e s then (Inl EACCES, s)
      else if ss_events s = [] \<and> timeout_ms = 0 then (Inl EAGAIN, s)
      else
        let s = (if ss_events s = [] then fold session_hit (en_hits e) s else s)
        in case ss_events s of
             [] \<Rightarrow> (Inl (if timeout_ms < 0 \<or> en_signal e 0 then ERESTARTSYS else ETIMEDOUT), s)
           | ev # evs \<Rightarrow> (Inr ev, s\<lparr>ss_events := evs\<rparr>))"

section \<open>Transfers\<close>

definition U64_MAX :: nat where "U64_MAX = 2 ^ 64 - 1"

definition transfer_check :: "env \<Rightarrow> nemclass_session \<Rightarrow> nemclass_rw \<Rightarrow> int option" where
  "transfer_check e s rw =
     (if \<not> privileged e s then Some EACCES
      else if unat (rw_len rw) > U64_MAX - unat (rw_addr rw) then Some EINVAL
      else if \<not> en_task e then Some ESRCH
      else if rw_len rw \<noteq> 0 \<and> \<not> en_memory e then Some ENOMEM
      else None)"

function read_loop :: "env \<Rightarrow> (usize \<Rightarrow> u8) \<Rightarrow> usize \<Rightarrow> nat \<Rightarrow> nat \<Rightarrow> int + bytes" where
  "read_loop e m addr len done =
     (if done < len then
        if en_signal e done then Inl EINTR
        else
          let this = min (len - done) NEM_CHUNK;
              n = min (en_vm e (addr + done) this) this
          in if n = 0 then Inr []
             else if n < this then Inr (map m [addr + done..<addr + done + n])
             else (case read_loop e m addr len (done + n) of
                     Inl err \<Rightarrow> Inl err
                   | Inr rest \<Rightarrow> Inr (map m [addr + done..<addr + done + n] @ rest))
      else Inr [])"
  by pat_completeness auto
termination by (relation "measure (\<lambda>(_, _, _, len, done). len - done)") auto

function write_loop :: "env \<Rightarrow> usize \<Rightarrow> bytes \<Rightarrow> nat \<Rightarrow> (usize \<Rightarrow> u8) \<Rightarrow> (int + nat) \<times> (usize \<Rightarrow> u8)" where
  "write_loop e addr bs done m =
     (if done < length bs then
        if en_signal e done then (Inl EINTR, m)
        else
          let this = min (length bs - done) NEM_CHUNK;
              n = min (en_vm e (addr + done) this) this;
              m' = store_prefix m (addr + done) (slice bs done this) n
          in if n = 0 then (Inr done, m)
             else if n < this then (Inr (done + n), m')
             else write_loop e addr bs (done + n) m'
      else (Inr done, m))"
  by pat_completeness auto
termination by (relation "measure (\<lambda>(_, _, bs, done, _). length bs - done)") auto

declare read_loop.simps [simp del] write_loop.simps [simp del]

definition nemclass_do_read :: "env \<Rightarrow> nemclass_session \<Rightarrow> nemclass_rw \<Rightarrow> (usize \<Rightarrow> u8) \<Rightarrow> int + bytes" where
  "nemclass_do_read e s rw m =
     (case transfer_check e s rw of
        Some err \<Rightarrow> Inl err
      | None \<Rightarrow> read_loop e m (unat (rw_addr rw)) (unat (rw_len rw)) 0)"

definition nemclass_do_write :: "env \<Rightarrow> nemclass_session \<Rightarrow> nemclass_rw \<Rightarrow> bytes \<Rightarrow> (usize \<Rightarrow> u8) \<Rightarrow> (int + nat) \<times> (usize \<Rightarrow> u8)" where
  "nemclass_do_write e s rw bs m =
     (case transfer_check e s rw of
        Some err \<Rightarrow> (Inl err, m)
      | None \<Rightarrow> write_loop e (unat (rw_addr rw)) (take (unat (rw_len rw)) bs) 0 m)"

text \<open>The region walk: every mapping is counted, and the first \<open>max\<close> are written out.\<close>

definition nemclass_do_enum_regions ::
    "env \<Rightarrow> nemclass_session \<Rightarrow> nemclass_enum_regions \<Rightarrow> int + (nemclass_enum_regions \<times> nemclass_region list)" where
  "nemclass_do_enum_regions e s req =
     (if \<not> privileged e s then Inl EACCES
      else if \<not> en_task e then Inl ESRCH
      else
        let written = take (unat (er_max req)) (en_regions e)
        in Inr (req\<lparr>er_count := of_nat (length written), er_total := of_nat (length (en_regions e))\<rparr>, written))"

section \<open>Transfers move a prefix\<close>

lemma read_loop_prefix:
  "read_loop e m addr len done = Inr bs \<Longrightarrow> bs = map m [addr + done..<addr + done + length bs] \<and> length bs \<le> len - done"
proof (induction e m addr len "done" arbitrary: bs rule: read_loop.induct)
  case (1 e m addr len "done")
  define this where "this = min (len - done) NEM_CHUNK"
  define n where "n = min (en_vm e (addr + done) this) this"
  have n: "n \<le> len - done" by (simp add: n_def this_def)
  note eq = read_loop.simps[of e m addr len "done", unfolded Let_def, folded this_def, folded n_def]
  show ?case
  proof (cases "done < len \<and> \<not> en_signal e done \<and> n \<noteq> 0 \<and> \<not> n < this")
    case False
    then have "bs = [] \<or> bs = map m [addr + done..<addr + done + n]"
      using "1.prems" by (auto simp: eq split: if_splits)
    then show ?thesis using n by auto
  next
    case True
    then obtain rest where rest: "read_loop e m addr len (done + n) = Inr rest"
        and bs: "bs = map m [addr + done..<addr + done + n] @ rest"
      using "1.prems" by (auto simp: eq split: sum.splits)
    have IH: "rest = map m [addr + (done + n)..<addr + (done + n) + length rest]" "length rest \<le> len - (done + n)"
      using "1.IH"[OF _ _ this_def n_def _ _ rest] True by blast+
    have "[addr + done..<addr + done + n] @ [addr + (done + n)..<addr + (done + n) + length rest]
        = [addr + done..<addr + done + (n + length rest)]"
      using upt_add_eq_append[of "addr + done" "addr + done + n" "length rest"] by (simp add: add.assoc)
    with IH(1) bs have "bs = map m [addr + done..<addr + done + (n + length rest)]" by (metis map_append)
    moreover have "length bs = n + length rest" using bs by simp
    ultimately show ?thesis using IH(2) n by simp
  qed
qed

lemma store_prefix_extend:
  assumes "d + k \<le> length bs" "n \<le> k"
  shows "store_prefix (store_prefix m a bs d) (a + d) (slice bs d k) n = store_prefix m a bs (d + n)"
proof
  fix x
  have len: "length (slice bs d k) = k" using assms(1) by (rule length_slice)
  show "store_prefix (store_prefix m a bs d) (a + d) (slice bs d k) n x = store_prefix m a bs (d + n) x"
  proof (cases "a + d \<le> x \<and> x < a + d + n")
    case True
    then have "slice bs d k ! (x - (a + d)) = bs ! (d + (x - (a + d)))" using assms by (intro nth_slice) auto
    moreover have "d + (x - (a + d)) = x - a" using True by simp
    ultimately show ?thesis using True assms len by (simp add: store_prefix_def)
  next
    case False
    then show ?thesis using assms len by (auto simp: store_prefix_def)
  qed
qed

lemma write_loop_prefix:
  "write_loop e addr bs done m' = (r, m'') \<Longrightarrow> m' = store_prefix m addr bs done \<Longrightarrow> done \<le> length bs \<Longrightarrow>
   \<exists>n\<le>length bs. m'' = store_prefix m addr bs n \<and> (\<forall>k. r = Inr k \<longrightarrow> k = n)"
proof (induction e addr bs "done" m' rule: write_loop.induct)
  case (1 e addr bs "done" m')
  define this where "this = min (length bs - done) NEM_CHUNK"
  define n where "n = min (en_vm e (addr + done) this) this"
  define m2 where "m2 = store_prefix m' (addr + done) (slice bs done this) n"
  note eq = write_loop.simps[of e addr bs "done" m', unfolded Let_def, folded this_def, folded n_def, folded m2_def]
  have "done + this \<le> length bs" "n \<le> this" using "1.prems"(3) by (auto simp: this_def n_def)
  then have step: "m2 = store_prefix m addr bs (done + n)" "done + n \<le> length bs"
    unfolding m2_def "1.prems"(2) by (auto intro: store_prefix_extend)
  show ?case
  proof (cases "done < length bs \<and> \<not> en_signal e done \<and> n \<noteq> 0 \<and> \<not> n < this")
    case True
    then have "write_loop e addr bs (done + n) m2 = (r, m'')" using "1.prems"(1) by (simp add: eq)
    from "1.IH"[OF _ _ this_def n_def m2_def _ _ this step] True show ?thesis by blast
  next
    case False
    then consider "m'' = m'" "\<And>k. r = Inr k \<Longrightarrow> k = done" | "m'' = m2" "r = Inr (done + n)"
      using "1.prems"(1) by (auto simp: eq split: if_splits)
    then show ?thesis
    proof cases
      case 1
      then show ?thesis using "1.prems"(2,3) by blast
    next
      case 2
      then show ?thesis using step by blast
    qed
  qed
qed

lemma store_prefix_0 [simp]: "store_prefix m a bs 0 = m"
  by (rule ext) (auto simp: store_prefix_def)

lemma do_read_prefix:
  assumes "nemclass_do_read e s rw m = Inr bs"
  shows "length bs \<le> unat (rw_len rw) \<and> (\<forall>i<length bs. bs ! i = m (unat (rw_addr rw) + i))"
proof -
  have "read_loop e m (unat (rw_addr rw)) (unat (rw_len rw)) 0 = Inr bs"
    using assms by (auto simp: nemclass_do_read_def split: option.splits)
  note p = read_loop_prefix[OF this]
  have "bs ! i = m (unat (rw_addr rw) + i)" if "i < length bs" for i
    using p that by (metis add_0_right diff_add_inverse length_map length_upt nth_map_upt)
  with p show ?thesis by simp
qed

lemma store_prefix_take: "n \<le> k \<Longrightarrow> store_prefix m a (take k bs) n = store_prefix m a bs n"
  by (rule ext) (auto simp: store_prefix_def)

lemma do_write_prefix:
  assumes "nemclass_do_write e s rw bs m = (r, m')"
  shows "\<exists>n\<le>min (unat (rw_len rw)) (length bs). m' = store_prefix m (unat (rw_addr rw)) bs n \<and> (\<forall>k. r = Inr k \<longrightarrow> k = n)"
proof (cases "transfer_check e s rw")
  case None
  then show ?thesis
    using assms write_loop_prefix[of e "unat (rw_addr rw)" "take (unat (rw_len rw)) bs" 0 m r m' m]
    by (auto simp: nemclass_do_write_def store_prefix_take min.commute)
next
  case (Some err)
  then have "m' = m" "r = Inl err" using assms by (auto simp: nemclass_do_write_def)
  then show ?thesis by (intro exI[of _ 0]) auto
qed

text \<open>
  What a client relies on when it asks a device to move bytes: a read returns a prefix of the span it names, a write
  stores a prefix, of the length it reports when it succeeds.
\<close>

locale transfer_device =
  fixes io_read :: "nemclass_rw \<Rightarrow> 'd \<Rightarrow> int + bytes"
    and io_write :: "nemclass_rw \<Rightarrow> bytes \<Rightarrow> 'd \<Rightarrow> (int + nat) \<times> 'd"
    and byte :: "'d \<Rightarrow> usize \<Rightarrow> u8"
  assumes io_read_prefix: "io_read rw d = Inr bs \<Longrightarrow>
      length bs \<le> unat (rw_len rw) \<and> (\<forall>i<length bs. bs ! i = byte d (unat (rw_addr rw) + i))"
    and io_write_prefix: "io_write rw bs d = (r, d') \<Longrightarrow>
      \<exists>n\<le>min (unat (rw_len rw)) (length bs). byte d' = store_prefix (byte d) (unat (rw_addr rw)) bs n \<and> (\<forall>k. r = Inr k \<longrightarrow> k = n)"

interpretation module_device: transfer_device "nemclass_do_read e s" "nemclass_do_write e s" "\<lambda>m. m" for e s
  by unfold_locales (fact do_read_prefix do_write_prefix)+

section \<open>Breakpoint service\<close>

definition slot_of :: "nemclass_bp_set \<Rightarrow> nemclass_slot" where
  "slot_of req = \<lparr>sl_id = bs_slot req, sl_kind = bs_kind req, sl_pid = bs_pid req, sl_addr = bs_addr req\<rparr>"

definition reports :: "nemclass_event \<Rightarrow> nemclass_slot \<Rightarrow> bool" where
  "reports ev sl \<longleftrightarrow> ev_kind ev = sl_kind sl \<and> ev_pid ev = sl_pid sl \<and> ev_addr ev = sl_addr sl"

text \<open>
  What a debugger relies on. \<open>armed\<close> are the breakpoints of the session, \<open>sound\<close> the device's own invariant, \<open>room\<close>
  says that the counter of slot ids has not come to its end. Ids are not reused while there is room, so an event names
  the breakpoint it was recorded for.
\<close>

locale breakpoint_device =
  fixes io_set :: "nemclass_bp_set \<Rightarrow> 'd \<Rightarrow> (int + nemclass_bp_set) \<times> 'd"
    and io_clear :: "nemclass_bp_clear \<Rightarrow> 'd \<Rightarrow> (int + unit) \<times> 'd"
    and io_wait :: "int \<Rightarrow> 'd \<Rightarrow> (int + nemclass_event) \<times> 'd"
    and armed :: "'d \<Rightarrow> nemclass_slot set" and sound :: "'d \<Rightarrow> bool" and room :: "'d \<Rightarrow> bool" and granted :: "'d \<Rightarrow> bool"
  assumes armed_ids: "sound d \<Longrightarrow> inj_on sl_id (armed d)"
    and set_ok: "sound d \<Longrightarrow> room d \<Longrightarrow> io_set req d = (Inr req', d') \<Longrightarrow>
      sound d' \<and> req' = req\<lparr>bs_slot := bs_slot req'\<rparr> \<and> bs_slot req' \<notin> sl_id ` armed d \<and> armed d' = insert (slot_of req') (armed d)"
    and set_err: "sound d \<Longrightarrow> room d \<Longrightarrow> io_set req d = (Inl e, d') \<Longrightarrow> sound d' \<and> armed d' = armed d"
    and clear_ok: "sound d \<Longrightarrow> io_clear c d = (Inr u, d') \<Longrightarrow>
      sound d' \<and> armed d' = {sl \<in> armed d. sl_id sl \<noteq> bc_slot c}"
    and clear_err: "sound d \<Longrightarrow> io_clear c d = (Inl e, d') \<Longrightarrow> d' = d \<and> (granted d \<longrightarrow> bc_slot c \<notin> sl_id ` armed d)"
    and wait_keeps: "sound d \<Longrightarrow> io_wait t d = (r, d') \<Longrightarrow> sound d' \<and> armed d' = armed d"
    and wait_reports: "sound d \<Longrightarrow> io_wait t d = (Inr ev, d') \<Longrightarrow> sl \<in> armed d \<Longrightarrow> sl_id sl = ev_slot ev \<Longrightarrow> reports ev sl"

definition session_armed :: "nemclass_session \<Rightarrow> nemclass_slot set" where
  "session_armed s = set (ss_slots s)"

definition session_room :: "nemclass_session \<Rightarrow> bool" where
  "session_room s \<longleftrightarrow> ss_next_slot s < 2 ^ 31 - 1"

definition session_sound :: "nemclass_session \<Rightarrow> bool" where
  "session_sound s \<longleftrightarrow> 0 \<le> ss_next_slot s \<and> distinct (map sl_id (ss_slots s))
     \<and> (\<forall>sl\<in>set (ss_slots s). sl_id sl < ss_next_slot s)
     \<and> (\<forall>ev\<in>set (ss_events s). ev_slot ev < ss_next_slot s
          \<and> (\<forall>sl\<in>set (ss_slots s). sl_id sl = ev_slot ev \<longrightarrow> reports ev sl))"

lemma next_slot_id_room: "0 \<le> n \<Longrightarrow> n < 2 ^ 31 - 1 \<Longrightarrow> next_slot_id n = n + 1"
  unfolding next_slot_id_def by (subst signed_of_int) (simp add: signed_take_bit_int_eq_self)

text \<open>A set uses up an id, whether or not arming succeeds.\<close>

lemma bump_sound:
  assumes "session_sound s" "ss_next_slot s < n"
  shows "session_sound (s\<lparr>ss_next_slot := n\<rparr>)"
proof -
  have "sl_id sl < n" if "sl \<in> set (ss_slots s)" for sl
    using assms that unfolding session_sound_def by (meson less_trans)
  moreover have "ev_slot ev < n" if "ev \<in> set (ss_events s)" for ev
    using assms that unfolding session_sound_def by (meson less_trans)
  ultimately show ?thesis using assms unfolding session_sound_def by simp
qed

lemma push_sound:
  assumes "session_sound s" "sl_id sl = ss_next_slot s" "ss_next_slot s < n"
  shows "session_sound (s\<lparr>ss_next_slot := n, ss_slots := ss_slots s @ [sl]\<rparr>)"
proof -
  have bump: "session_sound (s\<lparr>ss_next_slot := n\<rparr>)" using assms bump_sound by blast
  have "ev_slot ev \<noteq> sl_id sl" if "ev \<in> set (ss_events s)" for ev
    using assms(1,2) that unfolding session_sound_def by (metis less_irrefl)
  moreover have "sl_id sl \<notin> sl_id ` set (ss_slots s)"
    using assms(1,2) unfolding session_sound_def by (metis imageE less_irrefl)
  ultimately show ?thesis using bump assms(2,3) unfolding session_sound_def by simp metis
qed

lemma session_set:
  assumes "session_sound s" "session_room s"
  shows "session_sound (snd (nemclass_bp_set e req s))"
proof -
  have "ss_next_slot s < next_slot_id (ss_next_slot s)"
    using next_slot_id_room assms by (simp add: session_sound_def session_room_def)
  then show ?thesis
    using assms(1) bump_sound push_sound by (simp add: nemclass_bp_set_def Let_def)
qed

lemma remove_slot_Some:
  "remove_slot i ss = Some ss' \<Longrightarrow> distinct (map sl_id ss) \<Longrightarrow> ss' = filter (\<lambda>sl. sl_id sl \<noteq> i) ss"
proof (induction ss arbitrary: ss')
  case (Cons sl ss)
  have "filter (\<lambda>sl'. sl_id sl' \<noteq> sl_id sl) ss = ss" using Cons.prems(2) by (intro filter_True) (force simp: image_iff)
  with Cons show ?case by (cases "sl_id sl = i") (auto simp del: filter_id_conv)
qed simp

lemma remove_slot_None: "remove_slot i ss = None \<longleftrightarrow> i \<notin> sl_id ` set ss"
  by (induction ss) auto

lemma session_hit_keeps:
  assumes "session_sound s"
  shows "session_sound (session_hit h s) \<and> ss_slots (session_hit h s) = ss_slots s"
proof (cases "find (\<lambda>slot. sl_id slot = ht_slot h) (ss_slots s)")
  case (Some sl)
  then have sl: "sl \<in> set (ss_slots s)" by (auto simp: find_Some_iff)
  have "sl' = sl" if "sl' \<in> set (ss_slots s)" "sl_id sl' = sl_id sl" for sl'
    using assms that sl by (auto simp: session_sound_def distinct_map inj_on_def)
  then show ?thesis
    using assms sl by (auto simp: session_hit_def Some nemclass_emit_event_def session_sound_def Let_def reports_def)
qed (use assms in \<open>simp add: session_hit_def\<close>)

lemma session_hits_keep:
  "session_sound s \<Longrightarrow> session_sound (fold session_hit hs s) \<and> ss_slots (fold session_hit hs s) = ss_slots s"
  by (induction hs arbitrary: s) (auto simp: session_hit_keeps)

lemma session_wait:
  assumes "session_sound s" "nemclass_wait_event e t s = (r, s')"
  shows "session_sound s' \<and> ss_slots s' = ss_slots s
    \<and> (\<forall>ev. r = Inr ev \<longrightarrow> (\<forall>sl\<in>set (ss_slots s). sl_id sl = ev_slot ev \<longrightarrow> reports ev sl))"
proof -
  define s1 where "s1 = (if ss_events s = [] then fold session_hit (en_hits e) s else s)"
  have s1: "session_sound s1" "ss_slots s1 = ss_slots s" using assms(1) session_hits_keep by (auto simp: s1_def)
  have pop: "session_sound (s1\<lparr>ss_events := evs\<rparr>)" "\<forall>sl\<in>set (ss_slots s1). sl_id sl = ev_slot ev \<longrightarrow> reports ev sl"
    if "ss_events s1 = ev # evs" for ev evs
    using s1(1) that by (auto simp: session_sound_def)
  show ?thesis
    using assms s1 pop by (auto simp: nemclass_wait_event_def Let_def s1_def[symmetric] split: if_splits list.splits)
qed

interpretation module_breakpoints: breakpoint_device "nemclass_bp_set e" "nemclass_bp_clear e" "nemclass_wait_event e"
  session_armed session_sound session_room "privileged e" for e
proof (unfold_locales, goal_cases)
  case (1 d)
  then show ?case by (simp add: session_sound_def session_armed_def distinct_map)
next
  case (2 d req req' d')
  then have "session_sound d'" using session_set[of d e req] by simp
  with 2 show ?case
    by (auto simp: nemclass_bp_set_def Let_def session_armed_def session_sound_def slot_of_def split: if_splits)
next
  case (3 d req err d')
  then have "session_sound d'" using session_set[of d e req] by simp
  with 3 show ?case by (auto simp: nemclass_bp_set_def Let_def session_armed_def split: if_splits)
next
  case (4 d c u d')
  then show ?case
    using remove_slot_Some[of "bc_slot c" "ss_slots d"]
    by (auto simp: nemclass_bp_clear_def session_armed_def session_sound_def distinct_map_filter
        split: if_splits option.splits)
next
  case (5 d c err d')
  then show ?case
    by (auto simp: nemclass_bp_clear_def session_armed_def remove_slot_None split: if_splits option.splits)
next
  case (6 d t r d')
  then show ?case using session_wait[of d e t r d'] by (simp add: session_armed_def)
next
  case (7 d t ev d' sl)
  then show ?case using session_wait[of d e t "Inr ev" d'] by (simp add: session_armed_def)
qed

end
