(* ===== verification/Maps.thy ===== *)
theory Maps
  imports Analysis
begin

text \<open>
  The parsers of \<open>/proc/<pid>/maps\<close> (nemclass-core/src/internal/process/mod.rs): one section per mapping, and
  one module per mapped file.

  A text is an Isabelle string, whose characters are the code points up to 255. A path that ends in a white space
  character beyond them is outside the model; nothing else the parsers look at depends on the rest of Unicode.
\<close>

section \<open>Text operations of the standard library\<close>

definition ws :: "char \<Rightarrow> bool" where
  "ws c = is_whitespace (of_char c)"

definition trim_end :: "string \<Rightarrow> string" where
  "trim_end s = rev (dropWhile ws (rev s))"

definition strip_suffix :: "string \<Rightarrow> string \<Rightarrow> string option" where
  "strip_suffix suf s =
     (if length suf \<le> length s \<and> drop (length s - length suf) s = suf then Some (take (length s - length suf) s) else None)"

text \<open>\<open>s.find(c)\<close> together with the two halves the code slices there.\<close>

definition split_at_char :: "char \<Rightarrow> string \<Rightarrow> (string \<times> string) option" where
  "split_at_char c s = (if c \<in> set s then Some (takeWhile (\<lambda>d. d \<noteq> c) s, dropWhile (\<lambda>d. d \<noteq> c) s) else None)"

definition split_once :: "char \<Rightarrow> string \<Rightarrow> (string \<times> string) option" where
  "split_once c s = map_option (\<lambda>(a, b). (a, tl b)) (split_at_char c s)"

text \<open>\<open>p.rsplit('/').next()\<close>.\<close>

definition last_component :: "string \<Rightarrow> string" where
  "last_component p = rev (takeWhile (\<lambda>c. c \<noteq> CHR ''/'') (rev p))"

function split_whitespace :: "string \<Rightarrow> string list" where
  "split_whitespace s =
     (let t = dropWhile ws s
      in if t = [] then [] else takeWhile (\<lambda>c. \<not> ws c) t # split_whitespace (dropWhile (\<lambda>c. \<not> ws c) t))"
  by pat_completeness auto

lemma length_dropWhile_cols:
  "dropWhile ws s \<noteq> [] \<Longrightarrow> length (dropWhile (\<lambda>c. \<not> ws c) (dropWhile ws s)) < length s"
proof -
  assume "dropWhile ws s \<noteq> []"
  then obtain c cs where c: "dropWhile ws s = c # cs" by (cases "dropWhile ws s") auto
  then have "\<not> ws c" by (simp add: dropWhile_eq_Cons_conv)
  then have "length (dropWhile (\<lambda>c. \<not> ws c) (c # cs)) \<le> length cs" by (simp add: length_dropWhile_le)
  also have "length cs < length s" using c length_dropWhile_le[of ws s] by simp
  finally show ?thesis using c by simp
qed

termination split_whitespace
  by (relation "measure length") (auto intro: length_dropWhile_cols)

declare split_whitespace.simps [simp del]

text \<open>\<open>str::lines\<close>: a line ends at a line feed, with a carriage return before it dropped.\<close>

definition strip_cr :: "string \<Rightarrow> string" where
  "strip_cr l = (if l \<noteq> [] \<and> last l = CHR 0x0D then butlast l else l)"

function str_lines :: "string \<Rightarrow> string list" where
  "str_lines s =
     (if s = [] then []
      else case split_once (CHR 0x0A) s of
        None \<Rightarrow> [s]
      | Some (l, rest) \<Rightarrow> strip_cr l # str_lines rest)"
  by pat_completeness auto

lemma split_once_length: "split_once c s = Some (a, b) \<Longrightarrow> length b < length s"
proof -
  assume "split_once c s = Some (a, b)"
  then have "c \<in> set s" "b = tl (dropWhile (\<lambda>d. d \<noteq> c) s)" by (auto simp: split_once_def split_at_char_def split: if_splits)
  then have "dropWhile (\<lambda>d. d \<noteq> c) s \<noteq> []" "length b = length (dropWhile (\<lambda>d. d \<noteq> c) s) - 1"
    by (auto simp: dropWhile_eq_Nil_conv)
  then show ?thesis using length_dropWhile_le[of "\<lambda>d. d \<noteq> c" s] by (cases "dropWhile (\<lambda>d. d \<noteq> c) s") auto
qed

termination str_lines
  by (relation "measure length") (auto dest: split_once_length)

declare str_lines.simps [simp del]

text \<open>\<open>usize::from_str_radix\<close>: an optional plus sign, at least one digit, no overflow.\<close>

definition usize_from_str_radix :: "nat \<Rightarrow> string \<Rightarrow> usize option" where
  "usize_from_str_radix radix s =
     (let ds = (case s of c # cs \<Rightarrow> if c = CHR ''+'' then cs else s | [] \<Rightarrow> s)
      in if ds = [] then None
         else case digits_value radix (codes ds) 0 of
           Some v \<Rightarrow> if v \<le> USIZE_MAX then Some v else None
         | None \<Rightarrow> None)"

section \<open>Sections\<close>

text \<open>The address column: two hexadecimal numbers around a dash.\<close>

definition parse_range :: "string list \<Rightarrow> (usize \<times> usize) option" where
  "parse_range cols =
     (case cols of
        [] \<Rightarrow> None
      | r # _ \<Rightarrow>
          (case split_once (CHR ''-'') r of
             None \<Rightarrow> None
           | Some (from, till) \<Rightarrow>
               (case (usize_from_str_radix 16 from, usize_from_str_radix 16 till) of
                  (Some s, Some e) \<Rightarrow> Some (s, e)
                | _ \<Rightarrow> None)))"

definition strip_deleted :: "string \<Rightarrow> string" where
  "strip_deleted p = (case strip_suffix ''(deleted)'' p of Some q \<Rightarrow> trim_end q | None \<Rightarrow> p)"

definition nonempty :: "string \<Rightarrow> string option" where
  "nonempty n = (if n = [] then None else Some n)"

text \<open>One turn of the loop of \<open>parse_maps_sections\<close>; \<open>None\<close> is its \<open>continue\<close>.\<close>

definition parse_maps_line :: "string \<Rightarrow> sect option" where
  "parse_maps_line line =
     (let (head, path) = (case split_at_char (CHR ''/'') line of
            Some (head, tail) \<Rightarrow> (head, Some (trim_end tail))
          | None \<Rightarrow> (line, None));
          cols = split_whitespace head
      in case parse_range cols of
        None \<Rightarrow> None
      | Some (start, end_addr) \<Rightarrow>
          let perms = (case tl cols of p # _ \<Rightarrow> p | [] \<Rightarrow> ''----'');
              prot = Protection_parse (take (min (length perms) 3) perms);
              shared = byte_at perms 3 = Some (CHR ''s'');
              (kind, modname) =
                (if shared then (Mapped, None)
                 else case path of
                   Some p \<Rightarrow>
                     if take 1 p = ''/'' then (Image, nonempty (last_component (strip_deleted p))) else (Private, None)
                 | None \<Rightarrow> (Private, None));
              prot = (if \<not> shared \<and> kind = Image \<and> Protection_write prot then prot OR PROT_COW else prot)
          in Some \<lparr>sec_base = start, sec_size = saturating_sub end_addr start, sec_prot = prot, sec_kind = kind,
                   sec_module = modname\<rparr>)"

definition parse_maps_sections :: "string \<Rightarrow> sect list" where
  "parse_maps_sections maps = List.map_filter parse_maps_line (str_lines maps)"

text \<open>\<open>RegionIndex::from_pid\<close>, given the text of the file (\<open>None\<close>: it could not be read).\<close>

definition RegionIndex_from_pid :: "string option \<Rightarrow> core_error + region_index" where
  "RegionIndex_from_pid maps =
     (case maps of None \<Rightarrow> Inl ProcessDied | Some s \<Rightarrow> Inr (RegionIndex_from_sections (parse_maps_sections s)))"

section \<open>Modules\<close>

record raw_module =
  rm_name :: string
  rm_base :: usize
  rm_end :: usize

record module_acc =
  ma_name :: string
  ma_image_base :: "usize option"
  ma_lowest :: usize
  ma_end :: usize

type_synonym module_state = "string list \<times> (string \<rightharpoonup> module_acc)"

definition module_step :: "string \<Rightarrow> module_state \<Rightarrow> module_state" where
  "module_step line st =
     (case split_at_char (CHR ''/'') line of
        None \<Rightarrow> st
      | Some (head, tail) \<Rightarrow>
          (let path = strip_deleted (trim_end tail); name = last_component path; cols = split_whitespace head
           in if name = [] then st
              else case parse_range cols of
                None \<Rightarrow> st
              | Some (start, end_addr) \<Rightarrow>
                  let offset = (case drop 2 cols of o1 # _ \<Rightarrow> (case usize_from_str_radix 16 o1 of Some v \<Rightarrow> v | None \<Rightarrow> 0) | [] \<Rightarrow> 0);
                      (order, acc) = st;
                      (order, entry) = (case acc path of
                          Some a \<Rightarrow> (order, a)
                        | None \<Rightarrow> (order @ [path], \<lparr>ma_name = name, ma_image_base = None, ma_lowest = start, ma_end = end_addr\<rparr>));
                      entry = (if offset = 0 \<and> ma_image_base entry = None then entry\<lparr>ma_image_base := Some start\<rparr> else entry);
                      entry = entry\<lparr>ma_lowest := min (ma_lowest entry) start, ma_end := max (ma_end entry) end_addr\<rparr>
                  in (order, acc(path \<mapsto> entry))))"

definition raw_of_acc :: "module_acc \<Rightarrow> raw_module" where
  "raw_of_acc a =
     \<lparr>rm_name = ma_name a, rm_base = (case ma_image_base a of Some b \<Rightarrow> b | None \<Rightarrow> ma_lowest a), rm_end = ma_end a\<rparr>"

text \<open>The loop over the order, taking every entry out of the map.\<close>

fun drain_modules :: "string list \<Rightarrow> (string \<rightharpoonup> module_acc) \<Rightarrow> raw_module list" where
  "drain_modules [] acc = []"
| "drain_modules (path # rest) acc =
     (case acc path of
        None \<Rightarrow> drain_modules rest acc
      | Some a \<Rightarrow> raw_of_acc a # drain_modules rest (acc(path := None)))"

definition parse_maps_modules :: "string \<Rightarrow> raw_module list" where
  "parse_maps_modules maps =
     (let (order, acc) = fold module_step (str_lines maps) ([], Map.empty) in drain_modules order acc)"

section \<open>The text the kernel prints\<close>

text \<open>
  A mapping as proc(5) documents its line: address range, permissions, file offset, device and inode, and then nothing,
  a pseudo name such as \<open>[heap]\<close>, or the path of a file that may have been deleted.
\<close>

datatype backing = Anonymous | Pseudo string | MappedFile string bool

record mapping =
  mp_start :: nat
  mp_end :: nat
  mp_read :: bool
  mp_write :: bool
  mp_exec :: bool
  mp_shared :: bool
  mp_offset :: nat
  mp_device :: string
  mp_pad :: nat
  mp_backing :: backing

definition zero_padded_hex :: "nat \<Rightarrow> string" where
  "zero_padded_hex n = replicate (8 - length (format_hex n)) (CHR ''0'') @ format_hex n"

definition perm_text :: "mapping \<Rightarrow> string" where
  "perm_text m = [if mp_read m then CHR ''r'' else CHR ''-'', if mp_write m then CHR ''w'' else CHR ''-'',
     if mp_exec m then CHR ''x'' else CHR ''-'', if mp_shared m then CHR ''s'' else CHR ''p'']"

definition backing_text :: "backing \<Rightarrow> string" where
  "backing_text b = (case b of Anonymous \<Rightarrow> [] | Pseudo s \<Rightarrow> s | MappedFile p del \<Rightarrow> p @ (if del then '' (deleted)'' else []))"

definition line_head :: "mapping \<Rightarrow> string" where
  "line_head m = zero_padded_hex (mp_start m) @ ''-'' @ zero_padded_hex (mp_end m) @ '' '' @ perm_text m @ '' ''
     @ zero_padded_hex (mp_offset m) @ '' '' @ mp_device m @ replicate (Suc (mp_pad m)) (CHR '' '')"

definition maps_line :: "mapping \<Rightarrow> string" where
  "maps_line m = line_head m @ backing_text (mp_backing m)"

definition maps_text :: "mapping list \<Rightarrow> string" where
  "maps_text ms = concat (map (\<lambda>m. maps_line m @ [CHR 0x0A]) ms)"

text \<open>Well-formed lines: the columns hold no line break and no slash, a path does not end in white space.\<close>

definition plain_column :: "string \<Rightarrow> bool" where
  "plain_column s \<longleftrightarrow> (\<forall>c\<in>set s. c \<noteq> CHR ''/'' \<and> (c = CHR '' '' \<or> \<not> ws c))"

definition file_path :: "string \<Rightarrow> bool" where
  "file_path p \<longleftrightarrow> take 1 p = ''/'' \<and> CHR 0x0A \<notin> set p \<and> last_component p \<noteq> [] \<and> \<not> ws (last p)
     \<and> strip_suffix ''(deleted)'' p = None"

definition mapping_wf :: "mapping \<Rightarrow> bool" where
  "mapping_wf m \<longleftrightarrow> mp_start m \<le> mp_end m \<and> mp_end m \<le> USIZE_MAX \<and> mp_offset m \<le> USIZE_MAX \<and> plain_column (mp_device m)
     \<and> (case mp_backing m of Anonymous \<Rightarrow> True | Pseudo s \<Rightarrow> plain_column s | MappedFile p _ \<Rightarrow> file_path p)"

definition mapped_path :: "mapping \<Rightarrow> string option" where
  "mapped_path m = (case mp_backing m of MappedFile p _ \<Rightarrow> Some p | _ \<Rightarrow> None)"

definition section_of :: "mapping \<Rightarrow> sect" where
  "section_of m =
     (let modname = (if mp_shared m then None else map_option last_component (mapped_path m))
      in \<lparr>sec_base = mp_start m, sec_size = mp_end m - mp_start m,
          sec_prot = (if mp_read m then PROT_R else 0) OR (if mp_write m then PROT_W else 0) OR (if mp_exec m then PROT_X else 0)
            OR (if modname \<noteq> None \<and> mp_write m then PROT_COW else 0),
          sec_kind = (if mp_shared m then Mapped else if modname \<noteq> None then Image else Private),
          sec_module = modname\<rparr>)"

section \<open>Facts about the text operations\<close>

lemma while_not_append:
  "c \<notin> set a \<Longrightarrow> takeWhile (\<lambda>d. d \<noteq> c) (a @ c # b) = a"
  "c \<notin> set a \<Longrightarrow> dropWhile (\<lambda>d. d \<noteq> c) (a @ c # b) = c # b"
  by (induction a) auto

lemma split_at_char_append: "c \<notin> set a \<Longrightarrow> split_at_char c (a @ c # b) = Some (a, c # b)"
  by (simp add: split_at_char_def while_not_append)

lemma split_at_char_None: "c \<notin> set s \<Longrightarrow> split_at_char c s = None"
  by (simp add: split_at_char_def)

lemma split_once_append: "c \<notin> set a \<Longrightarrow> split_once c (a @ c # b) = Some (a, b)"
  by (simp add: split_once_def split_at_char_append)

lemma str_lines_concat:
  assumes "\<And>l. l \<in> set ls \<Longrightarrow> CHR 0x0A \<notin> set l \<and> (l \<noteq> [] \<longrightarrow> last l \<noteq> CHR 0x0D)"
  shows "str_lines (concat (map (\<lambda>l. l @ [CHR 0x0A]) ls)) = ls"
  using assms
proof (induction ls)
  case (Cons l ls)
  then have "split_once (CHR 0x0A) (l @ CHR 0x0A # concat (map (\<lambda>l. l @ [CHR 0x0A]) ls))
      = Some (l, concat (map (\<lambda>l. l @ [CHR 0x0A]) ls))" by (intro split_once_append) simp
  moreover have "strip_cr l = l" using Cons(2)[of l] by (auto simp: strip_cr_def)
  ultimately show ?case using Cons by (subst str_lines.simps) simp
qed (simp add: str_lines.simps)

lemma split_whitespace_word:
  assumes "w \<noteq> []" "\<And>c. c \<in> set w \<Longrightarrow> \<not> ws c" "ws d"
  shows "split_whitespace (w @ d # s) = w # split_whitespace (d # s)"
proof -
  have "dropWhile ws (w @ d # s) = w @ d # s" using assms by (cases w) auto
  then show ?thesis
    using assms by (subst split_whitespace.simps) (simp add: takeWhile_append2 dropWhile_append2)
qed

lemma split_whitespace_skip: "ws d \<Longrightarrow> split_whitespace (d # s) = split_whitespace s"
  by (subst (1 2) split_whitespace.simps) simp

lemma trim_end_append:
  assumes "s \<noteq> []" "\<not> ws (last s)" "\<And>c. c \<in> set t \<Longrightarrow> ws c"
  shows "trim_end (s @ t) = s"
proof -
  have "dropWhile ws (rev t @ rev s) = dropWhile ws (rev s)" using assms(3) by (intro dropWhile_append2) simp
  moreover have "dropWhile ws (rev s) = rev s" using assms(1,2) by (cases s rule: rev_cases) simp_all
  ultimately show ?thesis by (simp add: trim_end_def)
qed

lemma strip_suffix_append [simp]: "strip_suffix suf (s @ suf) = Some s"
  by (simp add: strip_suffix_def)

lemma ws_chars [simp]:
  "ws (CHR '' '')" "ws (CHR 0x0A)" "ws (CHR 0x0D)"
  "\<not> ws (CHR ''-'')" "\<not> ws (CHR '')'')" "\<not> ws (CHR ''0'')" "\<not> ws (CHR ''r'')" "\<not> ws (CHR ''w'')" "\<not> ws (CHR ''x'')"
  "\<not> ws (CHR ''s'')" "\<not> ws (CHR ''p'')"
  by (simp_all add: ws_def is_whitespace_def)

text \<open>A hexadecimal column: no white space, dash, slash or line break in it, and it reads back.\<close>

definition column_char :: "char \<Rightarrow> bool" where
  "column_char c \<longleftrightarrow> \<not> ws c \<and> c \<noteq> CHR ''-'' \<and> c \<noteq> CHR ''/'' \<and> c \<noteq> CHR 0x0A \<and> c \<noteq> CHR ''+''"

lemma format_hex_column: "c \<in> set (format_hex n) \<Longrightarrow> column_char c"
proof -
  assume "c \<in> set (format_hex n)"
  then obtain d where d: "d < 16" "c = hex_digit_lower d"
    using digits_of_chars[of 16 c hex_digit_lower n] by (auto simp: format_hex_def)
  then show ?thesis using less_16_cases[OF d(1)]
    by (auto simp: column_char_def ws_def is_whitespace_def hex_digit_lower_def)
qed

lemma zero_padded_hex_column: "c \<in> set (zero_padded_hex n) \<Longrightarrow> column_char c"
  using format_hex_column[of c n]
  by (auto simp: zero_padded_hex_def column_char_def)

lemma zero_padded_hex_nonempty [simp]: "zero_padded_hex n \<noteq> []"
  by (simp add: zero_padded_hex_def format_hex_def)

lemma usize_from_zero_padded: "n \<le> USIZE_MAX \<Longrightarrow> usize_from_str_radix 16 (zero_padded_hex n) = Some n"
proof -
  assume "n \<le> USIZE_MAX"
  moreover obtain c cs where c: "zero_padded_hex n = c # cs" by (cases "zero_padded_hex n") auto
  moreover have "c \<noteq> CHR ''+''" using zero_padded_hex_column[of c n] c by (simp add: column_char_def)
  moreover have "digits_value 16 (codes (zero_padded_hex n)) 0 = Some n"
    by (simp add: zero_padded_hex_def digits_value_zeros digits_value_format)
  ultimately show ?thesis by (simp add: usize_from_str_radix_def)
qed

section \<open>The lines read back\<close>

definition range_text :: "mapping \<Rightarrow> string" where
  "range_text m = zero_padded_hex (mp_start m) @ ''-'' @ zero_padded_hex (mp_end m)"

lemma column_char_set: "\<forall>c\<in>set w. column_char c \<Longrightarrow> CHR ''-'' \<notin> set w \<and> CHR ''/'' \<notin> set w \<and> CHR 0x0A \<notin> set w"
  by (auto simp: column_char_def)

lemma perm_text_chars: "c \<in> set (perm_text m) \<Longrightarrow> \<not> ws c \<and> c \<noteq> CHR ''/'' \<and> c \<noteq> CHR 0x0A"
  by (auto simp: perm_text_def split: if_splits)

lemma range_text_chars: "c \<in> set (range_text m) \<Longrightarrow> \<not> ws c \<and> c \<noteq> CHR ''/'' \<and> c \<noteq> CHR 0x0A"
  using zero_padded_hex_column[of c "mp_start m"] zero_padded_hex_column[of c "mp_end m"]
  by (auto simp: range_text_def column_char_def)

lemma plain_column_char: "plain_column s \<Longrightarrow> c \<in> set s \<Longrightarrow> c \<noteq> CHR ''/'' \<and> c \<noteq> CHR 0x0A \<and> c \<noteq> CHR 0x0D"
proof -
  assume "plain_column s" "c \<in> set s"
  then have c: "c \<noteq> CHR ''/'' \<and> (c = CHR '' '' \<or> \<not> ws c)" unfolding plain_column_def by blast
  then show ?thesis
  proof (cases "c = CHR '' ''")
    case False
    with c have "\<not> ws c" by blast
    with ws_chars(2,3) have "c \<noteq> CHR 0x0A" "c \<noteq> CHR 0x0D" by blast+
    with c show ?thesis by blast
  qed simp
qed

lemma line_head_chars: "mapping_wf m \<Longrightarrow> c \<in> set (line_head m) \<Longrightarrow> c \<noteq> CHR ''/'' \<and> c \<noteq> CHR 0x0A \<and> c \<noteq> CHR 0x0D"
proof -
  assume wf: "mapping_wf m" and "c \<in> set (line_head m)"
  then consider "column_char c" | "c \<in> set (perm_text m)" | "c \<in> set (mp_device m)" | "c = CHR '' ''" | "c = CHR ''-''"
    using zero_padded_hex_column[of c] by (auto simp: line_head_def split: if_splits)
  then show ?thesis
  proof cases
    case 1
    then show ?thesis by (auto simp: column_char_def)
  next
    case 2
    then show ?thesis using perm_text_chars[of c m] by auto
  next
    case 3
    then show ?thesis using wf plain_column_char[of "mp_device m" c] by (simp add: mapping_wf_def)
  qed simp_all
qed

lemma line_head_cols:
  "split_whitespace (line_head m @ s) = range_text m # perm_text m # zero_padded_hex (mp_offset m) #
     split_whitespace (mp_device m @ replicate (Suc (mp_pad m)) (CHR '' '') @ s)"
proof -
  let ?rest = "mp_device m @ replicate (Suc (mp_pad m)) (CHR '' '') @ s"
  have col: "split_whitespace (w @ CHR '' '' # t) = w # split_whitespace t" if "w \<noteq> []" "\<forall>c\<in>set w. \<not> ws c" for w t
    using that split_whitespace_word[of w "CHR '' ''" t] by (simp add: split_whitespace_skip)
  have "line_head m @ s = range_text m @ CHR '' '' # perm_text m @ CHR '' '' # zero_padded_hex (mp_offset m) @ CHR '' '' # ?rest"
    by (simp add: line_head_def range_text_def)
  moreover have "split_whitespace (range_text m @ CHR '' '' # t) = range_text m # split_whitespace t" for t
    using range_text_chars[of _ m] by (intro col) (auto simp: range_text_def)
  moreover have "split_whitespace (perm_text m @ CHR '' '' # t) = perm_text m # split_whitespace t" for t
    using perm_text_chars[of _ m] by (intro col) (auto simp: perm_text_def)
  moreover have "split_whitespace (zero_padded_hex n @ CHR '' '' # t) = zero_padded_hex n # split_whitespace t" for n t
    using zero_padded_hex_column[of _ n] by (intro col) (auto simp: column_char_def)
  ultimately show ?thesis by (simp only:)
qed

lemma parse_range_text:
  assumes "mapping_wf m"
  shows "parse_range (range_text m # cs) = Some (mp_start m, mp_end m)"
proof -
  have "mp_start m \<le> USIZE_MAX" "mp_end m \<le> USIZE_MAX" using assms by (auto simp: mapping_wf_def)
  moreover have "CHR ''-'' \<notin> set (zero_padded_hex (mp_start m))"
    using zero_padded_hex_column by (force simp: column_char_def)
  ultimately show ?thesis
    by (simp add: parse_range_def range_text_def split_once_append usize_from_zero_padded)
qed

lemma perm_text_flags:
  "byte_at (perm_text m) 3 = Some (CHR ''s'') \<longleftrightarrow> mp_shared m"
  "Protection_parse (take (min (length (perm_text m)) 3) (perm_text m)) =
     (if mp_read m then PROT_R else 0) OR (if mp_write m then PROT_W else 0) OR (if mp_exec m then PROT_X else 0)"
  "Protection_write ((if mp_read m then PROT_R else 0) OR (if mp_write m then PROT_W else 0) OR (if mp_exec m then PROT_X else 0))
     \<longleftrightarrow> mp_write m"
  by (simp_all add: perm_text_def byte_at_def Protection_parse_def Let_def prot_consts Protection_write_def prot_contains_def)

lemma split_maps_line:
  assumes "mapping_wf m"
  shows "split_at_char (CHR ''/'') (maps_line m) =
    (case mp_backing m of MappedFile p _ \<Rightarrow> Some (line_head m, backing_text (mp_backing m)) | _ \<Rightarrow> None)"
proof -
  have head: "CHR ''/'' \<notin> set (line_head m)" using line_head_chars[OF assms] by blast
  show ?thesis
  proof (cases "mp_backing m")
    case (MappedFile p d)
    then have "take 1 p = ''/''" using assms by (simp add: mapping_wf_def file_path_def)
    then obtain q where "p = CHR ''/'' # q" by (cases p) auto
    then show ?thesis using head MappedFile by (simp add: maps_line_def backing_text_def split_at_char_append)
  next
    case (Pseudo q)
    then have "CHR ''/'' \<notin> set q" using assms plain_column_char[of q] by (auto simp: mapping_wf_def)
    then show ?thesis using head Pseudo by (simp add: maps_line_def backing_text_def split_at_char_None)
  qed (use head in \<open>simp add: maps_line_def backing_text_def split_at_char_None\<close>)
qed

lemma file_path_text:
  assumes "file_path p"
  shows "trim_end (backing_text (MappedFile p d)) = backing_text (MappedFile p d)"
    and "strip_deleted (backing_text (MappedFile p d)) = p" "take 1 (backing_text (MappedFile p d)) = ''/''"
proof -
  have p: "p \<noteq> []" "\<not> ws (last p)" "strip_suffix ''(deleted)'' p = None" "take 1 p = ''/''"
    using assms by (auto simp: file_path_def)
  have "\<not> ws (last (p @ '' (deleted)''))" by simp
  with p show "trim_end (backing_text (MappedFile p d)) = backing_text (MappedFile p d)"
    using trim_end_append[of _ "[]"] by (auto simp: backing_text_def)
  have "strip_suffix ''(deleted)'' ((p @ '' '') @ ''(deleted)'') = Some (p @ '' '')" by (rule strip_suffix_append)
  moreover have "trim_end (p @ '' '') = p" by (rule trim_end_append) (use p in auto)
  ultimately show "strip_deleted (backing_text (MappedFile p d)) = p"
    using p(3) by (auto simp: strip_deleted_def backing_text_def simp del: strip_suffix_append)
  show "take 1 (backing_text (MappedFile p d)) = ''/''" using p(1,4) by (cases p) (auto simp: backing_text_def)
qed

lemma parse_maps_line_text:
  assumes "mapping_wf m"
  shows "parse_maps_line (maps_line m) = Some (section_of m)"
proof -
  have range: "parse_range (range_text m # cs) = Some (mp_start m, mp_end m)" for cs by (rule parse_range_text[OF assms])
  note line_cols = line_head_cols[of m "backing_text (mp_backing m)", folded maps_line_def]
  show ?thesis
  proof (cases "mp_backing m")
    case (MappedFile p d)
    then have p: "file_path p" using assms by (simp add: mapping_wf_def)
    have cols: "split_whitespace (line_head m) = range_text m # perm_text m # zero_padded_hex (mp_offset m) #
        split_whitespace (mp_device m @ replicate (Suc (mp_pad m)) (CHR '' ''))" using line_head_cols[of m "[]"] by simp
    have "nonempty (last_component p) = Some (last_component p)" using p by (simp add: file_path_def nonempty_def)
    then show ?thesis using file_path_text[OF p, of d]
      by (simp add: parse_maps_line_def split_maps_line[OF assms] MappedFile cols range Let_def perm_text_flags section_of_def
          mapped_path_def saturating_sub_def or.assoc)
  qed (simp_all add: parse_maps_line_def split_maps_line[OF assms] Let_def line_cols range perm_text_flags section_of_def
      mapped_path_def saturating_sub_def or.assoc)
qed

lemma maps_line_ends:
  assumes "mapping_wf m"
  shows "CHR 0x0A \<notin> set (maps_line m) \<and> (maps_line m \<noteq> [] \<longrightarrow> last (maps_line m) \<noteq> CHR 0x0D)"
proof -
  have head: "CHR 0x0A \<notin> set (line_head m)" "CHR 0x0D \<notin> set (line_head m)" using line_head_chars[OF assms] by blast+
  have ne: "line_head m \<noteq> []" by (simp add: line_head_def)
  have last_head: "last (line_head m) \<noteq> CHR 0x0D" using last_in_set[OF ne] head(2) by metis
  show ?thesis
  proof (cases "mp_backing m")
    case Anonymous
    then show ?thesis using head last_head by (simp add: maps_line_def backing_text_def)
  next
    case (Pseudo s)
    then have s: "CHR 0x0A \<notin> set s" "CHR 0x0D \<notin> set s" using assms plain_column_char[of s] by (auto simp: mapping_wf_def)
    have "last (line_head m @ s) \<noteq> CHR 0x0D" using s(2) last_head last_in_set[of s] by (metis last_append)
    then show ?thesis using head s Pseudo by (simp add: maps_line_def backing_text_def)
  next
    case (MappedFile p d)
    then have p: "CHR 0x0A \<notin> set p" "\<not> ws (last p)" "p \<noteq> []" using assms by (auto simp: mapping_wf_def file_path_def)
    have "last p \<noteq> CHR 0x0D" using p(2) ws_chars(3) by metis
    then show ?thesis using head p(1,3) MappedFile by (simp add: maps_line_def backing_text_def)
  qed
qed

lemma str_lines_maps_text:
  assumes "\<forall>m\<in>set ms. mapping_wf m"
  shows "str_lines (maps_text ms) = map maps_line ms"
proof -
  have "maps_text ms = concat (map (\<lambda>l. l @ [CHR 0x0A]) (map maps_line ms))" by (simp add: maps_text_def comp_def)
  then show ?thesis using str_lines_concat[of "map maps_line ms"] maps_line_ends assms by auto
qed

lemma sections_of_text:
  assumes "\<forall>m\<in>set ms. mapping_wf m"
  shows "parse_maps_sections (maps_text ms) = map section_of ms"
  using assms unfolding parse_maps_sections_def str_lines_maps_text[OF assms]
  by (induction ms) (auto simp: List.map_filter_simps parse_maps_line_text)

text \<open>An image in two mappings, and the heap.\<close>

definition sample_mapping :: "nat \<Rightarrow> nat \<Rightarrow> bool \<Rightarrow> bool \<Rightarrow> nat \<Rightarrow> backing \<Rightarrow> mapping" where
  "sample_mapping start till w x off b = \<lparr>mp_start = start, mp_end = till, mp_read = True, mp_write = w, mp_exec = x,
     mp_shared = False, mp_offset = off, mp_device = ''08:01 100'', mp_pad = 2, mp_backing = b\<rparr>"

definition sample_maps :: "mapping list" where
  "sample_maps =
     [sample_mapping 0x1000 0x2000 False True 0x1000 (MappedFile ''/usr/a b'' True),
      sample_mapping 0x3000 0x4000 True False 0 (MappedFile ''/usr/a b'' True),
      sample_mapping 0x7000 0x8000 True False 0 (Pseudo ''[heap]'')]"

lemma sample_maps_wf: "\<forall>m\<in>set sample_maps. mapping_wf m"
  by (simp add: sample_maps_def sample_mapping_def mapping_wf_def plain_column_def file_path_def last_component_def
      strip_suffix_def ws_def is_whitespace_def USIZE_MAX_def)

text \<open>
  The sections read from a maps text are its mappings, one for one and in order: address range, permissions with
  copy-on-write on writable private file views, the kind of memory, and the file name of an image mapping.
\<close>

theorem maps_sections_roundtrip:
  assumes "\<forall>m\<in>set ms. mapping_wf m"
  shows "parse_maps_sections (maps_text ms) = map section_of ms"
  by (rule sections_of_text[OF assms])

theorem maps_sections_roundtrip_witness:
  "map sec_module (parse_maps_sections (maps_text sample_maps)) = [Some ''a b'', Some ''a b'', None]
   \<and> map (Protection_copy_on_write \<circ> sec_prot) (parse_maps_sections (maps_text sample_maps)) = [False, True, False]"
  unfolding maps_sections_roundtrip[OF sample_maps_wf]
  by (simp add: sample_maps_def sample_mapping_def section_of_def mapped_path_def last_component_def Protection_copy_on_write_def
      prot_contains_def prot_consts)

text \<open>
  The region index built from a process's maps text classifies every address by the mapping that holds it:
  executable or data with the image's file name, and unmapped outside every mapping.
\<close>

theorem region_index_from_maps:
  assumes "\<forall>m\<in>set ms. mapping_wf m" "sorted_wrt (\<lambda>m n. mp_end m \<le> mp_start n) ms"
  shows "\<exists>index. RegionIndex_from_pid (Some (maps_text ms)) = Inr index \<and>
    (\<forall>addr. RegionIndex_classify index addr =
      (case find (\<lambda>m. mp_start m \<le> addr \<and> addr < mp_end m) ms of
         None \<Rightarrow> Unmapped
       | Some m \<Rightarrow>
           (if mp_exec m then Executable else Data)
             (if mp_shared m then None else map_option last_component (mapped_path m))))"
proof -
  have wf: "mp_start m \<le> mp_end m" "mp_end m \<le> USIZE_MAX" if "m \<in> set ms" for m
    using assms(1) that by (auto simp: mapping_wf_def)
  have s: "sec_base (section_of m) = mp_start m" "sec_size (section_of m) = mp_end m - mp_start m" for m
    by (simp_all add: section_of_def Let_def)
  have exec: "Protection_execute (sec_prot (section_of m)) = mp_exec m" for m
    by (simp add: section_of_def Let_def Protection_execute_def prot_contains_def prot_consts)
  have modname: "sec_module (section_of m) = (if mp_shared m then None else map_option last_component (mapped_path m))" for m
    by (simp add: section_of_def Let_def)
  have disj: "sections_disjoint (map section_of ms)"
    unfolding sections_disjoint_def sorted_wrt_map s
    by (rule sorted_wrt_mono_rel[OF _ assms(2)]) (use wf in auto)
  have bound: "sec_base t + sec_size t \<le> USIZE_MAX" if "t \<in> set (map section_of ms)" for t
    using that wf by (auto simp: s)
  have find: "find (\<lambda>t. sec_base t \<le> a \<and> a < sec_base t + sec_size t) (map section_of ms)
      = map_option section_of (find (\<lambda>m. mp_start m \<le> a \<and> a < mp_end m) ms)" for a
    using wf by (induction ms) (auto simp: s)
  have cls: "RegionIndex_classify (RegionIndex_from_sections (map section_of ms)) a =
      (case find (\<lambda>m. mp_start m \<le> a \<and> a < mp_end m) ms of
         None \<Rightarrow> Unmapped
       | Some m \<Rightarrow> if mp_exec m then Executable (sec_module (section_of m)) else Data (sec_module (section_of m)))" for a
    unfolding classify_sections[OF disj bound, simplified] find by (simp add: exec split: option.split)
  have "RegionIndex_classify (RegionIndex_from_sections (map section_of ms)) a =
      (case find (\<lambda>m. mp_start m \<le> a \<and> a < mp_end m) ms of
         None \<Rightarrow> Unmapped
       | Some m \<Rightarrow>
           (if mp_exec m then Executable else Data)
             (if mp_shared m then None else map_option last_component (mapped_path m)))" for a
    unfolding cls modname by (simp split: option.split)
  then show ?thesis
    unfolding RegionIndex_from_pid_def option.case sections_of_text[OF assms(1)] by blast
qed

theorem region_index_from_maps_witness:
  "\<exists>index. RegionIndex_from_pid (Some (maps_text sample_maps)) = Inr index \<and>
     RegionIndex_classify index 0x1234 = Executable (Some ''a b'') \<and> RegionIndex_classify index 0x2500 = Unmapped"
proof -
  have "sorted_wrt (\<lambda>m n. mp_end m \<le> mp_start n) sample_maps" by (simp add: sample_maps_def sample_mapping_def)
  from region_index_from_maps[OF sample_maps_wf this] obtain index where i: "RegionIndex_from_pid (Some (maps_text sample_maps)) = Inr index"
    and c: "RegionIndex_classify index a =
      (case find (\<lambda>m. mp_start m \<le> a \<and> a < mp_end m) sample_maps of
         None \<Rightarrow> Unmapped
       | Some m \<Rightarrow>
           (if mp_exec m then Executable else Data)
             (if mp_shared m then None else map_option last_component (mapped_path m)))" for a
    by blast
  show ?thesis using i by (intro exI[of _ index]) (simp add: c sample_maps_def sample_mapping_def mapped_path_def last_component_def)
qed

text \<open>
  A slash inside a pseudo name is taken for the start of a path: the anonymous mapping \<open>[anon:a/b]\<close> is reported as an
  image mapping of a file \<open>b]\<close>.
\<close>

lemma pseudo_name_with_slash_is_image:
  "parse_maps_line ''1000-2000 rw-p 00000000 00:00 0   [anon:a/b]'' =
     Some \<lparr>sec_base = 0x1000, sec_size = 0x1000, sec_prot = PROT_R OR PROT_W OR PROT_COW, sec_kind = Image,
       sec_module = Some ''b]''\<rparr>"
  by (simp add: parse_maps_line_def split_at_char_def split_whitespace.simps ws_def is_whitespace_def Let_def parse_range_def
      split_once_def usize_from_str_radix_def to_digit_def USIZE_MAX_def byte_at_def Protection_parse_def trim_end_def
      strip_deleted_def strip_suffix_def last_component_def nonempty_def prot_consts Protection_write_def prot_contains_def
      saturating_sub_def)

section \<open>Modules of a text\<close>

definition mapped_paths :: "mapping list \<Rightarrow> string list" where
  "mapped_paths ms = List.map_filter mapped_path ms"

definition first_seen :: "'a list \<Rightarrow> 'a list" where
  "first_seen xs = rev (remdups (rev xs))"

definition mappings_of :: "mapping list \<Rightarrow> string \<Rightarrow> mapping list" where
  "mappings_of ms p = filter (\<lambda>m. mapped_path m = Some p) ms"

text \<open>The module of a path: its base is the first mapping of file offset 0, or else the lowest one.\<close>

definition module_of :: "mapping list \<Rightarrow> string \<Rightarrow> raw_module" where
  "module_of ms p =
     (let qs = mappings_of ms p
      in \<lparr>rm_name = last_component p,
          rm_base = (case find (\<lambda>m. mp_offset m = 0) qs of Some m \<Rightarrow> mp_start m | None \<Rightarrow> Min (mp_start ` set qs)),
          rm_end = Max (mp_end ` set qs)\<rparr>)"

definition acc_of :: "mapping list \<Rightarrow> string \<Rightarrow> module_acc" where
  "acc_of ms p =
     (let qs = mappings_of ms p
      in \<lparr>ma_name = last_component p, ma_image_base = map_option mp_start (find (\<lambda>m. mp_offset m = 0) qs),
          ma_lowest = Min (mp_start ` set qs), ma_end = Max (mp_end ` set qs)\<rparr>)"

lemma first_seen_snoc: "first_seen (xs @ [x]) = (if x \<in> set xs then first_seen xs else first_seen xs @ [x])"
  by (simp add: first_seen_def)

lemma set_first_seen [simp]: "set (first_seen xs) = set xs"
  by (simp add: first_seen_def)

lemma distinct_first_seen [simp]: "distinct (first_seen xs)"
  by (simp add: first_seen_def)

lemma find_snoc: "find P (xs @ [x]) = (case find P xs of None \<Rightarrow> if P x then Some x else None | Some y \<Rightarrow> Some y)"
  by (induction xs) auto

lemma mapped_paths_snoc:
  "mapped_paths (ms @ [m]) = mapped_paths ms @ (case mapped_path m of None \<Rightarrow> [] | Some p \<Rightarrow> [p])"
  by (simp add: mapped_paths_def List.map_filter_def split: option.split)

lemma mappings_of_snoc: "mappings_of (ms @ [m]) p = mappings_of ms p @ (if mapped_path m = Some p then [m] else [])"
  by (simp add: mappings_of_def)

lemma mappings_of_empty: "mappings_of ms p = [] \<longleftrightarrow> p \<notin> set (mapped_paths ms)"
  by (induction ms) (auto simp: mappings_of_def mapped_paths_def List.map_filter_simps split: option.split)

lemma acc_of_snoc:
  assumes "mapped_path m = Some p"
  shows "acc_of (ms @ [m]) p =
    (let e = (if p \<in> set (mapped_paths ms) then acc_of ms p
              else \<lparr>ma_name = last_component p, ma_image_base = None, ma_lowest = mp_start m, ma_end = mp_end m\<rparr>);
         e = (if mp_offset m = 0 \<and> ma_image_base e = None then e\<lparr>ma_image_base := Some (mp_start m)\<rparr> else e)
     in e\<lparr>ma_lowest := min (ma_lowest e) (mp_start m), ma_end := max (ma_end e) (mp_end m)\<rparr>)"
proof (cases "mappings_of ms p = []")
  case True
  then have "p \<notin> set (mapped_paths ms)" by (simp add: mappings_of_empty)
  then show ?thesis using True assms by (simp add: acc_of_def mappings_of_snoc)
next
  case False
  then have "p \<in> set (mapped_paths ms)" by (simp add: mappings_of_empty)
  moreover have "Min (insert x (f ` set qs)) = min (Min (f ` set qs)) x" "Max (insert x (f ` set qs)) = max (Max (f ` set qs)) x"
    if "qs \<noteq> []" for x :: nat and f :: "mapping \<Rightarrow> nat" and qs
    using that by (simp_all add: min.commute max.commute)
  ultimately show ?thesis using False assms
    by (simp add: acc_of_def mappings_of_snoc find_snoc Let_def split: option.split)
qed

lemma acc_of_other: "mapped_path m \<noteq> Some p \<Longrightarrow> acc_of (ms @ [m]) p = acc_of ms p"
  by (simp add: acc_of_def mappings_of_snoc)

text \<open>The state after the lines of \<open>ms\<close>.\<close>

definition state_of :: "mapping list \<Rightarrow> module_state" where
  "state_of ms = (first_seen (mapped_paths ms), \<lambda>p. if p \<in> set (mapped_paths ms) then Some (acc_of ms p) else None)"

lemma module_step_file:
  assumes "mapping_wf m" "mp_backing m = MappedFile p d"
  shows "module_step (maps_line m) (order, acc) =
    (let (order, entry) = (case acc p of
           Some a \<Rightarrow> (order, a)
         | None \<Rightarrow> (order @ [p], \<lparr>ma_name = last_component p, ma_image_base = None, ma_lowest = mp_start m, ma_end = mp_end m\<rparr>));
         entry = (if mp_offset m = 0 \<and> ma_image_base entry = None then entry\<lparr>ma_image_base := Some (mp_start m)\<rparr> else entry);
         entry = entry\<lparr>ma_lowest := min (ma_lowest entry) (mp_start m), ma_end := max (ma_end entry) (mp_end m)\<rparr>
     in (order, acc(p \<mapsto> entry)))"
proof -
  have p: "file_path p" using assms by (simp add: mapping_wf_def)
  have cols: "split_whitespace (line_head m) = range_text m # perm_text m # zero_padded_hex (mp_offset m) #
      split_whitespace (mp_device m @ replicate (Suc (mp_pad m)) (CHR '' ''))" using line_head_cols[of m "[]"] by simp
  have off: "usize_from_str_radix 16 (zero_padded_hex (mp_offset m)) = Some (mp_offset m)"
    using assms(1) by (intro usize_from_zero_padded) (simp add: mapping_wf_def)
  have path: "strip_deleted (trim_end (backing_text (MappedFile p d))) = p" using file_path_text[OF p, of d] by simp
  have "last_component p \<noteq> []" using p by (simp add: file_path_def)
  then show ?thesis
    unfolding module_step_def split_maps_line[OF assms(1)] assms(2) backing.case option.case prod.case path Let_def cols
    by (simp add: off parse_range_text[OF assms(1)])
qed

lemma module_step_line:
  assumes "mapping_wf m"
  shows "module_step (maps_line m) (state_of ms) = state_of (ms @ [m])"
proof (cases "mapped_path m")
  case None
  then have "split_at_char (CHR ''/'') (maps_line m) = None"
    using split_maps_line[OF assms] by (auto simp: mapped_path_def split: backing.splits)
  then show ?thesis
    using None acc_of_other[of m _ ms] by (simp add: module_step_def state_of_def mapped_paths_snoc cong: if_cong)
next
  case (Some p)
  then obtain d where d: "mp_backing m = MappedFile p d" by (auto simp: mapped_path_def split: backing.splits)
  have other: "acc_of (ms @ [m]) q = acc_of ms q" if "q \<noteq> p" for q using that Some by (intro acc_of_other) simp
  show ?thesis
    unfolding state_of_def module_step_file[OF assms d]
    using Some other by (auto simp: mapped_paths_snoc first_seen_snoc acc_of_snoc[OF Some] Let_def fun_eq_iff)
qed

lemma fold_module_step:
  "\<forall>m\<in>set ms. mapping_wf m \<Longrightarrow> fold module_step (map maps_line ms) ([], Map.empty) = state_of ms"
proof (induction ms rule: rev_induct)
  case Nil
  then show ?case by (simp add: state_of_def mapped_paths_def List.map_filter_simps first_seen_def fun_eq_iff)
qed (simp add: module_step_line)

lemma drain_modules_eq:
  "distinct ps \<Longrightarrow> \<forall>p\<in>set ps. acc p \<noteq> None \<Longrightarrow> drain_modules ps acc = map (raw_of_acc \<circ> the \<circ> acc) ps"
proof (induction ps arbitrary: acc)
  case (Cons p ps)
  obtain a where "acc p = Some a" using Cons(3) by auto
  moreover have "drain_modules ps (acc(p := None)) = map (raw_of_acc \<circ> the \<circ> acc(p := None)) ps"
    using Cons(2,3) by (intro Cons(1)) auto
  moreover have "map (raw_of_acc \<circ> the \<circ> acc(p := None)) ps = map (raw_of_acc \<circ> the \<circ> acc) ps"
    using Cons(2) by (intro map_cong) auto
  ultimately show ?case by simp
qed simp

text \<open>
  C21. The modules read from a maps text are its mapped files, one for each path in the order of their first lines: named
  after the last path component, based at the first mapping of file offset zero (or at the lowest mapping when there is
  none), and ending where the highest mapping ends.
\<close>

theorem maps_modules_correct:
  assumes "\<forall>m\<in>set ms. mapping_wf m"
  shows "parse_maps_modules (maps_text ms) = map (module_of ms) (first_seen (mapped_paths ms))"
proof -
  have "drain_modules (first_seen (mapped_paths ms)) (snd (state_of ms)) = map (module_of ms) (first_seen (mapped_paths ms))"
    by (subst drain_modules_eq)
      (auto simp: state_of_def module_of_def acc_of_def raw_of_acc_def Let_def split: option.split)
  then show ?thesis
    by (simp add: parse_maps_modules_def str_lines_maps_text[OF assms] fold_module_step[OF assms] state_of_def)
qed

theorem maps_modules_correct_witness:
  "parse_maps_modules (maps_text sample_maps) = [\<lparr>rm_name = ''a b'', rm_base = 0x3000, rm_end = 0x4000\<rparr>]"
  unfolding maps_modules_correct[OF sample_maps_wf]
  by (simp add: sample_maps_def sample_mapping_def mapped_paths_def mapped_path_def List.map_filter_simps first_seen_def
      module_of_def mappings_of_def last_component_def)

end
