(* ===== verification/Process_Memory.thy ===== *)
theory Process_Memory
  imports Freeze Maps
begin

text \<open>
  Reading and writing a process through a memory backend (nemclass-core/src/internal/process/mod.rs and memory/mod.rs),
  the in-memory backend of the tests, the headers of a mapped PE image (pe.rs) and the module list built from them.

  A backend is a record of its four operations over a state. A read returns the bytes that arrived, so that their
  number is the count the code returns; a value of a plain-data type is the list of its bytes.
\<close>

section \<open>Backends\<close>

record 's backend =
  be_read_buf :: "'s \<Rightarrow> usize \<Rightarrow> nat \<Rightarrow> core_error + bytes"
  be_read_buf_batch :: "'s \<Rightarrow> (usize \<times> nat) list \<Rightarrow> core_error + bytes list"
  be_write_buf :: "'s writer"
  be_write_buf_batch :: "'s \<Rightarrow> (usize \<times> bytes) list \<Rightarrow> (core_error + nat) \<times> 's"

definition Process_read :: "'s backend \<Rightarrow> 's \<Rightarrow> nat \<Rightarrow> usize \<Rightarrow> core_error + bytes" where
  "Process_read be s requested address =
     (case be_read_buf be s address requested of
        Inl e \<Rightarrow> Inl e
      | Inr bs \<Rightarrow> if length bs \<noteq> requested then Inl (PartialTransfer requested (length bs)) else Inr bs)"

text \<open>\<open>chunks(n)\<close> for a positive \<open>n\<close>.\<close>

function chunks :: "nat \<Rightarrow> 'a list \<Rightarrow> 'a list list" where
  "chunks n xs = (if xs = [] \<or> n = 0 then [] else take n xs # chunks n (drop n xs))"
  by pat_completeness auto
termination by (relation "measure (length \<circ> snd)") auto

declare chunks.simps [simp del]

text \<open>The buffer of a region starts as zeros, and the bytes read overwrite its front.\<close>

definition fill_buffer :: "nat \<Rightarrow> bytes \<Rightarrow> bytes" where
  "fill_buffer sz bs = bs @ replicate (sz - length bs) 0"

definition Process_read_batch :: "'s backend \<Rightarrow> 's \<Rightarrow> nat \<Rightarrow> usize list \<Rightarrow> core_error + bytes list" where
  "Process_read_batch be s sz addresses =
     (if sz = 0 then Inr (replicate (length addresses) [])
      else if sz * length addresses > USIZE_MAX then Inl InvalidAddress
      else
        let requested = sz * length addresses
        in case be_read_buf_batch be s (map (\<lambda>a. (a, sz)) addresses) of
             Inl e \<Rightarrow> Inl e
           | Inr bss \<Rightarrow>
               let got = sum_list (map length bss)
               in if got \<noteq> requested then Inl (PartialTransfer requested got)
                  else Inr (chunks sz (concat (map (fill_buffer sz) bss))))"

definition Process_write :: "'s backend \<Rightarrow> 's \<Rightarrow> usize \<Rightarrow> bytes \<Rightarrow> (core_error + unit) \<times> 's" where
  "Process_write be s address bs =
     (case be_write_buf be s address bs of
        (Inl e, s') \<Rightarrow> (Inl e, s')
      | (Inr written, s') \<Rightarrow>
          (if written \<noteq> length bs then (Inl (PartialTransfer (length bs) written), s') else (Inr (), s')))"

definition Process_read_buf :: "'s backend \<Rightarrow> 's \<Rightarrow> usize \<Rightarrow> nat \<Rightarrow> core_error + bytes" where
  "Process_read_buf be s address len = be_read_buf be s address len"

definition Process_write_buf :: "'s backend \<Rightarrow> 's writer" where
  "Process_write_buf be s address bs = be_write_buf be s address bs"

section \<open>The in-memory backend\<close>

record mock_memory =
  mm_base :: usize
  mm_buf :: bytes

definition MockMemoryBackend_new :: "usize \<Rightarrow> bytes \<Rightarrow> mock_memory" where
  "MockMemoryBackend_new b bs = \<lparr>mm_base = b, mm_buf = bs\<rparr>"

definition overlap :: "mock_memory \<Rightarrow> usize \<Rightarrow> nat \<Rightarrow> (nat \<times> nat) option" where
  "overlap m address want =
     (case checked_sub address (mm_base m) of
        None \<Rightarrow> None
      | Some off \<Rightarrow> if off \<ge> length (mm_buf m) then None else Some (off, min want (length (mm_buf m) - off)))"

text \<open>\<open>data[off..off + n].copy_from_slice(bs)\<close>, with \<open>bs\<close> of length \<open>n\<close>.\<close>

definition copy_at :: "bytes \<Rightarrow> nat \<Rightarrow> bytes \<Rightarrow> bytes" where
  "copy_at buf off bs = take off buf @ bs @ drop (off + length bs) buf"

definition MockMemoryBackend_poke :: "mock_memory \<Rightarrow> usize \<Rightarrow> bytes \<Rightarrow> mock_memory" where
  "MockMemoryBackend_poke m address bs =
     (case checked_sub address (mm_base m) of
        None \<Rightarrow> m
      | Some off \<Rightarrow>
          if off < length (mm_buf m) then
            let n = min (length bs) (length (mm_buf m) - off) in m\<lparr>mm_buf := copy_at (mm_buf m) off (take n bs)\<rparr>
          else m)"

definition MockMemoryBackend_read_buf :: "mock_memory \<Rightarrow> usize \<Rightarrow> nat \<Rightarrow> core_error + bytes" where
  "MockMemoryBackend_read_buf m address len =
     (case overlap m address len of Some (off, n) \<Rightarrow> Inr (slice (mm_buf m) off n) | None \<Rightarrow> Inr [])"

fun MockMemoryBackend_read_buf_batch :: "mock_memory \<Rightarrow> (usize \<times> nat) list \<Rightarrow> core_error + bytes list" where
  "MockMemoryBackend_read_buf_batch m [] = Inr []"
| "MockMemoryBackend_read_buf_batch m ((address, len) # rs) =
     (let bs = (case overlap m address len of Some (off, n) \<Rightarrow> slice (mm_buf m) off n | None \<Rightarrow> [])
      in case MockMemoryBackend_read_buf_batch m rs of Inl e \<Rightarrow> Inl e | Inr bss \<Rightarrow> Inr (bs # bss))"

definition MockMemoryBackend_write_buf :: "mock_memory writer" where
  "MockMemoryBackend_write_buf m address bs =
     (case overlap m address (length bs) of
        Some (off, n) \<Rightarrow> (Inr n, m\<lparr>mm_buf := copy_at (mm_buf m) off (take n bs)\<rparr>)
      | None \<Rightarrow> (Inr 0, m))"

fun mock_write_loop :: "mock_memory \<Rightarrow> (usize \<times> bytes) list \<Rightarrow> nat \<Rightarrow> nat \<times> mock_memory" where
  "mock_write_loop m [] tot = (tot, m)"
| "mock_write_loop m ((address, bs) # rs) tot =
     (case overlap m address (length bs) of
        Some (off, n) \<Rightarrow> mock_write_loop (m\<lparr>mm_buf := copy_at (mm_buf m) off (take n bs)\<rparr>) rs (tot + n)
      | None \<Rightarrow> mock_write_loop m rs tot)"

definition MockMemoryBackend_write_buf_batch :: "mock_memory \<Rightarrow> (usize \<times> bytes) list \<Rightarrow> (core_error + nat) \<times> mock_memory" where
  "MockMemoryBackend_write_buf_batch m rs = (let (tot, m') = mock_write_loop m rs 0 in (Inr tot, m'))"

definition MockMemoryBackend :: "mock_memory backend" where
  "MockMemoryBackend = \<lparr>be_read_buf = MockMemoryBackend_read_buf, be_read_buf_batch = MockMemoryBackend_read_buf_batch,
     be_write_buf = MockMemoryBackend_write_buf, be_write_buf_batch = MockMemoryBackend_write_buf_batch\<rparr>"

text \<open>The bytes of the buffer as a partial map of addresses.\<close>

definition mock_map :: "mock_memory \<Rightarrow> usize \<rightharpoonup> u8" where
  "mock_map m x =
     (if x \<le> USIZE_MAX \<and> mm_base m \<le> x \<and> x - mm_base m < length (mm_buf m) then Some (mm_buf m ! (x - mm_base m)) else None)"

section \<open>PE headers\<close>

definition IMAGE_DOS_SIGNATURE :: bytes where "IMAGE_DOS_SIGNATURE = [0x4D, 0x5A]"
definition IMAGE_NT_SIGNATURE :: bytes where "IMAGE_NT_SIGNATURE = [0x50, 0x45, 0, 0]"
definition PE32_MAGIC :: nat where "PE32_MAGIC = 0x10B"
definition PE32PLUS_MAGIC :: nat where "PE32PLUS_MAGIC = 0x20B"
definition SIZE_OF_IMAGE_OFFSET :: nat where "SIZE_OF_IMAGE_OFFSET = 56"

text \<open>Sizes of the packed structs, and the offsets of the fields that are used.\<close>

definition ImageDosHeader_size :: nat where "ImageDosHeader_size = 2 + 58 + 4"
definition ImageDosHeader_e_lfanew :: nat where "ImageDosHeader_e_lfanew = 2 + 58"
definition ImageFileHeader_size :: nat where "ImageFileHeader_size = 2 + 2 + 4 + 4 + 4 + 2 + 2"
definition ImageOptionalHeader64_size_of_image :: nat where
  "ImageOptionalHeader64_size_of_image = 2 + 1 + 1 + 5 * 4 + 8 + 2 * 4 + 6 * 2 + 4"
definition ImageOptionalHeader64_size :: nat where
  "ImageOptionalHeader64_size = ImageOptionalHeader64_size_of_image + 4"

lemmas pe_consts = IMAGE_DOS_SIGNATURE_def IMAGE_NT_SIGNATURE_def PE32_MAGIC_def PE32PLUS_MAGIC_def SIZE_OF_IMAGE_OFFSET_def
  ImageDosHeader_size_def ImageDosHeader_e_lfanew_def ImageFileHeader_size_def ImageOptionalHeader64_size_of_image_def
  ImageOptionalHeader64_size_def

definition le_i32 :: "bytes \<Rightarrow> int" where
  "le_i32 bs = (let n = le_nat bs in if n < 2 ^ 31 then int n else int n - 2 ^ 32)"

definition optional_header :: "'s backend \<Rightarrow> 's \<Rightarrow> usize \<Rightarrow> (usize \<times> nat) option" where
  "optional_header be s base =
     (case Process_read be s ImageDosHeader_size base of
        Inl _ \<Rightarrow> None
      | Inr dos \<Rightarrow>
          let magic = slice dos 0 2; e_lfanew = le_i32 (slice dos ImageDosHeader_e_lfanew 4)
          in if magic \<noteq> IMAGE_DOS_SIGNATURE \<or> e_lfanew < 0 then None
             else case checked_add base (nat e_lfanew) of
               None \<Rightarrow> None
             | Some nt \<Rightarrow>
                 (case Process_read be s 4 nt of
                    Inl _ \<Rightarrow> None
                  | Inr sig \<Rightarrow>
                      if sig \<noteq> IMAGE_NT_SIGNATURE then None
                      else
                        let opt = wrapping_add nt (length IMAGE_NT_SIGNATURE + ImageFileHeader_size)
                        in case Process_read be s 2 opt of Inl _ \<Rightarrow> None | Inr v \<Rightarrow> Some (opt, le_nat v)))"

definition pointer_size :: "'s backend \<Rightarrow> 's \<Rightarrow> usize \<Rightarrow> nat option" where
  "pointer_size be s base =
     (case optional_header be s base of
        None \<Rightarrow> None
      | Some (_, v) \<Rightarrow> if v = PE32PLUS_MAGIC then Some 8 else if v = PE32_MAGIC then Some 4 else None)"

definition size_of_image :: "'s backend \<Rightarrow> 's \<Rightarrow> usize \<Rightarrow> nat option" where
  "size_of_image be s base =
     (case optional_header be s base of
        None \<Rightarrow> None
      | Some (opt, variant) \<Rightarrow>
          if variant = PE32PLUS_MAGIC then
            (case Process_read be s ImageOptionalHeader64_size opt of
               Inl _ \<Rightarrow> None
             | Inr oh \<Rightarrow> Some (le_nat (slice oh ImageOptionalHeader64_size_of_image 4)))
          else if variant = PE32_MAGIC then
            (case Process_read be s 4 (wrapping_add opt SIZE_OF_IMAGE_OFFSET) of Inl _ \<Rightarrow> None | Inr v \<Rightarrow> Some (le_nat v))
          else None)"

section \<open>The module list\<close>

definition ends_with :: "string \<Rightarrow> string \<Rightarrow> bool" where
  "ends_with s suf \<longleftrightarrow> strip_suffix suf s \<noteq> None"

text \<open>\<open>to_ascii_lowercase\<close> on a string of characters.\<close>

definition ascii_lower :: "string \<Rightarrow> string" where
  "ascii_lower s = map (\<lambda>c. if 65 \<le> (of_char c :: nat) \<and> (of_char c :: nat) \<le> 90 then char_of ((of_char c :: nat) + 32) else c) s"

definition sized_module :: "'s backend \<Rightarrow> 's \<Rightarrow> raw_module \<Rightarrow> module_info" where
  "sized_module be s m =
     (let lower = ascii_lower (rm_name m);
          sz = saturating_sub (rm_end m) (rm_base m);
          sz = (if ends_with lower ''.exe'' \<or> ends_with lower ''.dll''
                  then (case size_of_image be s (rm_base m) of
                          Some image_size \<Rightarrow> if image_size \<noteq> 0 then image_size else sz
                        | None \<Rightarrow> sz)
                  else sz)
      in \<lparr>mod_base = rm_base m, mod_size = sz, mod_name = rm_name m\<rparr>)"

text \<open>\<open>Process::modules\<close>, given the text of the maps file, or \<open>None\<close> when it could not be read.\<close>

definition Process_modules :: "'s backend \<Rightarrow> 's \<Rightarrow> string option \<Rightarrow> core_error + module_info list" where
  "Process_modules be s maps =
     (case maps of
        None \<Rightarrow> Inl ProcessDied
      | Some text \<Rightarrow> Inr (map (sized_module be s) (parse_maps_modules text)))"

text \<open>\<open>LinuxProvider::enumerate_sections_and_modules\<close>: the maps file is read once for the sections and once for the modules.\<close>

definition enumerate_sections_and_modules ::
    "'s backend \<Rightarrow> 's \<Rightarrow> string option \<Rightarrow> string option \<Rightarrow> core_error + sect list \<times> module_info list" where
  "enumerate_sections_and_modules be s maps maps' =
     (case maps of
        None \<Rightarrow> Inl ProcessDied
      | Some text \<Rightarrow>
          (case Process_modules be s maps' of
             Inl e \<Rightarrow> Inl e
           | Inr modules \<Rightarrow> Inr (parse_maps_sections text, modules)))"

section \<open>What a backend promises\<close>

locale memory_backend = write_target "be_write_buf be" byte
  for be :: "'s backend" and byte :: "'s \<Rightarrow> usize \<Rightarrow> u8" +
  assumes read_len: "be_read_buf be s a n = Inr bs \<Longrightarrow> length bs \<le> n"
    and read_byte: "be_read_buf be s a n = Inr bs \<Longrightarrow> i < length bs \<Longrightarrow> bs ! i = byte s (a + i)"
    and batch_len: "be_read_buf_batch be s rs = Inr bss \<Longrightarrow> list_all2 (\<lambda>r bs. length bs \<le> snd r) rs bss"
    and batch_byte: "be_read_buf_batch be s rs = Inr bss \<Longrightarrow> i < length bss \<Longrightarrow> j < length (bss ! i) \<Longrightarrow>
      bss ! i ! j = byte s (fst (rs ! i) + j)"
begin

lemma read_value: "Process_read be s n a = Inr bs \<Longrightarrow> bs = map (byte s) [a..<a + n]"
  by (auto simp: Process_read_def read_byte split: sum.splits if_splits intro!: nth_equalityI)

lemma write_stores: "Process_write be s a bs = (Inr (), s') \<Longrightarrow> byte s' = store_prefix (byte s) a bs (length bs)"
  using write_ok by (auto simp: Process_write_def split: prod.splits sum.splits if_splits)

lemma read_after_write:
  assumes "Process_write be s a bs = (Inr (), s')" "Process_read be s' (length bs) a = Inr v"
  shows "v = bs"
  using read_value[OF assms(2)] write_stores[OF assms(1)]
  by (auto simp: store_prefix_def intro!: nth_equalityI)

lemma read_after_write_other:
  assumes "Process_write be s a bs = (r, s')" "b + n \<le> a \<or> a + length bs \<le> b" "Process_read be s' n b = Inr v"
  shows "v = map (byte s) [b..<b + n]"
proof -
  obtain q where "be_write_buf be s a bs = (q, s')"
    using assms(1) by (auto simp: Process_write_def split: prod.splits sum.splits if_splits)
  then obtain k where "byte s' = store_prefix (byte s) a bs k" using write_prefix by blast
  then show ?thesis using read_value[OF assms(3)] assms(2) by (auto simp: store_prefix_def)
qed

lemma sum_lengths_le:
  "list_all2 (\<lambda>r bs. length bs \<le> snd r) (map (\<lambda>a. (a, n)) as) bss \<Longrightarrow> sum_list (map length bss) \<le> n * length as"
proof (induction as arbitrary: bss)
  case (Cons a as)
  then obtain bs bss' where "bss = bs # bss'" "length bs \<le> n" "list_all2 (\<lambda>r bs. length bs \<le> snd r) (map (\<lambda>a. (a, n)) as) bss'"
    by (auto simp: list_all2_Cons1)
  with Cons.IH[of bss'] show ?case by simp
qed simp

lemma batch_lengths:
  assumes "list_all2 (\<lambda>r bs. length bs \<le> snd r) (map (\<lambda>a. (a, n)) as) bss" "sum_list (map length bss) = n * length as"
  shows "length bss = length as \<and> (\<forall>bs\<in>set bss. length bs = n)"
  using assms
proof (induction as arbitrary: bss)
  case (Cons a as)
  obtain bs bss' where b: "bss = bs # bss'" "length bs \<le> n" "list_all2 (\<lambda>r bs. length bs \<le> snd r) (map (\<lambda>a. (a, n)) as) bss'"
    using Cons.prems(1) by (auto simp: list_all2_Cons1)
  have "length bs + sum_list (map length bss') = n + n * length as" using Cons.prems(2) b(1) by simp
  with sum_lengths_le[OF b(3)] b(2) have "length bs = n" "sum_list (map length bss') = n * length as" by linarith+
  with Cons.IH[OF b(3)] b(1) show ?case by simp
qed simp

lemma chunks_concat: "0 < n \<Longrightarrow> \<forall>bs\<in>set bss. length bs = n \<Longrightarrow> chunks n (concat bss) = bss"
proof (induction bss)
  case (Cons bs bss)
  then have "bs @ concat bss \<noteq> []" by auto
  then show ?case using Cons by (subst chunks.simps) simp
qed (simp add: chunks.simps)

lemma read_batch_values:
  assumes "Process_read_batch be s n as = Inr vs"
  shows "vs = map (\<lambda>a. map (byte s) [a..<a + n]) as"
proof (cases "n = 0")
  case True
  then show ?thesis using assms by (auto simp: Process_read_batch_def intro!: nth_equalityI)
next
  case False
  then obtain bss where r: "be_read_buf_batch be s (map (\<lambda>a. (a, n)) as) = Inr bss"
      and sum: "sum_list (map length bss) = n * length as" and vs: "vs = chunks n (concat (map (fill_buffer n) bss))"
    using assms by (auto simp: Process_read_batch_def Let_def split: if_splits sum.splits)
  note len = batch_lengths[OF batch_len[OF r] sum]
  have "map (fill_buffer n) bss = bss" using len by (intro map_idI) (simp add: fill_buffer_def)
  then have "vs = bss" using vs False len by (simp add: chunks_concat)
  moreover have "bss ! i = map (byte s) [as ! i..<as ! i + n]" if "i < length as" for i
  proof (rule nth_equalityI)
    fix j assume "j < length (bss ! i)"
    then show "bss ! i ! j = map (byte s) [as ! i..<as ! i + n] ! j"
      using batch_byte[OF r, of i j] that len by simp
  qed (use that len in simp)
  ultimately show ?thesis using len by (intro nth_equalityI) auto
qed

end

section \<open>The in-memory backend keeps the promises\<close>

definition MockMemoryBackend_byte :: "mock_memory \<Rightarrow> usize \<Rightarrow> u8" where
  "MockMemoryBackend_byte m x =
     (if mm_base m \<le> x \<and> x - mm_base m < length (mm_buf m) then mm_buf m ! (x - mm_base m) else 0)"

lemma overlap_Some:
  "overlap m a n = Some (off, k) \<Longrightarrow>
     mm_base m \<le> a \<and> off = a - mm_base m \<and> off + k \<le> length (mm_buf m) \<and> k \<le> n \<and> off < length (mm_buf m)"
  by (auto simp: overlap_def checked_sub_def split: option.splits if_splits)

lemma mock_read_byte:
  "overlap m a n = Some (off, k) \<Longrightarrow> i < length (slice (mm_buf m) off k) \<Longrightarrow>
     slice (mm_buf m) off k ! i = MockMemoryBackend_byte m (a + i)"
  using overlap_Some[of m a n off k] by (auto simp: slice_def MockMemoryBackend_byte_def)

lemma copy_at_byte:
  assumes "overlap m a (length bs) = Some (off, n)"
  shows "MockMemoryBackend_byte (m\<lparr>mm_buf := copy_at (mm_buf m) off (take n bs)\<rparr>)
    = store_prefix (MockMemoryBackend_byte m) a bs n"
proof
  fix x
  note o = overlap_Some[OF assms]
  show "MockMemoryBackend_byte (m\<lparr>mm_buf := copy_at (mm_buf m) off (take n bs)\<rparr>) x
      = store_prefix (MockMemoryBackend_byte m) a bs n x"
    using o by (auto simp: MockMemoryBackend_byte_def store_prefix_def copy_at_def nth_append min_absorb2)
qed

lemma mock_batch:
  "MockMemoryBackend_read_buf_batch m rs =
     Inr (map (\<lambda>(a, n). case overlap m a n of Some (off, k) \<Rightarrow> slice (mm_buf m) off k | None \<Rightarrow> []) rs)"
  by (induction rs) (auto simp: Let_def)

lemma length_mock_slice: "overlap m a n = Some (off, k) \<Longrightarrow> length (slice (mm_buf m) off k) \<le> n"
  by (auto dest!: overlap_Some simp: slice_def)

interpretation mock_memory: memory_backend MockMemoryBackend MockMemoryBackend_byte
proof
  fix s s' :: mock_memory and a n bs k and e
  {
    assume "be_write_buf MockMemoryBackend s a bs = (Inr k, s')"
    then show "k \<le> length bs \<and> MockMemoryBackend_byte s' = store_prefix (MockMemoryBackend_byte s) a bs k"
      using overlap_Some copy_at_byte
      by (fastforce simp: MockMemoryBackend_def MockMemoryBackend_write_buf_def store_prefix_def split: option.splits)
  next
    assume "be_write_buf MockMemoryBackend s a bs = (Inl e, s')"
    then show "\<exists>n. MockMemoryBackend_byte s' = store_prefix (MockMemoryBackend_byte s) a bs n"
      by (auto simp: MockMemoryBackend_def MockMemoryBackend_write_buf_def split: option.splits)
  next
    assume r: "be_read_buf MockMemoryBackend s a n = Inr bs"
    then show "length bs \<le> n"
      by (auto simp: MockMemoryBackend_def MockMemoryBackend_read_buf_def length_mock_slice split: option.splits)
    assume "k < length bs"
    with r show "bs ! k = MockMemoryBackend_byte s (a + k)"
      by (auto simp: MockMemoryBackend_def MockMemoryBackend_read_buf_def mock_read_byte split: option.splits)
  }
next
  fix s rs and bss :: "bytes list" and i j
  assume "be_read_buf_batch MockMemoryBackend s rs = Inr bss"
  then have b: "bss = map (\<lambda>(a, n). case overlap s a n of Some (off, k) \<Rightarrow> slice (mm_buf s) off k | None \<Rightarrow> []) rs"
    by (simp add: MockMemoryBackend_def mock_batch)
  show "list_all2 (\<lambda>r bs. length bs \<le> snd r) rs bss"
    unfolding b by (auto simp: list_all2_conv_all_nth length_mock_slice split: option.splits prod.splits)
  assume "i < length bss" "j < length (bss ! i)"
  then show "bss ! i ! j = MockMemoryBackend_byte s (fst (rs ! i) + j)"
    unfolding b by (auto simp: mock_read_byte split: option.splits prod.splits)
qed

section \<open>Properties\<close>

text \<open>
  Through any backend that keeps its promises, a value that was written is read back as written, reads of other
  addresses still give what was there before, and a batched read gives each address its own bytes.
\<close>

theorem process_write_read:
  assumes "memory_backend be byte" "Process_write be s a bs = (Inr (), s')"
  shows "(\<forall>v. Process_read be s' (length bs) a = Inr v \<longrightarrow> v = bs)
    \<and> (\<forall>b n v. (b + n \<le> a \<or> a + length bs \<le> b) \<longrightarrow> Process_read be s' n b = Inr v \<longrightarrow> v = map (byte s) [b..<b + n])
    \<and> (\<forall>n as vs. Process_read_batch be s' n as = Inr vs \<longrightarrow> vs = map (\<lambda>x. map (byte s') [x..<x + n]) as)"
proof -
  note be = assms(1)
  show ?thesis
    using memory_backend.read_after_write[OF be assms(2)] memory_backend.read_after_write_other[OF be assms(2)]
      memory_backend.read_batch_values[OF be] by blast
qed

theorem process_write_read_witness:
  "Process_read MockMemoryBackend (snd (Process_write MockMemoryBackend \<lparr>mm_base = 16, mm_buf = [1, 2, 3, 4]\<rparr> 17 [8, 9])) 2 17
     = Inr [8, 9]
   \<and> Process_read_batch MockMemoryBackend (snd (Process_write MockMemoryBackend \<lparr>mm_base = 16, mm_buf = [1, 2, 3, 4]\<rparr> 17 [8, 9])) 1 [16, 18]
     = Inr [[1], [9]]"
proof -
  let ?s' = "\<lparr>mm_base = 16, mm_buf = [1, 8, 9, 4]\<rparr>"
  have w: "Process_write MockMemoryBackend \<lparr>mm_base = 16, mm_buf = [1, 2, 3, 4]\<rparr> 17 [8, 9] = (Inr (), ?s')"
    by (simp add: Process_write_def MockMemoryBackend_def MockMemoryBackend_write_buf_def overlap_def checked_sub_def copy_at_def)
  obtain v where v: "Process_read MockMemoryBackend ?s' (length [8, 9 :: u8]) 17 = Inr v"
    by (simp add: Process_read_def MockMemoryBackend_def MockMemoryBackend_read_buf_def overlap_def checked_sub_def slice_def)
  obtain vs where vs: "Process_read_batch MockMemoryBackend ?s' 1 [16, 18] = Inr vs"
    by (simp add: Process_read_batch_def MockMemoryBackend_def mock_batch overlap_def checked_sub_def slice_def USIZE_MAX_def Let_def)
  note facts = process_write_read[OF mock_memory.memory_backend_axioms w]
  have "v = [8, 9]" using facts v by blast
  moreover have "vs = map (\<lambda>x. map (MockMemoryBackend_byte ?s') [x..<x + 1]) [16, 18]" using facts vs by blast
  ultimately show ?thesis using v vs by (simp add: w MockMemoryBackend_byte_def numeral_2_eq_2)
qed

text \<open>What the headers of an image say: the pointer width of its variant, and the size field.\<close>

definition pe_reference :: "(usize \<Rightarrow> u8) \<Rightarrow> usize \<Rightarrow> (nat \<times> nat) option" where
  "pe_reference m base =
     (let lfanew = le_i32 (map m [base + 60..<base + 64]);
          nt = base + nat lfanew;
          variant = le_nat (map m [nt + 24..<nt + 26])
      in if map m [base..<base + 2] = [0x4D, 0x5A] \<and> 0 \<le> lfanew \<and> map m [nt..<nt + 4] = [0x50, 0x45, 0, 0]
            \<and> variant \<in> {0x10B, 0x20B}
         then Some (if variant = 0x10B then 4 else 8, le_nat (map m [nt + 80..<nt + 84])) else None)"

text \<open>
  Where the headers of a mapped image can be read, the pointer width and the image size are those of the reference:
  4 or 8 by the optional header's magic, and the four bytes at offset 56 of the optional header in both variants; without
  the two signatures or with another magic there is no answer.
\<close>

theorem pe_headers_correct:
  assumes "memory_backend be byte"
    and limit: "64 \<le> limit" "base + limit \<le> USIZE_MAX" "nat (le_i32 (map (byte s) [base + 60..<base + 64])) + 84 \<le> limit"
    and full: "\<And>a n. base \<le> a \<Longrightarrow> a + n \<le> base + limit \<Longrightarrow> \<exists>bs. be_read_buf be s a n = Inr bs \<and> length bs = n"
  shows "pointer_size be s base = map_option fst (pe_reference (byte s) base)
    \<and> size_of_image be s base = map_option snd (pe_reference (byte s) base)"
proof -
  define m where "m = byte s"
  define l where "l = le_i32 (map m [base + 60..<base + 64])"
  define nt where "nt = base + nat l"
  note lim = limit[folded m_def, folded l_def]
  have read: "Process_read be s n a = Inr (map m [a..<b])" if "b = a + n" "base \<le> a" "b \<le> base + limit" for a n b
    using full[of a n] that memory_backend.read_value[OF assms(1)] by (fastforce simp: Process_read_def m_def)
  have dos: "Process_read be s 64 base = Inr (map m [base..<base + 64])" by (rule read) (use lim in auto)
  have sl: "slice (map m [base..<base + 64]) 0 2 = map m [base..<base + 2]"
    "slice (map m [base..<base + 64]) 60 4 = map m [base + 60..<base + 64]"
    by (simp_all add: slice_def take_map drop_map drop_upt take_upt)
  have ref: "pe_reference m base =
      (if map m [base..<base + 2] = [0x4D, 0x5A] \<and> 0 \<le> l \<and> map m [nt..<nt + 4] = [0x50, 0x45, 0, 0]
          \<and> le_nat (map m [nt + 24..<nt + 26]) \<in> {0x10B, 0x20B}
       then Some (if le_nat (map m [nt + 24..<nt + 26]) = 0x10B then 4 else 8, le_nat (map m [nt + 80..<nt + 84])) else None)"
    by (simp add: pe_reference_def Let_def l_def nt_def)
  have fields: "wrapping_add nt 24 = nt + 24" "wrapping_add (nt + 24) 56 = nt + 80" "checked_add base (nat l) = Some nt"
    using lim by (auto simp: checked_add_def wrapping_add_def USIZE_MAX_def nt_def)
  have sig: "Process_read be s 4 nt = Inr (map m [nt..<nt + 4])" by (rule read) (use lim in \<open>auto simp: nt_def\<close>)
  have var: "Process_read be s 2 (nt + 24) = Inr (map m [nt + 24..<nt + 26])" by (rule read) (use lim in \<open>auto simp: nt_def\<close>)
  have f32: "Process_read be s 4 (nt + 80) = Inr (map m [nt + 80..<nt + 84])" by (rule read) (use lim in \<open>auto simp: nt_def\<close>)
  have f64: "Process_read be s 60 (nt + 24) = Inr (map m [nt + 24..<nt + 84])" by (rule read) (use lim in \<open>auto simp: nt_def\<close>)
  have sl64: "slice (map m [nt + 24..<nt + 84]) 56 4 = map m [nt + 80..<nt + 84]"
    by (simp add: slice_def take_map drop_map drop_upt take_upt add.commute)
  have opt: "optional_header be s base =
      (if map m [base..<base + 2] = [0x4D, 0x5A] \<and> 0 \<le> l \<and> map m [nt..<nt + 4] = [0x50, 0x45, 0, 0]
       then Some (nt + 24, le_nat (map m [nt + 24..<nt + 26])) else None)"
    unfolding optional_header_def pe_consts by (simp add: dos sl fields sig var Let_def l_def[symmetric])
  show ?thesis
    unfolding pointer_size_def size_of_image_def opt m_def[symmetric] ref
    by (simp add: pe_consts fields f32 f64 sl64)
qed

definition sample_image :: bytes where
  "sample_image = [0x4D, 0x5A] @ replicate 58 0 @ [64, 0, 0, 0] @ [0x50, 0x45, 0, 0] @ replicate 20 0 @ [0x0B, 1]
     @ replicate 54 0 @ [0, 0x30, 0, 0]"

theorem pe_headers_correct_witness:
  "pointer_size MockMemoryBackend \<lparr>mm_base = 0x1000, mm_buf = sample_image\<rparr> 0x1000 = Some 4
   \<and> size_of_image MockMemoryBackend \<lparr>mm_base = 0x1000, mm_buf = sample_image\<rparr> 0x1000 = Some 0x3000"
proof -
  let ?s = "\<lparr>mm_base = 0x1000, mm_buf = sample_image\<rparr>" and ?m = "MockMemoryBackend_byte \<lparr>mm_base = 0x1000, mm_buf = sample_image\<rparr>"
  have byte: "map ?m [0x1000 + i..<0x1000 + i + k] = slice sample_image i k" if "i + k \<le> 148" for i k
    using that by (intro nth_equalityI) (auto simp: MockMemoryBackend_byte_def sample_image_def slice_def)
  have lfanew: "le_i32 (map ?m [0x1000 + 60..<0x1000 + 64]) = 64"
    using byte[of 60 4] by (simp add: slice_def sample_image_def le_i32_def)
  have "pe_reference ?m 0x1000 = Some (4, 0x3000)"
    using byte[of 0 2] byte[of 64 4] byte[of 88 2] byte[of 144 4] lfanew
    by (simp add: pe_reference_def Let_def slice_def sample_image_def)
  moreover have "\<exists>bs. be_read_buf MockMemoryBackend ?s a n = Inr bs \<and> length bs = n" if "0x1000 \<le> a" "a + n \<le> 0x1000 + 148" for a n
    using that by (auto simp: MockMemoryBackend_def MockMemoryBackend_read_buf_def overlap_def checked_sub_def sample_image_def slice_def)
  ultimately show ?thesis
    using pe_headers_correct[OF mock_memory.memory_backend_axioms, of 148 "0x1000" ?s] lfanew by (simp add: USIZE_MAX_def)
qed

end
