(* ===== verification/Kernel_Client.thy ===== *)
theory Kernel_Client
  imports Kernel_Module Process_Memory
begin

text \<open>
  The user-space client of the kernel interface (nemclass-core/src/internal/process/kernel/client.rs) and the provider
  built on it (provider.rs).

  Every operation takes the ioctl it issues as an argument, a function from the argument struct to the error number or
  the filled-in result; theory \<open>Kernel_Module\<close> has the module's side of each. The device file itself is not modelled.
\<close>

section \<open>Events\<close>

record event =
  e_slot :: int
  e_pid :: int
  e_tid :: int
  e_kind :: "breakpoint_kind option"
  e_addr :: u64
  e_ip :: u64
  e_sp :: u64
  e_flags :: u64
  e_gpr :: "u64 list"

definition Event_from :: "nemclass_event \<Rightarrow> event" where
  "Event_from e = \<lparr>e_slot = ev_slot e, e_pid = ev_pid e, e_tid = ev_tid e, e_kind = BreakpointKind_from_raw (ev_kind e),
     e_addr = ev_addr e, e_ip = ev_ip e, e_sp = ev_sp e, e_flags = ev_flags e,
     e_gpr = [ev_ax e, ev_bx e, ev_cx e, ev_dx e, ev_si e, ev_di e, ev_bp e, ev_r8 e, ev_r9 e, ev_r10 e, ev_r11 e, ev_r12 e,
       ev_r13 e, ev_r14 e, ev_r15 e]\<rparr>"

record ptrace_status =
  ps_traced :: bool
  ps_tracer_pid :: int

section \<open>Handshake\<close>

text \<open>The outcome of an ioctl: \<open>-1\<close> becomes the error number.\<close>

definition ioctl :: "int + 'a \<Rightarrow> core_error + 'a" where
  "ioctl r = (case r of Inl e \<Rightarrow> Inl (Errno e) | Inr a \<Rightarrow> Inr a)"

definition auth :: "(nemclass_auth \<Rightarrow> 'd \<Rightarrow> (int + unit) \<times> 'd) \<Rightarrow> bytes \<Rightarrow> 'd \<Rightarrow> (core_error + unit) \<times> 'd" where
  "auth io_auth key d =
     (let n = min (length key) NEMCLASS_KEY_MAX;
          (r, d') = io_auth \<lparr>au_key = take n key @ replicate (NEMCLASS_KEY_MAX - n) 0, au_key_len = of_nat n\<rparr> d
      in (ioctl r, d'))"

definition version :: "(int + nemclass_version) \<Rightarrow> core_error + u32" where
  "version r = map_sum id ve_abi (ioctl r)"

definition check_abi :: "(int + nemclass_version) \<Rightarrow> core_error + unit" where
  "check_abi r =
     (case version r of
        Inl e \<Rightarrow> Inl e
      | Inr found \<Rightarrow>
          if found \<noteq> NEMCLASS_ABI_VERSION then Inl (AbiMismatch (unat NEMCLASS_ABI_VERSION) (unat found)) else Inr ())"

section \<open>Memory access\<close>

text \<open>The transfer loops; \<open>done\<close> is the number of bytes the module reports.\<close>

function read_mem_from :: "(nemclass_rw \<Rightarrow> int + bytes) \<Rightarrow> int \<Rightarrow> usize \<Rightarrow> nat \<Rightarrow> nat \<Rightarrow> bytes \<Rightarrow> core_error + bytes" where
  "read_mem_from io_read pid addr len tot buf =
     (if tot < len then
        (case checked_add addr tot of
           None \<Rightarrow> Inl InvalidAddress
         | Some target \<Rightarrow>
             (case ioctl (io_read \<lparr>rw_pid = pid, rw_addr = of_nat target, rw_len = of_nat (len - tot), rw_done = 0\<rparr>) of
                Inl e \<Rightarrow> Inl e
              | Inr bs \<Rightarrow>
                  if length bs < len - tot then Inr (buf @ bs)
                  else read_mem_from io_read pid addr len (tot + length bs) (buf @ bs)))
      else Inr buf)"
  by pat_completeness auto
termination by (relation "measure (\<lambda>(_, _, _, len, tot, _). len - tot)") auto

definition read_mem :: "(nemclass_rw \<Rightarrow> int + bytes) \<Rightarrow> int \<Rightarrow> usize \<Rightarrow> nat \<Rightarrow> core_error + bytes" where
  "read_mem io_read pid addr len = read_mem_from io_read pid addr len 0 []"

function write_mem_from :: "(nemclass_rw \<Rightarrow> bytes \<Rightarrow> 'd \<Rightarrow> (int + nat) \<times> 'd) \<Rightarrow> int \<Rightarrow> usize \<Rightarrow> bytes \<Rightarrow> nat \<Rightarrow> 'd \<Rightarrow>
    (core_error + nat) \<times> 'd" where
  "write_mem_from io_write pid addr buf tot d =
     (if tot < length buf then
        (case checked_add addr tot of
           None \<Rightarrow> (Inl InvalidAddress, d)
         | Some target \<Rightarrow>
             (let chunk = drop tot buf;
                  (r, d') = io_write \<lparr>rw_pid = pid, rw_addr = of_nat target, rw_len = of_nat (length chunk), rw_done = 0\<rparr> chunk d
              in case ioctl r of
                   Inl e \<Rightarrow> (Inl e, d')
                 | Inr n \<Rightarrow>
                     if n < length chunk then (Inr (tot + n), d')
                     else write_mem_from io_write pid addr buf (tot + n) d'))
      else (Inr tot, d))"
  by pat_completeness auto
termination by (relation "measure (\<lambda>(_, _, _, buf, tot, _). length buf - tot)") auto

definition write_mem :: "(nemclass_rw \<Rightarrow> bytes \<Rightarrow> 'd \<Rightarrow> (int + nat) \<times> 'd) \<Rightarrow> int \<Rightarrow> usize \<Rightarrow> bytes \<Rightarrow> 'd \<Rightarrow> (core_error + nat) \<times> 'd" where
  "write_mem io_write pid addr buf d = write_mem_from io_write pid addr buf 0 d"

declare read_mem_from.simps [simp del] write_mem_from.simps [simp del]

section \<open>Regions\<close>

record memory_region =
  mr_from :: usize
  mr_to :: usize
  mr_prot :: protection
  mr_name :: "string option"

definition region_of_record :: "nemclass_region \<Rightarrow> memory_region" where
  "region_of_record r = \<lparr>mr_from = unat (rg_start r), mr_to = unat (rg_end r),
     mr_prot = prot_from_bits_truncate (ucast (rg_prot r)), mr_name = None\<rparr>"

definition zero_region :: nemclass_region where
  "zero_region = \<lparr>rg_start = 0, rg_end = 0, rg_file_off = 0, rg_prot = 0\<rparr>"

type_synonym 'd enum_ioctl =
  "nemclass_enum_regions \<Rightarrow> 'd \<Rightarrow> (int + (nemclass_enum_regions \<times> nemclass_region list)) \<times> 'd"

definition enum_arg :: "int \<Rightarrow> nat \<Rightarrow> nemclass_enum_regions" where
  "enum_arg pid cap = \<lparr>er_pid = pid, er_max = of_nat cap, er_count = 0, er_total = 0\<rparr>"

text \<open>The bounded retries: the first argument counts the passes left, \<open>cap\<close> is the size of the buffer.\<close>

fun enum_passes :: "nat \<Rightarrow> 'd enum_ioctl \<Rightarrow> int \<Rightarrow> nat \<Rightarrow> 'd \<Rightarrow> (core_error + memory_region list) \<times> 'd" where
  "enum_passes 0 io_enum pid cap d = (Inl EnumerationUnstable, d)"
| "enum_passes (Suc k) io_enum pid cap d =
     (let (r, d') = io_enum (enum_arg pid cap) d
      in case ioctl r of
           Inl e \<Rightarrow> (Inl e, d')
         | Inr (arg, written) \<Rightarrow>
             if unat (er_total arg) > cap then enum_passes k io_enum pid (saturating_add (unat (er_total arg)) 16) d'
             else
               let records = written @ replicate (cap - length written) zero_region;
                   n = min (unat (er_count arg)) cap
               in (Inr (map region_of_record (take n records)), d'))"

definition enum_regions :: "'d enum_ioctl \<Rightarrow> int \<Rightarrow> 'd \<Rightarrow> (core_error + memory_region list) \<times> 'd" where
  "enum_regions io_enum pid d =
     (let (r, d') = io_enum (enum_arg pid 0) d
      in case ioctl r of
           Inl e \<Rightarrow> (Inl e, d')
         | Inr (probe, _) \<Rightarrow> enum_passes 4 io_enum pid (max (saturating_add (unat (er_total probe)) 16) 16) d')"

text \<open>The sections of \<open>KernelProvider::enumerate_sections_and_modules\<close>.\<close>

definition section_of_region :: "memory_region \<Rightarrow> sect" where
  "section_of_region r = \<lparr>sec_base = mr_from r, sec_size = saturating_sub (mr_to r) (mr_from r), sec_prot = mr_prot r,
     sec_kind = Mapped, sec_module = None\<rparr>"

section \<open>Breakpoints\<close>

type_synonym 'd bp_set_ioctl = "nemclass_bp_set \<Rightarrow> 'd \<Rightarrow> (int + nemclass_bp_set) \<times> 'd"
type_synonym 'd bp_clear_ioctl = "nemclass_bp_clear \<Rightarrow> 'd \<Rightarrow> (int + unit) \<times> 'd"
type_synonym 'd wait_ioctl = "int \<Rightarrow> 'd \<Rightarrow> (int + nemclass_event) \<times> 'd"

definition set_hw_breakpoint :: "'d bp_set_ioctl \<Rightarrow> int \<Rightarrow> u64 \<Rightarrow> u32 \<Rightarrow> hw_breakpoint_type \<Rightarrow> 'd \<Rightarrow> (core_error + int) \<times> 'd" where
  "set_hw_breakpoint io_set pid addr len ty d =
     (let (r, d') = io_set \<lparr>bs_pid = pid, bs_kind = BreakpointKind_to_raw HardwareKind, bs_addr = addr, bs_len = len,
            bs_type = HwBreakpointType_to_raw ty, bs_slot = - 1\<rparr> d
      in (map_sum id bs_slot (ioctl r), d'))"

definition set_uprobe :: "'d bp_set_ioctl \<Rightarrow> int \<Rightarrow> u64 \<Rightarrow> 'd \<Rightarrow> (core_error + int) \<times> 'd" where
  "set_uprobe io_set pid addr d =
     (let (r, d') = io_set \<lparr>bs_pid = pid, bs_kind = BreakpointKind_to_raw UprobeKind, bs_addr = addr, bs_len = 0,
            bs_type = NEMCLASS_BP_X, bs_slot = - 1\<rparr> d
      in (map_sum id bs_slot (ioctl r), d'))"

definition client_clear_breakpoint :: "'d bp_clear_ioctl \<Rightarrow> int \<Rightarrow> 'd \<Rightarrow> (core_error + unit) \<times> 'd" where
  "client_clear_breakpoint io_clear slot d = (let (r, d') = io_clear \<lparr>bc_slot = slot\<rparr> d in (ioctl r, d'))"

definition client_wait_event :: "'d wait_ioctl \<Rightarrow> int \<Rightarrow> 'd \<Rightarrow> (core_error + event option) \<times> 'd" where
  "client_wait_event io_wait timeout_ms d =
     (let (r, d') = io_wait timeout_ms d
      in case ioctl r of
           Inr ev \<Rightarrow> (Inr (Some (Event_from ev)), d')
         | Inl (Errno e) \<Rightarrow> (if e = ETIMEDOUT \<or> e = EAGAIN then (Inr None, d') else (Inl (Errno e), d'))
         | Inl e \<Rightarrow> (Inl e, d'))"

definition ptrace_query :: "(nemclass_ptrace \<Rightarrow> int + nemclass_ptrace) \<Rightarrow> int \<Rightarrow> core_error + ptrace_status" where
  "ptrace_query io_query pid =
     map_sum id (\<lambda>a. \<lparr>ps_traced = (pt_traced a \<noteq> 0), ps_tracer_pid = pt_tracer_pid a\<rparr>)
       (ioctl (io_query \<lparr>pt_pid = pid, pt_tracer_pid = 0, pt_traced = 0\<rparr>))"

definition ptrace_hide :: "(nemclass_ptrace \<Rightarrow> int + nemclass_ptrace) \<Rightarrow> int \<Rightarrow> core_error + unit" where
  "ptrace_hide io_hide pid = map_sum id (\<lambda>_. ()) (ioctl (io_hide \<lparr>pt_pid = pid, pt_tracer_pid = 0, pt_traced = 0\<rparr>))"

section \<open>The memory backend\<close>

fun kernel_read_batch :: "(nemclass_rw \<Rightarrow> int + bytes) \<Rightarrow> int \<Rightarrow> (usize \<times> nat) list \<Rightarrow> core_error + bytes list" where
  "kernel_read_batch io_read pid [] = Inr []"
| "kernel_read_batch io_read pid ((address, len) # rs) =
     (case read_mem io_read pid address len of
        Inl e \<Rightarrow> Inl e
      | Inr bs \<Rightarrow> (case kernel_read_batch io_read pid rs of Inl e \<Rightarrow> Inl e | Inr bss \<Rightarrow> Inr (bs # bss)))"

fun kernel_write_batch :: "(nemclass_rw \<Rightarrow> bytes \<Rightarrow> 'd \<Rightarrow> (int + nat) \<times> 'd) \<Rightarrow> int \<Rightarrow> (usize \<times> bytes) list \<Rightarrow> nat \<Rightarrow> 'd \<Rightarrow>
    (core_error + nat) \<times> 'd" where
  "kernel_write_batch io_write pid [] tot d = (Inr tot, d)"
| "kernel_write_batch io_write pid ((address, bs) # rs) tot d =
     (case write_mem io_write pid address bs d of
        (Inl e, d') \<Rightarrow> (Inl e, d')
      | (Inr n, d') \<Rightarrow> kernel_write_batch io_write pid rs (tot + n) d')"

definition KernelBackend ::
    "(nemclass_rw \<Rightarrow> 'd \<Rightarrow> int + bytes) \<Rightarrow> (nemclass_rw \<Rightarrow> bytes \<Rightarrow> 'd \<Rightarrow> (int + nat) \<times> 'd) \<Rightarrow> int \<Rightarrow> 'd backend" where
  "KernelBackend io_read io_write pid =
     \<lparr>be_read_buf = (\<lambda>d address len. read_mem (\<lambda>rw. io_read rw d) pid address len),
      be_read_buf_batch = (\<lambda>d rs. kernel_read_batch (\<lambda>rw. io_read rw d) pid rs),
      be_write_buf = (\<lambda>d address bs. write_mem io_write pid address bs d),
      be_write_buf_batch = (\<lambda>d rs. kernel_write_batch io_write pid rs 0 d)\<rparr>"

section \<open>Transfers\<close>

lemma unat_of_nat_le: "unat (of_nat n :: 'a::len word) \<le> n"
  by (simp add: unat_of_nat)

lemma unat_address: "a \<le> USIZE_MAX \<Longrightarrow> unat (of_nat a :: u64) = a"
  by (simp add: unat_of_nat USIZE_MAX_def)

definition request :: "int \<Rightarrow> usize \<Rightarrow> nat \<Rightarrow> nemclass_rw" where
  "request pid addr len = \<lparr>rw_pid = pid, rw_addr = of_nat addr, rw_len = of_nat len, rw_done = 0\<rparr>"

text \<open>The loops never go round a second time with work left: one request per call.\<close>

lemma read_mem_once:
  assumes "\<And>rw bs. io_read rw = Inr bs \<Longrightarrow> length bs \<le> unat (rw_len rw)"
  shows "read_mem io_read pid addr len =
    (if len = 0 then Inr [] else if addr > USIZE_MAX then Inl InvalidAddress else ioctl (io_read (request pid addr len)))"
proof -
  have "length bs \<le> len" if "io_read (request pid addr len) = Inr bs" for bs
    using assms[OF that] unat_of_nat_le[of len, where 'a = 64] by (simp add: request_def)
  then show ?thesis
    by (cases "io_read (request pid addr len)")
      (fastforce simp: read_mem_def read_mem_from.simps checked_add_def ioctl_def request_def intro: le_antisym)+
qed

lemma write_mem_once:
  assumes "\<And>rw bs d k d'. io_write rw bs d = (Inr k, d') \<Longrightarrow> k \<le> unat (rw_len rw)"
  shows "write_mem io_write pid addr bs d =
    (if bs = [] then (Inr 0, d) else if addr > USIZE_MAX then (Inl InvalidAddress, d)
     else let (r, d') = io_write (request pid addr (length bs)) bs d in (ioctl r, d'))"
proof -
  obtain r d' where io: "io_write (request pid addr (length bs)) bs d = (r, d')" by fastforce
  have "k \<le> length bs" if "r = Inr k" for k
    using assms[of "request pid addr (length bs)" bs d k d'] that io unat_of_nat_le[of "length bs", where 'a = 64]
    by (simp add: request_def)
  then show ?thesis
    using io
    by (cases r)
      (fastforce simp: write_mem_def write_mem_from.simps checked_add_def ioctl_def request_def intro: le_antisym)+
qed

context transfer_device begin

lemma read_len: "io_read rw d = Inr bs \<Longrightarrow> length bs \<le> unat (rw_len rw)"
  using io_read_prefix by blast

lemma write_len: "io_write rw bs d = (Inr k, d') \<Longrightarrow> k \<le> unat (rw_len rw)"
  using io_write_prefix by fastforce

lemma read_once:
  "read_mem (\<lambda>rw. io_read rw d) pid a n =
    (if n = 0 then Inr [] else if a > USIZE_MAX then Inl InvalidAddress else ioctl (io_read (request pid a n) d))"
  by (rule read_mem_once) (rule read_len)

lemma write_once:
  "write_mem io_write pid a bs d =
    (if bs = [] then (Inr 0, d) else if a > USIZE_MAX then (Inl InvalidAddress, d)
     else let (r, d') = io_write (request pid a (length bs)) bs d in (ioctl r, d'))"
  by (rule write_mem_once) (rule write_len)

lemma read_mem_prefix:
  assumes "read_mem (\<lambda>rw. io_read rw d) pid a n = Inr bs"
  shows "length bs \<le> n \<and> (\<forall>i<length bs. bs ! i = byte d (a + i))"
proof (cases "n = 0 \<or> a > USIZE_MAX")
  case True
  then show ?thesis using assms by (auto simp: read_once split: if_splits)
next
  case False
  then have "io_read (request pid a n) d = Inr bs"
    using assms by (auto simp: read_once ioctl_def split: sum.splits)
  from io_read_prefix[OF this] False unat_of_nat_le[of n, where 'a = 64] show ?thesis
    by (simp add: request_def unat_address)
qed

lemma write_mem_prefix:
  assumes "write_mem io_write pid a bs d = (r, d')"
  shows "\<exists>n\<le>length bs. byte d' = store_prefix (byte d) a bs n \<and> (\<forall>k. r = Inr k \<longrightarrow> k = n)"
proof (cases "bs = [] \<or> a > USIZE_MAX")
  case True
  then have "d' = d" "r = Inr 0 \<or> r = Inl InvalidAddress"
    using assms by (auto simp: write_once split: if_splits)
  then show ?thesis by (intro exI[of _ 0]) auto
next
  case False
  obtain r' where io: "io_write (request pid a (length bs)) bs d = (r', d')" and r: "r = ioctl r'"
    using assms False by (auto simp: write_once split: prod.splits)
  from io_write_prefix[OF io] False r show ?thesis
    by (cases r') (auto simp: request_def unat_address ioctl_def)
qed

lemma batch_prefixes:
  "kernel_read_batch (\<lambda>rw. io_read rw d) pid rs = Inr bss \<Longrightarrow>
   list_all2 (\<lambda>r bs. length bs \<le> snd r \<and> (\<forall>j<length bs. bs ! j = byte d (fst r + j))) rs bss"
proof (induction rs arbitrary: bss)
  case (Cons r rs)
  then show ?case
    by (cases r) (fastforce dest: read_mem_prefix split: sum.splits)
qed simp

end

sublocale transfer_device \<subseteq> kernel: memory_backend "KernelBackend io_read io_write pid" byte for pid
proof (unfold_locales, goal_cases)
  case (1 s a bs n s')
  then show ?case using write_mem_prefix by (fastforce simp: KernelBackend_def)
next
  case (2 s a bs e s')
  then show ?case using write_mem_prefix by (fastforce simp: KernelBackend_def)
next
  case (3 s a n bs)
  then show ?case using read_mem_prefix by (auto simp: KernelBackend_def)
next
  case (4 s a n bs i)
  then show ?case using read_mem_prefix by (auto simp: KernelBackend_def)
next
  case (5 s rs bss)
  then show ?case using batch_prefixes[of s pid rs bss] by (auto simp: KernelBackend_def elim: list_all2_mono)
next
  case (6 s rs bss i j)
  then show ?case using batch_prefixes[of s pid rs bss] by (auto simp: KernelBackend_def list_all2_conv_all_nth)
qed

section \<open>Regions of a changing target\<close>

text \<open>Successive calls meet the environments of a list.\<close>

definition module_regions :: "nemclass_session \<Rightarrow> env list enum_ioctl" where
  "module_regions s req es = (nemclass_do_enum_regions (hd es) s req, tl es)"

text \<open>A pass succeeds when at most 16 regions were added since the previous walk.\<close>

definition fits :: "env \<times> env \<Rightarrow> bool" where
  "fits p = (length (en_regions (snd p)) \<le> length (en_regions (fst p)) + 16)"

definition walkable :: "nemclass_session \<Rightarrow> env \<Rightarrow> bool" where
  "walkable s e = (privileged e s \<and> en_task e \<and> length (en_regions e) + 16 < 2 ^ 32)"

definition settled :: "(env \<times> env) option \<Rightarrow> core_error + memory_region list" where
  "settled r = (case r of None \<Rightarrow> Inl EnumerationUnstable | Some p \<Rightarrow> Inr (map region_of_record (en_regions (snd p))))"

lemma unat_u32: "n < 2 ^ 32 \<Longrightarrow> unat (of_nat n :: u32) = n"
  by (simp add: unat_of_nat)

lemma module_pass:
  assumes "walkable s e" "cap < 2 ^ 32"
  shows "ioctl (nemclass_do_enum_regions e s (enum_arg pid cap)) =
    Inr (\<lparr>er_pid = pid, er_max = of_nat cap, er_count = of_nat (min cap (length (en_regions e))),
          er_total = of_nat (length (en_regions e))\<rparr>, take cap (en_regions e))"
  using assms by (simp add: nemclass_do_enum_regions_def walkable_def ioctl_def enum_arg_def unat_u32 min.commute)

lemma enum_passes_settles:
  assumes "walkable s e" "list_all (walkable s) es"
  shows "fst (enum_passes (length es) (module_regions s) pid (length (en_regions e) + 16) es)
    = settled (find fits (zip (e # es) es))"
  using assms
proof (induction es arbitrary: e)
  case Nil
  then show ?case by (simp add: settled_def)
next
  case (Cons e' es)
  let ?n = "length (en_regions e)" and ?n' = "length (en_regions e')"
  have small: "?n + 16 < 2 ^ 32" "?n' + 16 < 2 ^ 32" and w: "walkable s e'" using Cons.prems by (auto simp: walkable_def)
  have grow: "saturating_add ?n' 16 = ?n' + 16" using small by (simp add: saturating_add_def USIZE_MAX_def)
  have pass: "enum_passes (Suc (length es)) (module_regions s) pid (?n + 16) (e' # es) =
    (if ?n' > ?n + 16 then enum_passes (length es) (module_regions s) pid (?n' + 16) es
     else (Inr (map region_of_record (en_regions e')), es))"
    using small grow by (simp add: module_regions_def module_pass[OF w small(1)] unat_u32 min_def)
  show ?case
    using Cons.IH[OF w] Cons.prems(2) by (simp add: pass fits_def settled_def del: enum_passes.simps)
qed

section \<open>Properties\<close>

text \<open>
  C25. Region enumeration through the kernel module ends after at most five walks, whatever the target does in between:
  it returns every region of the first walk that found at most 16 more than the walk before it, in full, and reports
  an unstable target exactly when none of the four passes after the probe did.
\<close>

theorem enum_regions_settles:
  assumes "list_all (walkable s) (probe # es)" "length es = 4"
  shows "fst (enum_regions (module_regions s) pid (probe # es)) = settled (find fits (zip (probe # es) es))"
proof -
  have w: "walkable s probe" using assms(1) by simp
  then have "max (saturating_add (length (en_regions probe)) 16) 16 = length (en_regions probe) + 16"
    "unat (of_nat (length (en_regions probe)) :: u32) = length (en_regions probe)"
    by (simp_all add: walkable_def saturating_add_def USIZE_MAX_def unat_u32)
  then show ?thesis
    using enum_passes_settles[OF w, of es pid] assms
    by (simp add: enum_regions_def module_regions_def module_pass[OF w] del: enum_passes.simps)
qed

definition quiet_env :: env where
  "quiet_env = \<lparr>en_allowed = True, en_task = True, en_memory = True, en_arm = 0, en_hits = [], en_vm = (\<lambda>a n. n),
     en_signal = (\<lambda>_. False), en_regions = []\<rparr>"

definition authed_session :: nemclass_session where
  "authed_session = nemclass_open\<lparr>ss_authed := True\<rparr>"

theorem enum_regions_settles_witness:
  "fst (enum_regions (module_regions authed_session) 7
     (quiet_env # quiet_env\<lparr>en_regions := replicate 17 zero_region\<rparr>
      # quiet_env\<lparr>en_regions := [\<lparr>rg_start = 0x1000, rg_end = 0x3000, rg_file_off = 0, rg_prot = 5\<rparr>]\<rparr>
      # [quiet_env, quiet_env])) =
   Inr [\<lparr>mr_from = 0x1000, mr_to = 0x3000, mr_prot = prot_from_bits_truncate 5, mr_name = None\<rparr>]"
  by (subst enum_regions_settles)
    (simp_all add: walkable_def privileged_def quiet_env_def authed_session_def nemclass_open_def fits_def settled_def
      region_of_record_def)



end
