(* ===== verification/Kernel_Debugger.thy ===== *)
theory Kernel_Debugger
  imports Kernel_Client
begin

text \<open>
  The debugger controller (nemclass-core/src/internal/process/kernel/debugger.rs): breakpoint specifications, the list
  of breakpoints it keeps beside the module's own slots, and decoded events.

  The device is the state of the ioctls the operations take. A duration is its number of nanoseconds.
\<close>

section \<open>Breakpoint specifications\<close>

datatype breakpoint_spec = Hardware u64 u32 hw_breakpoint_type | Uprobe u64

definition validate_hw_len :: "u32 \<Rightarrow> core_error + unit" where
  "validate_hw_len len =
     (if len \<in> {1, 2, 4, 8} then Inr ()
      else Inl (InvalidArgument (''hardware breakpoint length must be 1, 2, 4, or 8 bytes, got '' @ format_dec (unat len))))"

definition BreakpointSpec_hardware :: "u64 \<Rightarrow> u32 \<Rightarrow> hw_breakpoint_type \<Rightarrow> core_error + breakpoint_spec" where
  "BreakpointSpec_hardware addr len ty =
     (case validate_hw_len len of Inl e \<Rightarrow> Inl e | Inr _ \<Rightarrow> Inr (Hardware addr len ty))"

definition BreakpointSpec_execute :: "u64 \<Rightarrow> breakpoint_spec" where
  "BreakpointSpec_execute addr = Hardware addr 1 ExecuteBp"

definition watch_write :: "u64 \<Rightarrow> u32 \<Rightarrow> core_error + breakpoint_spec" where
  "watch_write addr len = BreakpointSpec_hardware addr len WriteBp"

definition watch_read :: "u64 \<Rightarrow> u32 \<Rightarrow> core_error + breakpoint_spec" where
  "watch_read addr len = BreakpointSpec_hardware addr len ReadBp"

definition watch_access :: "u64 \<Rightarrow> u32 \<Rightarrow> core_error + breakpoint_spec" where
  "watch_access addr len = BreakpointSpec_hardware addr len ReadWriteBp"

fun BreakpointSpec_addr :: "breakpoint_spec \<Rightarrow> u64" where
  "BreakpointSpec_addr (Hardware addr len ty) = addr"
| "BreakpointSpec_addr (Uprobe addr) = addr"

fun BreakpointSpec_kind :: "breakpoint_spec \<Rightarrow> breakpoint_kind" where
  "BreakpointSpec_kind (Hardware addr len ty) = HardwareKind"
| "BreakpointSpec_kind (Uprobe addr) = UprobeKind"

section \<open>The debugger\<close>

record breakpoint =
  bk_id :: int
  bk_spec :: breakpoint_spec

record debugger =
  db_pid :: int
  db_breakpoints :: "breakpoint list"

definition Debugger_from_client :: "int \<Rightarrow> debugger" where
  "Debugger_from_client pid = \<lparr>db_pid = pid, db_breakpoints = []\<rparr>"

text \<open>\<open>open_device\<close> is the result of opening the device file, \<open>io_version\<close> that of the version request.\<close>

definition attach :: "core_error + unit \<Rightarrow> int + nemclass_version \<Rightarrow>
    (nemclass_auth \<Rightarrow> 'd \<Rightarrow> (int + unit) \<times> 'd) \<Rightarrow> int \<Rightarrow> bytes \<Rightarrow> 'd \<Rightarrow> (core_error + debugger) \<times> 'd" where
  "attach open_device io_version io_auth pid key d =
     (case open_device of
        Inl e \<Rightarrow> (Inl e, d)
      | Inr _ \<Rightarrow>
          (case check_abi io_version of
             Inl e \<Rightarrow> (Inl e, d)
           | Inr _ \<Rightarrow>
               (case auth io_auth key d of
                  (Inl e, d') \<Rightarrow> (Inl e, d')
                | (Inr _, d') \<Rightarrow> (Inr (Debugger_from_client pid), d'))))"

definition arm_spec :: "'d bp_set_ioctl \<Rightarrow> int \<Rightarrow> breakpoint_spec \<Rightarrow> 'd \<Rightarrow> (core_error + int) \<times> 'd" where
  "arm_spec io_set pid spec d =
     (case spec of
        Hardware addr len ty \<Rightarrow>
          (case validate_hw_len len of Inl e \<Rightarrow> (Inl e, d) | Inr _ \<Rightarrow> set_hw_breakpoint io_set pid addr len ty d)
      | Uprobe addr \<Rightarrow> set_uprobe io_set pid addr d)"

definition set_breakpoint :: "'d bp_set_ioctl \<Rightarrow> breakpoint_spec \<Rightarrow> debugger \<Rightarrow> 'd \<Rightarrow> (core_error + int) \<times> debugger \<times> 'd" where
  "set_breakpoint io_set spec db d =
     (case arm_spec io_set (db_pid db) spec d of
        (Inl e, d') \<Rightarrow> (Inl e, db, d')
      | (Inr slot, d') \<Rightarrow>
          (Inr slot, db\<lparr>db_breakpoints := db_breakpoints db @ [\<lparr>bk_id = slot, bk_spec = spec\<rparr>]\<rparr>, d'))"

text \<open>\<open>Iterator::position\<close>.\<close>

fun position :: "('a \<Rightarrow> bool) \<Rightarrow> 'a list \<Rightarrow> nat option" where
  "position P [] = None"
| "position P (x # xs) = (if P x then Some 0 else map_option Suc (position P xs))"

definition unknown_breakpoint :: "int \<Rightarrow> core_error" where
  "unknown_breakpoint i = InvalidArgument (''no such breakpoint bp#'' @ format_int i @ '' on this debugger'')"

definition clear_breakpoint :: "'d bp_clear_ioctl \<Rightarrow> int \<Rightarrow> debugger \<Rightarrow> 'd \<Rightarrow> (core_error + unit) \<times> debugger \<times> 'd" where
  "clear_breakpoint io_clear i db d =
     (case position (\<lambda>b. bk_id b = i) (db_breakpoints db) of
        None \<Rightarrow> (Inl (unknown_breakpoint i), db, d)
      | Some idx \<Rightarrow>
          (let db' = db\<lparr>db_breakpoints := take idx (db_breakpoints db) @ drop (idx + 1) (db_breakpoints db)\<rparr>;
               (r, d') = client_clear_breakpoint io_clear i d
           in (r, db', d')))"

definition breakpoint_spec_of :: "debugger \<Rightarrow> int \<Rightarrow> breakpoint_spec option" where
  "breakpoint_spec_of db i = map_option bk_spec (find (\<lambda>b. bk_id b = i) (db_breakpoints db))"

section \<open>Events\<close>

record registers =
  r_ip :: u64
  r_sp :: u64
  r_flags :: u64
  r_ax :: u64
  r_bx :: u64
  r_cx :: u64
  r_dx :: u64
  r_si :: u64
  r_di :: u64
  r_bp :: u64
  r_8 :: u64
  r_9 :: u64
  r_10 :: u64
  r_11 :: u64
  r_12 :: u64
  r_13 :: u64
  r_14 :: u64
  r_15 :: u64

definition Registers_from_event :: "event \<Rightarrow> registers" where
  "Registers_from_event e =
     (let g = e_gpr e
      in \<lparr>r_ip = e_ip e, r_sp = e_sp e, r_flags = e_flags e, r_ax = g ! 0, r_bx = g ! 1, r_cx = g ! 2, r_dx = g ! 3,
          r_si = g ! 4, r_di = g ! 5, r_bp = g ! 6, r_8 = g ! 7, r_9 = g ! 8, r_10 = g ! 9, r_11 = g ! 10, r_12 = g ! 11,
          r_13 = g ! 12, r_14 = g ! 13, r_15 = g ! 14\<rparr>)"

record debug_event =
  de_breakpoint :: int
  de_spec :: "breakpoint_spec option"
  de_pid :: int
  de_tid :: int
  de_kind :: "breakpoint_kind option"
  de_address :: u64
  de_registers :: registers

definition decode_event :: "debugger \<Rightarrow> event \<Rightarrow> debug_event" where
  "decode_event db ev = \<lparr>de_breakpoint = e_slot ev, de_spec = breakpoint_spec_of db (e_slot ev), de_pid = e_pid ev,
     de_tid = e_tid ev, de_kind = e_kind ev, de_address = e_addr ev, de_registers = Registers_from_event ev\<rparr>"

definition timeout_millis :: "nat option \<Rightarrow> int" where
  "timeout_millis timeout =
     (case timeout of
        None \<Rightarrow> - 1
      | Some ns \<Rightarrow> (let ms = ns div 1000000 in if ms > 2 ^ 31 - 1 then 2 ^ 31 - 1 else int ms))"

definition wait_event :: "'d wait_ioctl \<Rightarrow> nat option \<Rightarrow> debugger \<Rightarrow> 'd \<Rightarrow> (core_error + debug_event option) \<times> 'd" where
  "wait_event io_wait timeout db d =
     (case client_wait_event io_wait (timeout_millis timeout) d of
        (Inl e, d') \<Rightarrow> (Inl e, d')
      | (Inr ev, d') \<Rightarrow> (Inr (map_option (decode_event db) ev), d'))"

section \<open>Tracked breakpoints\<close>

text \<open>Every breakpoint the debugger lists is armed in the device, for its process, at its address and with its kind.\<close>

definition matches_slot :: "int \<Rightarrow> breakpoint \<Rightarrow> nemclass_slot \<Rightarrow> bool" where
  "matches_slot pid b sl \<longleftrightarrow> sl_id sl = bk_id b \<and> sl_pid sl = pid \<and> sl_addr sl = BreakpointSpec_addr (bk_spec b)
     \<and> sl_kind sl = BreakpointKind_to_raw (BreakpointSpec_kind (bk_spec b))"

definition tracked :: "debugger \<Rightarrow> nemclass_slot set \<Rightarrow> bool" where
  "tracked db slots \<longleftrightarrow> distinct (map bk_id (db_breakpoints db))
     \<and> (\<forall>b\<in>set (db_breakpoints db). \<exists>sl\<in>slots. matches_slot (db_pid db) b sl)"

lemma tracked_mono: "tracked db A \<Longrightarrow> A \<subseteq> B \<Longrightarrow> tracked db B"
  unfolding tracked_def by (meson subsetD)

lemma position_None: "position P xs = None \<longleftrightarrow> (\<forall>x\<in>set xs. \<not> P x)"
  by (induction xs) auto

lemma position_remove:
  "position (\<lambda>b. bk_id b = i) bs = Some n \<Longrightarrow> distinct (map bk_id bs) \<Longrightarrow>
   take n bs @ drop (n + 1) bs = filter (\<lambda>b. bk_id b \<noteq> i) bs"
proof (induction bs arbitrary: n)
  case (Cons b bs)
  have "filter (\<lambda>b'. bk_id b' \<noteq> bk_id b) bs = bs" using Cons.prems(2) by (intro filter_True) (force simp: image_iff)
  with Cons show ?case by (cases "bk_id b = i") (auto simp del: filter_id_conv)
qed simp

lemma clear_breakpoint_cases:
  assumes "distinct (map bk_id (db_breakpoints db))"
  shows "clear_breakpoint io_clear i db d =
    (if i \<notin> bk_id ` set (db_breakpoints db)
     then (Inl (unknown_breakpoint i), db, d)
     else let (r, d') = io_clear \<lparr>bc_slot = i\<rparr> d
          in (ioctl r, db\<lparr>db_breakpoints := filter (\<lambda>b. bk_id b \<noteq> i) (db_breakpoints db)\<rparr>, d'))"
proof (cases "position (\<lambda>b. bk_id b = i) (db_breakpoints db)")
  case None
  then have "i \<notin> bk_id ` set (db_breakpoints db)" by (auto simp: position_None)
  then show ?thesis by (simp add: clear_breakpoint_def None)
next
  case (Some n)
  then have "position (\<lambda>b. bk_id b = i) (db_breakpoints db) \<noteq> None" by simp
  then have "i \<in> bk_id ` set (db_breakpoints db)" unfolding position_None by auto
  then show ?thesis
    unfolding clear_breakpoint_def Some option.case position_remove[OF Some assms] client_clear_breakpoint_def
    by (simp add: split_beta)
qed

lemma breakpoint_spec_of_Some:
  assumes "breakpoint_spec_of db i = Some sp"
  shows "\<exists>b\<in>set (db_breakpoints db). bk_id b = i \<and> bk_spec b = sp"
  using assms by (auto simp: breakpoint_spec_of_def find_Some_iff)

lemma breakpoint_spec_of_tracked:
  assumes "distinct (map bk_id (db_breakpoints db))" "b \<in> set (db_breakpoints db)"
  shows "breakpoint_spec_of db (bk_id b) = Some (bk_spec b)"
proof -
  obtain b' where "find (\<lambda>b'. bk_id b' = bk_id b) (db_breakpoints db) = Some b'"
    using assms(2) by (cases "find (\<lambda>b'. bk_id b' = bk_id b) (db_breakpoints db)") (auto simp: find_None_iff)
  moreover from this have "b' = b" using assms by (auto simp: find_Some_iff distinct_map inj_on_def)
  ultimately show ?thesis by (simp add: breakpoint_spec_of_def)
qed

text \<open>Arming answers with the request's own fields and the slot id.\<close>

lemma arm_spec_request:
  assumes "arm_spec io_set pid spec d = (r, d')"
  shows "(\<exists>e. r = Inl e \<and> d' = d) \<or> (\<exists>req r'. io_set req d = (r', d') \<and> r = map_sum id bs_slot (ioctl r') \<and> bs_pid req = pid
    \<and> bs_addr req = BreakpointSpec_addr spec \<and> bs_kind req = BreakpointKind_to_raw (BreakpointSpec_kind spec))"
proof (cases spec)
  case (Hardware addr len ty)
  show ?thesis
  proof (cases "validate_hw_len len")
    case (Inl e)
    then have "r = Inl e \<and> d' = d" using assms Hardware by (simp add: arm_spec_def)
    then show ?thesis by blast
  next
    case (Inr u)
    then show ?thesis
      using assms Hardware by (force simp: arm_spec_def set_hw_breakpoint_def split: prod.splits)
  qed
next
  case (Uprobe addr)
  then show ?thesis using assms by (force simp: arm_spec_def set_uprobe_def split: prod.splits)
qed

context breakpoint_device begin

lemma set_breakpoint_tracks:
  assumes "sound d" "room d" "tracked db (armed d)" "set_breakpoint io_set spec db d = (r, db', d')"
  shows "sound d' \<and> tracked db' (armed d') \<and> db_pid db' = db_pid db"
proof -
  obtain r' where arm: "arm_spec io_set (db_pid db) spec d = (r', d')"
    using assms(4) by (auto simp: set_breakpoint_def split: prod.splits sum.splits)
  from arm_spec_request[OF this] show ?thesis
  proof (elim disjE exE conjE)
    fix e assume "r' = Inl e" "d' = d"
    then show ?thesis using assms arm by (auto simp: set_breakpoint_def)
  next
    fix req r2
    assume io: "io_set req d = (r2, d')" and r': "r' = map_sum id bs_slot (ioctl r2)" and req: "bs_pid req = db_pid db"
      "bs_addr req = BreakpointSpec_addr spec" "bs_kind req = BreakpointKind_to_raw (BreakpointSpec_kind spec)"
    show ?thesis
    proof (cases r2)
      case (Inl e)
      then show ?thesis using set_err[OF assms(1,2)] io assms(3,4) arm r' by (auto simp: set_breakpoint_def ioctl_def)
    next
      case (Inr req')
      have ok: "sound d'" "bs_slot req' \<notin> sl_id ` armed d" "armed d' = insert (slot_of req') (armed d)"
        and fields: "req' = req\<lparr>bs_slot := bs_slot req'\<rparr>"
        using set_ok[OF assms(1,2), of req req' d'] io Inr by auto
      have "bs_pid req' = bs_pid req" "bs_addr req' = bs_addr req" "bs_kind req' = bs_kind req"
        by (subst fields, simp)+
      then have new: "matches_slot (db_pid db) \<lparr>bk_id = bs_slot req', bk_spec = spec\<rparr> (slot_of req')"
        using req by (simp add: matches_slot_def slot_of_def)
      have "bs_slot req' \<notin> bk_id ` set (db_breakpoints db)"
        using ok(2) assms(3) by (force simp: tracked_def matches_slot_def)
      moreover have "db' = db\<lparr>db_breakpoints := db_breakpoints db @ [\<lparr>bk_id = bs_slot req', bk_spec = spec\<rparr>]\<rparr>"
        using assms(4) arm r' Inr by (auto simp: set_breakpoint_def ioctl_def)
      ultimately show ?thesis using assms(3) ok new by (auto simp: tracked_def)
    qed
  qed
qed

lemma clear_breakpoint_tracks:
  assumes "sound d" "tracked db (armed d)" "clear_breakpoint io_clear i db d = (r, db', d')"
  shows "sound d' \<and> tracked db' (armed d') \<and> db_pid db' = db_pid db"
proof (cases "i \<in> bk_id ` set (db_breakpoints db)")
  case False
  then show ?thesis using assms clear_breakpoint_cases[of db io_clear i d] by (auto simp: tracked_def)
next
  case True
  obtain r' where io: "io_clear \<lparr>bc_slot = i\<rparr> d = (r', d')"
      and db': "db' = db\<lparr>db_breakpoints := filter (\<lambda>b. bk_id b \<noteq> i) (db_breakpoints db)\<rparr>"
    using assms True clear_breakpoint_cases[of db io_clear i d] by (auto simp: tracked_def split: prod.splits)
  have kept: "sound d' \<and> {sl \<in> armed d. sl_id sl \<noteq> i} \<subseteq> armed d'"
    using clear_ok[OF assms(1)] clear_err[OF assms(1)] io assms(1) by (cases r') fastforce+
  moreover have "tracked db' {sl \<in> armed d. sl_id sl \<noteq> i}"
    using assms(2) by (fastforce simp: tracked_def db' matches_slot_def distinct_map_filter)
  ultimately show ?thesis using tracked_mono by (auto simp: db')
qed

lemma clear_granted:
  assumes "sound d" "tracked db (armed d)" "granted d" "b \<in> set (db_breakpoints db)"
    "clear_breakpoint io_clear (bk_id b) db d = (r, db', d')"
  shows "r = Inr () \<and> db_breakpoints db' = filter (\<lambda>b'. bk_id b' \<noteq> bk_id b) (db_breakpoints db)
    \<and> armed d' = {sl \<in> armed d. sl_id sl \<noteq> bk_id b}"
proof -
  obtain r' where io: "io_clear \<lparr>bc_slot = bk_id b\<rparr> d = (r', d')" and r: "r = ioctl r'"
      and db': "db' = db\<lparr>db_breakpoints := filter (\<lambda>b'. bk_id b' \<noteq> bk_id b) (db_breakpoints db)\<rparr>"
    using assms clear_breakpoint_cases[of db io_clear "bk_id b" d] by (auto simp: tracked_def split: prod.splits)
  have "bk_id b \<in> sl_id ` armed d" using assms(2,4) by (force simp: tracked_def matches_slot_def)
  then obtain u where "r' = Inr u" using clear_err[OF assms(1), of "\<lparr>bc_slot = bk_id b\<rparr>"] io assms(3) by (cases r') auto
  with clear_ok[OF assms(1)] io r db' show ?thesis by (fastforce simp: ioctl_def)
qed

lemma wait_event_spec:
  assumes "sound d" "tracked db (armed d)" "wait_event io_wait t db d = (Inr (Some de), d')" "de_spec de = Some sp"
  shows "de_address de = BreakpointSpec_addr sp \<and> de_kind de = Some (BreakpointSpec_kind sp) \<and> de_pid de = db_pid db"
proof -
  obtain r where io: "io_wait (timeout_millis t) d = (r, d')" by (cases "io_wait (timeout_millis t) d") (use assms(3) in
    \<open>auto simp: wait_event_def client_wait_event_def split: prod.splits sum.splits core_error.splits if_splits\<close>)
  then obtain ev where r: "r = Inr ev" and de: "de = decode_event db (Event_from ev)"
    using assms(3) by (auto simp: wait_event_def client_wait_event_def ioctl_def split: sum.splits if_splits)
  then obtain b where b: "b \<in> set (db_breakpoints db)" "bk_id b = ev_slot ev" "bk_spec b = sp"
    using assms(4) breakpoint_spec_of_Some[of db "ev_slot ev" sp] by (auto simp: decode_event_def Event_from_def)
  then obtain sl where sl: "sl \<in> armed d" "matches_slot (db_pid db) b sl" using assms(2) by (auto simp: tracked_def)
  then have "reports ev sl" using wait_reports[OF assms(1), of "timeout_millis t" ev d' sl] io r b by (simp add: matches_slot_def)
  then show ?thesis
    using sl(2) b(3) by (simp add: de decode_event_def Event_from_def reports_def matches_slot_def)
qed

end

section \<open>Sessions\<close>

text \<open>
  A debugger over the module's session, from a successful attach through any sequence of its operations, each in an
  environment of its own, and of hits that arrive in between. The raw client the debugger hands out is not used.
\<close>

inductive debug_step :: "debugger \<times> nemclass_session \<Rightarrow> debugger \<times> nemclass_session \<Rightarrow> bool" where
  step_set: "session_room s \<Longrightarrow> set_breakpoint (nemclass_bp_set e) spec db s = (r, db', s') \<Longrightarrow> debug_step (db, s) (db', s')"
| step_clear: "clear_breakpoint (nemclass_bp_clear e) i db s = (r, db', s') \<Longrightarrow> debug_step (db, s) (db', s')"
| step_wait: "wait_event (nemclass_wait_event e) t db s = (r, s') \<Longrightarrow> debug_step (db, s) (db, s')"
| step_hit: "debug_step (db, s) (db, session_hit h s)"

inductive debug_reachable :: "debugger \<times> nemclass_session \<Rightarrow> bool" where
  attached: "attach open_device io_version (nemclass_do_auth key) pid k nemclass_open = (Inr db, s) \<Longrightarrow> debug_reachable (db, s)"
| stepped: "debug_reachable x \<Longrightarrow> debug_step x y \<Longrightarrow> debug_reachable y"

inductive_cases debug_stepE: "debug_step (db, s) y"

definition debug_inv :: "debugger \<times> nemclass_session \<Rightarrow> bool" where
  "debug_inv x = (session_sound (snd x) \<and> tracked (fst x) (session_armed (snd x)) \<and> ss_authed (snd x))"

lemma emit_authed [simp]: "ss_authed (session_hit h s) = ss_authed s"
  by (auto simp: session_hit_def nemclass_emit_event_def Let_def split: option.splits)

lemma hits_authed [simp]: "ss_authed (fold session_hit hs s) = ss_authed s"
  by (induction hs arbitrary: s) auto

lemma bp_set_authed: "ss_authed (snd (nemclass_bp_set e req s)) = ss_authed s"
  by (simp add: nemclass_bp_set_def Let_def)

lemma bp_clear_authed: "ss_authed (snd (nemclass_bp_clear e req s)) = ss_authed s"
  by (simp add: nemclass_bp_clear_def split: option.splits)

lemma wait_authed: "ss_authed (snd (nemclass_wait_event e t s)) = ss_authed s"
  by (simp add: nemclass_wait_event_def Let_def split: list.splits)

lemma step_authed:
  assumes "debug_step (db, s) (db', s')"
  shows "ss_authed s' = ss_authed s"
  using assms
proof (cases rule: debug_step.cases)
  case (step_set e spec r)
  then obtain r' where "arm_spec (nemclass_bp_set e) (db_pid db) spec s = (r', s')"
    by (auto simp: set_breakpoint_def split: prod.splits sum.splits)
  from arm_spec_request[OF this] bp_set_authed show ?thesis by (metis snd_conv)
next
  case (step_clear e i r)
  then show ?thesis
    using bp_clear_authed[of e "\<lparr>bc_slot = i\<rparr>" s]
    by (auto simp: clear_breakpoint_def client_clear_breakpoint_def Let_def split: option.splits prod.splits)
next
  case (step_wait e t r)
  then show ?thesis
    using wait_authed[of e "timeout_millis t" s]
    by (auto simp: wait_event_def client_wait_event_def split: prod.splits sum.splits core_error.splits if_splits)
next
  case (step_hit h)
  then show ?thesis by simp
qed

lemma attach_inv:
  assumes "attach open_device io_version (nemclass_do_auth key) pid k nemclass_open = (Inr db, s)"
  shows "debug_inv (db, s)"
  using assms
  by (auto simp: attach_def auth_def ioctl_def nemclass_do_auth_def nemclass_open_def debug_inv_def session_sound_def
      tracked_def Debugger_from_client_def Let_def split: sum.splits if_splits)

lemma step_inv:
  assumes "debug_inv x" "debug_step x y"
  shows "debug_inv y"
proof -
  obtain db s db' s' where xy: "x = (db, s)" "y = (db', s')" by (cases x, cases y) auto
  have inv: "session_sound s" "tracked db (session_armed s)" "ss_authed s" using assms(1) by (auto simp: debug_inv_def xy)
  have "session_sound s' \<and> tracked db' (session_armed s')"
    using assms(2)[unfolded xy]
  proof (cases rule: debug_step.cases)
    case (step_set e spec r)
    then show ?thesis using module_breakpoints.set_breakpoint_tracks inv by blast
  next
    case (step_clear e i r)
    then show ?thesis using module_breakpoints.clear_breakpoint_tracks inv by blast
  next
    case (step_wait e t r)
    obtain r' where "nemclass_wait_event e (timeout_millis t) s = (r', s')"
      using step_wait by (cases "nemclass_wait_event e (timeout_millis t) s")
        (auto simp: wait_event_def client_wait_event_def split: prod.splits sum.splits core_error.splits if_splits)
    then show ?thesis using module_breakpoints.wait_keeps[OF inv(1)] inv(2) step_wait by simp
  next
    case (step_hit h)
    then show ?thesis using session_hit_keeps[OF inv(1), of h] inv(2) by (simp add: session_armed_def)
  qed
  moreover have "ss_authed s'" using step_authed[OF assms(2)[unfolded xy]] inv(3) by simp
  ultimately show ?thesis by (simp add: debug_inv_def xy)
qed

lemma reachable_inv: "debug_reachable x \<Longrightarrow> debug_inv x"
  by (induction rule: debug_reachable.induct) (auto intro: attach_inv step_inv)

text \<open>Hits are queued behind the events already there.\<close>

lemma session_hits_append: "\<exists>evs. ss_events (fold session_hit hs s) = ss_events s @ evs"
proof (induction hs arbitrary: s)
  case (Cons h hs)
  have "\<exists>evs. ss_events (session_hit h s) = ss_events s @ evs"
    by (auto simp: session_hit_def nemclass_emit_event_def Let_def split: option.splits)
  with Cons[of "session_hit h s"] show ?case by auto
qed simp

lemma find_slot:
  assumes "distinct (map sl_id slots)" "sl \<in> set slots"
  shows "find (\<lambda>sl'. sl_id sl' = sl_id sl) slots = Some sl"
proof -
  obtain sl' where f: "find (\<lambda>sl'. sl_id sl' = sl_id sl) slots = Some sl'"
    using assms(2) by (cases "find (\<lambda>sl'. sl_id sl' = sl_id sl) slots") (auto simp: find_None_iff)
  then have "sl' = sl" using assms by (auto simp: find_Some_iff distinct_map inj_on_def)
  with f show ?thesis by simp
qed

text \<open>The registers of a hit, as the debugger names them.\<close>

definition hit_registers :: "nemclass_event \<Rightarrow> registers" where
  "hit_registers e = \<lparr>r_ip = ev_ip e, r_sp = ev_sp e, r_flags = ev_flags e, r_ax = ev_ax e, r_bx = ev_bx e, r_cx = ev_cx e,
     r_dx = ev_dx e, r_si = ev_si e, r_di = ev_di e, r_bp = ev_bp e, r_8 = ev_r8 e, r_9 = ev_r9 e, r_10 = ev_r10 e,
     r_11 = ev_r11 e, r_12 = ev_r12 e, r_13 = ev_r13 e, r_14 = ev_r14 e, r_15 = ev_r15 e\<rparr>"

definition hit_report :: "debugger \<Rightarrow> breakpoint \<Rightarrow> hit \<Rightarrow> debug_event" where
  "hit_report db b h = \<lparr>de_breakpoint = bk_id b, de_spec = Some (bk_spec b), de_pid = db_pid db, de_tid = ht_tid h,
     de_kind = Some (BreakpointSpec_kind (bk_spec b)), de_address = BreakpointSpec_addr (bk_spec b),
     de_registers = hit_registers (ht_regs h)\<rparr>"

lemma wait_first_hit:
  assumes "ss_authed s" "en_allowed e" "ss_events s = []" "t \<noteq> 0" "en_hits e = h # hs"
    "find (\<lambda>sl. sl_id sl = ht_slot h) (ss_slots s) = Some sl"
  shows "fst (nemclass_wait_event e t s) = Inr ((ht_regs h)\<lparr>ev_slot := sl_id sl, ev_pid := sl_pid sl, ev_tid := ht_tid h,
    ev_kind := sl_kind sl, ev_addr := sl_addr sl\<rparr>)"
proof -
  obtain evs where "ss_events (fold session_hit (en_hits e) s) = ss_events (session_hit h s) @ evs"
    using session_hits_append[of hs "session_hit h s"] assms(5) by auto
  then show ?thesis
    using assms by (simp add: nemclass_wait_event_def privileged_def session_hit_def nemclass_emit_event_def
        NEMCLASS_EVENT_DEPTH_def Let_def)
qed

section \<open>An example session\<close>

text \<open>Attached to process 7 with one write watchpoint armed; a hit on it arrives while the caller waits.\<close>

definition watch :: breakpoint where
  "watch = \<lparr>bk_id = 0, bk_spec = Hardware 0x1000 4 WriteBp\<rparr>"

definition example_debugger :: debugger where
  "example_debugger = \<lparr>db_pid = 7, db_breakpoints = [watch]\<rparr>"

definition example_session :: nemclass_session where
  "example_session = \<lparr>ss_authed = True, ss_auth_failures = 0,
     ss_slots = [\<lparr>sl_id = 0, sl_kind = NEMCLASS_BP_KIND_HW, sl_pid = 7, sl_addr = 0x1000\<rparr>], ss_next_slot = 1, ss_events = []\<rparr>"

definition example_event :: nemclass_event where
  "example_event = \<lparr>ev_slot = 0, ev_pid = 0, ev_tid = 0, ev_kind = 0, ev_addr = 0, ev_ip = 0x401000, ev_sp = 0x7FFF, ev_flags = 2,
     ev_ax = 1, ev_bx = 2, ev_cx = 3, ev_dx = 4, ev_si = 5, ev_di = 6, ev_bp = 7, ev_r8 = 8, ev_r9 = 9, ev_r10 = 10,
     ev_r11 = 11, ev_r12 = 12, ev_r13 = 13, ev_r14 = 14, ev_r15 = 15\<rparr>"

definition example_hit :: hit where
  "example_hit = \<lparr>ht_slot = 0, ht_tid = 12, ht_regs = example_event\<rparr>"

definition hit_env :: env where
  "hit_env = quiet_env\<lparr>en_hits := [example_hit]\<rparr>"

lemma example_reachable: "debug_reachable (example_debugger, example_session)"
proof -
  have "attach (Inr ()) (Inr \<lparr>ve_abi = NEMCLASS_ABI_VERSION\<rparr>) (nemclass_do_auth [1, 2]) 7 [1, 2] nemclass_open
    = (Inr (Debugger_from_client 7), authed_session)"
    by (simp add: attach_def check_abi_def version_def ioctl_def auth_def nemclass_do_auth_def nemclass_open_def
        authed_session_def NEMCLASS_AUTH_MAX_FAILURES_def NEMCLASS_KEY_MAX_def)
  then have "debug_reachable (Debugger_from_client 7, authed_session)" by (rule attached)
  moreover have "set_breakpoint (nemclass_bp_set quiet_env) (Hardware 0x1000 4 WriteBp) (Debugger_from_client 7) authed_session
    = (Inr 0, example_debugger, example_session)"
    by (simp add: set_breakpoint_def arm_spec_def validate_hw_len_def set_hw_breakpoint_def nemclass_bp_set_def
        privileged_def quiet_env_def authed_session_def nemclass_open_def arm_result_def ioctl_def next_slot_id_def
        example_debugger_def example_session_def watch_def Debugger_from_client_def BreakpointKind_to_raw_def
        HwBreakpointType_to_raw_def bp_codes)
  then have "debug_step (Debugger_from_client 7, authed_session) (example_debugger, example_session)"
    by (intro step_set) (simp_all add: session_room_def authed_session_def nemclass_open_def)
  ultimately show ?thesis by (rule stepped)
qed

section \<open>Properties\<close>

text \<open>
  C22. Throughout a session the debugger's list is accurate: no two of its breakpoints share an id, and each is armed
  in the kernel module, for the attached process, at its address and with its kind, however calls fail, hits arrive
  and privileges change.
\<close>

theorem debugger_lists_armed:
  assumes "debug_reachable (db, s)"
  shows "distinct (map bk_id (db_breakpoints db)) \<and> (\<forall>b\<in>set (db_breakpoints db). \<exists>sl\<in>set (ss_slots s).
    sl_id sl = bk_id b \<and> sl_pid sl = db_pid db \<and> sl_addr sl = BreakpointSpec_addr (bk_spec b)
    \<and> sl_kind sl = BreakpointKind_to_raw (BreakpointSpec_kind (bk_spec b)))"
  using reachable_inv[OF assms] by (auto simp: debug_inv_def tracked_def matches_slot_def session_armed_def)

theorem debugger_lists_armed_witness:
  "distinct (map bk_id (db_breakpoints example_debugger)) \<and> db_breakpoints example_debugger \<noteq> []"
  using debugger_lists_armed[OF example_reachable] by (simp add: example_debugger_def)

text \<open>
  C23. Ids are never reused, so an event is attributed to the right breakpoint: when the debugger resolves a delivered
  event to a specification, its address, kind and process are those of that specification, also for events that were
  queued before breakpoints were cleared and set again.
\<close>

theorem event_spec_matches:
  assumes "debug_reachable (db, s)" "wait_event (nemclass_wait_event e) t db s = (Inr (Some de), s')" "de_spec de = Some sp"
  shows "de_address de = BreakpointSpec_addr sp \<and> de_kind de = Some (BreakpointSpec_kind sp) \<and> de_pid de = db_pid db"
  using module_breakpoints.wait_event_spec[OF _ _ assms(2,3)] reachable_inv[OF assms(1)] by (simp add: debug_inv_def)

theorem event_spec_matches_witness:
  "\<exists>de s'. wait_event (nemclass_wait_event hit_env) None example_debugger example_session = (Inr (Some de), s')
    \<and> de_address de = 0x1000 \<and> de_kind de = Some HardwareKind"
proof -
  obtain de s' where w: "wait_event (nemclass_wait_event hit_env) None example_debugger example_session = (Inr (Some de), s')"
      and sp: "de_spec de = Some (Hardware 0x1000 4 WriteBp)"
    by (simp add: wait_event_def client_wait_event_def nemclass_wait_event_def privileged_def hit_env_def quiet_env_def
        example_session_def session_hit_def example_hit_def nemclass_emit_event_def NEMCLASS_EVENT_DEPTH_def ioctl_def
        timeout_millis_def decode_event_def Event_from_def breakpoint_spec_of_def example_debugger_def watch_def example_event_def)
  from event_spec_matches[OF example_reachable w sp] w show ?thesis by auto
qed

text \<open>
  C24. A hit is delivered: when the thread that waits finds no queued event, may block and is on the allowlist, the
  first hit on a listed breakpoint makes the wait return exactly that breakpoint's report, with every register under its own name.
\<close>

theorem hit_delivered:
  assumes "debug_reachable (db, s)" "b \<in> set (db_breakpoints db)" "ss_events s = []" "en_allowed e"
    "timeout_millis t \<noteq> 0" "en_hits e = h # hs" "ht_slot h = bk_id b"
  shows "fst (wait_event (nemclass_wait_event e) t db s) = Inr (Some (hit_report db b h))"
proof -
  have inv: "session_sound s" "tracked db (session_armed s)" "ss_authed s"
    using reachable_inv[OF assms(1)] by (simp_all add: debug_inv_def)
  then obtain sl where sl: "sl \<in> set (ss_slots s)" "matches_slot (db_pid db) b sl"
    using assms(2) by (auto simp: tracked_def session_armed_def)
  have "find (\<lambda>sl. sl_id sl = ht_slot h) (ss_slots s) = Some sl"
    using find_slot[OF _ sl(1)] inv(1) sl(2) assms(7) by (simp add: session_sound_def matches_slot_def)
  note first = wait_first_hit[OF inv(3) assms(4,3,5,6) this]
  have spec: "breakpoint_spec_of db (sl_id sl) = Some (bk_spec b)"
    using breakpoint_spec_of_tracked[of db b] inv(2) assms(2) sl(2) by (simp add: tracked_def matches_slot_def)
  show ?thesis
    using first sl(2) spec
    by (cases "nemclass_wait_event e (timeout_millis t) s")
      (simp add: wait_event_def client_wait_event_def ioctl_def decode_event_def Event_from_def Registers_from_event_def
        hit_report_def hit_registers_def matches_slot_def)
qed

theorem hit_delivered_witness:
  "fst (wait_event (nemclass_wait_event hit_env) (Some 5000000) example_debugger example_session)
    = Inr (Some (hit_report example_debugger watch example_hit))"
  by (rule hit_delivered[OF example_reachable, where hs = "[]"])
    (simp_all add: example_debugger_def example_session_def hit_env_def quiet_env_def timeout_millis_def example_hit_def watch_def)

text \<open>
  Every listed breakpoint can be cleared: on the allowlist the call succeeds, takes exactly that breakpoint off
  the list and out of the module, and a second call is refused without a request.
\<close>

theorem clear_succeeds:
  assumes "debug_reachable (db, s)" "b \<in> set (db_breakpoints db)" "en_allowed e"
  shows "\<exists>db' s'. clear_breakpoint (nemclass_bp_clear e) (bk_id b) db s = (Inr (), db', s')
    \<and> db_breakpoints db' = filter (\<lambda>b'. bk_id b' \<noteq> bk_id b) (db_breakpoints db)
    \<and> set (ss_slots s') = {sl \<in> set (ss_slots s). sl_id sl \<noteq> bk_id b}
    \<and> clear_breakpoint (nemclass_bp_clear e) (bk_id b) db' s' = (Inl (unknown_breakpoint (bk_id b)), db', s')"
proof -
  have inv: "session_sound s" "tracked db (session_armed s)" "ss_authed s"
    using reachable_inv[OF assms(1)] by (simp_all add: debug_inv_def)
  obtain r db' s' where c: "clear_breakpoint (nemclass_bp_clear e) (bk_id b) db s = (r, db', s')" by (metis prod_cases3)
  have g: "r = Inr ()" "db_breakpoints db' = filter (\<lambda>b'. bk_id b' \<noteq> bk_id b) (db_breakpoints db)"
    "set (ss_slots s') = {sl \<in> set (ss_slots s). sl_id sl \<noteq> bk_id b}"
    using module_breakpoints.clear_granted[OF inv(1,2) _ assms(2) c] inv(3) assms(3)
    by (simp_all add: privileged_def session_armed_def)
  have "distinct (map bk_id (db_breakpoints db'))" "bk_id b \<notin> bk_id ` set (db_breakpoints db')"
    using inv(2) by (auto simp: tracked_def g(2) distinct_map_filter)
  with c g show ?thesis by (auto simp: clear_breakpoint_cases)
qed

theorem clear_succeeds_witness:
  "\<exists>db' s'. clear_breakpoint (nemclass_bp_clear quiet_env) (bk_id watch) example_debugger example_session = (Inr (), db', s')
    \<and> db_breakpoints db' = []"
  using clear_succeeds[OF example_reachable, of watch quiet_env]
  by (auto simp: example_debugger_def example_session_def quiet_env_def watch_def)

text \<open>
  A clear that the module refuses because the caller has left the allowlist takes the breakpoint off the list
  although it stays armed, and no later call of the debugger, in whatever environment, can clear it.
\<close>

theorem refused_clear_leaks:
  assumes "debug_reachable (db, s)" "b \<in> set (db_breakpoints db)" "\<not> en_allowed e"
  shows "\<exists>db'. clear_breakpoint (nemclass_bp_clear e) (bk_id b) db s = (Inl (Errno EACCES), db', s)
    \<and> bk_id b \<notin> bk_id ` set (db_breakpoints db') \<and> bk_id b \<in> sl_id ` set (ss_slots s)
    \<and> clear_breakpoint (nemclass_bp_clear e') (bk_id b) db' s = (Inl (unknown_breakpoint (bk_id b)), db', s)"
proof -
  have inv: "tracked db (session_armed s)" using reachable_inv[OF assms(1)] by (simp add: debug_inv_def)
  let ?db = "db\<lparr>db_breakpoints := filter (\<lambda>b'. bk_id b' \<noteq> bk_id b) (db_breakpoints db)\<rparr>"
  have "clear_breakpoint (nemclass_bp_clear e) (bk_id b) db s = (Inl (Errno EACCES), ?db, s)"
    using inv assms(2,3) by (simp add: clear_breakpoint_cases tracked_def nemclass_bp_clear_def privileged_def ioctl_def)
  moreover have "distinct (map bk_id (db_breakpoints ?db))" "bk_id b \<notin> bk_id ` set (db_breakpoints ?db)"
    using inv by (auto simp: tracked_def distinct_map_filter)
  moreover have "bk_id b \<in> sl_id ` set (ss_slots s)"
    using inv assms(2) by (force simp: tracked_def matches_slot_def session_armed_def)
  ultimately show ?thesis by (intro exI[of _ ?db]) (simp add: clear_breakpoint_cases)
qed

theorem refused_clear_leaks_witness:
  "\<exists>db'. clear_breakpoint (nemclass_bp_clear (quiet_env\<lparr>en_allowed := False\<rparr>)) (bk_id watch) example_debugger example_session
      = (Inl (Errno EACCES), db', example_session) \<and> bk_id watch \<in> sl_id ` set (ss_slots example_session)"
  using refused_clear_leaks[OF example_reachable, of watch "quiet_env\<lparr>en_allowed := False\<rparr>" quiet_env]
  by (auto simp: example_debugger_def quiet_env_def)

end
