(* ===== verification/Generators.thy ===== *)
theory Generators
  imports Codegen Repr_C
begin

text \<open>
  The three source generators (nemclass-model/src/codegen/cpp.rs, csharp.rs and rust_gen.rs): the text they write for the
  enums and classes of a project, over the fields and sizes of theory \<open>Codegen\<close>.

  The registry argument of the generators is not used by the code and left out.
\<close>

section \<open>Formatting\<close>

definition newline :: utext where "newline = [10]"

text \<open>\<open>{:04X}\<close>.\<close>

definition format_04X :: "nat \<Rightarrow> string" where
  "format_04X n = replicate (4 - length (format_HEX n)) (CHR ''0'') @ format_HEX n"

definition div_ceil_2 :: "usize \<Rightarrow> usize" where
  "div_ceil_2 n = (n + 1) div 2"

text \<open>The name of an enum value and the lines of an enum: the last has no comma.\<close>

definition enum_value :: "(nat \<Rightarrow> bool) \<Rightarrow> utext \<times> int \<Rightarrow> utext" where
  "enum_value uni v = codes ''    '' @ sanitize_ident uni (fst v) @ codes '' = '' @ codes (format_int (snd v))"

definition enum_value_lines :: "(nat \<Rightarrow> bool) \<Rightarrow> (utext \<times> int) list \<Rightarrow> utext" where
  "enum_value_lines uni values =
     (let lst = saturating_sub (length values) 1
      in concat (map (\<lambda>(i, v). enum_value uni v @ (if i < lst then codes '','' else []) @ newline) (enumerate 0 values)))"

text \<open>A class comment, put behind the class name.\<close>

definition class_comment :: "class_node \<Rightarrow> utext" where
  "class_comment cl = (if cl_comment cl = [] then [] else codes '' // '' @ cl_comment cl)"

text \<open>\<open>while out.ends_with("\n\n") { out.pop(); }\<close>.\<close>

function trim_newlines :: "utext \<Rightarrow> utext" where
  "trim_newlines out =
     (if length out \<ge> 2 \<and> drop (length out - 2) out = newline @ newline then trim_newlines (butlast out) else out)"
  by pat_completeness auto
termination by (relation "measure length") auto

declare trim_newlines.simps [simp del]

section \<open>C++\<close>

fun cpp_prim_type :: "prim_kind \<Rightarrow> string" where
  "cpp_prim_type PInt8 = ''int8_t''" | "cpp_prim_type PInt16 = ''int16_t''" | "cpp_prim_type PInt32 = ''int32_t''"
| "cpp_prim_type PInt64 = ''int64_t''" | "cpp_prim_type PUInt8 = ''uint8_t''" | "cpp_prim_type PUInt16 = ''uint16_t''"
| "cpp_prim_type PUInt32 = ''uint32_t''" | "cpp_prim_type PUInt64 = ''uint64_t''" | "cpp_prim_type PFloat = ''float''"
| "cpp_prim_type PDouble = ''double''" | "cpp_prim_type PBool = ''bool''"

definition cpp_int_type :: "nat \<Rightarrow> string" where
  "cpp_int_type sz = (if sz = 1 then ''int8_t'' else if sz = 2 then ''int16_t'' else if sz = 8 then ''int64_t'' else ''int32_t'')"

definition cpp_enum :: "(nat \<Rightarrow> bool) \<Rightarrow> enum_description \<Rightarrow> utext" where
  "cpp_enum uni e =
     codes ''enum class '' @ sanitize_ident uni (en_name e) @ codes '' : '' @ codes (cpp_int_type (en_size e)) @ newline
     @ codes ''{'' @ newline @ enum_value_lines uni (en_values e) @ codes ''};'' @ newline @ newline"

text \<open>A declaration: the type, the name, the dimensions in brackets, and the offset with the comment.\<close>

definition bracketed :: "nat \<Rightarrow> utext" where
  "bracketed n = codes ''['' @ codes (format_dec n) @ codes '']''"

definition cpp_offset_comment :: "field_info \<Rightarrow> utext" where
  "cpp_offset_comment f =
     codes '' //0x'' @ codes (format_04X (fi_offset f)) @ (if fi_comment f = [] then [] else codes '' '' @ fi_comment f)"

definition cpp_line :: "field_info \<Rightarrow> utext \<Rightarrow> nat list \<Rightarrow> utext" where
  "cpp_line f ty dims =
     codes ''    '' @ ty @ codes '' '' @ fi_name f @ concat (map bracketed dims) @ codes '';'' @ cpp_offset_comment f @ newline"

definition cpp_member :: "field_info \<Rightarrow> utext" where
  "cpp_member f =
     (case fi_kind f of
        Primitive p \<Rightarrow> cpp_line f (codes (cpp_prim_type p)) []
      | RawBytes n \<Rightarrow> cpp_line f (codes ''uint8_t'') [n]
      | PointerField (Some target) \<Rightarrow> cpp_line f (target @ codes ''*'') []
      | PointerField None \<Rightarrow> cpp_line f (codes ''void*'') []
      | ClassInstanceField tname \<Rightarrow> cpp_line f tname []
      | ArrayField n \<Rightarrow> cpp_line f (codes ''uint8_t'') [n]
      | Utf8TextField len \<Rightarrow> cpp_line f (codes ''char'') [len]
      | Utf16TextField len \<Rightarrow> cpp_line f (codes ''wchar_t'') [div_ceil_2 len]
      | VectorField components width \<Rightarrow> cpp_line f (codes (c_ty width)) [components]
      | MatrixField rows cols width \<Rightarrow> cpp_line f (codes (c_ty width)) [rows, cols])"

definition cpp_class :: "uuid_lib \<Rightarrow> (nat \<Rightarrow> bool) \<Rightarrow> project \<Rightarrow> class_node \<Rightarrow> utext" where
  "cpp_class U uni p cl =
     (let cname = sanitize_ident uni (cl_name cl);
          total_size = resolved_class_size U p {} cl
      in codes ''class '' @ cname @ class_comment cl @ newline @ codes ''{'' @ newline @ codes ''public:'' @ newline
         @ concat (map cpp_member (resolve_fields U uni p cl))
         @ codes ''}; //Size: 0x'' @ codes (format_04X total_size) @ newline
         @ codes ''static_assert(sizeof('' @ cname @ codes '') == 0x'' @ codes (format_HEX total_size) @ codes '');''
         @ newline @ newline)"

definition cpp_generate :: "uuid_lib \<Rightarrow> (nat \<Rightarrow> bool) \<Rightarrow> project \<Rightarrow> utext" where
  "cpp_generate U uni p =
     codes ''// Generated by nemclass-rs'' @ newline @ codes ''#pragma once'' @ newline
     @ codes ''#include <cstdint>'' @ newline @ codes ''#include <cassert>'' @ newline @ newline
     @ concat (map (cpp_enum uni) (pr_enums p))
     @ codes ''#pragma pack(push, 1)'' @ newline @ newline
     @ concat (map (cpp_class U uni p) (classes_in_order p))
     @ codes ''#pragma pack(pop)'' @ newline"

section \<open>C#\<close>

fun csharp_prim_type :: "prim_kind \<Rightarrow> string" where
  "csharp_prim_type PInt8 = ''sbyte''" | "csharp_prim_type PInt16 = ''short''" | "csharp_prim_type PInt32 = ''int''"
| "csharp_prim_type PInt64 = ''long''" | "csharp_prim_type PUInt8 = ''byte''" | "csharp_prim_type PUInt16 = ''ushort''"
| "csharp_prim_type PUInt32 = ''uint''" | "csharp_prim_type PUInt64 = ''ulong''" | "csharp_prim_type PFloat = ''float''"
| "csharp_prim_type PDouble = ''double''" | "csharp_prim_type PBool = ''bool''"

definition csharp_int_type :: "nat \<Rightarrow> string" where
  "csharp_int_type sz = (if sz = 1 then ''sbyte'' else if sz = 2 then ''short'' else if sz = 8 then ''long'' else ''int'')"

definition csharp_float_type :: "float_width \<Rightarrow> string" where
  "csharp_float_type w = (case w of F32 \<Rightarrow> ''float'' | F64 \<Rightarrow> ''double'')"

definition csharp_enum :: "(nat \<Rightarrow> bool) \<Rightarrow> enum_description \<Rightarrow> utext" where
  "csharp_enum uni e =
     codes ''public enum '' @ sanitize_ident uni (en_name e) @ codes '' : '' @ codes (csharp_int_type (en_size e)) @ newline
     @ codes ''{'' @ newline @ enum_value_lines uni (en_values e) @ codes ''}'' @ newline @ newline"

definition csharp_offset :: "field_info \<Rightarrow> utext" where
  "csharp_offset f = codes ''    [FieldOffset(0x'' @ codes (format_HEX (fi_offset f)) @ codes '')]'' @ newline"

definition csharp_comment :: "field_info \<Rightarrow> utext" where
  "csharp_comment f = (if fi_comment f = [] then [] else codes '' //'' @ fi_comment f)"

definition csharp_line :: "field_info \<Rightarrow> utext \<Rightarrow> nat list \<Rightarrow> utext" where
  "csharp_line f ty dims =
     codes ''    public '' @ ty @ codes '' '' @ fi_name f @ concat (map bracketed dims) @ codes '';'' @ csharp_comment f"

definition csharp_member :: "field_info \<Rightarrow> utext" where
  "csharp_member f =
     (case fi_kind f of
        Primitive p \<Rightarrow> csharp_offset f @ csharp_line f (codes ''readonly '' @ codes (csharp_prim_type p)) [] @ newline
      | RawBytes n \<Rightarrow> csharp_offset f @ csharp_line f (codes ''unsafe fixed byte'') [n] @ newline
      | PointerField _ \<Rightarrow> csharp_offset f @ csharp_line f (codes ''readonly IntPtr'') [] @ newline
      | ClassInstanceField tname \<Rightarrow> csharp_offset f @ csharp_line f tname [] @ newline
      | ArrayField n \<Rightarrow> csharp_offset f @ csharp_line f (codes ''unsafe fixed byte'') [n] @ newline
      | Utf8TextField len \<Rightarrow>
          codes ''    [MarshalAs(UnmanagedType.ByValTStr, SizeConst = '' @ codes (format_dec len) @ codes '')]'' @ newline
          @ csharp_offset f @ csharp_line f (codes ''readonly string'') [] @ newline
      | Utf16TextField len \<Rightarrow>
          csharp_offset f @ csharp_line f (codes ''unsafe fixed byte'') [div_ceil_2 len * 2] @ codes '' // UTF-16 LE'' @ newline
      | VectorField components width \<Rightarrow>
          csharp_offset f @ csharp_line f (codes ''unsafe fixed '' @ codes (csharp_float_type width)) [components] @ newline
      | MatrixField rows cols width \<Rightarrow>
          csharp_offset f @ csharp_line f (codes ''unsafe fixed '' @ codes (csharp_float_type width)) [rows * cols]
          @ codes '' // '' @ codes (format_dec rows) @ codes ''x'' @ codes (format_dec cols) @ codes '' row-major'' @ newline)"

definition csharp_class :: "uuid_lib \<Rightarrow> (nat \<Rightarrow> bool) \<Rightarrow> project \<Rightarrow> class_node \<Rightarrow> utext" where
  "csharp_class U uni p cl =
     codes ''[StructLayout(LayoutKind.Explicit, CharSet = CharSet.Ansi)]'' @ newline
     @ codes ''public struct '' @ sanitize_ident uni (cl_name cl) @ class_comment cl @ newline @ codes ''{'' @ newline
     @ concat (map csharp_member (resolve_fields U uni p cl)) @ codes ''}'' @ newline @ newline"

definition csharp_generate :: "uuid_lib \<Rightarrow> (nat \<Rightarrow> bool) \<Rightarrow> project \<Rightarrow> utext" where
  "csharp_generate U uni p =
     trim_newlines
       (codes ''// Generated by nemclass-rs'' @ newline
        @ codes ''// Warning: The C# code generator doesn't support all node types!'' @ newline @ newline
        @ codes ''using System.Runtime.InteropServices;'' @ newline @ newline
        @ concat (map (csharp_enum uni) (pr_enums p))
        @ concat (map (csharp_class U uni p) (classes_in_order p)))"

section \<open>Rust\<close>

fun rust_prim_type :: "prim_kind \<Rightarrow> string" where
  "rust_prim_type PInt8 = ''i8''" | "rust_prim_type PInt16 = ''i16''" | "rust_prim_type PInt32 = ''i32''"
| "rust_prim_type PInt64 = ''i64''" | "rust_prim_type PUInt8 = ''u8''" | "rust_prim_type PUInt16 = ''u16''"
| "rust_prim_type PUInt32 = ''u32''" | "rust_prim_type PUInt64 = ''u64''" | "rust_prim_type PFloat = ''f32''"
| "rust_prim_type PDouble = ''f64''" | "rust_prim_type PBool = ''bool''"

definition rust_int_type :: "nat \<Rightarrow> string" where
  "rust_int_type sz = (if sz = 1 then ''i8'' else if sz = 2 then ''i16'' else if sz = 8 then ''i64'' else ''i32'')"

definition rust_enum :: "(nat \<Rightarrow> bool) \<Rightarrow> enum_description \<Rightarrow> utext" where
  "rust_enum uni e =
     (let ename = sanitize_ident uni (en_name e); repr = codes (rust_int_type (en_size e))
      in if en_use_flags e then
           codes ''#[derive(Debug, Clone, Copy, PartialEq, Eq)]'' @ newline
           @ codes ''pub struct '' @ ename @ codes ''(pub '' @ repr @ codes '');'' @ newline @ newline
           @ codes ''impl '' @ ename @ codes '' {'' @ newline
           @ concat (map (\<lambda>(vname, vval). codes ''    pub const '' @ sanitize_ident uni vname @ codes '': '' @ repr @ codes '' = ''
               @ codes (format_int vval) @ codes '';'' @ newline) (en_values e))
           @ codes ''}'' @ newline @ newline
         else
           codes ''#[derive(Debug, Clone, Copy, PartialEq, Eq)]'' @ newline
           @ codes ''#[repr('' @ repr @ codes '')]'' @ newline
           @ codes ''pub enum '' @ ename @ codes '' {'' @ newline
           @ concat (map (\<lambda>v. enum_value uni v @ codes '','' @ newline) (en_values e))
           @ codes ''}'' @ newline @ newline)"

definition rust_comment :: "field_info \<Rightarrow> utext" where
  "rust_comment f =
     codes '' // 0x'' @ codes (format_04X (fi_offset f)) @ (if fi_comment f = [] then [] else codes '' '' @ fi_comment f)"

definition rust_line :: "field_info \<Rightarrow> utext \<Rightarrow> utext" where
  "rust_line f ty = codes ''    pub '' @ fi_name f @ codes '': '' @ ty @ codes '','' @ rust_comment f @ newline"

text \<open>\<open>[T; n]\<close>.\<close>

definition rust_array :: "utext \<Rightarrow> nat \<Rightarrow> utext" where
  "rust_array ty n = codes ''['' @ ty @ codes ''; '' @ codes (format_dec n) @ codes '']''"

definition rust_member :: "field_info \<Rightarrow> utext" where
  "rust_member f =
     (case fi_kind f of
        Primitive p \<Rightarrow> rust_line f (codes (rust_prim_type p))
      | RawBytes n \<Rightarrow> rust_line f (rust_array (codes ''u8'') n)
      | PointerField (Some target) \<Rightarrow> rust_line f (codes ''*mut '' @ target)
      | PointerField None \<Rightarrow> rust_line f (codes ''usize'')
      | ClassInstanceField tname \<Rightarrow> rust_line f tname
      | ArrayField n \<Rightarrow> rust_line f (rust_array (codes ''u8'') n)
      | Utf8TextField len \<Rightarrow> rust_line f (rust_array (codes ''u8'') len)
      | Utf16TextField len \<Rightarrow> rust_line f (rust_array (codes ''u16'') (div_ceil_2 len))
      | VectorField components width \<Rightarrow> rust_line f (rust_array (codes (rust_ty width)) components)
      | MatrixField rows cols width \<Rightarrow> rust_line f (rust_array (rust_array (codes (rust_ty width)) cols) rows))"

definition rust_class :: "uuid_lib \<Rightarrow> (nat \<Rightarrow> bool) \<Rightarrow> project \<Rightarrow> class_node \<Rightarrow> utext" where
  "rust_class U uni p cl =
     (let cname = sanitize_ident uni (cl_name cl);
          total_size = resolved_class_size U p {} cl
      in codes ''#[repr(C)]'' @ newline @ codes ''pub struct '' @ cname @ class_comment cl @ codes '' {'' @ newline
         @ concat (map rust_member (resolve_fields U uni p cl))
         @ codes ''}'' @ newline @ newline
         @ codes ''const _: () = assert!(std::mem::size_of::<'' @ cname @ codes ''>() == 0x'' @ codes (format_HEX total_size)
         @ codes '');'' @ newline @ newline)"

definition rust_generate :: "uuid_lib \<Rightarrow> (nat \<Rightarrow> bool) \<Rightarrow> project \<Rightarrow> utext" where
  "rust_generate U uni p =
     trim_newlines
       (codes ''// Generated by nemclass-rs'' @ newline @ codes ''#![allow(non_camel_case_types, dead_code)]'' @ newline @ newline
        @ concat (map (rust_enum uni) (pr_enums p))
        @ concat (map (rust_class U uni p) (classes_in_order p)))"

section \<open>Dispatch\<close>

datatype language = Cpp | CSharp | Rust

definition generate :: "language \<Rightarrow> uuid_lib \<Rightarrow> (nat \<Rightarrow> bool) \<Rightarrow> project \<Rightarrow> utext" where
  "generate language U uni p =
     (case language of Cpp \<Rightarrow> cpp_generate U uni p | CSharp \<Rightarrow> csharp_generate U uni p | Rust \<Rightarrow> rust_generate U uni p)"

end
