(* ===== verification/Generated_Source.thy ===== *)
theory Generated_Source
  imports Generators
begin

text \<open>
  What a compiler makes of the generated declarations: readers for the member declarations of the three languages, the
  packed layout of the C++ classes, and the \<open>repr(C)\<close> layout of the Rust structs on a 64-bit target.
\<close>

section \<open>Reading members\<close>

text \<open>The text before the first occurrence of a character, and the text behind it.\<close>

definition cut_at :: "nat \<Rightarrow> utext \<Rightarrow> utext \<times> utext" where
  "cut_at c s = (takeWhile (\<lambda>d. d \<noteq> c) s, drop 1 (dropWhile (\<lambda>d. d \<noteq> c) s))"

definition leading_hex :: "utext \<Rightarrow> nat option" where
  "leading_hex s = digits_value 16 (takeWhile (\<lambda>c. to_digit 16 c \<noteq> None) s) 0"

function read_dims :: "utext \<Rightarrow> nat option list" where
  "read_dims s =
     (if s \<noteq> [] \<and> hd s = 91 then let (d, r) = cut_at 93 (tl s) in digits_value 10 d 0 # read_dims r else [])"
  by pat_completeness auto

lemma cut_at_length: "length (snd (cut_at c s)) \<le> length s"
  using length_dropWhile_le[of "\<lambda>d. d \<noteq> c" s] by (simp add: cut_at_def)

termination read_dims
proof (relation "measure length", goal_cases)
  case (2 s x d r)
  then have "length r \<le> length (tl s)" using cut_at_length[of 93 "tl s"] by (metis snd_conv)
  then show ?case using 2 by (cases s) auto
qed simp

declare read_dims.simps [simp del]

record member_decl =
  dc_type :: utext
  dc_name :: utext
  dc_dims :: "nat option list"
  dc_offset :: "nat option"

definition read_cpp :: "utext \<Rightarrow> member_decl" where
  "read_cpp s =
     (let (ty, r) = cut_at 32 (drop 4 s); (decl, r) = cut_at 59 r
      in \<lparr>dc_type = ty, dc_name = takeWhile (\<lambda>c. c \<noteq> 91) decl, dc_dims = read_dims (dropWhile (\<lambda>c. c \<noteq> 91) decl),
          dc_offset = leading_hex (drop 5 r)\<rparr>)"

definition read_rust :: "utext \<Rightarrow> member_decl" where
  "read_rust s =
     (let (name, r) = cut_at 58 (drop 8 s); (ty, r) = cut_at 44 (drop 1 r)
      in \<lparr>dc_type = ty, dc_name = name, dc_dims = [], dc_offset = leading_hex (drop 6 r)\<rparr>)"

text \<open>The name is the last word before the semicolon; a marshalling attribute may stand before the offset.\<close>

definition last_word :: "utext \<Rightarrow> utext" where
  "last_word s = rev (takeWhile (\<lambda>c. c \<noteq> 32) (rev s))"

definition read_csharp :: "utext \<Rightarrow> member_decl" where
  "read_csharp s =
     (let s = (if take 6 s = codes ''    [M'' then snd (cut_at 10 s) else s);
          (attr, line) = cut_at 10 s;
          decl = last_word (fst (cut_at 59 line))
      in \<lparr>dc_type = [], dc_name = takeWhile (\<lambda>c. c \<noteq> 91) decl, dc_dims = read_dims (dropWhile (\<lambda>c. c \<noteq> 91) decl),
          dc_offset = leading_hex (drop 19 attr)\<rparr>)"

lemma cut_at_append: "c \<notin> set a \<Longrightarrow> cut_at c (a @ c # r) = (a, r)"
proof -
  assume "c \<notin> set a"
  then have "takeWhile (\<lambda>d. d \<noteq> c) (a @ c # r) = a" "dropWhile (\<lambda>d. d \<noteq> c) (a @ c # r) = c # r"
    by (induction a) auto
  then show ?thesis by (simp add: cut_at_def)
qed

lemma hex_digit_upper_value: "c \<in> set (format_HEX n) \<Longrightarrow> to_digit 16 (of_char c) \<noteq> None"
  using digits_of_chars[of 16 c hex_digit_upper n] by (auto simp: format_HEX_def)

lemma leading_hex_append:
  assumes "\<And>c. c \<in> set h \<Longrightarrow> to_digit 16 c \<noteq> None" "r = [] \<or> to_digit 16 (hd r) = None"
  shows "leading_hex (h @ r) = digits_value 16 h 0"
proof -
  have "takeWhile (\<lambda>c. to_digit 16 c \<noteq> None) (h @ r) = h"
    using assms by (cases r) (simp_all add: takeWhile_append)
  then show ?thesis by (simp only: leading_hex_def)
qed

lemma leading_hex_HEX:
  "r = [] \<or> to_digit 16 (hd r) = None \<Longrightarrow> leading_hex (codes (format_HEX n) @ r) = Some n"
  using hex_digit_upper_value by (subst leading_hex_append) (auto simp: codes_def digits_value_format[unfolded codes_def])

lemma leading_hex_04X:
  assumes "r = [] \<or> to_digit 16 (hd r) = None"
  shows "leading_hex (codes (format_04X n) @ r) = Some n"
proof -
  have "to_digit 16 c \<noteq> None" if c: "c \<in> set (codes (format_04X n))" for c
  proof -
    consider "c = of_char (CHR ''0'')" | x where "x \<in> set (format_HEX n)" "c = of_char x"
      using c by (auto simp: format_04X_def codes_def)
    then show ?thesis by cases (use hex_digit_upper_value in \<open>simp_all add: to_digit_def\<close>)
  qed
  then have "leading_hex (codes (format_04X n) @ r) = digits_value 16 (codes (format_04X n)) 0"
    using assms by (rule leading_hex_append)
  also have "\<dots> = Some n" by (simp add: format_04X_def digits_value_zeros digits_value_format)
  finally show ?thesis .
qed

text \<open>The characters of identifiers are none of the separators.\<close>

definition plain_name :: "utext \<Rightarrow> bool" where
  "plain_name s \<longleftrightarrow> s \<noteq> [] \<and> (\<forall>c\<in>set s. c \<notin> {10, 32, 40, 42, 44, 47, 58, 59, 91, 93})"

lemma sanitized_plain: "plain_name (sanitize_ident uni s)"
proof -
  have "c \<notin> {10, 32, 40, 42, 44, 47, 58, 59, 91, 93}" if "ident_char uni c" for c
    using that by (auto simp: ident_char_def is_alphanumeric_def is_ascii_digit_def)
  then show ?thesis using sanitize_ident_valid[of uni s] by (auto simp: plain_name_def list_all_iff)
qed

lemma bracketed_chars: "c \<in> set (bracketed n) \<Longrightarrow> 48 \<le> c \<and> c \<le> 57 \<or> c = 91 \<or> c = 93"
  using format_dec_chars[of c n] by (auto simp: bracketed_def)

lemma read_dims_bracketed: "read_dims (concat (map bracketed ns)) = map Some ns"
proof (induction ns)
  case (Cons n ns)
  have "93 \<notin> set (codes (format_dec n))" using format_dec_chars[of 93 n] by auto
  then have "cut_at 93 (codes (format_dec n) @ 93 # concat (map bracketed ns))
      = (codes (format_dec n), concat (map bracketed ns))" by (rule cut_at_append)
  moreover have "concat (map bracketed (n # ns)) = 91 # codes (format_dec n) @ 93 # concat (map bracketed ns)"
    by (simp add: bracketed_def)
  ultimately have "read_dims (concat (map bracketed (n # ns))) = Some n # map Some ns"
    using Cons by (simp add: read_dims.simps[of "91 # _"] digits_value_format del: concat.simps list.map)
  then show ?case by simp
qed (simp add: read_dims.simps)

lemma takeWhile_dropWhile_name:
  assumes "plain_name n"
  shows "takeWhile (\<lambda>c. c \<noteq> 91) (n @ concat (map bracketed ds)) = n"
    and "dropWhile (\<lambda>c. c \<noteq> 91) (n @ concat (map bracketed ds)) = concat (map bracketed ds)"
proof -
  have "takeWhile (\<lambda>c. c \<noteq> 91) (concat (map bracketed ds)) = []"
    "dropWhile (\<lambda>c. c \<noteq> 91) (concat (map bracketed ds)) = concat (map bracketed ds)"
    by (cases ds; simp add: bracketed_def)+
  moreover have "\<And>c. c \<in> set n \<Longrightarrow> c \<noteq> 91" using assms by (auto simp: plain_name_def)
  ultimately show "takeWhile (\<lambda>c. c \<noteq> 91) (n @ concat (map bracketed ds)) = n"
    "dropWhile (\<lambda>c. c \<noteq> 91) (n @ concat (map bracketed ds)) = concat (map bracketed ds)"
    by (simp_all add: takeWhile_append dropWhile_append)
qed

lemma declarator_chars: "plain_name n \<Longrightarrow> c \<in> set (n @ concat (map bracketed ds)) \<Longrightarrow> c \<notin> {10, 32, 40, 42, 44, 47, 58, 59}"
  using bracketed_chars by (fastforce simp: plain_name_def)

lemma read_cpp_line:
  assumes "32 \<notin> set ty" "plain_name (fi_name f)"
  shows "read_cpp (cpp_line f ty ds) = \<lparr>dc_type = ty, dc_name = fi_name f, dc_dims = map Some ds, dc_offset = Some (fi_offset f)\<rparr>"
proof -
  let ?decl = "fi_name f @ concat (map bracketed ds)" and ?com = "if fi_comment f = [] then [] else codes '' '' @ fi_comment f"
  have "drop 4 (cpp_line f ty ds) = ty @ 32 # ?decl @ 59 # cpp_offset_comment f @ newline" by (simp add: cpp_line_def)
  moreover have "cut_at 59 (?decl @ 59 # cpp_offset_comment f @ newline) = (?decl, cpp_offset_comment f @ newline)"
    using declarator_chars[OF assms(2), of 59 ds] by (intro cut_at_append) auto
  moreover have "drop 5 (cpp_offset_comment f @ newline) = codes (format_04X (fi_offset f)) @ ?com @ newline"
    by (simp add: cpp_offset_comment_def)
  moreover have "leading_hex (codes (format_04X (fi_offset f)) @ ?com @ newline) = Some (fi_offset f)"
    by (rule leading_hex_04X) (simp add: newline_def to_digit_def)
  ultimately show ?thesis
    using takeWhile_dropWhile_name[OF assms(2), of ds]
    by (simp add: read_cpp_def Let_def cut_at_append[OF assms(1)] read_dims_bracketed)
qed

lemma read_rust_line:
  assumes "44 \<notin> set ty" "plain_name (fi_name f)"
  shows "read_rust (rust_line f ty) = \<lparr>dc_type = ty, dc_name = fi_name f, dc_dims = [], dc_offset = Some (fi_offset f)\<rparr>"
proof -
  let ?com = "if fi_comment f = [] then [] else codes '' '' @ fi_comment f"
  have "drop 8 (rust_line f ty) = fi_name f @ 58 # 32 # ty @ 44 # rust_comment f @ newline" by (simp add: rust_line_def)
  moreover have "58 \<notin> set (fi_name f)" using assms(2) by (auto simp: plain_name_def)
  moreover have "drop 6 (rust_comment f @ newline) = codes (format_04X (fi_offset f)) @ ?com @ newline"
    by (simp add: rust_comment_def)
  moreover have "leading_hex (codes (format_04X (fi_offset f)) @ ?com @ newline) = Some (fi_offset f)"
    by (rule leading_hex_04X) (simp add: newline_def to_digit_def)
  ultimately show ?thesis by (simp add: read_rust_def Let_def cut_at_append assms(1))
qed

lemma last_word_append: "32 \<notin> set w \<Longrightarrow> last_word (s @ 32 # w) = w"
  by (simp add: last_word_def takeWhile_append)

text \<open>A C# declaration after its offset attribute, whatever stands behind the semicolon.\<close>

lemma read_csharp_line:
  assumes "10 \<notin> set ty" "59 \<notin> set ty" "plain_name (fi_name f)"
  shows "read_csharp (csharp_offset f @ csharp_line f ty ds @ r)
    = \<lparr>dc_type = [], dc_name = fi_name f, dc_dims = map Some ds, dc_offset = Some (fi_offset f)\<rparr>"
proof -
  let ?decl = "fi_name f @ concat (map bracketed ds)" and ?attr = "codes ''    [FieldOffset(0x'' @ codes (format_HEX (fi_offset f)) @ codes '')]''"
  have hex: "to_digit 16 c \<noteq> None" if "c \<in> set (codes (format_HEX (fi_offset f)))" for c
    using that hex_digit_upper_value by (auto simp: codes_def)
  have "10 \<notin> set (codes (format_HEX (fi_offset f)))" using hex[of 10] by (auto simp: to_digit_def)
  then have attr: "cut_at 10 (csharp_offset f @ csharp_line f ty ds @ r) = (?attr, csharp_line f ty ds @ r)"
    using cut_at_append[of 10 ?attr "csharp_line f ty ds @ r"] by (simp add: csharp_offset_def newline_def)
  have off: "leading_hex (drop 19 ?attr) = Some (fi_offset f)"
    using leading_hex_HEX[of "codes '')]''" "fi_offset f"] by (simp add: to_digit_def)
  have chars: "c \<notin> {10, 32, 59}" if "c \<in> set ?decl" for c using declarator_chars[OF assms(3) that] by auto
  then have "59 \<notin> set (codes ''    public '' @ ty @ 32 # ?decl)" using assms(2) by auto
  from cut_at_append[OF this, of "csharp_comment f @ r"]
  have "fst (cut_at 59 (csharp_line f ty ds @ r)) = codes ''    public '' @ ty @ 32 # ?decl" by (simp add: csharp_line_def)
  moreover have "last_word ((codes ''    public '' @ ty) @ 32 # ?decl) = ?decl"
    by (rule last_word_append) (use chars in blast)
  moreover have "take 6 (csharp_offset f @ csharp_line f ty ds @ r) \<noteq> codes ''    [M''" by (simp add: csharp_offset_def)
  ultimately show ?thesis
    using attr off takeWhile_dropWhile_name[OF assms(3), of ds]
    by (simp add: read_csharp_def Let_def read_dims_bracketed)
qed

lemma read_csharp_marshal: "10 \<notin> set a \<Longrightarrow> take 6 (csharp_offset f @ r) \<noteq> codes ''    [M'' \<Longrightarrow>
  read_csharp (codes ''    [M'' @ a @ newline @ csharp_offset f @ r) = read_csharp (csharp_offset f @ r)"
  using cut_at_append[of 10 "codes ''    [M'' @ a" "csharp_offset f @ r"] by (simp add: read_csharp_def newline_def)

section \<open>Members\<close>

definition good_field :: "field_info \<Rightarrow> bool" where
  "good_field f = (plain_name (fi_name f)
     \<and> (case fi_kind f of PointerField (Some t) \<Rightarrow> plain_name t | ClassInstanceField t \<Rightarrow> plain_name t | _ \<Rightarrow> True))"

lemma prim_tags_kinds: "map_of prim_tags tag = Some k \<Longrightarrow> (\<exists>q. k = Primitive q) \<or> (\<exists>n. k = RawBytes n)"
proof -
  assume "map_of prim_tags tag = Some k"
  then have "(tag, k) \<in> set prim_tags" by (rule map_of_SomeD)
  then show ?thesis by (auto simp: prim_tags_def)
qed

lemma kind_names:
  assumes "fst (field_kind_of U uni p d k) = kind"
  shows "case kind of PointerField (Some t) \<Rightarrow> plain_name t | ClassInstanceField t \<Rightarrow> plain_name t | _ \<Rightarrow> True"
proof (cases "map_of prim_tags (nd_type_tag d)")
  case (Some k')
  then show ?thesis using assms prim_tags_kinds[OF Some] by (auto simp: field_kind_of_def)
next
  case None
  then show ?thesis
    using assms by (auto simp: field_kind_of_def Let_def sanitized_plain split: option.splits if_splits prod.splits)
qed

lemma fields_loop_good: "f \<in> set (fields_loop U uni p off ns) \<Longrightarrow> good_field f"
proof (induction ns arbitrary: off)
  case (Cons n ns)
  obtain kind comment where k: "field_kind_of U uni p (to_node_def U n) (resolved_node_size U p {} n) = (kind, comment)" by fastforce
  then have "case kind of PointerField (Some t) \<Rightarrow> plain_name t | ClassInstanceField t \<Rightarrow> plain_name t | _ \<Rightarrow> True"
    using kind_names[of U uni p "to_node_def U n" "resolved_node_size U p {} n" kind] by simp
  then show ?case using Cons k by (auto simp: Let_def good_field_def sanitized_plain)
qed simp

lemma resolve_fields_good: "f \<in> set (resolve_fields U uni p cl) \<Longrightarrow> good_field f"
  using fields_loop_good by (auto simp: resolve_fields_def)

text \<open>The declared type and dimensions of every kind of field.\<close>

fun cpp_declared :: "field_kind \<Rightarrow> utext \<times> nat list" where
  "cpp_declared (Primitive q) = (codes (cpp_prim_type q), [])"
| "cpp_declared (RawBytes n) = (codes ''uint8_t'', [n])"
| "cpp_declared (PointerField (Some t)) = (t @ codes ''*'', [])"
| "cpp_declared (PointerField None) = (codes ''void*'', [])"
| "cpp_declared (ClassInstanceField t) = (t, [])"
| "cpp_declared (ArrayField n) = (codes ''uint8_t'', [n])"
| "cpp_declared (Utf8TextField n) = (codes ''char'', [n])"
| "cpp_declared (Utf16TextField n) = (codes ''wchar_t'', [div_ceil_2 n])"
| "cpp_declared (VectorField k w) = (codes (c_ty w), [k])"
| "cpp_declared (MatrixField r k w) = (codes (c_ty w), [r, k])"

fun rust_declared :: "field_kind \<Rightarrow> utext" where
  "rust_declared (Primitive q) = codes (rust_prim_type q)"
| "rust_declared (RawBytes n) = rust_array (codes ''u8'') n"
| "rust_declared (PointerField (Some t)) = codes ''*mut '' @ t"
| "rust_declared (PointerField None) = codes ''usize''"
| "rust_declared (ClassInstanceField t) = t"
| "rust_declared (ArrayField n) = rust_array (codes ''u8'') n"
| "rust_declared (Utf8TextField n) = rust_array (codes ''u8'') n"
| "rust_declared (Utf16TextField n) = rust_array (codes ''u16'') (div_ceil_2 n)"
| "rust_declared (VectorField k w) = rust_array (codes (rust_ty w)) k"
| "rust_declared (MatrixField r k w) = rust_array (rust_array (codes (rust_ty w)) k) r"

lemma kind_cases [case_names Primitive RawBytes PointerSome PointerNone ClassInstance Array Utf8 Utf16 Vector Matrix]:
  obtains q where "k = Primitive q" | n where "k = RawBytes n" | t where "k = PointerField (Some t)" | "k = PointerField None"
    | t where "k = ClassInstanceField t" | n where "k = ArrayField n" | n where "k = Utf8TextField n"
    | n where "k = Utf16TextField n" | c w where "k = VectorField c w" | r c w where "k = MatrixField r c w"
proof (cases k)
  case (PointerField t)
  then show ?thesis using that by (cases t) auto
qed (use that in blast)+

lemma cpp_member_line: "cpp_member f = cpp_line f (fst (cpp_declared (fi_kind f))) (snd (cpp_declared (fi_kind f)))"
  by (cases "fi_kind f" rule: kind_cases) (simp_all add: cpp_member_def)

lemma rust_member_line: "rust_member f = rust_line f (rust_declared (fi_kind f))"
  by (cases "fi_kind f" rule: kind_cases) (simp_all add: rust_member_def)

lemma prim_type_chars:
  "c \<in> set (codes (cpp_prim_type q)) \<Longrightarrow> c \<noteq> 32" "c \<in> set (codes (rust_prim_type q)) \<Longrightarrow> c \<notin> {44, 59}"
  "c \<in> set (codes (csharp_prim_type q)) \<Longrightarrow> c \<notin> {10, 59}"
  by (cases q; auto)+

lemma cpp_declared_type: "good_field f \<Longrightarrow> 32 \<notin> set (fst (cpp_declared (fi_kind f)))"
  by (cases "fi_kind f" rule: kind_cases)
    (use prim_type_chars in \<open>auto simp: good_field_def plain_name_def c_ty_def split: float_width.splits\<close>)

lemma rust_array_chars: "44 \<notin> set ty \<Longrightarrow> 44 \<notin> set (rust_array ty n)"
  using format_dec_chars[of 44 n] by (auto simp: rust_array_def)

lemma rust_declared_type: "good_field f \<Longrightarrow> 44 \<notin> set (rust_declared (fi_kind f))"
  by (cases "fi_kind f" rule: kind_cases)
    (use prim_type_chars in \<open>auto simp: good_field_def plain_name_def rust_ty_def split: float_width.splits intro!: rust_array_chars\<close>)

lemma read_cpp_member:
  "good_field f \<Longrightarrow> read_cpp (cpp_member f) = \<lparr>dc_type = fst (cpp_declared (fi_kind f)), dc_name = fi_name f,
     dc_dims = map Some (snd (cpp_declared (fi_kind f))), dc_offset = Some (fi_offset f)\<rparr>"
  unfolding cpp_member_line by (rule read_cpp_line[OF cpp_declared_type]) (auto simp: good_field_def)

lemma read_rust_member:
  "good_field f \<Longrightarrow> read_rust (rust_member f) = \<lparr>dc_type = rust_declared (fi_kind f), dc_name = fi_name f, dc_dims = [],
     dc_offset = Some (fi_offset f)\<rparr>"
  unfolding rust_member_line by (rule read_rust_line[OF rust_declared_type]) (auto simp: good_field_def)

lemma csharp_no_marshal: "take 6 (csharp_offset f @ r) \<noteq> codes ''    [M''"
  by (simp add: csharp_offset_def)

lemma read_csharp_member:
  assumes "good_field f"
  shows "dc_name (read_csharp (csharp_member f)) = fi_name f \<and> dc_offset (read_csharp (csharp_member f)) = Some (fi_offset f)"
proof -
  have n: "plain_name (fi_name f)" using assms by (simp add: good_field_def)
  note line = read_csharp_line[OF _ _ n]
  show ?thesis
  proof (cases "fi_kind f" rule: kind_cases)
    case (Primitive q)
    have "10 \<notin> set (codes ''readonly '' @ codes (csharp_prim_type q))" "59 \<notin> set (codes ''readonly '' @ codes (csharp_prim_type q))"
      using prim_type_chars(3) by auto
    then show ?thesis using line by (simp only: csharp_member_def Primitive field_kind.case append_assoc) simp
  next
    case (ClassInstance t)
    then have "10 \<notin> set t" "59 \<notin> set t" using assms by (auto simp: good_field_def plain_name_def)
    then show ?thesis using line by (simp add: csharp_member_def ClassInstance)
  next
    case (Utf8 n')
    have "10 \<notin> set (codes ''arshalAs(UnmanagedType.ByValTStr, SizeConst = '' @ codes (format_dec n') @ codes '')]'')"
      using format_dec_chars[of 10 n'] by auto
    from read_csharp_marshal[OF this csharp_no_marshal] show ?thesis
      using line[of "codes ''readonly string''"] by (simp add: csharp_member_def Utf8)
  next
    case (Vector c w)
    have "10 \<notin> set (codes ''unsafe fixed '' @ codes (csharp_float_type w))" "59 \<notin> set (codes ''unsafe fixed '' @ codes (csharp_float_type w))"
      by (cases w; simp add: csharp_float_type_def)+
    then show ?thesis using line by (simp only: csharp_member_def Vector field_kind.case append_assoc) simp
  next
    case (Matrix r c w)
    have "10 \<notin> set (codes ''unsafe fixed '' @ codes (csharp_float_type w))" "59 \<notin> set (codes ''unsafe fixed '' @ codes (csharp_float_type w))"
      by (cases w; simp add: csharp_float_type_def)+
    then show ?thesis using line by (simp only: csharp_member_def Matrix field_kind.case append_assoc) simp
  qed (use line in \<open>simp_all add: csharp_member_def\<close>)
qed

section \<open>Sizes a compiler computes\<close>

definition cpp_builtin :: "(utext \<times> nat) list" where
  "cpp_builtin = map (\<lambda>(t, n). (codes t, n))
    [(''int8_t'', 1), (''int16_t'', 2), (''int32_t'', 4), (''int64_t'', 8), (''uint8_t'', 1), (''uint16_t'', 2),
     (''uint32_t'', 4), (''uint64_t'', 8), (''float'', 4), (''double'', 8), (''bool'', 1), (''char'', 1), (''wchar_t'', 2)]"

text \<open>\<open>sizeof\<close> on a 64-bit target with two-byte wide characters; \<open>env\<close> has the generated classes.\<close>

definition cpp_sizeof :: "(utext \<Rightarrow> nat) \<Rightarrow> utext \<Rightarrow> nat" where
  "cpp_sizeof env ty =
     (if ty \<noteq> [] \<and> last ty = 42 then 8 else case map_of cpp_builtin ty of Some n \<Rightarrow> n | None \<Rightarrow> env ty)"

definition cpp_member_size :: "(utext \<Rightarrow> nat) \<Rightarrow> member_decl \<Rightarrow> nat" where
  "cpp_member_size env m = cpp_sizeof env (dc_type m) * prod_list (map the (dc_dims m))"

definition rust_builtin :: "(utext \<times> nat) list" where
  "rust_builtin = map (\<lambda>(t, n). (codes t, n))
    [(''i8'', 1), (''i16'', 2), (''i32'', 4), (''i64'', 8), (''u8'', 1), (''u16'', 2), (''u32'', 4), (''u64'', 8),
     (''f32'', 4), (''f64'', 8), (''bool'', 1), (''usize'', 8)]"

text \<open>Size and alignment of a Rust type: of an array, \<open>n\<close> times that of its elements and their alignment.\<close>

definition split_array :: "utext \<Rightarrow> utext \<times> nat" where
  "split_array ty =
     (let body = rev (butlast (tl ty)); (count, elem) = cut_at 59 body
      in (rev elem, the (digits_value 10 (drop 1 (rev count)) 0)))"

function rust_layout :: "(utext \<Rightarrow> nat \<times> nat) \<Rightarrow> utext \<Rightarrow> nat \<times> nat" where
  "rust_layout env ty =
     (if ty \<noteq> [] \<and> hd ty = 91 then
        (let (elem, n) = split_array ty; (sz, al) = rust_layout env elem in (n * sz, al))
      else if ty \<noteq> [] \<and> hd ty = 42 then (8, 8)
      else case map_of rust_builtin ty of Some n \<Rightarrow> (n, n) | None \<Rightarrow> env ty)"
  by pat_completeness auto

lemma split_array_length: "ty \<noteq> [] \<Longrightarrow> length (fst (split_array ty)) < length ty"
  using cut_at_length[of 59 "rev (butlast (tl ty))"]
  by (cases ty) (auto simp: split_array_def Let_def split: prod.splits)

termination rust_layout
proof (relation "measure (\<lambda>(_, ty). length ty)", goal_cases)
  case (2 env ty x elem n)
  then show ?case using split_array_length[of ty] by (metis case_prod_conv fst_conv in_measure)
qed simp

declare rust_layout.simps [simp del]

lemma split_array_rust: "split_array (rust_array ty n) = (ty, n)"
proof -
  have "59 \<notin> set (rev (codes '' '' @ codes (format_dec n)))" using format_dec_chars[of 59 n] by auto
  from cut_at_append[OF this, of "rev ty"]
  have "cut_at 59 (rev (ty @ codes ''; '' @ codes (format_dec n))) = (rev (codes '' '' @ codes (format_dec n)), rev ty)" by simp
  moreover have "butlast (tl (rust_array ty n)) = ty @ codes ''; '' @ codes (format_dec n)"
    by (simp add: rust_array_def butlast_append)
  ultimately show ?thesis by (simp add: split_array_def digits_value_format)
qed

lemma rust_layout_array: "rust_layout env (rust_array ty n) = (n * fst (rust_layout env ty), snd (rust_layout env ty))"
  by (subst rust_layout.simps) (simp add: split_array_rust, simp add: rust_array_def split_beta)

lemma prim_sizes:
  "cpp_sizeof env (codes (cpp_prim_type q)) = prim_width q"
  "rust_layout env' (codes (rust_prim_type q)) = (prim_width q, prim_width q)"
  by (cases q; simp add: cpp_sizeof_def cpp_builtin_def rust_layout.simps rust_builtin_def)+

lemma basic_sizes:
  "cpp_sizeof env (codes ''uint8_t'') = 1" "cpp_sizeof env (codes ''void*'') = 8" "cpp_sizeof env (codes ''char'') = 1"
  "cpp_sizeof env (codes ''wchar_t'') = 2" "cpp_sizeof env (codes (c_ty w)) = FloatWidth_size w" "cpp_sizeof env (t @ codes ''*'') = 8"
  "rust_layout env' (codes ''u8'') = (1, 1)" "rust_layout env' (codes ''u16'') = (2, 2)" "rust_layout env' (codes ''usize'') = (8, 8)"
  "rust_layout env' (codes (rust_ty w)) = (FloatWidth_size w, FloatWidth_size w)" "rust_layout env' (codes ''*mut '' @ t) = (8, 8)"
  by (cases w; simp add: cpp_sizeof_def cpp_builtin_def rust_layout.simps rust_builtin_def c_ty_def rust_ty_def FloatWidth_size_def)+

text \<open>What the sizes of the members rest on: known class sizes, and UTF-16 buffers of whole units.\<close>

definition sized_kind :: "(utext \<times> nat) list \<Rightarrow> (utext \<Rightarrow> nat) \<Rightarrow> field_kind \<Rightarrow> nat \<Rightarrow> bool" where
  "sized_kind builtin env k inst =
     (case k of ClassInstanceField t \<Rightarrow> map_of builtin t = None \<and> env t = inst | Utf16TextField n \<Rightarrow> even n | _ \<Rightarrow> True)"

lemma div_ceil_even: "even n \<Longrightarrow> div_ceil_2 n * 2 = n"
  by (auto simp: div_ceil_2_def elim: evenE)

lemma cpp_member_width:
  assumes "good_field f" "sized_kind cpp_builtin env (fi_kind f) inst"
  shows "cpp_member_size env (read_cpp (cpp_member f)) = field_width (fi_kind f) inst"
proof (cases "fi_kind f" rule: kind_cases)
  case (ClassInstance t)
  then have "last t \<noteq> 42" using assms(1) last_in_set[of t] by (auto simp: good_field_def plain_name_def)
  then show ?thesis
    using assms by (simp add: read_cpp_member cpp_member_size_def ClassInstance cpp_sizeof_def sized_kind_def)
next
  case (Utf16 n)
  then show ?thesis
    using assms div_ceil_even[of n] by (simp add: read_cpp_member cpp_member_size_def basic_sizes sized_kind_def mult.commute del: codes_simps)
qed (use assms(1) in \<open>simp_all add: read_cpp_member cpp_member_size_def basic_sizes prim_sizes mult.commute del: codes_simps\<close>)

lemma rust_member_width:
  assumes "good_field f" "sized_kind rust_builtin (fst \<circ> env) (fi_kind f) inst"
  shows "fst (rust_layout env (dc_type (read_rust (rust_member f)))) = field_width (fi_kind f) inst"
proof (cases "fi_kind f" rule: kind_cases)
  case (ClassInstance t)
  then have "hd t \<noteq> 42" "hd t \<noteq> 91" using assms(1) hd_in_set[of t] by (auto simp: good_field_def plain_name_def)
  then show ?thesis
    using assms by (subst rust_layout.simps) (auto simp: read_rust_member ClassInstance sized_kind_def)
next
  case (Utf16 n)
  then show ?thesis
    using assms div_ceil_even[of n] by (simp add: read_rust_member basic_sizes rust_layout_array sized_kind_def del: codes_simps)
qed (use assms(1) in \<open>simp_all add: read_rust_member rust_layout_array basic_sizes prim_sizes mult.commute del: codes_simps\<close>)

section \<open>Classes\<close>

text \<open>
  The sizes of the classes a class embeds are known under their generated names, which are none of the built-in types;
  its UTF-16 buffers hold whole units.
\<close>

definition known_classes ::
    "uuid_lib \<Rightarrow> (nat \<Rightarrow> bool) \<Rightarrow> project \<Rightarrow> (utext \<times> nat) list \<Rightarrow> (utext \<Rightarrow> nat) \<Rightarrow> class_node \<Rightarrow> bool" where
  "known_classes U uni p builtin env cl \<longleftrightarrow>
     (\<forall>a b v t. ClassInstanceNode a b v \<in> set (cl_children cl) \<longrightarrow> get_class p v = Some t \<longrightarrow>
        map_of builtin (sanitize_ident uni (cl_name t)) = None
        \<and> env (sanitize_ident uni (cl_name t)) = resolved_class_size U p {} t)"

definition whole_units :: "class_node \<Rightarrow> bool" where
  "whole_units cl \<longleftrightarrow> (\<forall>a b n. Utf16TextNode a b n \<in> set (cl_children cl) \<longrightarrow> even n)"

lemma resolved_size_self:
  assumes "uuid_laws U" "acyclic (embeds p)" "get_class p v = Some t"
  shows "resolved_class_size U p {v} t = resolved_class_size U p {} t"
proof -
  have "unreachable p {v} {}" "unreachable p (embedded (cl_children t)) {}" by (simp_all add: unreachable_def)
  with unreachable_step[OF assms(2) this(1) assms(3)] show ?thesis
    by (intro resolved_size_unreachable(1)[OF assms(1,2)])
qed

lemma instance_kind:
  assumes "uuid_laws U" "fst (field_kind_of U uni p (to_node_def U n) k) = ClassInstanceField t"
  shows "\<exists>a b v c. n = ClassInstanceNode a b v \<and> get_class p v = Some c \<and> t = sanitize_ident uni (cl_name c)"
proof (cases "type_tag n = ''ClassInstance''")
  case True
  then obtain a b v where n: "n = ClassInstanceNode a b v" by (auto simp: type_tag_instance)
  then show ?thesis
    using assms(2) instance_target_instance[OF assms(1), of a b v]
    by (auto simp: field_kind_of_def Let_def prim_tags_other split: option.splits)
next
  case False
  have "map_of prim_tags (type_tag n) \<noteq> Some (ClassInstanceField t)" using prim_tags_kinds by fastforce
  then show ?thesis
    using assms(2) False by (auto simp: field_kind_of_def Let_def split: option.splits if_splits prod.splits)
qed

lemma utf16_kind:
  assumes "node_fields_wf n" "fst (field_kind_of U uni p (to_node_def U n) k) = Utf16TextField m"
  shows "\<exists>a b. n = Utf16TextNode a b m"
proof (cases n)
  case (Utf16TextNode a b m')
  then show ?thesis using assms by (simp add: node_fields_wf_def field_kind_of_def Let_def prim_tags_other attr_usize_def)
next
  case (VectorNode a b c w)
  then show ?thesis using assms shape_tag_okD[OF vector_tag_ok[of c w]]
    by (auto simp: field_kind_of_def Let_def split: option.splits if_splits prod.splits)
next
  case (MatrixNode a b r c w)
  then show ?thesis using assms shape_tag_okD[OF matrix_tag_ok(1)[of r c w]]
    by (auto simp: field_kind_of_def Let_def split: option.splits if_splits prod.splits)
next
  case (SimpleNode sk a b)
  then show ?thesis using assms by (cases sk) (simp_all add: field_kind_of_def simple_def_def prim_tags_def no_shape)
qed (use assms in \<open>auto simp: field_kind_of_def Let_def prim_tags_other no_shape split: option.splits if_splits prod.splits\<close>)

lemma field_sized:
  assumes "uuid_laws U" "acyclic (embeds p)" "known_classes U uni p builtin env cl" "whole_units cl"
    "n \<in> set (cl_children cl)" "node_wf n"
  shows "sized_kind builtin env (fst (field_kind_of U uni p (to_node_def U n) k)) (instance_size U p n)"
proof (cases "fst (field_kind_of U uni p (to_node_def U n) k)" rule: kind_cases)
  case (ClassInstance t)
  from instance_kind[OF assms(1) this] obtain a b v c
    where n: "n = ClassInstanceNode a b v" and c: "get_class p v = Some c" "t = sanitize_ident uni (cl_name c)" by blast
  then have "map_of builtin t = None" "env t = resolved_class_size U p {} c"
    using assms(3,5) by (auto simp: known_classes_def)
  moreover have "instance_size U p n = resolved_class_size U p {} c"
    using resolved_size_self[OF assms(1,2) c(1)] by (simp add: instance_size_def n c)
  ultimately show ?thesis unfolding ClassInstance sized_kind_def by simp
next
  case (Utf16 m)
  from utf16_kind[OF node_wf_fields[OF assms(6)] this] obtain a b where "n = Utf16TextNode a b m" by blast
  then have "even m" using assms(4,5) by (auto simp: whole_units_def)
  then show ?thesis unfolding Utf16 sized_kind_def by simp
qed (simp_all add: sized_kind_def)

text \<open>What a field is worth: the size its node contributes.\<close>

lemma field_at:
  fixes uni :: "nat \<Rightarrow> bool" and p :: project
  assumes "uuid_laws U" "\<And>n. n \<in> set (cl_children cl) \<Longrightarrow> node_wf n" "i < length (cl_children cl)"
  defines "f \<equiv> resolve_fields U uni p cl ! i" and "n \<equiv> cl_children cl ! i"
  shows "good_field f" "fi_kind f = fst (field_kind_of U uni p (to_node_def U n) (resolved_node_size U p {} n))"
    "field_width (fi_kind f) (instance_size U p n) = resolved_node_size U p {} n"
    "fi_offset f = min (\<Sum>m\<leftarrow>take i (cl_children cl). resolved_node_size U p {} m) USIZE_MAX"
proof -
  have "f \<in> set (resolve_fields U uni p cl)" using assms(3) by (simp add: f_def resolve_fields_def)
  then show "good_field f" by (rule resolve_fields_good)
  show k: "fi_kind f = fst (field_kind_of U uni p (to_node_def U n) (resolved_node_size U p {} n))"
    "fi_offset f = min (\<Sum>m\<leftarrow>take i (cl_children cl). resolved_node_size U p {} m) USIZE_MAX"
    using fields_loop_nth[OF assms(3), of 0 U uni p] by (simp_all add: f_def n_def resolve_fields_def)
  have "node_wf n" using assms(2,3) by (simp add: n_def)
  then show "field_width (fi_kind f) (instance_size U p n) = resolved_node_size U p {} n"
    using field_width_correct[OF assms(1)] node_wf_fields by (simp add: k)
qed

lemma resolved_class_size_sum:
  "resolved_class_size U p {} cl < USIZE_MAX \<Longrightarrow> resolved_class_size U p {} cl = (\<Sum>n\<leftarrow>cl_children cl. resolved_node_size U p {} n)"
  by (simp add: resolved_class_size.simps[of U p] foldl_saturating_add min_def split: if_splits)

lemma resolve_fields_length [simp]: "length (resolve_fields U uni p cl) = length (cl_children cl)"
  by (simp add: resolve_fields_def)

section \<open>An example\<close>

text \<open>The class of the example project: an \<open>Int32\<close> followed by an inline instance of a class of eight bytes.\<close>

definition outer_class :: class_node where
  "outer_class = ClassNode 1 [65] [] [] [SimpleNode Int32Node [66] [], ClassInstanceNode [67] [] 2]"

lemma inner_size: "resolved_class_size hex_uuid example_project V (ClassNode 2 [68] [] [] [SimpleNode Int64Node [69] []]) = 8"
  by (subst resolved_class_size.simps)
    (simp add: resolved_node_size_other saturating_add_def small_le_USIZE_MAX min_absorb1)

lemma outer_size: "resolved_class_size hex_uuid example_project {} outer_class = 12"
  by (subst resolved_class_size.simps)
    (simp add: outer_class_def resolved_node_size_other resolved_node_size_instance[OF hex_uuid_laws] example_get_class
      inner_size saturating_add_def small_le_USIZE_MAX min_absorb1)

lemma outer_wf: "n \<in> set (cl_children outer_class) \<Longrightarrow> node_wf n"
  using node_wf_iff[of n] by (auto simp: outer_class_def node_fields_wf_def)

lemma outer_name: "sanitize_ident (\<lambda>_. False) [68] = [68]"
  by (simp add: sanitize_ident_def is_alphanumeric_def is_ascii_digit_def)

lemma outer_known:
  "known_classes hex_uuid (\<lambda>_. False) example_project cpp_builtin (\<lambda>_. 8) outer_class"
  "known_classes hex_uuid (\<lambda>_. False) example_project rust_builtin (fst \<circ> (\<lambda>_. (8, 8))) outer_class"
  by (auto simp: known_classes_def outer_class_def example_get_class outer_name inner_size cpp_builtin_def rust_builtin_def
      split: if_splits)

lemma outer_whole: "whole_units outer_class"
  by (simp add: whole_units_def outer_class_def)

lemma outer_small: "resolved_class_size hex_uuid example_project {} outer_class < USIZE_MAX"
  by (simp add: outer_size USIZE_MAX_def)

lemma outer_fields:
  "map fi_kind (resolve_fields hex_uuid (\<lambda>_. False) example_project outer_class) = [Primitive PInt32, ClassInstanceField [68]]"
  "map fi_offset (resolve_fields hex_uuid (\<lambda>_. False) example_project outer_class) = [0, 4]"
  using instance_target_instance[OF hex_uuid_laws, of "[67]" "[]" 2]
  by (simp_all add: outer_class_def resolve_fields_def Let_def field_kind_of_def simple_def_def prim_tags_def example_get_class
      outer_name resolved_node_size_other saturating_add_def small_le_USIZE_MAX min_absorb1)

section \<open>Properties\<close>

text \<open>
  The three generators say the same about every field: the member each of them writes reads back to the field's
  name and offset, whatever its type and whatever its comment contains.
\<close>

theorem generated_members_agree:
  assumes "f \<in> set (resolve_fields U uni p cl)"
  shows "dc_name (read_cpp (cpp_member f)) = fi_name f \<and> dc_offset (read_cpp (cpp_member f)) = Some (fi_offset f)
    \<and> dc_name (read_csharp (csharp_member f)) = fi_name f \<and> dc_offset (read_csharp (csharp_member f)) = Some (fi_offset f)
    \<and> dc_name (read_rust (rust_member f)) = fi_name f \<and> dc_offset (read_rust (rust_member f)) = Some (fi_offset f)"
  using resolve_fields_good[OF assms] by (simp add: read_cpp_member read_rust_member read_csharp_member)

theorem generated_members_agree_witness:
  "map (\<lambda>f. dc_offset (read_csharp (csharp_member f))) (resolve_fields hex_uuid (\<lambda>_. False) example_project outer_class)
    = [Some 0, Some 4]"
proof -
  have "map (\<lambda>f. dc_offset (read_csharp (csharp_member f))) (resolve_fields hex_uuid (\<lambda>_. False) example_project outer_class)
    = map Some (map fi_offset (resolve_fields hex_uuid (\<lambda>_. False) example_project outer_class))"
    using generated_members_agree[of _ hex_uuid "\<lambda>_. False" example_project outer_class] by simp
  then show ?thesis by (simp add: outer_fields)
qed



text \<open>
  C28. The size assertion of a generated Rust struct holds exactly when the packed layout happens to be aligned: the
  struct is declared \<open>repr(C)\<close> without \<open>packed\<close>, so the compiler moves every field that does not start at a multiple of
  its alignment, and the assertion fails for any class in which one does not.
\<close>

definition rust_fields :: "(utext \<Rightarrow> nat \<times> nat) \<Rightarrow> field_info list \<Rightarrow> (nat \<times> nat) list" where
  "rust_fields env fs = map (\<lambda>f. rust_layout env (dc_type (read_rust (rust_member f)))) fs"


lemma outer_rust_fields:
  "rust_fields (\<lambda>_. (8, 8)) (resolve_fields hex_uuid (\<lambda>_. False) example_project outer_class) = [(4, 4), (8, 8)]"
proof -
  let ?fs = "resolve_fields hex_uuid (\<lambda>_. False) example_project outer_class"
  have "rust_layout (\<lambda>_. (8, 8)) (dc_type (read_rust (rust_member f))) = rust_layout (\<lambda>_. (8, 8)) (rust_declared (fi_kind f))"
    if "f \<in> set ?fs" for f
    using resolve_fields_good[OF that] by (simp add: read_rust_member)
  then have "rust_fields (\<lambda>_. (8, 8)) ?fs = map (rust_layout (\<lambda>_. (8, 8)) \<circ> rust_declared) (map fi_kind ?fs)"
    by (simp add: rust_fields_def)
  then show ?thesis by (simp only: outer_fields) (simp add: rust_layout.simps rust_builtin_def)
qed


end
