(* ===== verification/Symbols.thy ===== *)
theory Symbols
  imports Process_Memory
begin

text \<open>
  Exported symbols of a mapped module (nemclass-core/src/internal/process/symbols.rs): the PE export directory and the
  ELF dynamic symbol table, walked in memory through a reader, and the lookup by name.

  A reader returns the bytes that arrived, so that their number is the count the code checks. A \<open>String\<close> is the
  list of its UTF-8 bytes. The question mark of the code is \<open>and_then\<close>.
\<close>

section \<open>Results in sequence\<close>

definition and_then :: "'e + 'a \<Rightarrow> ('a \<Rightarrow> 'e + 'b) \<Rightarrow> 'e + 'b" where
  "and_then r f = (case r of Inl e \<Rightarrow> Inl e | Inr v \<Rightarrow> f v)"

lemma and_then_simps [simp]: "and_then (Inr v) f = f v" "and_then (Inl e) f = Inl e"
  by (simp_all add: and_then_def)

lemma and_then_Inr: "and_then r f = Inr w \<longleftrightarrow> (\<exists>v. r = Inr v \<and> f v = Inr w)"
  by (cases r) simp_all

lemma and_then_cong [fundef_cong]:
  "r = r' \<Longrightarrow> (\<And>v. r' = Inr v \<Longrightarrow> f v = g v) \<Longrightarrow> and_then r f = and_then r' g"
  by (cases r') simp_all

section \<open>Reading fields\<close>

record symbol =
  sy_name :: bytes
  sy_address :: usize

type_synonym symbol_reader = "usize \<Rightarrow> nat \<Rightarrow> core_error + bytes"

definition add :: "usize \<Rightarrow> usize \<Rightarrow> core_error + usize" where
  "add base offset = (case checked_add base offset of None \<Rightarrow> Inl InvalidAddress | Some a \<Rightarrow> Inr a)"

definition read_exact :: "symbol_reader \<Rightarrow> usize \<Rightarrow> nat \<Rightarrow> core_error + bytes" where
  "read_exact read addr len =
     and_then (read addr len) (\<lambda>bs. if length bs \<noteq> len then Inl (PartialTransfer len (length bs)) else Inr bs)"

definition read_u16 :: "symbol_reader \<Rightarrow> usize \<Rightarrow> core_error + nat" where
  "read_u16 read addr = and_then (read_exact read addr 2) (\<lambda>b. Inr (le_nat b))"

definition read_u32 :: "symbol_reader \<Rightarrow> usize \<Rightarrow> core_error + nat" where
  "read_u32 read addr = and_then (read_exact read addr 4) (\<lambda>b. Inr (le_nat b))"

definition read_u64 :: "symbol_reader \<Rightarrow> usize \<Rightarrow> core_error + nat" where
  "read_u64 read addr = and_then (read_exact read addr 8) (\<lambda>b. Inr (le_nat b))"

text \<open>\<open>String::from_utf8\<close>: the bytes are kept when they are well-formed UTF-8 (table 3-7 of the Unicode standard).\<close>

definition continuation :: "u8 \<Rightarrow> bool" where
  "continuation b \<longleftrightarrow> 0x80 \<le> b \<and> b \<le> 0xBF"

fun valid_utf8 :: "bytes \<Rightarrow> bool" where
  "valid_utf8 [] = True"
| "valid_utf8 (b # bs) =
     (if b < 0x80 then valid_utf8 bs
      else if 0xC2 \<le> b \<and> b \<le> 0xDF then
        (case bs of c # r \<Rightarrow> continuation c \<and> valid_utf8 r | [] \<Rightarrow> False)
      else if 0xE0 \<le> b \<and> b \<le> 0xEF then
        (case bs of
           c # d # r \<Rightarrow> continuation c \<and> (b = 0xE0 \<longrightarrow> 0xA0 \<le> c) \<and> (b = 0xED \<longrightarrow> c \<le> 0x9F) \<and> continuation d \<and> valid_utf8 r
         | _ \<Rightarrow> False)
      else if 0xF0 \<le> b \<and> b \<le> 0xF4 then
        (case bs of
           c # d # e # r \<Rightarrow> continuation c \<and> (b = 0xF0 \<longrightarrow> 0x90 \<le> c) \<and> (b = 0xF4 \<longrightarrow> c \<le> 0x8F)
             \<and> continuation d \<and> continuation e \<and> valid_utf8 r
         | _ \<Rightarrow> False)
      else False)"

definition from_utf8 :: "bytes \<Rightarrow> core_error + bytes" where
  "from_utf8 bs = (if valid_utf8 bs then Inr bs else Inl InvalidString)"

definition MAX_NAME :: nat where "MAX_NAME = 4096"
definition NAME_CHUNK :: nat where "NAME_CHUNK = 64"

function cstr_loop :: "symbol_reader \<Rightarrow> usize \<Rightarrow> nat \<Rightarrow> bytes \<Rightarrow> core_error + bytes" where
  "cstr_loop read addr offset out =
     (if length out < MAX_NAME then
        let want = min NAME_CHUNK (MAX_NAME - length out)
        in and_then (add addr offset) (\<lambda>start. and_then (read start want) (\<lambda>got.
             if got = [] then from_utf8 out
             else if 0 \<in> set got then from_utf8 (out @ takeWhile (\<lambda>b. b \<noteq> 0) got)
             else cstr_loop read addr (offset + length got) (out @ got)))
      else from_utf8 out)"
  by pat_completeness auto
termination
proof (relation "measure (\<lambda>(_, _, _, out). MAX_NAME - length out)", goal_cases)
  case (2 read addr offset out want start got)
  then have "0 < length got" by simp
  with 2(1) show ?case by (simp add: diff_less_mono2)
qed simp

declare cstr_loop.simps [simp del]

definition read_cstr :: "symbol_reader \<Rightarrow> usize \<Rightarrow> core_error + bytes" where
  "read_cstr read addr = cstr_loop read addr 0 []"

section \<open>PE exports\<close>

definition IMAGE_DIRECTORY_ENTRY_EXPORT :: nat where "IMAGE_DIRECTORY_ENTRY_EXPORT = 0"
definition DATA_DIRECTORY_OFFSET_PE32 :: nat where "DATA_DIRECTORY_OFFSET_PE32 = 96"
definition DATA_DIRECTORY_OFFSET_PE64 :: nat where "DATA_DIRECTORY_OFFSET_PE64 = 112"

record export_directory =
  ed_base :: usize
  ed_rva :: usize
  ed_end :: usize
  ed_number_of_functions :: nat
  ed_functions :: usize
  ed_names :: usize
  ed_ordinals :: usize

text \<open>One turn of the loop over the names: \<open>None\<close> is a \<open>continue\<close>.\<close>

definition export_entry :: "symbol_reader \<Rightarrow> export_directory \<Rightarrow> nat \<Rightarrow> core_error + symbol option" where
  "export_entry read d i =
     and_then (add (ed_names d) (i * 4)) (\<lambda>a. and_then (read_u32 read a) (\<lambda>name_rva.
     and_then (add (ed_base d) name_rva) (\<lambda>a. and_then (read_cstr read a) (\<lambda>name.
     and_then (add (ed_ordinals d) (i * 2)) (\<lambda>a. and_then (read_u16 read a) (\<lambda>ordinal.
       if ordinal \<ge> ed_number_of_functions d then Inl InvalidAddress
       else
         and_then (add (ed_functions d) (ordinal * 4)) (\<lambda>a. and_then (read_u32 read a) (\<lambda>func_rva.
           if func_rva \<ge> ed_rva d \<and> func_rva < ed_end d then Inr None
           else if func_rva = 0 then Inr None
           else and_then (add (ed_base d) func_rva) (\<lambda>a. Inr (Some \<lparr>sy_name = name, sy_address = a\<rparr>))))))))))"

fun export_names :: "symbol_reader \<Rightarrow> export_directory \<Rightarrow> nat \<Rightarrow> nat \<Rightarrow> core_error + symbol list" where
  "export_names read d i 0 = Inr []"
| "export_names read d i (Suc n) =
     and_then (export_entry read d i) (\<lambda>s.
     and_then (export_names read d (i + 1) n) (\<lambda>rest. Inr (case s of None \<Rightarrow> rest | Some y \<Rightarrow> y # rest)))"

definition pe_exports :: "symbol_reader \<Rightarrow> usize \<Rightarrow> core_error + symbol list" where
  "pe_exports read base =
     and_then (read_exact read base 2) (\<lambda>mz.
     if mz \<noteq> [0x4D, 0x5A] then Inl InvalidString else
     and_then (add base 0x3C) (\<lambda>a. and_then (read_u32 read a) (\<lambda>e_lfanew.
     and_then (add base e_lfanew) (\<lambda>nt. and_then (read_exact read nt 4) (\<lambda>pe_sig.
     if pe_sig \<noteq> [0x50, 0x45, 0, 0] then Inl InvalidString else
     and_then (add nt (4 + 20)) (\<lambda>opt. and_then (read_u16 read opt) (\<lambda>magic.
     and_then (if magic = 0x20B then Inr DATA_DIRECTORY_OFFSET_PE64
               else if magic = 0x10B then Inr DATA_DIRECTORY_OFFSET_PE32 else Inl InvalidString) (\<lambda>dd_offset.
     and_then (add opt (dd_offset + IMAGE_DIRECTORY_ENTRY_EXPORT * 8)) (\<lambda>entry. and_then (read_u32 read entry) (\<lambda>export_rva.
     and_then (add entry 4) (\<lambda>a. and_then (read_u32 read a) (\<lambda>export_size.
     if export_rva = 0 \<or> export_size = 0 then Inr [] else
     and_then (add base export_rva) (\<lambda>dir.
     and_then (add dir 0x14) (\<lambda>a. and_then (read_u32 read a) (\<lambda>number_of_functions.
     and_then (add dir 0x18) (\<lambda>a. and_then (read_u32 read a) (\<lambda>number_of_names.
     and_then (add dir 0x1C) (\<lambda>a. and_then (read_u32 read a) (\<lambda>functions_rva.
     and_then (add dir 0x20) (\<lambda>a. and_then (read_u32 read a) (\<lambda>names_rva.
     and_then (add dir 0x24) (\<lambda>a. and_then (read_u32 read a) (\<lambda>ordinals_rva.
     and_then (add base functions_rva) (\<lambda>functions.
     and_then (add base names_rva) (\<lambda>names.
     and_then (add base ordinals_rva) (\<lambda>ordinals.
     and_then (add export_rva export_size) (\<lambda>forwarder_end.
       export_names read \<lparr>ed_base = base, ed_rva = export_rva, ed_end = forwarder_end,
           ed_number_of_functions = number_of_functions, ed_functions = functions, ed_names = names,
           ed_ordinals = ordinals\<rparr> 0 number_of_names)))))))))))))))))))))))))))"

section \<open>ELF exports\<close>

definition PT_DYNAMIC :: nat where "PT_DYNAMIC = 2"
definition DT_NULL :: int where "DT_NULL = 0"
definition DT_HASH :: int where "DT_HASH = 4"
definition DT_STRTAB :: int where "DT_STRTAB = 5"
definition DT_SYMTAB :: int where "DT_SYMTAB = 6"
definition DT_GNU_HASH :: int where "DT_GNU_HASH = 0x6FFFFEF5"
definition STB_GLOBAL :: nat where "STB_GLOBAL = 1"
definition STB_WEAK :: nat where "STB_WEAK = 2"
definition SHN_UNDEF :: nat where "SHN_UNDEF = 0"

lemmas elf_consts = PT_DYNAMIC_def DT_NULL_def DT_HASH_def DT_STRTAB_def DT_SYMTAB_def DT_GNU_HASH_def
  STB_GLOBAL_def STB_WEAK_def SHN_UNDEF_def

text \<open>\<open>as i64\<close> on an unsigned 64-bit value.\<close>

definition u64_as_i64 :: "nat \<Rightarrow> int" where
  "u64_as_i64 n = (if n < 2 ^ 63 then int n else int n - 2 ^ 64)"

text \<open>The loop over the program headers: the address in the first dynamic one of the \<open>n\<close> headers from \<open>i\<close>.\<close>

fun find_dynamic :: "symbol_reader \<Rightarrow> usize \<Rightarrow> usize \<Rightarrow> nat \<Rightarrow> nat \<Rightarrow> core_error + usize option" where
  "find_dynamic read table entsize i 0 = Inr None"
| "find_dynamic read table entsize i (Suc n) =
     and_then (add table (i * entsize)) (\<lambda>ph. and_then (read_u32 read ph) (\<lambda>p_type.
       if p_type = PT_DYNAMIC then and_then (add ph 16) (\<lambda>a. and_then (read_u64 read a) (\<lambda>v. Inr (Some v)))
       else find_dynamic read table entsize (i + 1) n))"

record dynamic_info =
  dy_symtab :: "usize option"
  dy_strtab :: "usize option"
  dy_hash :: "usize option"
  dy_gnu_hash :: "usize option"

definition no_dynamic :: dynamic_info where
  "no_dynamic = \<lparr>dy_symtab = None, dy_strtab = None, dy_hash = None, dy_gnu_hash = None\<rparr>"

definition dynamic_tag :: "int \<Rightarrow> usize \<Rightarrow> dynamic_info \<Rightarrow> dynamic_info" where
  "dynamic_tag tag v d =
     (if tag = DT_SYMTAB then d\<lparr>dy_symtab := Some v\<rparr>
      else if tag = DT_STRTAB then d\<lparr>dy_strtab := Some v\<rparr>
      else if tag = DT_HASH then d\<lparr>dy_hash := Some v\<rparr>
      else if tag = DT_GNU_HASH then d\<lparr>dy_gnu_hash := Some v\<rparr>
      else d)"

text \<open>The loop over the dynamic array, for \<open>n\<close> entries from \<open>i\<close>.\<close>

fun dynamic_loop :: "symbol_reader \<Rightarrow> usize \<Rightarrow> nat \<Rightarrow> nat \<Rightarrow> dynamic_info \<Rightarrow> core_error + dynamic_info" where
  "dynamic_loop read table i 0 d = Inr d"
| "dynamic_loop read table i (Suc n) d =
     and_then (add table (i * 16)) (\<lambda>ent. and_then (read_u64 read ent) (\<lambda>tag.
     and_then (add ent 8) (\<lambda>a. and_then (read_u64 read a) (\<lambda>v.
       if u64_as_i64 tag = DT_NULL then Inr d
       else dynamic_loop read table (i + 1) n (dynamic_tag (u64_as_i64 tag) v d)))))"

text \<open>The largest bucket of the \<open>n\<close> buckets from \<open>i\<close>.\<close>

fun bucket_loop :: "symbol_reader \<Rightarrow> usize \<Rightarrow> nat \<Rightarrow> nat \<Rightarrow> nat \<Rightarrow> core_error + nat" where
  "bucket_loop read buckets i 0 last_symbol = Inr last_symbol"
| "bucket_loop read buckets i (Suc n) last_symbol =
     and_then (add buckets (i * 4)) (\<lambda>a. and_then (read_u32 read a) (\<lambda>bucket.
       bucket_loop read buckets (i + 1) n (max last_symbol bucket)))"

text \<open>The walk along a chain, for at most a million words.\<close>

function chain_loop :: "symbol_reader \<Rightarrow> usize \<Rightarrow> nat \<Rightarrow> nat \<Rightarrow> core_error + nat" where
  "chain_loop read chain_words symoffset last_symbol =
     and_then (add chain_words ((last_symbol - symoffset) * 4)) (\<lambda>a. and_then (read_u32 read a) (\<lambda>word.
       if word mod 2 = 1 then Inr last_symbol
       else if last_symbol + 1 > symoffset + 1000000 then Inr (last_symbol + 1)
       else chain_loop read chain_words symoffset (last_symbol + 1)))"
  by pat_completeness auto
termination by (relation "measure (\<lambda>(_, _, symoffset, last_symbol). symoffset + 1000001 - last_symbol)") auto

declare chain_loop.simps [simp del]

definition gnu_hash_symbol_count :: "symbol_reader \<Rightarrow> usize \<Rightarrow> core_error + nat" where
  "gnu_hash_symbol_count read gnu_hash =
     and_then (read_u32 read gnu_hash) (\<lambda>nbuckets.
     and_then (add gnu_hash 4) (\<lambda>a. and_then (read_u32 read a) (\<lambda>symoffset.
     and_then (add gnu_hash 8) (\<lambda>a. and_then (read_u32 read a) (\<lambda>bloom_size.
     if nbuckets = 0 then Inr symoffset else
     and_then (add gnu_hash (16 + bloom_size * 8)) (\<lambda>buckets.
     and_then (add buckets (nbuckets * 4)) (\<lambda>chain_words.
     and_then (bucket_loop read buckets 0 nbuckets 0) (\<lambda>last_symbol.
     if last_symbol < symoffset then Inr symoffset else
     and_then (chain_loop read chain_words symoffset last_symbol) (\<lambda>last_symbol. Inr (last_symbol + 1))))))))))"

text \<open>One turn of the loop over the symbols: \<open>None\<close> is a \<open>continue\<close>.\<close>

definition elf_symbol :: "symbol_reader \<Rightarrow> usize \<Rightarrow> usize \<Rightarrow> usize \<Rightarrow> nat \<Rightarrow> core_error + symbol option" where
  "elf_symbol read base symtab strtab i =
     and_then (add symtab (i * 24)) (\<lambda>y. and_then (read_u32 read y) (\<lambda>st_name.
     and_then (add y 4) (\<lambda>a. and_then (read_exact read a 1) (\<lambda>b.
     and_then (add y 6) (\<lambda>a. and_then (read_u16 read a) (\<lambda>st_shndx.
     and_then (add y 8) (\<lambda>a. and_then (read_u64 read a) (\<lambda>st_value.
       let bind = unat (drop_bit 4 (b ! 0)); exported = (bind = STB_GLOBAL \<or> bind = STB_WEAK)
       in if \<not> exported \<or> st_shndx = SHN_UNDEF \<or> st_value = 0 \<or> st_name = 0 then Inr None
          else
            and_then (add strtab st_name) (\<lambda>a. and_then (read_cstr read a) (\<lambda>name.
              if name = [] then Inr None
              else and_then (add base st_value) (\<lambda>a. Inr (Some \<lparr>sy_name = name, sy_address = a\<rparr>))))))))))))"

fun elf_symbols :: "symbol_reader \<Rightarrow> usize \<Rightarrow> usize \<Rightarrow> usize \<Rightarrow> nat \<Rightarrow> nat \<Rightarrow> core_error + symbol list" where
  "elf_symbols read base symtab strtab i 0 = Inr []"
| "elf_symbols read base symtab strtab i (Suc n) =
     and_then (elf_symbol read base symtab strtab i) (\<lambda>s.
     and_then (elf_symbols read base symtab strtab (i + 1) n) (\<lambda>rest. Inr (case s of None \<Rightarrow> rest | Some y \<Rightarrow> y # rest)))"

text \<open>The number of entries of the symbol table; \<open>None\<close> when there is no hash table to bound it.\<close>

definition symbol_count :: "symbol_reader \<Rightarrow> usize \<Rightarrow> dynamic_info \<Rightarrow> core_error + nat option" where
  "symbol_count read base d =
     (case dy_hash d of
        Some hash \<Rightarrow> and_then (add base (wrapping_add hash 4)) (\<lambda>a. and_then (read_u32 read a) (\<lambda>n. Inr (Some n)))
      | None \<Rightarrow>
          (case dy_gnu_hash d of
             Some gnu_hash \<Rightarrow> and_then (add base gnu_hash) (\<lambda>a. and_then (gnu_hash_symbol_count read a) (\<lambda>n. Inr (Some n)))
           | None \<Rightarrow> Inr None))"

definition elf_exports :: "symbol_reader \<Rightarrow> usize \<Rightarrow> core_error + symbol list" where
  "elf_exports read base =
     and_then (read_exact read base 16) (\<lambda>ident.
     if take 4 ident \<noteq> [0x7F, 0x45, 0x4C, 0x46] then Inl InvalidString
     else if ident ! 4 \<noteq> 2 \<or> ident ! 5 \<noteq> 1 then Inl InvalidString else
     and_then (add base 0x20) (\<lambda>a. and_then (read_u64 read a) (\<lambda>e_phoff.
     and_then (add base 0x36) (\<lambda>a. and_then (read_u16 read a) (\<lambda>e_phentsize.
     and_then (add base 0x38) (\<lambda>a. and_then (read_u16 read a) (\<lambda>e_phnum.
     if e_phoff = 0 \<or> e_phentsize < 56 then Inl InvalidString else
     and_then (add base e_phoff) (\<lambda>phdr_table.
     and_then (find_dynamic read phdr_table e_phentsize 0 e_phnum) (\<lambda>dyn_vaddr.
     case dyn_vaddr of
       None \<Rightarrow> Inr []
     | Some dyn_vaddr \<Rightarrow>
         and_then (add base dyn_vaddr) (\<lambda>dynamic.
         and_then (dynamic_loop read dynamic 0 4096 no_dynamic) (\<lambda>d.
         case (dy_symtab d, dy_strtab d) of
           (Some symtab, Some strtab) \<Rightarrow>
             and_then (add base symtab) (\<lambda>symtab. and_then (add base strtab) (\<lambda>strtab.
             and_then (symbol_count read base d) (\<lambda>cnt.
               case cnt of None \<Rightarrow> Inr [] | Some cnt \<Rightarrow> elf_symbols read base symtab strtab 0 cnt)))
         | _ \<Rightarrow> Inr [])))))))))))"

definition private_symbols :: "usize \<Rightarrow> core_error + symbol list" where
  "private_symbols base = Inr []"

section \<open>A live process\<close>

definition Process_exports :: "'s backend \<Rightarrow> 's \<Rightarrow> usize \<Rightarrow> core_error + symbol list" where
  "Process_exports be s base =
     and_then (Process_read_buf be s base 4) (\<lambda>magic.
       if length magic \<ge> 2 \<and> take 2 magic = [0x4D, 0x5A] then pe_exports (Process_read_buf be s) base
       else if length magic \<ge> 4 \<and> magic = [0x7F, 0x45, 0x4C, 0x46] then elf_exports (Process_read_buf be s) base
       else Inr [])"

definition Process_resolve :: "'s backend \<Rightarrow> 's \<Rightarrow> usize \<Rightarrow> bytes \<Rightarrow> core_error + usize option" where
  "Process_resolve be s base name =
     and_then (Process_exports be s base) (\<lambda>syms. Inr (map_option sy_address (find (\<lambda>y. sy_name y = name) syms)))"

section \<open>What a reader of an image promises\<close>

text \<open>
  The bytes that are mapped, as a partial map. A reader gives at least the mapped bytes in front of what is asked for,
  unchanged; it may stop at the first byte that is not mapped.
\<close>

definition bytes_at :: "(usize \<rightharpoonup> u8) \<Rightarrow> usize \<Rightarrow> bytes \<Rightarrow> bool" where
  "bytes_at mem a bs \<longleftrightarrow> (\<forall>i<length bs. mem (a + i) = Some (bs ! i))"

lemma bytes_at_take: "bytes_at mem a bs \<Longrightarrow> bytes_at mem a (take k bs)"
  by (simp add: bytes_at_def)

definition uint_at :: "(usize \<rightharpoonup> u8) \<Rightarrow> nat \<Rightarrow> usize \<Rightarrow> nat \<Rightarrow> bool" where
  "uint_at mem n a v \<longleftrightarrow> (\<exists>bs. length bs = n \<and> bytes_at mem a bs \<and> le_nat bs = v)"

lemma uint_at_bound: "uint_at mem n a v \<Longrightarrow> v < 256 ^ n"
  using le_nat_bound by (auto simp: uint_at_def)

locale image_reader =
  fixes read :: symbol_reader and mem :: "usize \<rightharpoonup> u8"
  assumes mapped_range: "mem a \<noteq> None \<Longrightarrow> a \<le> USIZE_MAX"
    and read_mapped: "0 < k \<Longrightarrow> k \<le> n \<Longrightarrow> (\<And>i. i < k \<Longrightarrow> mem (a + i) \<noteq> None) \<Longrightarrow>
      \<exists>bs. read a n = Inr bs \<and> k \<le> length bs \<and> length bs \<le> n \<and> (\<forall>i<k. mem (a + i) = Some (bs ! i))"
begin

lemma read_front:
  assumes "bytes_at mem a bs" "bs \<noteq> []" "length bs \<le> n"
  obtains r where "read a n = Inr (bs @ r)" "length (bs @ r) \<le> n"
proof -
  have "\<And>i. i < length bs \<Longrightarrow> mem (a + i) \<noteq> None" using assms(1) by (simp add: bytes_at_def)
  from read_mapped[of "length bs" n a, OF _ assms(3) this] assms(2) obtain cs
    where cs: "read a n = Inr cs" "length bs \<le> length cs" "length cs \<le> n" "\<forall>i<length bs. mem (a + i) = Some (cs ! i)"
    by auto
  have "take (length bs) cs = bs"
    using cs(2,4) assms(1) by (intro nth_equalityI) (auto simp: bytes_at_def)
  then have "cs = bs @ drop (length bs) cs" by (metis append_take_drop_id)
  then show ?thesis using that[of "drop (length bs) cs"] cs(1,3) by simp
qed

lemma read_exact_at: "bytes_at mem a bs \<Longrightarrow> bs \<noteq> [] \<Longrightarrow> length bs = n \<Longrightarrow> read_exact read a n = Inr bs"
proof -
  assume a: "bytes_at mem a bs" "bs \<noteq> []" "length bs = n"
  then obtain r where "read a n = Inr (bs @ r)" "length (bs @ r) \<le> n" using read_front[of a bs n] by blast
  then show ?thesis using a(3) by (simp add: read_exact_def)
qed

lemma bytes_at_range: "bytes_at mem a bs \<Longrightarrow> bs \<noteq> [] \<Longrightarrow> a \<le> USIZE_MAX"
  using mapped_range[of "a + 0"] unfolding bytes_at_def by (metis add_0_right length_greater_0_conv option.discI)

lemma uint_at_range: "uint_at mem n a v \<Longrightarrow> 0 < n \<Longrightarrow> a \<le> USIZE_MAX"
  by (auto simp: uint_at_def intro: bytes_at_range)

lemma add_at: "uint_at mem n (b + off) v \<Longrightarrow> 0 < n \<Longrightarrow> add b off = Inr (b + off)"
  using uint_at_range[of n "b + off" v] by (simp add: add_def checked_add_def)

lemma read_uint_at:
  "uint_at mem 2 a v \<Longrightarrow> read_u16 read a = Inr v"
  "uint_at mem 4 a v \<Longrightarrow> read_u32 read a = Inr v"
  "uint_at mem 8 a v \<Longrightarrow> read_u64 read a = Inr v"
proof -
  have r: "uint_at mem n a v \<Longrightarrow> 0 < n \<Longrightarrow> and_then (read_exact read a n) (\<lambda>b. Inr (le_nat b)) = Inr v" for n
    unfolding uint_at_def using read_exact_at by (metis and_then_simps(1) length_greater_0_conv)
  show
    "uint_at mem 2 a v \<Longrightarrow> read_u16 read a = Inr v"
    "uint_at mem 4 a v \<Longrightarrow> read_u32 read a = Inr v"
    "uint_at mem 8 a v \<Longrightarrow> read_u64 read a = Inr v"
    by (simp_all add: read_u16_def read_u32_def read_u64_def r)
qed

text \<open>Forming an address and reading the field there.\<close>

lemma field_u16: "uint_at mem 2 (b + off) v \<Longrightarrow> and_then (add b off) (\<lambda>a. and_then (read_u16 read a) f) = f v"
  and field_u32: "uint_at mem 4 (b + off) v \<Longrightarrow> and_then (add b off) (\<lambda>a. and_then (read_u32 read a) f) = f v"
  and field_u64: "uint_at mem 8 (b + off) v \<Longrightarrow> and_then (add b off) (\<lambda>a. and_then (read_u64 read a) f) = f v"
  by (simp_all add: add_at read_uint_at)

lemma cstr_loop_at:
  assumes "bytes_at mem a (out @ rest @ [0])" "0 \<notin> set (out @ rest)" "length (out @ rest) < MAX_NAME"
  shows "cstr_loop read a (length out) out = from_utf8 (out @ rest)"
  using assms
proof (induction "length rest" arbitrary: out rest rule: less_induct)
  case less
  define want where "want = min NAME_CHUNK (MAX_NAME - length out)"
  have want: "0 < want" using less.prems(3) by (simp add: want_def NAME_CHUNK_def)
  have at: "bytes_at mem (a + length out) (rest @ [0])"
    using less.prems(1) unfolding bytes_at_def
    by (metis (no_types, lifting) add.assoc length_append nat_add_left_cancel_less nth_append_length_plus)
  have start: "add a (length out) = Inr (a + length out)"
    using bytes_at_range[OF at] by (simp add: add_def checked_add_def)
  have step: "cstr_loop read a (length out) out = and_then (read (a + length out) want) (\<lambda>got.
      if got = [] then from_utf8 out
      else if 0 \<in> set got then from_utf8 (out @ takeWhile (\<lambda>b. b \<noteq> 0) got)
      else cstr_loop read a (length out + length got) (out @ got))"
    using less.prems(3) by (subst cstr_loop.simps) (simp add: want_def start)
  show ?case
  proof (cases "length rest < want")
    case True
    then obtain r where "read (a + length out) want = Inr ((rest @ [0]) @ r)"
      using read_front[OF at, of want] by auto
    moreover have "takeWhile (\<lambda>b. b \<noteq> 0) (rest @ 0 # r) = rest" using less.prems(2) by (subst takeWhile_append2) auto
    ultimately show ?thesis by (simp add: step)
  next
    case False
    have "bytes_at mem (a + length out) (take want rest)" using at by (auto simp: bytes_at_def nth_append)
    moreover have "take want rest \<noteq> []" using False want by auto
    ultimately obtain r where r: "read (a + length out) want = Inr (take want rest @ r)" "length (take want rest @ r) \<le> want"
      using read_front[of "a + length out" "take want rest" want] by auto
    then have got: "read (a + length out) want = Inr (take want rest)" using False by simp
    have t: "take want rest @ drop want rest @ xs = rest @ xs" for xs
      by (metis append.assoc append_take_drop_id)
    have "cstr_loop read a (length (out @ take want rest)) (out @ take want rest)
        = from_utf8 ((out @ take want rest) @ drop want rest)"
    proof (rule less.hyps)
      show "length (drop want rest) < length rest" using False want by simp
    qed (use less.prems in \<open>auto simp: t dest: in_set_takeD in_set_dropD\<close>)
    moreover have "0 \<notin> set (take want rest)" using less.prems(2) in_set_takeD by fastforce
    moreover have "min (length rest) want = want" using False by simp
    ultimately show ?thesis using \<open>take want rest \<noteq> []\<close> by (simp add: step got)
  qed
qed

lemma read_cstr_at:
  "bytes_at mem a (name @ [0]) \<Longrightarrow> 0 \<notin> set name \<Longrightarrow> length name < MAX_NAME \<Longrightarrow> valid_utf8 name \<Longrightarrow> read_cstr read a = Inr name"
  using cstr_loop_at[of a "[]" name] by (simp add: read_cstr_def from_utf8_def)

end

section \<open>PE images\<close>

text \<open>What the export directory of a mapped image says: where its parts are, the functions, and for every name its place and ordinal.\<close>

record pe_table =
  pt_64 :: bool
  pt_lfanew :: nat
  pt_rva :: nat
  pt_size :: nat
  pt_functions_rva :: nat
  pt_names_rva :: nat
  pt_ordinals_rva :: nat
  pt_functions :: "nat list"
  pt_names :: "(bytes \<times> nat \<times> nat) list"

definition c_string_at :: "(usize \<rightharpoonup> u8) \<Rightarrow> usize \<Rightarrow> bytes \<Rightarrow> bool" where
  "c_string_at mem a name \<longleftrightarrow> bytes_at mem a (name @ [0]) \<and> 0 \<notin> set name \<and> length name < MAX_NAME \<and> valid_utf8 name"

definition pe_opt :: "usize \<Rightarrow> pe_table \<Rightarrow> usize" where
  "pe_opt base t = base + pt_lfanew t + 24"

definition pe_directory_entry :: "usize \<Rightarrow> pe_table \<Rightarrow> usize" where
  "pe_directory_entry base t = pe_opt base t + (if pt_64 t then 112 else 96)"

definition pe_headers_at :: "(usize \<rightharpoonup> u8) \<Rightarrow> usize \<Rightarrow> pe_table \<Rightarrow> bool" where
  "pe_headers_at mem base t \<longleftrightarrow>
     bytes_at mem base [0x4D, 0x5A] \<and> uint_at mem 4 (base + 0x3C) (pt_lfanew t)
     \<and> bytes_at mem (base + pt_lfanew t) [0x50, 0x45, 0, 0]
     \<and> uint_at mem 2 (pe_opt base t) (if pt_64 t then 0x20B else 0x10B)
     \<and> uint_at mem 4 (pe_directory_entry base t) (pt_rva t) \<and> uint_at mem 4 (pe_directory_entry base t + 4) (pt_size t)"

definition pe_directory_at :: "(usize \<rightharpoonup> u8) \<Rightarrow> usize \<Rightarrow> pe_table \<Rightarrow> bool" where
  "pe_directory_at mem base t \<longleftrightarrow>
     (let dir = base + pt_rva t
      in uint_at mem 4 (dir + 0x14) (length (pt_functions t)) \<and> uint_at mem 4 (dir + 0x18) (length (pt_names t))
         \<and> uint_at mem 4 (dir + 0x1C) (pt_functions_rva t) \<and> uint_at mem 4 (dir + 0x20) (pt_names_rva t)
         \<and> uint_at mem 4 (dir + 0x24) (pt_ordinals_rva t))"

definition pe_name_at :: "(usize \<rightharpoonup> u8) \<Rightarrow> usize \<Rightarrow> pe_table \<Rightarrow> nat \<Rightarrow> bool" where
  "pe_name_at mem base t i \<longleftrightarrow>
     (case pt_names t ! i of (name, rva, ordinal) \<Rightarrow>
        uint_at mem 4 (base + pt_names_rva t + i * 4) rva \<and> c_string_at mem (base + rva) name
        \<and> uint_at mem 2 (base + pt_ordinals_rva t + i * 2) ordinal \<and> ordinal < length (pt_functions t))"

definition pe_image :: "(usize \<rightharpoonup> u8) \<Rightarrow> usize \<Rightarrow> pe_table \<Rightarrow> bool" where
  "pe_image mem base t \<longleftrightarrow>
     base + 2 ^ 33 \<le> USIZE_MAX \<and> 0 < pt_rva t \<and> 0 < pt_size t
     \<and> pe_headers_at mem base t \<and> pe_directory_at mem base t
     \<and> list_all (pe_name_at mem base t) [0..<length (pt_names t)]
     \<and> list_all (\<lambda>j. uint_at mem 4 (base + pt_functions_rva t + j * 4) (pt_functions t ! j)) [0..<length (pt_functions t)]"

text \<open>The exports: every name whose function is used and is not a forwarder.\<close>

definition pe_symbol :: "usize \<Rightarrow> pe_table \<Rightarrow> bytes \<times> nat \<times> nat \<Rightarrow> symbol list" where
  "pe_symbol base t n =
     (case n of (name, _, ordinal) \<Rightarrow>
        let f = pt_functions t ! ordinal
        in if f = 0 \<or> (pt_rva t \<le> f \<and> f < pt_rva t + pt_size t) then [] else [\<lparr>sy_name = name, sy_address = base + f\<rparr>])"

definition pe_symbols :: "usize \<Rightarrow> pe_table \<Rightarrow> symbol list" where
  "pe_symbols base t = concat (map (pe_symbol base t) (pt_names t))"

definition pe_export_directory :: "usize \<Rightarrow> pe_table \<Rightarrow> export_directory" where
  "pe_export_directory base t = \<lparr>ed_base = base, ed_rva = pt_rva t, ed_end = pt_rva t + pt_size t,
     ed_number_of_functions = length (pt_functions t), ed_functions = base + pt_functions_rva t,
     ed_names = base + pt_names_rva t, ed_ordinals = base + pt_ordinals_rva t\<rparr>"

lemma add_small: "base + 2 ^ 33 \<le> USIZE_MAX \<Longrightarrow> off < 2 ^ 33 \<Longrightarrow> add base off = Inr (base + off)"
  by (simp add: add_def checked_add_def)

lemma uint_at_small: "uint_at mem 4 a v \<Longrightarrow> v < 2 ^ 33"
  using uint_at_bound[of mem 4 a v] by simp

context image_reader begin

lemma export_entry_at:
  assumes "pe_image mem base t" "i < length (pt_names t)"
  shows "\<exists>s. export_entry read (pe_export_directory base t) i = Inr s
    \<and> (case s of None \<Rightarrow> [] | Some y \<Rightarrow> [y]) = pe_symbol base t (pt_names t ! i)"
proof -
  obtain name rva ordinal where n: "pt_names t ! i = (name, rva, ordinal)" by (cases "pt_names t ! i") auto
  have "pe_name_at mem base t i" using assms by (simp add: pe_image_def list_all_iff)
  then have at: "uint_at mem 4 (base + pt_names_rva t + i * 4) rva" "c_string_at mem (base + rva) name"
    "uint_at mem 2 (base + pt_ordinals_rva t + i * 2) ordinal" "ordinal < length (pt_functions t)"
    by (simp_all add: pe_name_at_def n)
  then have f: "uint_at mem 4 (base + pt_functions_rva t + ordinal * 4) (pt_functions t ! ordinal)"
    using assms(1) by (simp add: pe_image_def list_all_iff)
  have small: "base + 2 ^ 33 \<le> USIZE_MAX" using assms(1) by (simp add: pe_image_def)
  have name: "read_cstr read (base + rva) = Inr name"
    using at(2) by (simp add: c_string_at_def read_cstr_at)
  show ?thesis
    using at(4) by (simp add: export_entry_def pe_export_directory_def pe_symbol_def n Let_def field_u32[OF at(1)] field_u16[OF at(3)]
      field_u32[OF f] name add_small[OF small uint_at_small[OF at(1)]] add_small[OF small uint_at_small[OF f]])
qed

lemma export_names_at:
  assumes "pe_image mem base t" "i + n = length (pt_names t)"
  shows "export_names read (pe_export_directory base t) i n = Inr (concat (map (pe_symbol base t) (drop i (pt_names t))))"
  using assms(2)
proof (induction n arbitrary: i)
  case (Suc n)
  then obtain s where s: "export_entry read (pe_export_directory base t) i = Inr s"
    "(case s of None \<Rightarrow> [] | Some y \<Rightarrow> [y]) = pe_symbol base t (pt_names t ! i)"
    using export_entry_at[OF assms(1), of i] by auto
  have "drop i (pt_names t) = pt_names t ! i # drop (i + 1) (pt_names t)"
    using Suc.prems by (simp add: Cons_nth_drop_Suc)
  then show ?case using Suc.IH[of "i + 1"] Suc.prems s by (auto split: option.splits)
qed simp

lemma u32_at: "uint_at mem 4 (b + off) v \<Longrightarrow> add b off = Inr (b + off) \<and> read_u32 read (b + off) = Inr v"
  by (simp add: add_at read_uint_at)

lemma pe_exports_at:
  assumes image: "pe_image mem base t"
  shows "pe_exports read base = Inr (pe_symbols base t)"
proof -
  have small: "base + 2 ^ 33 \<le> USIZE_MAX" and pos: "pt_rva t \<noteq> 0" "pt_size t \<noteq> 0"
    and h: "pe_headers_at mem base t" and d: "pe_directory_at mem base t" using image by (simp_all add: pe_image_def)
  define nt where "nt = base + pt_lfanew t"
  define opt where "opt = pe_opt base t"
  define dd where "dd = (if pt_64 t then 112 else 96 :: nat)"
  define dir where "dir = base + pt_rva t"
  define entry where "entry = opt + dd"
  have opt_eq: "opt = nt + (4 + 20)" by (simp add: opt_def pe_opt_def nt_def)
  have h: "bytes_at mem base [0x4D, 0x5A]" "uint_at mem 4 (base + 0x3C) (pt_lfanew t)" "bytes_at mem nt [0x50, 0x45, 0, 0]"
    "uint_at mem 2 opt (if pt_64 t then 0x20B else 0x10B)" "uint_at mem 4 (opt + dd) (pt_rva t)"
    "uint_at mem 4 (entry + 4) (pt_size t)"
    using h by (simp_all add: pe_headers_at_def pe_directory_entry_def nt_def dd_def entry_def flip: opt_def)
  have d: "uint_at mem 4 (dir + 0x14) (length (pt_functions t))" "uint_at mem 4 (dir + 0x18) (length (pt_names t))"
    "uint_at mem 4 (dir + 0x1C) (pt_functions_rva t)" "uint_at mem 4 (dir + 0x20) (pt_names_rva t)"
    "uint_at mem 4 (dir + 0x24) (pt_ordinals_rva t)"
    using d by (simp_all add: pe_directory_at_def Let_def dir_def)
  have adds: "add base (pt_lfanew t) = Inr nt" "add base (pt_rva t) = Inr dir"
    "add base (pt_functions_rva t) = Inr (base + pt_functions_rva t)" "add base (pt_names_rva t) = Inr (base + pt_names_rva t)"
    "add base (pt_ordinals_rva t) = Inr (base + pt_ordinals_rva t)"
    unfolding nt_def dir_def
    by (rule add_small[OF small uint_at_small], rule h d)+
  have fwd: "add (pt_rva t) (pt_size t) = Inr (pt_rva t + pt_size t)"
    using uint_at_small[OF h(5)] uint_at_small[OF h(6)] by (simp add: add_def checked_add_def USIZE_MAX_def)
  have sigs: "read_exact read base 2 = Inr [0x4D, 0x5A]" "read_exact read nt 4 = Inr [0x50, 0x45, 0, 0]"
    by (rule read_exact_at[OF h(1)] read_exact_at[OF h(3)]; simp)+
  have magic: "add nt (4 + 20) = Inr opt" "read_u16 read opt = Inr (if pt_64 t then 0x20B else 0x10B)"
    using add_at[OF h(4)[unfolded opt_eq]] read_uint_at(1)[OF h(4)] by (simp_all add: opt_eq)
  have off: "(if (if pt_64 t then 0x20B else 0x10B) = (0x20B :: nat) then Inr DATA_DIRECTORY_OFFSET_PE64
      else if (if pt_64 t then 0x20B else 0x10B) = (0x10B :: nat) then Inr DATA_DIRECTORY_OFFSET_PE32 else Inl InvalidString)
      = Inr dd"
    by (simp add: dd_def DATA_DIRECTORY_OFFSET_PE64_def DATA_DIRECTORY_OFFSET_PE32_def)
  have entry: "add opt (dd + IMAGE_DIRECTORY_ENTRY_EXPORT * 8) = Inr entry" "read_u32 read entry = Inr (pt_rva t)"
    using u32_at[OF h(5)] by (simp_all add: entry_def IMAGE_DIRECTORY_ENTRY_EXPORT_def)
  show ?thesis
    unfolding pe_exports_def sigs magic off entry adds fwd and_then_simps u32_at[OF h(2), THEN conjunct1]
      u32_at[OF h(2), THEN conjunct2] u32_at[OF h(6), THEN conjunct1] u32_at[OF h(6), THEN conjunct2]
    using pos export_names_at[OF image, of 0 "length (pt_names t)"] d[THEN u32_at]
    by (simp only: adds fwd and_then_simps simp_thms if_False not_True_eq_False)
      (simp add: pe_symbols_def flip: pe_export_directory_def)
qed

end

section \<open>ELF images\<close>

record elf_sym =
  es_st_name :: nat
  es_st_info :: u8
  es_st_shndx :: nat
  es_st_value :: nat
  es_name :: bytes

record elf_table =
  et_ident :: bytes
  et_phoff :: nat
  et_phentsize :: nat
  et_types :: "nat list"
  et_dynamic :: nat
  et_vaddr :: nat
  et_entries :: "(nat \<times> nat) list"
  et_symtab :: nat
  et_strtab :: nat
  et_symbols :: "elf_sym list"

text \<open>The value of a tag: the last entry that has it.\<close>

definition dynamic_value :: "(nat \<times> nat) list \<Rightarrow> nat \<Rightarrow> nat option" where
  "dynamic_value es = map_of (rev es)"

definition elf_headers_at :: "(usize \<rightharpoonup> u8) \<Rightarrow> usize \<Rightarrow> elf_table \<Rightarrow> bool" where
  "elf_headers_at mem base t \<longleftrightarrow>
     bytes_at mem base (et_ident t) \<and> length (et_ident t) = 16 \<and> take 4 (et_ident t) = [0x7F, 0x45, 0x4C, 0x46]
     \<and> et_ident t ! 4 = 2 \<and> et_ident t ! 5 = 1
     \<and> uint_at mem 8 (base + 0x20) (et_phoff t) \<and> uint_at mem 2 (base + 0x36) (et_phentsize t)
     \<and> uint_at mem 2 (base + 0x38) (length (et_types t)) \<and> 0 < et_phoff t \<and> 56 \<le> et_phentsize t"

definition program_headers_at :: "(usize \<rightharpoonup> u8) \<Rightarrow> usize \<Rightarrow> elf_table \<Rightarrow> bool" where
  "program_headers_at mem base t \<longleftrightarrow>
     list_all (\<lambda>i. uint_at mem 4 (base + et_phoff t + i * et_phentsize t) (et_types t ! i)) [0..<length (et_types t)]
     \<and> et_dynamic t < length (et_types t) \<and> et_types t ! et_dynamic t = 2 \<and> 2 \<notin> set (take (et_dynamic t) (et_types t))
     \<and> uint_at mem 8 (base + et_phoff t + et_dynamic t * et_phentsize t + 16) (et_vaddr t)"

definition dynamic_at :: "(usize \<rightharpoonup> u8) \<Rightarrow> usize \<Rightarrow> (nat \<times> nat) list \<Rightarrow> bool" where
  "dynamic_at mem a es \<longleftrightarrow>
     list_all (\<lambda>i. uint_at mem 8 (a + i * 16) (fst (es ! i)) \<and> uint_at mem 8 (a + i * 16 + 8) (snd (es ! i))) [0..<length es]
     \<and> 0 \<notin> fst ` set es \<and> uint_at mem 8 (a + length es * 16) 0 \<and> (\<exists>v. uint_at mem 8 (a + length es * 16 + 8) v)
     \<and> length es < 4096"

text \<open>
  A GNU hash table over \<open>n\<close> symbols, those from the \<open>symoffset\<close>-th on sorted into its buckets: every bucket names one of
  the symbols or is empty, and the chain of the largest bucket is the last one, so that only its final word is odd.
\<close>

record gnu_table =
  gt_symoffset :: nat
  gt_bloom_size :: nat
  gt_buckets :: "nat list"
  gt_words :: "nat list"

definition gnu_hash_at :: "(usize \<rightharpoonup> u8) \<Rightarrow> usize \<Rightarrow> gnu_table \<Rightarrow> nat \<Rightarrow> bool" where
  "gnu_hash_at mem a g n \<longleftrightarrow>
     (let buckets = a + (16 + gt_bloom_size g * 8); words = buckets + length (gt_buckets g) * 4;
          first = Max (insert 0 (set (gt_buckets g)))
      in uint_at mem 4 a (length (gt_buckets g)) \<and> uint_at mem 4 (a + 4) (gt_symoffset g) \<and> uint_at mem 4 (a + 8) (gt_bloom_size g)
         \<and> words \<le> USIZE_MAX \<and> gt_symoffset g + length (gt_words g) = n \<and> length (gt_words g) \<le> 1000000
         \<and> list_all (\<lambda>i. uint_at mem 4 (buckets + i * 4) (gt_buckets g ! i)) [0..<length (gt_buckets g)]
         \<and> list_all (\<lambda>i. uint_at mem 4 (words + i * 4) (gt_words g ! i)) [0..<length (gt_words g)]
         \<and> (if first < gt_symoffset g \<or> gt_buckets g = [] then gt_words g = []
            else first < n \<and> list_all (\<lambda>i. gt_words g ! i mod 2 = (if i + 1 = length (gt_words g) then 1 else 0))
              [first - gt_symoffset g..<length (gt_words g)]))"

definition symbol_count_at :: "(usize \<rightharpoonup> u8) \<Rightarrow> usize \<Rightarrow> (nat \<times> nat) list \<Rightarrow> nat \<Rightarrow> bool" where
  "symbol_count_at mem base es n \<longleftrightarrow>
     (case dynamic_value es 4 of
        Some h \<Rightarrow> uint_at mem 4 (base + (h + 4)) n
      | None \<Rightarrow> (\<exists>a g. dynamic_value es 0x6FFFFEF5 = Some a \<and> gnu_hash_at mem (base + a) g n))"

definition elf_exported :: "elf_sym \<Rightarrow> bool" where
  "elf_exported s \<longleftrightarrow> drop_bit 4 (es_st_info s) \<in> {1, 2} \<and> es_st_shndx s \<noteq> 0 \<and> es_st_value s \<noteq> 0 \<and> es_st_name s \<noteq> 0"

definition elf_sym_at :: "(usize \<rightharpoonup> u8) \<Rightarrow> usize \<Rightarrow> elf_table \<Rightarrow> nat \<Rightarrow> bool" where
  "elf_sym_at mem base t i \<longleftrightarrow>
     (let s = et_symbols t ! i; a = base + et_symtab t + i * 24
      in uint_at mem 4 a (es_st_name s) \<and> mem (a + 4) = Some (es_st_info s) \<and> uint_at mem 2 (a + 6) (es_st_shndx s)
         \<and> uint_at mem 8 (a + 8) (es_st_value s)
         \<and> (elf_exported s \<longrightarrow> c_string_at mem (base + et_strtab t + es_st_name s) (es_name s) \<and> base + es_st_value s \<le> USIZE_MAX))"

definition elf_image :: "(usize \<rightharpoonup> u8) \<Rightarrow> usize \<Rightarrow> elf_table \<Rightarrow> bool" where
  "elf_image mem base t \<longleftrightarrow>
     elf_headers_at mem base t \<and> program_headers_at mem base t \<and> dynamic_at mem (base + et_vaddr t) (et_entries t)
     \<and> dynamic_value (et_entries t) 6 = Some (et_symtab t) \<and> base + et_symtab t \<le> USIZE_MAX
     \<and> dynamic_value (et_entries t) 5 = Some (et_strtab t) \<and> base + et_strtab t \<le> USIZE_MAX
     \<and> symbol_count_at mem base (et_entries t) (length (et_symbols t))
     \<and> list_all (elf_sym_at mem base t) [0..<length (et_symbols t)]"

definition elf_entry :: "usize \<Rightarrow> elf_sym \<Rightarrow> symbol list" where
  "elf_entry base s =
     (if elf_exported s \<and> es_name s \<noteq> [] then [\<lparr>sy_name = es_name s, sy_address = base + es_st_value s\<rparr>] else [])"

definition elf_table_symbols :: "usize \<Rightarrow> elf_table \<Rightarrow> symbol list" where
  "elf_table_symbols base t = concat (map (elf_entry base) (et_symbols t))"

lemma u64_as_i64_eq: "0 < c \<Longrightarrow> c < 2 ^ 63 \<Longrightarrow> n < 2 ^ 64 \<Longrightarrow> u64_as_i64 n = int c \<longleftrightarrow> n = c"
  by (auto simp: u64_as_i64_def)

lemma u64_as_i64_0: "n < 2 ^ 64 \<Longrightarrow> u64_as_i64 n = 0 \<longleftrightarrow> n = 0"
  by (auto simp: u64_as_i64_def)

text \<open>The record the loop over the dynamic array collects.\<close>

definition dynamic_of :: "(nat \<times> nat) list \<Rightarrow> dynamic_info" where
  "dynamic_of es = \<lparr>dy_symtab = dynamic_value es 6, dy_strtab = dynamic_value es 5, dy_hash = dynamic_value es 4,
     dy_gnu_hash = dynamic_value es 0x6FFFFEF5\<rparr>"

lemma dynamic_of_Nil: "dynamic_of [] = no_dynamic"
  by (simp add: dynamic_of_def dynamic_value_def no_dynamic_def)

lemma dynamic_tag_snoc: "tag < 2 ^ 64 \<Longrightarrow> dynamic_tag (u64_as_i64 tag) v (dynamic_of es) = dynamic_of (es @ [(tag, v)])"
  using u64_as_i64_eq[of 6 tag] u64_as_i64_eq[of 5 tag] u64_as_i64_eq[of 4 tag] u64_as_i64_eq[of "0x6FFFFEF5" tag]
  by (simp add: dynamic_tag_def elf_consts dynamic_of_def dynamic_value_def)

lemma Max_insert_max: "finite S \<Longrightarrow> Max (insert (max a b) S) = max a (Max (insert b S))"
  by (cases "S = {}") (simp_all add: max.assoc)

context image_reader begin

lemma find_dynamic_at:
  assumes "\<And>j. j < length ts \<Longrightarrow> uint_at mem 4 (table + j * sz) (ts ! j)"
    "k < length ts" "ts ! k = 2" "2 \<notin> set (take k ts)" "uint_at mem 8 (table + k * sz + 16) v" "i \<le> k"
  shows "find_dynamic read table sz i (length ts - i) = Inr (Some v)"
  using assms(6)
proof (induction "k - i" arbitrary: i)
  case 0
  then obtain n where n: "length ts - i = Suc n" using assms(2) by (cases "length ts - i") auto
  show ?case using 0 u32_at[OF assms(1)[OF assms(2)]] assms(3) field_u64[OF assms(5)] by (simp add: n PT_DYNAMIC_def)
next
  case (Suc m)
  then obtain n where n: "length ts - i = Suc n" using assms(2) by (cases "length ts - i") auto
  have i: "i < k" using Suc by simp
  then have "ts ! i \<noteq> 2" using assms(2,4) by (auto simp: in_set_conv_nth)
  moreover have "n = length ts - (i + 1)" using n by simp
  ultimately show ?case using Suc.hyps(1)[of "i + 1"] Suc.hyps(2) i u32_at[OF assms(1)[of i]] assms(2) n
    by (simp add: PT_DYNAMIC_def)
qed

lemma dynamic_loop_at:
  assumes "dynamic_at mem a es" "i \<le> length es" "length es < i + n"
  shows "dynamic_loop read a i n (dynamic_of (take i es)) = Inr (dynamic_of es)"
  using assms(2,3)
proof (induction n arbitrary: i)
  case (Suc n)
  show ?case
  proof (cases "i = length es")
    case True
    then show ?thesis using assms(1) field_u64[of a "i * 16"]
      by (auto simp: dynamic_at_def u64_as_i64_def DT_NULL_def add_at read_uint_at)
  next
    case False
    then have i: "i < length es" using Suc.prems by simp
    obtain tag v where e: "es ! i = (tag, v)" by (cases "es ! i") auto
    have at: "uint_at mem 8 (a + i * 16) tag" "uint_at mem 8 (a + i * 16 + 8) v" "tag \<noteq> 0"
      using assms(1) i e by (force simp: dynamic_at_def list_all_iff in_set_conv_nth)+
    have b: "tag < 2 ^ 64" using uint_at_bound[OF at(1)] by simp
    have "take i es @ [(tag, v)] = take (i + 1) es" using i e by (simp add: take_Suc_conv_app_nth)
    then show ?thesis
      using Suc.IH[of "i + 1"] Suc.prems i b at(3)
      by (simp add: add_at[OF at(1)] read_uint_at(3)[OF at(1)] field_u64[OF at(2)] DT_NULL_def u64_as_i64_0 dynamic_tag_snoc)
  qed
qed simp

lemma bucket_loop_at:
  assumes "\<And>j. j < length bs \<Longrightarrow> uint_at mem 4 (buckets + (i + j) * 4) (bs ! j)"
  shows "bucket_loop read buckets i (length bs) m = Inr (Max (insert m (set bs)))"
  using assms
proof (induction bs arbitrary: i m)
  case (Cons b bs)
  have "uint_at mem 4 (buckets + (i + 1 + j) * 4) (bs ! j)" if "j < length bs" for j
    using Cons.prems[of "Suc j"] that by simp
  then show ?case using Cons.IH[of "i + 1" "max m b"] Cons.prems[of 0]
    by (simp add: field_u32 Max_insert_max max.commute insert_commute)
qed simp

lemma chain_loop_at:
  assumes "\<And>i. i < length wds \<Longrightarrow> uint_at mem 4 (words + i * 4) (wds ! i)"
    "\<And>i. m \<le> i \<Longrightarrow> i < length wds \<Longrightarrow> wds ! i mod 2 = (if i + 1 = length wds then 1 else 0)"
    "length wds \<le> 1000000" "m < length wds"
  shows "chain_loop read words off (off + m) = Inr (off + length wds - 1)"
  using assms(2,4)
proof (induction "length wds - m" arbitrary: m rule: less_induct)
  case less
  have step: "chain_loop read words off (off + m) =
      (if wds ! m mod 2 = 1 then Inr (off + m) else chain_loop read words off (off + (m + 1)))"
    using less.prems(2) assms(3) by (subst chain_loop.simps) (simp add: field_u32[OF assms(1)])
  show ?case
  proof (cases "m + 1 = length wds")
    case True
    then have "off + length wds - 1 = off + m" by simp
    then show ?thesis using step less.prems(1)[of m] True by simp
  next
    case False
    then have "chain_loop read words off (off + (m + 1)) = Inr (off + length wds - 1)"
      using less.prems by (intro less.hyps) auto
    then show ?thesis using step less.prems(1)[of m] less.prems(2) False by simp
  qed
qed

lemma gnu_hash_symbol_count_at:
  assumes "gnu_hash_at mem a g n"
  shows "gnu_hash_symbol_count read a = Inr n"
proof -
  define buckets where "buckets = a + (16 + gt_bloom_size g * 8)"
  define words where "words = buckets + length (gt_buckets g) * 4"
  define first where "first = Max (insert 0 (set (gt_buckets g)))"
  let ?off = "gt_symoffset g"
  have h: "uint_at mem 4 a (length (gt_buckets g))" "uint_at mem 4 (a + 4) ?off" "uint_at mem 4 (a + 8) (gt_bloom_size g)"
    "words \<le> USIZE_MAX" "?off + length (gt_words g) = n" "length (gt_words g) \<le> 1000000"
    "list_all (\<lambda>i. uint_at mem 4 (buckets + i * 4) (gt_buckets g ! i)) [0..<length (gt_buckets g)]"
    "list_all (\<lambda>i. uint_at mem 4 (words + i * 4) (gt_words g ! i)) [0..<length (gt_words g)]"
    "if first < ?off \<or> gt_buckets g = [] then gt_words g = []
     else first < n \<and> list_all (\<lambda>i. gt_words g ! i mod 2 = (if i + 1 = length (gt_words g) then 1 else 0))
       [first - ?off..<length (gt_words g)]"
    using assms[unfolded gnu_hash_at_def Let_def, folded buckets_def, folded words_def first_def]
    by - (elim conjE, assumption)+
  have pts: "\<And>i. i < length (gt_buckets g) \<Longrightarrow> uint_at mem 4 (buckets + i * 4) (gt_buckets g ! i)"
    "\<And>i. i < length (gt_words g) \<Longrightarrow> uint_at mem 4 (words + i * 4) (gt_words g ! i)"
    using h(7,8) by (simp_all add: list_all_iff)
  have adds: "add a (16 + gt_bloom_size g * 8) = Inr buckets" "add buckets (length (gt_buckets g) * 4) = Inr words"
    using h(4) by (auto simp: add_def checked_add_def words_def buckets_def)
  have "bucket_loop read buckets 0 (length (gt_buckets g)) 0 = Inr first"
    unfolding first_def using pts(1) by (intro bucket_loop_at) simp
  moreover have "chain_loop read words ?off first = Inr (n - 1)" if "\<not> first < ?off" "gt_buckets g \<noteq> []"
  proof -
    have "chain_loop read words ?off (?off + (first - ?off)) = Inr (?off + length (gt_words g) - 1)"
      using h(5,6,9) that by (intro chain_loop_at[OF pts(2)]) (auto simp: list_all_iff)
    then show ?thesis using that h(5) by simp
  qed
  moreover have "n = ?off" if "first < ?off \<or> gt_buckets g = []" using h(5,9) that by simp
  moreover have "0 < n" if "\<not> first < ?off" "gt_buckets g \<noteq> []" using h(9) that by auto
  ultimately show ?thesis
    by (auto simp: gnu_hash_symbol_count_def read_uint_at(2)[OF h(1)] field_u32[OF h(2)] field_u32[OF h(3)] adds)
qed

lemma symbol_count_at_eq:
  assumes "symbol_count_at mem base es n"
  shows "symbol_count read base (dynamic_of es) = Inr (Some n)"
proof (cases "dynamic_value es 4")
  case (Some h)
  then have at: "uint_at mem 4 (base + (h + 4)) n" using assms by (simp add: symbol_count_at_def)
  then have "base + (h + 4) \<le> USIZE_MAX" by (rule uint_at_range) simp
  then have "wrapping_add h 4 = h + 4" by (simp add: wrapping_add_def USIZE_MAX_def)
  then show ?thesis using Some by (simp add: symbol_count_def dynamic_of_def field_u32[OF at])
next
  case None
  then obtain a g where a: "dynamic_value es 0x6FFFFEF5 = Some a" "gnu_hash_at mem (base + a) g n"
    using assms by (auto simp: symbol_count_at_def)
  have "add base a = Inr (base + a)"
    using a(2) add_at[of 4 base a] by (auto simp: gnu_hash_at_def Let_def)
  then show ?thesis using None a gnu_hash_symbol_count_at by (simp add: symbol_count_def dynamic_of_def)
qed

lemma elf_symbol_at:
  assumes "elf_image mem base t" "i < length (et_symbols t)"
  shows "\<exists>s. elf_symbol read base (base + et_symtab t) (base + et_strtab t) i = Inr s
    \<and> (case s of None \<Rightarrow> [] | Some y \<Rightarrow> [y]) = elf_entry base (et_symbols t ! i)"
proof -
  define s where "s = et_symbols t ! i"
  define a where "a = base + et_symtab t + i * 24"
  have at: "uint_at mem 4 a (es_st_name s)" "mem (a + 4) = Some (es_st_info s)" "uint_at mem 2 (a + 6) (es_st_shndx s)"
    "uint_at mem 8 (a + 8) (es_st_value s)"
    "elf_exported s \<Longrightarrow> c_string_at mem (base + et_strtab t + es_st_name s) (es_name s) \<and> base + es_st_value s \<le> USIZE_MAX"
    using assms by (auto simp: elf_image_def list_all_iff elf_sym_at_def Let_def s_def a_def)
  have addr: "add (base + et_symtab t) (i * 24) = Inr a" using add_at[of 4 "base + et_symtab t" "i * 24"] at(1) by (simp add: a_def)
  have info: "bytes_at mem (a + 4) [es_st_info s]" using at(2) by (simp add: bytes_at_def)
  then have "add a 4 = Inr (a + 4)" using bytes_at_range[OF info] by (simp add: add_def checked_add_def)
  moreover have "read_exact read (a + 4) 1 = Inr [es_st_info s]" by (rule read_exact_at[OF info]) simp_all
  moreover have "drop_bit 4 (es_st_info s) \<in> {1, 2} \<longleftrightarrow> unat (drop_bit 4 (es_st_info s)) = 1 \<or> unat (drop_bit 4 (es_st_info s)) = 2"
    by (simp add: word_unat_eq_iff)
  moreover have "add (base + et_strtab t) (es_st_name s) = Inr (base + et_strtab t + es_st_name s)"
      "read_cstr read (base + et_strtab t + es_st_name s) = Inr (es_name s)" "add base (es_st_value s) = Inr (base + es_st_value s)"
    if "elf_exported s"
    using at(5)[OF that] read_cstr_at bytes_at_range[of _ "es_name s @ [0]"]
    by (auto simp: c_string_at_def add_def checked_add_def)
  ultimately show ?thesis
    unfolding elf_symbol_def addr and_then_simps read_uint_at(2)[OF at(1)] field_u16[OF at(3)] field_u64[OF at(4)]
    by (auto simp: elf_entry_def elf_exported_def elf_consts Let_def simp flip: s_def)
qed

lemma elf_symbols_at:
  assumes "elf_image mem base t" "i + n = length (et_symbols t)"
  shows "elf_symbols read base (base + et_symtab t) (base + et_strtab t) i n = Inr (concat (map (elf_entry base) (drop i (et_symbols t))))"
  using assms(2)
proof (induction n arbitrary: i)
  case (Suc n)
  then obtain s where s: "elf_symbol read base (base + et_symtab t) (base + et_strtab t) i = Inr s"
    "(case s of None \<Rightarrow> [] | Some y \<Rightarrow> [y]) = elf_entry base (et_symbols t ! i)"
    using elf_symbol_at[OF assms(1), of i] by auto
  have "drop i (et_symbols t) = et_symbols t ! i # drop (i + 1) (et_symbols t)"
    using Suc.prems by (simp add: Cons_nth_drop_Suc)
  then show ?case using Suc.IH[of "i + 1"] Suc.prems s by (auto split: option.splits)
qed simp

lemma elf_exports_at:
  assumes image: "elf_image mem base t"
  shows "elf_exports read base = Inr (elf_table_symbols base t)"
proof -
  have h: "elf_headers_at mem base t" "program_headers_at mem base t" "dynamic_at mem (base + et_vaddr t) (et_entries t)"
    "dynamic_value (et_entries t) 6 = Some (et_symtab t)" "base + et_symtab t \<le> USIZE_MAX"
    "dynamic_value (et_entries t) 5 = Some (et_strtab t)" "base + et_strtab t \<le> USIZE_MAX"
    "symbol_count_at mem base (et_entries t) (length (et_symbols t))"
    using image by (simp_all add: elf_image_def)
  note hd = h(1)[unfolded elf_headers_at_def]
  have fields: "uint_at mem 8 (base + 0x20) (et_phoff t)" "uint_at mem 2 (base + 0x36) (et_phentsize t)"
      "uint_at mem 2 (base + 0x38) (length (et_types t))"
    using hd by blast+
  have ident: "read_exact read base 16 = Inr (et_ident t)" using hd by (intro read_exact_at) auto
  have ph: "\<And>j. j < length (et_types t) \<Longrightarrow> uint_at mem 4 (base + et_phoff t + j * et_phentsize t) (et_types t ! j)"
    and dyn: "find_dynamic read (base + et_phoff t) (et_phentsize t) 0 (length (et_types t)) = Inr (Some (et_vaddr t))"
    using h(2) find_dynamic_at[of "et_types t" "base + et_phoff t" "et_phentsize t" "et_dynamic t" "et_vaddr t" 0]
    by (simp_all add: program_headers_at_def list_all_iff)
  have "base + et_phoff t \<le> USIZE_MAX"
    using uint_at_range[OF ph[of 0]] h(2) unfolding program_headers_at_def by fastforce
  then have adds: "add base (et_phoff t) = Inr (base + et_phoff t)" "add base (et_symtab t) = Inr (base + et_symtab t)"
      "add base (et_strtab t) = Inr (base + et_strtab t)"
    using h(5,7) by (simp_all add: add_def checked_add_def)
  have "base + et_vaddr t \<le> USIZE_MAX"
    using h(3) uint_at_range[of 8 "base + et_vaddr t + length (et_entries t) * 16" 0] by (simp add: dynamic_at_def)
  then have "add base (et_vaddr t) = Inr (base + et_vaddr t)" by (simp add: add_def checked_add_def)
  moreover have "dynamic_loop read (base + et_vaddr t) 0 4096 no_dynamic = Inr (dynamic_of (et_entries t))"
    using dynamic_loop_at[OF h(3), of 0 4096] h(3) by (simp add: dynamic_at_def dynamic_of_Nil)
  moreover have "dy_symtab (dynamic_of (et_entries t)) = Some (et_symtab t)" "dy_strtab (dynamic_of (et_entries t)) = Some (et_strtab t)"
    using h(4,6) by (simp_all add: dynamic_of_def)
  ultimately show ?thesis
    using hd elf_symbols_at[OF image, of 0]
    by (simp add: elf_exports_def ident field_u64[OF fields(1)] field_u16[OF fields(2)] field_u16[OF fields(3)] adds dyn symbol_count_at_eq[OF h(8)] elf_table_symbols_def)
qed

end

section \<open>The in-memory backend is such a reader\<close>

interpretation mock_image: image_reader "Process_read_buf MockMemoryBackend m" "mock_map m" for m
proof
  fix a k n :: nat
  assume k: "0 < k" "k \<le> n" and mapped: "\<And>i. i < k \<Longrightarrow> mock_map m (a + i) \<noteq> None"
  have lo: "mm_base m \<le> a" "a - mm_base m < length (mm_buf m)"
    using mapped[of 0] k(1) by (auto simp: mock_map_def split: if_splits)
  have hi: "a + (k - 1) - mm_base m < length (mm_buf m)"
    using mapped[of "k - 1"] k(1) by (auto simp: mock_map_def split: if_splits)
  have "overlap m a n = Some (a - mm_base m, min n (length (mm_buf m) - (a - mm_base m)))"
    using lo by (simp add: overlap_def checked_sub_def)
  then have r: "Process_read_buf MockMemoryBackend m a n
      = Inr (slice (mm_buf m) (a - mm_base m) (min n (length (mm_buf m) - (a - mm_base m))))"
    by (simp add: Process_read_buf_def MockMemoryBackend_def MockMemoryBackend_read_buf_def)
  have "mock_map m (a + i) = Some (slice (mm_buf m) (a - mm_base m) (min n (length (mm_buf m) - (a - mm_base m))) ! i)"
    if "i < k" for i
    using mapped[OF that] that k lo hi by (auto simp: mock_map_def slice_def split: if_splits)
  then show "\<exists>bs. Process_read_buf MockMemoryBackend m a n = Inr bs \<and> k \<le> length bs \<and> length bs \<le> n
      \<and> (\<forall>i<k. mock_map m (a + i) = Some (bs ! i))"
    using r k lo hi by (auto simp: slice_def)
qed (simp add: mock_map_def split: if_splits)

section \<open>Example images\<close>

text \<open>An image written as consecutive pieces; every piece lies where the ones in front of it end.\<close>

definition le_bytes :: "nat \<Rightarrow> nat \<Rightarrow> bytes" where
  "le_bytes n v = map (\<lambda>i. of_nat (v div 256 ^ i)) [0..<n]"

fun placed :: "usize \<Rightarrow> bytes list \<Rightarrow> (usize \<times> bytes) list" where
  "placed a [] = []"
| "placed a (bs # r) = (a, bs) # placed (a + length bs) r"

definition image_of :: "usize \<Rightarrow> bytes list \<Rightarrow> mock_memory" where
  "image_of base pieces = \<lparr>mm_base = base, mm_buf = concat pieces\<rparr>"

lemma length_le_bytes [simp]: "length (le_bytes n v) = n"
  by (simp add: le_bytes_def)

lemma le_bytes_Suc: "le_bytes (Suc n) v = of_nat v # le_bytes n (v div 256)"
  by (simp add: le_bytes_def upt_conv_Cons div_mult2_eq del: upt_Suc flip: map_Suc_upt)

lemma le_nat_le_bytes: "v < 256 ^ n \<Longrightarrow> le_nat (le_bytes n v) = v"
proof (induction n arbitrary: v)
  case (Suc n)
  then have "v div 256 < 256 ^ n" by (simp add: div_less_iff_less_mult mult.commute)
  then show ?case using Suc.IH[of "v div 256"] by (simp add: le_bytes_Suc unsigned_of_nat take_bit_eq_mod)
qed (simp add: le_bytes_def)

lemma placed_nth:
  "(a, bs) \<in> set (placed base ps) \<Longrightarrow> base \<le> a \<and> a - base + length bs \<le> length (concat ps) \<and>
     (\<forall>i<length bs. concat ps ! (a - base + i) = bs ! i)"
proof (induction base ps rule: placed.induct)
  case (2 base cs r)
  show ?case
  proof (cases "a = base \<and> bs = cs")
    case False
    then have m: "(a, bs) \<in> set (placed (base + length cs) r)" using 2(2) by auto
    note ih = 2(1)[OF m]
    have "concat (cs # r) ! (a - base + i) = concat r ! (a - (base + length cs) + i)" if "i < length bs" for i
      using ih by (auto simp: nth_append intro!: arg_cong[of _ _ "\<lambda>k. concat r ! k"])
    with ih show ?thesis by auto
  qed (simp add: nth_append)
qed simp

lemma bytes_at_placed:
  assumes "(a, bs) \<in> set (placed base ps)" "base + length (concat ps) \<le> USIZE_MAX"
  shows "bytes_at (mock_map (image_of base ps)) a bs"
proof -
  note p = placed_nth[OF assms(1)]
  have "a + i - base = a - base + i" if "i < length bs" for i using p by simp
  then show ?thesis using p assms(2) by (auto simp: bytes_at_def mock_map_def image_of_def)
qed

lemma uint_at_placed:
  assumes "(a, le_bytes n v) \<in> set (placed base ps)" "v < 256 ^ n" "base + length (concat ps) \<le> USIZE_MAX"
  shows "uint_at (mock_map (image_of base ps)) n a v"
  unfolding uint_at_def using bytes_at_placed[OF assms(1,3)] assms(2) by (intro exI[of _ "le_bytes n v"]) (simp add: le_nat_le_bytes)

text \<open>A PE32 image with a function \<open>a\<close> at offset \<open>0x1000\<close> and a forwarder \<open>b\<close>.\<close>

definition sample_pe_pieces :: "bytes list" where
  "sample_pe_pieces =
     [[0x4D, 0x5A], replicate 58 0, le_bytes 4 0x40, [0x50, 0x45, 0, 0], replicate 20 0, le_bytes 2 0x10B, replicate 94 0,
      le_bytes 4 0xC0, le_bytes 4 40, replicate 20 0, le_bytes 4 2, le_bytes 4 2, le_bytes 4 0xE8, le_bytes 4 0xF0, le_bytes 4 0xF8,
      le_bytes 4 0x1000, le_bytes 4 0xC8, le_bytes 4 0xFC, le_bytes 4 0xFE, le_bytes 2 0, le_bytes 2 1, [97, 0], [98, 0]]"

definition sample_pe :: mock_memory where
  "sample_pe = image_of 0x10000 sample_pe_pieces"

definition sample_pe_table :: pe_table where
  "sample_pe_table = \<lparr>pt_64 = False, pt_lfanew = 0x40, pt_rva = 0xC0, pt_size = 40, pt_functions_rva = 0xE8,
     pt_names_rva = 0xF0, pt_ordinals_rva = 0xF8, pt_functions = [0x1000, 0xC8], pt_names = [([97], 0xFC, 0), ([98], 0xFE, 1)]\<rparr>"

lemma sample_pe_image: "pe_image (mock_map sample_pe) 0x10000 sample_pe_table"
proof -
  have len: "0x10000 + length (concat sample_pe_pieces) \<le> USIZE_MAX" by (simp add: sample_pe_pieces_def USIZE_MAX_def)
  note at = bytes_at_placed[OF _ len, folded sample_pe_def] uint_at_placed[OF _ _ len, folded sample_pe_def]
  have two: "[0..<2] = [0, 1 :: nat]" by (simp add: upt_rec)
  show ?thesis
    by (auto simp: pe_image_def pe_headers_at_def pe_directory_at_def pe_name_at_def c_string_at_def pe_opt_def pe_directory_entry_def
        sample_pe_table_def USIZE_MAX_def MAX_NAME_def two Let_def sample_pe_pieces_def intro!: at) (simp_all only: numeral_2_eq_2)
qed

text \<open>An ELF image with a weak function \<open>a\<close> and an undefined symbol, bounded by a GNU hash table.\<close>

definition sample_elf_pieces :: "bytes list" where
  "sample_elf_pieces =
     [[0x7F, 0x45, 0x4C, 0x46, 2, 1, 1, 0, 0, 0, 0, 0, 0, 0, 0, 0], replicate 16 0, le_bytes 8 0x40, replicate 14 0,
      le_bytes 2 56, le_bytes 2 2, replicate 6 0,
      le_bytes 4 1, replicate 52 0, le_bytes 4 2, replicate 12 0, le_bytes 8 0xB0, replicate 32 0,
      le_bytes 8 5, le_bytes 8 0x180, le_bytes 8 6, le_bytes 8 0x120, le_bytes 8 0x6FFFFEF5, le_bytes 8 0x100, le_bytes 8 0, le_bytes 8 0,
      replicate 16 0, le_bytes 4 1, le_bytes 4 1, le_bytes 4 0, replicate 4 0, le_bytes 4 1, le_bytes 4 2, le_bytes 4 3, replicate 4 0,
      le_bytes 4 0, [0], [0], le_bytes 2 0, le_bytes 8 0, replicate 8 0,
      le_bytes 4 1, [0x22], [0], le_bytes 2 7, le_bytes 8 0x1234, replicate 8 0,
      le_bytes 4 3, [0x12], [0], le_bytes 2 0, le_bytes 8 0, replicate 8 0,
      replicate 24 0, [0], [97, 0], [98, 0]]"

definition sample_elf :: mock_memory where
  "sample_elf = image_of 0x10000 sample_elf_pieces"

definition sample_elf_table :: elf_table where
  "sample_elf_table = \<lparr>et_ident = [0x7F, 0x45, 0x4C, 0x46, 2, 1, 1, 0, 0, 0, 0, 0, 0, 0, 0, 0], et_phoff = 0x40, et_phentsize = 56,
     et_types = [1, 2], et_dynamic = 1, et_vaddr = 0xB0, et_entries = [(5, 0x180), (6, 0x120), (0x6FFFFEF5, 0x100)],
     et_symtab = 0x120, et_strtab = 0x180,
     et_symbols = [\<lparr>es_st_name = 0, es_st_info = 0, es_st_shndx = 0, es_st_value = 0, es_name = []\<rparr>,
       \<lparr>es_st_name = 1, es_st_info = 0x22, es_st_shndx = 7, es_st_value = 0x1234, es_name = [97]\<rparr>,
       \<lparr>es_st_name = 3, es_st_info = 0x12, es_st_shndx = 0, es_st_value = 0, es_name = []\<rparr>]\<rparr>"

lemma mem_at_placed: "(a, [b]) \<in> set (placed base ps) \<Longrightarrow> base + length (concat ps) \<le> USIZE_MAX \<Longrightarrow> mock_map (image_of base ps) a = Some b"
  using bytes_at_placed[of a "[b]" base ps] by (simp add: bytes_at_def)

lemma sample_elf_image: "elf_image (mock_map sample_elf) 0x10000 sample_elf_table"
proof -
  have len: "0x10000 + length (concat sample_elf_pieces) \<le> USIZE_MAX" by (simp add: sample_elf_pieces_def USIZE_MAX_def)
  note at = bytes_at_placed[OF _ len, folded sample_elf_def] uint_at_placed[OF _ _ len, folded sample_elf_def]
    mem_at_placed[OF _ len, folded sample_elf_def]
  have upts: "[0..<2] = [0, 1 :: nat]" "[0..<3] = [0, 1, 2 :: nat]" by (simp_all add: upt_rec)
  let ?m = "mock_map sample_elf" and ?t = sample_elf_table
  note defs = sample_elf_table_def elf_headers_at_def program_headers_at_def dynamic_at_def gnu_hash_at_def symbol_count_at_def
    dynamic_value_def elf_sym_at_def elf_exported_def c_string_at_def MAX_NAME_def USIZE_MAX_def upts Let_def
  have "elf_headers_at ?m 0x10000 ?t"
    by (auto simp: defs sample_elf_pieces_def intro!: at) (simp_all only: numeral_2_eq_2)
  moreover have "program_headers_at ?m 0x10000 ?t"
    by (auto simp: defs sample_elf_pieces_def intro!: at)
  moreover have "dynamic_at ?m 0x100B0 (et_entries ?t)"
    by (auto simp: defs sample_elf_pieces_def intro!: at exI[of _ 0])
  moreover have hash: "gnu_hash_at ?m 0x10100 \<lparr>gt_symoffset = 1, gt_bloom_size = 0, gt_buckets = [1], gt_words = [2, 3]\<rparr> 3"
    by (auto simp: defs sample_elf_pieces_def less_Suc_eq intro!: at)
  moreover have "list_all (elf_sym_at ?m 0x10000 ?t) [0..<3]"
    by (auto simp: defs sample_elf_pieces_def intro!: at)
  moreover have "symbol_count_at ?m 0x10000 (et_entries ?t) 3"
    using hash by (auto simp: symbol_count_at_def dynamic_value_def sample_elf_table_def simp del: One_nat_def)
  moreover have "length (et_symbols ?t) = 3" "et_vaddr ?t = 0xB0" "dynamic_value (et_entries ?t) 6 = Some (et_symtab ?t)"
    "dynamic_value (et_entries ?t) 5 = Some (et_strtab ?t)" "0x10000 + et_symtab ?t \<le> USIZE_MAX" "0x10000 + et_strtab ?t \<le> USIZE_MAX"
    by (simp_all add: sample_elf_table_def dynamic_value_def USIZE_MAX_def)
  ultimately show ?thesis by (simp add: elf_image_def)
qed

section \<open>Properties\<close>

lemma resolve_exports:
  "Process_exports be s base = Inr ys \<Longrightarrow>
     Process_resolve be s base name = Inr (map_option sy_address (find (\<lambda>y. sy_name y = name) ys))"
  by (simp add: Process_resolve_def)

text \<open>
  C29. The exports of a mapped PE image are those its export directory names: for every reader that gives the mapped
  bytes, whatever it does at the end of a mapping, the walk succeeds and lists, in the order of the names, every function
  that is used and is not a forwarder, at its address in the process; resolving a name gives the first of them with it.
\<close>

theorem pe_exports_exact:
  assumes "image_reader (Process_read_buf be s) mem" "pe_image mem base t"
  shows "Process_exports be s base = Inr (pe_symbols base t)
    \<and> Process_resolve be s base name = Inr (map_option sy_address (find (\<lambda>y. sy_name y = name) (pe_symbols base t)))"
proof -
  have "bytes_at mem base [0x4D, 0x5A]" using assms(2) by (simp add: pe_image_def pe_headers_at_def)
  then obtain r where "Process_read_buf be s base 4 = Inr ([0x4D, 0x5A] @ r)"
    using image_reader.read_front[OF assms(1), of base "[0x4D, 0x5A]" 4] by auto
  then have "Process_exports be s base = Inr (pe_symbols base t)"
    using image_reader.pe_exports_at[OF assms] by (simp add: Process_exports_def)
  then show ?thesis by (simp add: resolve_exports)
qed

theorem pe_exports_exact_witness:
  "Process_exports MockMemoryBackend sample_pe 0x10000 = Inr [\<lparr>sy_name = [97], sy_address = 0x11000\<rparr>]
   \<and> Process_resolve MockMemoryBackend sample_pe 0x10000 [98] = Inr None"
  using pe_exports_exact[OF mock_image.image_reader_axioms sample_pe_image, of "[98]"]
  by (simp add: pe_symbols_def pe_symbol_def sample_pe_table_def)

text \<open>
  C30. The exports of a mapped ELF image are the defined global and weak symbols of its dynamic symbol table, in its
  order, at the image base plus their value, whether the table is bounded by a System V or by a GNU hash table.
\<close>

theorem elf_exports_exact:
  assumes "image_reader (Process_read_buf be s) mem" "elf_image mem base t"
  shows "Process_exports be s base = Inr (elf_table_symbols base t)
    \<and> Process_resolve be s base name = Inr (map_option sy_address (find (\<lambda>y. sy_name y = name) (elf_table_symbols base t)))"
proof -
  have "bytes_at mem base (take 4 (et_ident t))" "take 4 (et_ident t) = [0x7F, 0x45, 0x4C, 0x46]"
    using assms(2) bytes_at_take[of mem base "et_ident t" 4] by (simp_all add: elf_image_def elf_headers_at_def)
  then obtain r where "Process_read_buf be s base 4 = Inr ([0x7F, 0x45, 0x4C, 0x46] @ r)" "r = []"
    using image_reader.read_front[OF assms(1), of base "[0x7F, 0x45, 0x4C, 0x46]" 4] by auto
  then have "Process_exports be s base = Inr (elf_table_symbols base t)"
    using image_reader.elf_exports_at[OF assms] by (simp add: Process_exports_def)
  then show ?thesis by (simp add: resolve_exports)
qed

theorem elf_exports_exact_witness:
  "Process_exports MockMemoryBackend sample_elf 0x10000 = Inr [\<lparr>sy_name = [97], sy_address = 0x11234\<rparr>]
   \<and> Process_resolve MockMemoryBackend sample_elf 0x10000 [97] = Inr (Some 0x11234)"
  using elf_exports_exact[OF mock_image.image_reader_axioms sample_elf_image, of "[97]"]
  by (simp add: elf_table_symbols_def elf_entry_def elf_exported_def sample_elf_table_def)

text \<open>
  A GNU hash table whose chain runs into memory that cannot be read gives the error of that read, not the symbols found
  so far.
\<close>

lemma truncated_chain_fails:
  "add words ((m - off) * 4) = Inr a \<Longrightarrow> read a 4 = Inl e \<Longrightarrow> chain_loop read words off m = Inl e"
  by (subst chain_loop.simps) (simp add: read_u32_def read_exact_def)

end
