(* ===== verification/Float_Text.thy ===== *)
theory Float_Text
  imports Rust_Float
begin

text \<open>
  The text of floating-point values as the standard library prints and reads it: \<open>Display\<close> (the shortest
  decimal that reads back as the value, the closer one of two), \<open>{:.3}\<close>, and the bits of a parsed value.
  Here the two zeros differ, so a value carries its sign bit beside what \<open>f64\<close> of Rust_Float tells of it.
\<close>

type_synonym sfloat = "bool \<times> f64"

definition sfloat_of_bits :: "nat \<Rightarrow> nat \<Rightarrow> nat \<Rightarrow> sfloat" where
  "sfloat_of_bits frac_bits exp_bits n = (odd (n div 2 ^ (frac_bits + exp_bits)), float_of_bits frac_bits exp_bits n)"

definition sf32_from_le_bytes :: "bytes \<Rightarrow> sfloat" where
  "sf32_from_le_bytes bs = sfloat_of_bits 23 8 (le_nat bs)"

definition sf64_from_le_bytes :: "bytes \<Rightarrow> sfloat" where
  "sf64_from_le_bytes bs = sfloat_of_bits 52 11 (le_nat bs)"

section \<open>Decimal digits\<close>

definition pow10 :: "int \<Rightarrow> rat" where
  "pow10 k = (if 0 \<le> k then 10 ^ nat k else 1 / 10 ^ nat (- k))"

text \<open>\<open>floor (log10 x)\<close> of a positive rational.\<close>

definition floor_log10 :: "rat \<Rightarrow> int" where
  "floor_log10 x =
     (let (n, d) = quotient_of x;
          k = int (length (format_dec (nat n))) - int (length (format_dec (nat d)))
      in if pow10 k \<le> x then k else k - 1)"

text \<open>The digits of \<open>n\<close> with the point in front of the last \<open>s\<close> of them; no point when \<open>s\<close> is not positive.\<close>

definition pad_left :: "nat \<Rightarrow> string \<Rightarrow> string" where
  "pad_left n s = replicate (n - length s) (CHR ''0'') @ s"

definition decimal_text :: "nat \<Rightarrow> int \<Rightarrow> string" where
  "decimal_text n s =
     (if s \<le> 0 then format_dec (n * 10 ^ nat (- s))
      else format_dec (n div 10 ^ nat s) @ ''.'' @ pad_left (nat s) (format_dec (n mod 10 ^ nat s)))"

text \<open>
  The decimal with \<open>k\<close> significant digits that rounds to \<open>x\<close>, when there is one: of the two around \<open>x\<close> the closer one,
  the greater one in a tie.
\<close>

definition digits_candidate :: "(rat \<Rightarrow> f64) \<Rightarrow> rat \<Rightarrow> nat \<Rightarrow> (nat \<times> int) option" where
  "digits_candidate rnd x k =
     (let s = int k - 1 - floor_log10 x;
          y = x * pow10 s;
          lo = \<lfloor>y\<rfloor>;
          down = (rnd (of_int lo * pow10 (- s)) = Fin x);
          up = (rnd (of_int (lo + 1) * pow10 (- s)) = Fin x)
      in if down \<and> (\<not> up \<or> y - of_int lo < of_int (lo + 1) - y) then Some (nat lo, s)
         else if up then Some (nat (lo + 1), s) else None)"

text \<open>The shortest one, with at most \<open>fuel\<close> more digits than \<open>k\<close>; 17 digits always suffice for 64 bits and 9 for 32 bits.\<close>

fun shortest_from :: "(rat \<Rightarrow> f64) \<Rightarrow> rat \<Rightarrow> nat \<Rightarrow> nat \<Rightarrow> (nat \<times> int) option" where
  "shortest_from rnd x k 0 = None"
| "shortest_from rnd x k (Suc fuel) =
     (case digits_candidate rnd x k of Some c \<Rightarrow> Some c | None \<Rightarrow> shortest_from rnd x (Suc k) fuel)"

definition magnitude_text :: "(rat \<Rightarrow> f64) \<Rightarrow> rat \<Rightarrow> string" where
  "magnitude_text rnd x =
     (if x = 0 then ''0''
      else case shortest_from rnd x 1 17 of Some (n, s) \<Rightarrow> decimal_text n s | None \<Rightarrow> '''')"

definition with_sign :: "bool \<Rightarrow> string \<Rightarrow> string" where
  "with_sign neg s = (if neg then ''-'' @ s else s)"

definition float_display :: "(rat \<Rightarrow> f64) \<Rightarrow> sfloat \<Rightarrow> string" where
  "float_display rnd v =
     (case snd v of
        NaN \<Rightarrow> ''NaN''
      | PInf \<Rightarrow> ''inf''
      | NInf \<Rightarrow> ''-inf''
      | Fin x \<Rightarrow> with_sign (fst v) (magnitude_text rnd \<bar>x\<bar>))"

definition f32_to_string :: "sfloat \<Rightarrow> string" where "f32_to_string = float_display round32"
definition f64_to_string :: "sfloat \<Rightarrow> string" where "f64_to_string = float_display round64"

text \<open>\<open>format!("{v:.3}")\<close>\<close>

definition format_fixed3 :: "sfloat \<Rightarrow> string" where
  "format_fixed3 v =
     (case snd v of
        NaN \<Rightarrow> ''NaN''
      | PInf \<Rightarrow> ''inf''
      | NInf \<Rightarrow> ''-inf''
      | Fin x \<Rightarrow> with_sign (fst v) (decimal_text (nat (round_half_even (\<bar>x\<bar> * 1000))) 3))"

section \<open>Bits of a value\<close>

definition bits_of_magnitude :: "nat \<Rightarrow> nat \<Rightarrow> rat \<Rightarrow> nat" where
  "bits_of_magnitude frac_bits exp_bits x =
     (if x = 0 then 0
      else
        let bias = 2 ^ (exp_bits - 1) - 1;
            e = max (floor_log2 x) (1 - bias);
            mant = nat \<lfloor>x / pow2 (e - int frac_bits)\<rfloor>
        in if mant < 2 ^ frac_bits then mant else nat (e + bias) * 2 ^ frac_bits + (mant - 2 ^ frac_bits))"

definition bits_of_sfloat :: "nat \<Rightarrow> nat \<Rightarrow> sfloat \<Rightarrow> nat" where
  "bits_of_sfloat frac_bits exp_bits v =
     (if fst v then 2 ^ (frac_bits + exp_bits) else 0)
     + (case snd v of
          NaN \<Rightarrow> (2 ^ exp_bits - 1) * 2 ^ frac_bits + 2 ^ (frac_bits - 1)
        | PInf \<Rightarrow> (2 ^ exp_bits - 1) * 2 ^ frac_bits
        | NInf \<Rightarrow> (2 ^ exp_bits - 1) * 2 ^ frac_bits
        | Fin x \<Rightarrow> bits_of_magnitude frac_bits exp_bits \<bar>x\<bar>)"

text \<open>\<open>parse::<f32>\<close> and \<open>parse::<f64>\<close> with the sign of the text.\<close>

definition parse_sfloat :: "(utext \<Rightarrow> f64 option) \<Rightarrow> utext \<Rightarrow> sfloat option" where
  "parse_sfloat parse s = map_option (\<lambda>v. (fst (take_sign s), v)) (parse s)"

fun le_bytes_of :: "nat \<Rightarrow> nat \<Rightarrow> bytes" where
  "le_bytes_of 0 n = []"
| "le_bytes_of (Suc w) n = of_nat n # le_bytes_of w (n div 256)"

definition f32_to_ne_bytes :: "sfloat \<Rightarrow> bytes" where
  "f32_to_ne_bytes v = le_bytes_of 4 (bits_of_sfloat 23 8 v)"

definition f64_to_ne_bytes :: "sfloat \<Rightarrow> bytes" where
  "f64_to_ne_bytes v = le_bytes_of 8 (bits_of_sfloat 52 11 v)"

section \<open>Facts\<close>

lemma length_le_bytes_of [simp]: "length (le_bytes_of w n) = w"
  by (induction w arbitrary: n) simp_all

lemma le_nat_le_bytes_of: "le_nat (le_bytes_of w n) = n mod 256 ^ w"
proof (induction w arbitrary: n)
  case (Suc w)
  have "unat (of_nat n :: u8) = n mod 256" by (simp add: unat_of_nat)
  then show ?case using Suc by (simp add: mod_mult2_eq mult.commute)
qed simp

lemma le_bytes_of_le_nat: "le_bytes_of (length bs) (le_nat bs) = bs"
proof (induction bs)
  case (Cons b bs)
  have "unat b < 256" using unsigned_less[of b, where 'a = nat] by simp
  moreover have "of_nat (unat b + 256 * k) = b" for k
  proof -
    have "(256 :: u8) = 0" by simp
    then have "(of_nat (256 * k) :: u8) = 0" by (simp only: of_nat_mult of_nat_numeral mult_zero_left)
    then show ?thesis by (simp only: of_nat_add) simp
  qed
  ultimately show ?case using Cons by simp
qed simp

end
