(* ===== verification/Node_Render.thy ===== *)
theory Node_Render
  imports Nodes Float_Text
begin

text \<open>
  What a node shows of a buffer (\<open>Node::render\<close> in nemclass-model/src/node/builtins.rs, function.rs, vtable.rs,
  vector.rs and class.rs), the components of vectors and matrices, and \<open>FloatWidth\<close>'s reading, printing and parsing.
  Texts are lists of code points, as in Rust_Text; a float value carries its sign bit (Float_Text).
\<close>

record rendered_value =
  rv_value :: utext
  rv_type_tag :: string
  rv_memory_size :: usize

section \<open>Bytes and numbers\<close>

definition read_bytes :: "bytes \<Rightarrow> usize \<Rightarrow> usize \<Rightarrow> bytes option" where
  "read_bytes buf offset sz =
     (case checked_add offset sz of
        None \<Rightarrow> None
      | Some e \<Rightarrow> if e \<le> length buf then Some (slice buf offset sz) else None)"

text \<open>\<open>read_ptr\<close> of function.rs and vtable.rs.\<close>

definition read_ptr :: "bytes \<Rightarrow> usize \<Rightarrow> nat option" where
  "read_ptr buf offset =
     (case checked_add offset 8 of
        None \<Rightarrow> None
      | Some e \<Rightarrow> if e \<le> length buf then Some (le_nat (slice buf offset 8)) else None)"

text \<open>\<open>pod_read_unaligned\<close> at a signed type of \<open>w\<close> bytes.\<close>

definition le_int :: "bytes \<Rightarrow> int" where
  "le_int bs =
     (let n = le_nat bs; w = length bs
      in if n < 2 ^ (8 * w - 1) then int n else int n - 2 ^ (8 * w))"

text \<open>\<open>format!("{:0wX}")\<close> with a minimal width.\<close>

definition format_HEX_width :: "nat \<Rightarrow> nat \<Rightarrow> string" where
  "format_HEX_width w n = pad_left w (format_HEX n)"

definition hex_text :: "nat \<Rightarrow> nat \<Rightarrow> utext" where
  "hex_text w n = codes ''0x'' @ codes (format_HEX_width w n)"

definition fallback :: "string \<Rightarrow> usize \<Rightarrow> rendered_value" where
  "fallback tag sz = \<lparr>rv_value = codes ''<?>'', rv_type_tag = tag, rv_memory_size = sz\<rparr>"

definition fallback_rv :: "string \<Rightarrow> rendered_value" where
  "fallback_rv tag = \<lparr>rv_value = codes ''<?>'', rv_type_tag = tag, rv_memory_size = 8\<rparr>"

section \<open>Lossy decoding\<close>

definition cont_byte :: "u8 \<Rightarrow> bool" where
  "cont_byte b \<longleftrightarrow> 0x80 \<le> b \<and> b \<le> 0xBF"

definition low6 :: "u8 \<Rightarrow> nat" where
  "low6 b = unat b mod 64"

text \<open>The range of the second byte of a sequence of three or four bytes.\<close>

definition second_ok :: "u8 \<Rightarrow> u8 \<Rightarrow> bool" where
  "second_ok b c \<longleftrightarrow>
     (if b = 0xE0 then 0xA0 \<le> c \<and> c \<le> 0xBF else if b = 0xED then 0x80 \<le> c \<and> c \<le> 0x9F
      else if b = 0xF0 then 0x90 \<le> c \<and> c \<le> 0xBF else if b = 0xF4 then 0x80 \<le> c \<and> c \<le> 0x8F
      else cont_byte c)"

text \<open>
  \<open>String::from_utf8_lossy\<close>: every longest prefix of a well-formed sequence that goes wrong becomes one replacement
  character. One step: the character and the rest.
\<close>

definition utf8_step :: "u8 \<Rightarrow> bytes \<Rightarrow> nat \<times> bytes" where
  "utf8_step b r =
     (if b < 0x80 then (unat b, r)
      else if 0xC2 \<le> b \<and> b \<le> 0xDF then
        (case r of c # r2 \<Rightarrow> if cont_byte c then ((unat b mod 32) * 64 + low6 c, r2) else (0xFFFD, r) | [] \<Rightarrow> (0xFFFD, []))
      else if 0xE0 \<le> b \<and> b \<le> 0xEF then
        (case r of
           c # r2 \<Rightarrow>
             if second_ok b c then
               (case r2 of
                  d # r3 \<Rightarrow> if cont_byte d then ((unat b mod 16) * 4096 + low6 c * 64 + low6 d, r3) else (0xFFFD, r2)
                | [] \<Rightarrow> (0xFFFD, []))
             else (0xFFFD, r)
         | [] \<Rightarrow> (0xFFFD, []))
      else if 0xF0 \<le> b \<and> b \<le> 0xF4 then
        (case r of
           c # r2 \<Rightarrow>
             if second_ok b c then
               (case r2 of
                  d # r3 \<Rightarrow>
                    if cont_byte d then
                      (case r3 of
                         e # r4 \<Rightarrow>
                           if cont_byte e
                           then ((unat b mod 8) * 262144 + low6 c * 4096 + low6 d * 64 + low6 e, r4) else (0xFFFD, r3)
                       | [] \<Rightarrow> (0xFFFD, []))
                    else (0xFFFD, r2)
                | [] \<Rightarrow> (0xFFFD, []))
             else (0xFFFD, r)
         | [] \<Rightarrow> (0xFFFD, []))
      else (0xFFFD, r))"

lemma utf8_step_shorter [termination_simp]: "length (snd (utf8_step b r)) < Suc (length r)"
  by (auto simp: utf8_step_def split: list.splits if_splits)

fun from_utf8_lossy :: "bytes \<Rightarrow> utext" where
  "from_utf8_lossy [] = []"
| "from_utf8_lossy (b # r) = fst (utf8_step b r) # from_utf8_lossy (snd (utf8_step b r))"

text \<open>\<open>String::from_utf16_lossy\<close>\<close>

fun from_utf16_lossy :: "nat list \<Rightarrow> utext" where
  "from_utf16_lossy [] = []"
| "from_utf16_lossy (u # us) =
     (if 0xD800 \<le> u \<and> u \<le> 0xDBFF then
        (case us of
           v # vs \<Rightarrow>
             if 0xDC00 \<le> v \<and> v \<le> 0xDFFF
             then (0x10000 + (u - 0xD800) * 1024 + (v - 0xDC00)) # from_utf16_lossy vs
             else 0xFFFD # from_utf16_lossy us
         | [] \<Rightarrow> [0xFFFD])
      else if 0xDC00 \<le> u \<and> u \<le> 0xDFFF then 0xFFFD # from_utf16_lossy us
      else u # from_utf16_lossy us)"

fun u16_chunks :: "bytes \<Rightarrow> nat list" where
  "u16_chunks (a # b # r) = le_nat [a, b] # u16_chunks r"
| "u16_chunks _ = []"

section \<open>Components of vectors and matrices\<close>

definition FloatWidth_read :: "float_width \<Rightarrow> bytes \<Rightarrow> sfloat option" where
  "FloatWidth_read w bs =
     (if length bs < FloatWidth_size w then None
      else Some (case w of F32 \<Rightarrow> sf32_from_le_bytes (take 4 bs) | F64 \<Rightarrow> sf64_from_le_bytes (take 8 bs)))"

definition FloatWidth_parse_to_ne_bytes :: "float_width \<Rightarrow> utext \<Rightarrow> bytes option" where
  "FloatWidth_parse_to_ne_bytes w text =
     (let t = trim_text text
      in case w of
           F32 \<Rightarrow> map_option f32_to_ne_bytes (parse_sfloat parse_f32 t)
         | F64 \<Rightarrow> map_option f64_to_ne_bytes (parse_sfloat parse_f64 t))"

definition FloatWidth_format :: "sfloat \<Rightarrow> string" where
  "FloatWidth_format v =
     (let s = format_fixed3 v
      in if length s \<ge> 4 \<and> drop (length s - 4) s = ''.000'' then take (length s - 4) s else s)"

text \<open>The loop of \<open>read_components\<close>, from component \<open>i\<close>, for \<open>n\<close> of them.\<close>

fun read_components_from :: "bytes \<Rightarrow> usize \<Rightarrow> float_width \<Rightarrow> nat \<Rightarrow> nat \<Rightarrow> sfloat list" where
  "read_components_from buf base w i 0 = []"
| "read_components_from buf base w i (Suc n) =
     (let wsz = FloatWidth_size w
      in case checked_add base (i * wsz) of
           None \<Rightarrow> []
         | Some start \<Rightarrow>
             (case checked_add start wsz of
                None \<Rightarrow> []
              | Some e \<Rightarrow>
                  if e > length buf then []
                  else case FloatWidth_read w (slice buf start wsz) of
                         None \<Rightarrow> []
                       | Some v \<Rightarrow> v # read_components_from buf base w (i + 1) n))"

definition read_components :: "bytes \<Rightarrow> usize \<Rightarrow> nat \<Rightarrow> float_width \<Rightarrow> sfloat list" where
  "read_components buf base cnt w = read_components_from buf base w 0 cnt"

section \<open>Rendering\<close>

text \<open>The render closures of the scalar nodes, on the bytes of the node.\<close>

fun scalar_text :: "simple_kind \<Rightarrow> bytes \<Rightarrow> utext" where
  "scalar_text Int8Node b = codes (format_int (le_int b))"
| "scalar_text Int16Node b = codes (format_int (le_int b))"
| "scalar_text Int32Node b = codes (format_int (le_int b))"
| "scalar_text Int64Node b = codes (format_int (le_int b))"
| "scalar_text UInt8Node b = codes (format_dec (le_nat b))"
| "scalar_text UInt16Node b = codes (format_dec (le_nat b))"
| "scalar_text UInt32Node b = codes (format_dec (le_nat b))"
| "scalar_text UInt64Node b = codes (format_dec (le_nat b))"
| "scalar_text Float32Node b = codes (f32_to_string (sf32_from_le_bytes b))"
| "scalar_text Float64Node b = codes (f64_to_string (sf64_from_le_bytes b))"
| "scalar_text BoolNode b = (if hd b \<noteq> 0 then codes ''true'' else codes ''false'')"
| "scalar_text Hex8Node b = hex_text 2 (le_nat b)"
| "scalar_text Hex16Node b = hex_text 4 (le_nat b)"
| "scalar_text Hex32Node b = hex_text 8 (le_nat b)"
| "scalar_text Hex64Node b = hex_text 16 (le_nat b)"
| "scalar_text StrPtrNode b = hex_text 16 (le_nat b)"
| "scalar_text VMethodNode b = hex_text 16 (le_nat b)"
| "scalar_text FunctionPtrNode b = hex_text 16 (le_nat b)"

definition simple_render :: "simple_kind \<Rightarrow> bytes \<Rightarrow> usize \<Rightarrow> rendered_value" where
  "simple_render k buf base_offset =
     (case read_bytes buf base_offset (simple_size k) of
        None \<Rightarrow> fallback (simple_tag k) (simple_size k)
      | Some bs \<Rightarrow> \<lparr>rv_value = scalar_text k bs, rv_type_tag = simple_tag k, rv_memory_size = simple_size k\<rparr>)"

definition VMethodNode_render :: "utext \<Rightarrow> bytes \<Rightarrow> usize \<Rightarrow> rendered_value" where
  "VMethodNode_render name buf base_offset =
     (case read_ptr buf base_offset of
        None \<Rightarrow> fallback_rv ''VMethod''
      | Some v \<Rightarrow>
          \<lparr>rv_value = (if name = [] then hex_text 16 v else name @ codes '' -> '' @ hex_text 16 v),
           rv_type_tag = ''VMethod'', rv_memory_size = 8\<rparr>)"

definition FunctionPtrNode_render :: "bytes \<Rightarrow> usize \<Rightarrow> rendered_value" where
  "FunctionPtrNode_render buf base_offset =
     (case read_ptr buf base_offset of
        None \<Rightarrow> fallback_rv ''FunctionPtr''
      | Some v \<Rightarrow> \<lparr>rv_value = hex_text 16 v, rv_type_tag = ''FunctionPtr'', rv_memory_size = 8\<rparr>)"

definition PointerNode_render :: "bytes \<Rightarrow> usize \<Rightarrow> rendered_value" where
  "PointerNode_render buf base_offset =
     (case read_bytes buf base_offset 8 of
        None \<Rightarrow> fallback ''Pointer'' 8
      | Some bs \<Rightarrow> \<lparr>rv_value = hex_text 12 (le_nat bs), rv_type_tag = ''Pointer'', rv_memory_size = 8\<rparr>)"

definition ClassInstanceNode_render :: "uuid_lib \<Rightarrow> uuid \<Rightarrow> rendered_value" where
  "ClassInstanceNode_render U class_uuid =
     \<lparr>rv_value = codes ''<class:'' @ uuid_to_string U class_uuid @ codes ''>'', rv_type_tag = ''ClassInstance'', rv_memory_size = 0\<rparr>"

definition ArrayNode_render :: "usize \<Rightarrow> usize \<Rightarrow> rendered_value" where
  "ArrayNode_render cnt element_size =
     \<lparr>rv_value = codes ''['' @ codes (format_dec cnt) @ [32, 0xD7, 32] @ codes (format_dec element_size) @ codes ''B]'',
      rv_type_tag = ''Array'', rv_memory_size = ArrayNode_memory_size cnt element_size\<rparr>"

definition quoted :: "utext \<Rightarrow> utext" where
  "quoted s = [34] @ s @ [34]"

definition Utf8TextNode_render :: "usize \<Rightarrow> bytes \<Rightarrow> usize \<Rightarrow> rendered_value" where
  "Utf8TextNode_render len buf base_offset =
     (case read_bytes buf base_offset len of
        None \<Rightarrow> fallback ''Utf8Text'' len
      | Some bs \<Rightarrow>
          \<lparr>rv_value = quoted (from_utf8_lossy (takeWhile (\<lambda>b. b \<noteq> 0) bs)), rv_type_tag = ''Utf8Text'', rv_memory_size = len\<rparr>)"

definition Utf16TextNode_render :: "usize \<Rightarrow> bytes \<Rightarrow> usize \<Rightarrow> rendered_value" where
  "Utf16TextNode_render len buf base_offset =
     (case read_bytes buf base_offset len of
        None \<Rightarrow> fallback ''Utf16Text'' len
      | Some bs \<Rightarrow>
          \<lparr>rv_value = quoted (from_utf16_lossy (takeWhile (\<lambda>c. c \<noteq> 0) (u16_chunks bs))),
           rv_type_tag = ''Utf16Text'', rv_memory_size = len\<rparr>)"

fun join_text :: "utext \<Rightarrow> utext list \<Rightarrow> utext" where
  "join_text sep [] = []"
| "join_text sep [x] = x"
| "join_text sep (x # y # zs) = x @ sep @ join_text sep (y # zs)"

definition VectorNode_render :: "nat \<Rightarrow> float_width \<Rightarrow> bytes \<Rightarrow> usize \<Rightarrow> rendered_value" where
  "VectorNode_render components width buf base_offset =
     (let tag = vector_tag components width; sz = VectorNode_memory_size components width;
          comps = read_components buf base_offset components width
      in if length comps \<noteq> components then \<lparr>rv_value = codes ''<?>'', rv_type_tag = tag, rv_memory_size = sz\<rparr>
         else \<lparr>rv_value = codes ''('' @ join_text (codes '', '') (map (\<lambda>v. codes (FloatWidth_format v)) comps) @ codes '')'',
               rv_type_tag = tag, rv_memory_size = sz\<rparr>)"

definition MatrixNode_render :: "nat \<Rightarrow> nat \<Rightarrow> float_width \<Rightarrow> rendered_value" where
  "MatrixNode_render rows cols width =
     \<lparr>rv_value = codes ''['' @ codes (format_dec rows) @ codes ''x'' @ codes (format_dec cols) @ codes '' ''
        @ codes (rust_ty width) @ codes '']'',
      rv_type_tag = matrix_tag rows cols width, rv_memory_size = MatrixNode_memory_size rows cols width\<rparr>"

definition VTableNode_render :: "bytes \<Rightarrow> usize \<Rightarrow> rendered_value" where
  "VTableNode_render buf base_offset =
     (case read_ptr buf base_offset of
        None \<Rightarrow> fallback_rv ''VTable''
      | Some v \<Rightarrow>
          \<lparr>rv_value = (if v = 0 then codes ''-> null'' else codes ''-> '' @ hex_text 16 v),
           rv_type_tag = ''VTable'', rv_memory_size = 8\<rparr>)"

definition FunctionNode_render :: "utext \<Rightarrow> bytes \<Rightarrow> usize \<Rightarrow> rendered_value" where
  "FunctionNode_render signature buf base_offset =
     (case read_ptr buf base_offset of
        None \<Rightarrow> fallback_rv ''Function''
      | Some v \<Rightarrow> \<lparr>rv_value = signature @ codes '' @ '' @ hex_text 16 v, rv_type_tag = ''Function'', rv_memory_size = 8\<rparr>)"

definition ClassNode_render :: "class_node \<Rightarrow> rendered_value" where
  "ClassNode_render cl =
     \<lparr>rv_value = codes ''class:'' @ cl_name cl, rv_type_tag = ''Class'', rv_memory_size = ClassNode_memory_size cl\<rparr>"

fun render :: "uuid_lib \<Rightarrow> node \<Rightarrow> bytes \<Rightarrow> usize \<Rightarrow> rendered_value" where
  "render U (SimpleNode k n c) buf off =
     (if k = VMethodNode then VMethodNode_render n buf off
      else if k = FunctionPtrNode then FunctionPtrNode_render buf off
      else simple_render k buf off)"
| "render U (PointerNode n c t) buf off = PointerNode_render buf off"
| "render U (ClassInstanceNode n c u) buf off = ClassInstanceNode_render U u"
| "render U (ArrayNode n c k e) buf off = ArrayNode_render k e"
| "render U (Utf8TextNode n c l) buf off = Utf8TextNode_render l buf off"
| "render U (Utf16TextNode n c l) buf off = Utf16TextNode_render l buf off"
| "render U (VectorNode n c k w) buf off = VectorNode_render k w buf off"
| "render U (MatrixNode n c r k w) buf off = MatrixNode_render r k w"
| "render U (VTableNode n c ch) buf off = VTableNode_render buf off"
| "render U (FunctionNode n c s) buf off = FunctionNode_render s buf off"
| "render U (ClassChild cl) buf off = ClassNode_render cl"

section \<open>Facts\<close>

lemma render_tag: "rv_type_tag (render U n buf off) = type_tag n"
  by (cases n) (auto simp: VMethodNode_render_def FunctionPtrNode_render_def simple_render_def PointerNode_render_def
      ClassInstanceNode_render_def ArrayNode_render_def Utf8TextNode_render_def Utf16TextNode_render_def VectorNode_render_def
      MatrixNode_render_def VTableNode_render_def FunctionNode_render_def ClassNode_render_def fallback_def fallback_rv_def
      Let_def split: option.splits)

lemma render_size: "rv_memory_size (render U n buf off) = memory_size n"
  by (cases n) (auto simp: VMethodNode_render_def FunctionPtrNode_render_def simple_render_def PointerNode_render_def
      ClassInstanceNode_render_def ArrayNode_render_def Utf8TextNode_render_def Utf16TextNode_render_def VectorNode_render_def
      MatrixNode_render_def VTableNode_render_def FunctionNode_render_def ClassNode_render_def fallback_def fallback_rv_def
      Let_def split: option.splits)

lemma read_bytes_Some: "read_bytes buf off n = Some bs \<Longrightarrow> length bs = n \<and> bs = slice buf off n \<and> off + n \<le> length buf"
  by (auto simp: read_bytes_def checked_add_def slice_simps split: if_splits)

end
