(* ===== verification/Class_View.thy ===== *)
theory Class_View
  imports Codegen Node_Render Process_Memory
begin

text \<open>
  The class view (nemclass-ui/src/views/mod.rs): the node tree of a class flattened into rows, with class instances and
  expanded pointers shown inline, the buffers behind expanded pointers, and the rows that are visible.

  A \<open>HashSet<String>\<close> of row identifiers is a list (only membership is asked). The visited set is inserted into in front
  of a recursive call and removed from behind it, so it is passed by value. Reading the process is the reader of
  Process_Memory, over any backend.
\<close>

type_synonym row_id = string
type_synonym process_reader = "usize \<Rightarrow> nat \<Rightarrow> core_error + bytes"

section \<open>Rows\<close>

record node_snapshot =
  sn_address :: usize
  sn_offset :: usize
  sn_depth :: nat
  sn_id_path :: row_id
  sn_rendered :: rendered_value
  sn_has_children :: bool
  sn_type_tag :: string
  sn_name :: utext
  sn_comment :: utext
  sn_memory_size :: usize
  sn_pointer_target :: "uuid option"
  sn_owner_class :: uuid
  sn_local_path :: "nat list"
  sn_components :: "sfloat list"
  sn_float_width :: "float_width option"

text \<open>What the recursion of \<open>flatten_nodes\<close> hands on unchanged, and what it changes from level to level.\<close>

record view_env =
  ve_project :: project
  ve_collapsed :: "row_id list"
  ve_expanded :: "row_id list"
  ve_deref :: "row_id \<rightharpoonup> usize \<times> bytes"

record level =
  lv_base :: usize
  lv_depth :: nat
  lv_buf :: bytes
  lv_parent_id :: row_id
  lv_owner :: uuid
  lv_parent_path :: "nat list"
  lv_visited :: "uuid set"
  lv_budget :: nat

definition class_instance_target :: "uuid_lib \<Rightarrow> node \<Rightarrow> uuid option" where
  "class_instance_target U n =
     (if type_tag n \<noteq> ''ClassInstance'' then None else instance_target U (to_node_def U n))"

text \<open>The loop of \<open>read_float_components\<close>: \<open>None\<close> is the early return with no components.\<close>

fun float_components_from :: "bytes \<Rightarrow> usize \<Rightarrow> float_width \<Rightarrow> nat \<Rightarrow> nat \<Rightarrow> sfloat list option" where
  "float_components_from buf offset w i 0 = Some []"
| "float_components_from buf offset w i (Suc n) =
     (let wsz = FloatWidth_size w
      in case checked_add offset (i * wsz) of
           None \<Rightarrow> None
         | Some start \<Rightarrow>
             (case checked_add start wsz of
                None \<Rightarrow> None
              | Some e \<Rightarrow>
                  if e > length buf then None
                  else case FloatWidth_read w (slice buf start wsz) of
                         None \<Rightarrow> None
                       | Some v \<Rightarrow> map_option (Cons v) (float_components_from buf offset w (i + 1) n)))"

definition read_float_components :: "node \<Rightarrow> bytes \<Rightarrow> usize \<Rightarrow> sfloat list \<times> float_width option" where
  "read_float_components n buf offset =
     (let tag = type_tag n;
          shape = (case vector_shape tag of
                     Some (c, w) \<Rightarrow> Some (c, w)
                   | None \<Rightarrow> (case matrix_shape tag of Some (r, c, w) \<Rightarrow> Some (r * c, w) | None \<Rightarrow> None))
      in case shape of
           None \<Rightarrow> ([], None)
         | Some (cnt, w) \<Rightarrow>
             ((case float_components_from buf offset w 0 cnt of Some vs \<Rightarrow> vs | None \<Rightarrow> []), Some w))"

definition child_id :: "row_id \<Rightarrow> nat \<Rightarrow> row_id" where
  "child_id parent_id i = (if parent_id = [] then format_dec i else parent_id @ ''.'' @ format_dec i)"

text \<open>The size a row counts for: an instance of a class on the path from the root counts for nothing.\<close>

definition row_size :: "uuid_lib \<Rightarrow> project \<Rightarrow> uuid set \<Rightarrow> node \<Rightarrow> usize" where
  "row_size U p visited n =
     (if type_tag n = ''ClassInstance'' then
        (case class_instance_target U n of
           None \<Rightarrow> 0
         | Some t \<Rightarrow>
             (case get_class p t of
                None \<Rightarrow> 0
              | Some tc \<Rightarrow> if t \<notin> visited then resolved_class_size U p {} tc else 0))
      else memory_size n)"

definition node_row :: "uuid_lib \<Rightarrow> view_env \<Rightarrow> level \<Rightarrow> nat \<Rightarrow> usize \<Rightarrow> node \<Rightarrow> node_snapshot" where
  "node_row U env lv i cur_offset n =
     \<lparr>sn_address = wrapping_add (lv_base lv) cur_offset, sn_offset = cur_offset, sn_depth = lv_depth lv,
      sn_id_path = child_id (lv_parent_id lv) i, sn_rendered = render U n (lv_buf lv) cur_offset,
      sn_has_children = (node_children n \<noteq> [] \<or> class_instance_target U n \<noteq> None \<or> pointer_target_class n \<noteq> None),
      sn_type_tag = type_tag n, sn_name = node_name n, sn_comment = node_comment n,
      sn_memory_size = row_size U (ve_project env) (lv_visited lv) n,
      sn_pointer_target = pointer_target_class n, sn_owner_class = lv_owner lv, sn_local_path = lv_parent_path lv @ [i],
      sn_components = fst (read_float_components n (lv_buf lv) cur_offset),
      sn_float_width = snd (read_float_components n (lv_buf lv) cur_offset)\<rparr>"

text \<open>The level below a node: its own children, the class of an instance, the target of an expanded pointer.\<close>

definition static_level :: "level \<Rightarrow> nat \<Rightarrow> level" where
  "static_level lv i =
     lv\<lparr>lv_depth := lv_depth lv + 1, lv_parent_id := child_id (lv_parent_id lv) i,
        lv_parent_path := lv_parent_path lv @ [i], lv_budget := lv_budget lv - 1\<rparr>"

definition instance_level :: "level \<Rightarrow> nat \<Rightarrow> uuid \<Rightarrow> level" where
  "instance_level lv i t =
     lv\<lparr>lv_depth := lv_depth lv + 1, lv_parent_id := child_id (lv_parent_id lv) i, lv_owner := t,
        lv_parent_path := [], lv_visited := insert t (lv_visited lv), lv_budget := lv_budget lv - 1\<rparr>"

definition pointer_level :: "level \<Rightarrow> nat \<Rightarrow> uuid \<Rightarrow> usize \<Rightarrow> bytes \<Rightarrow> level" where
  "pointer_level lv i t deref_addr dbuf =
     lv\<lparr>lv_base := deref_addr, lv_depth := lv_depth lv + 1, lv_buf := dbuf, lv_parent_id := child_id (lv_parent_id lv) i,
        lv_owner := t, lv_parent_path := [], lv_visited := insert t (lv_visited lv), lv_budget := lv_budget lv - 1\<rparr>"

text \<open>The conditions of the two inline expansions.\<close>

definition instance_expands :: "uuid_lib \<Rightarrow> view_env \<Rightarrow> level \<Rightarrow> nat \<Rightarrow> node \<Rightarrow> (uuid \<times> class_node) option" where
  "instance_expands U env lv i n =
     (case class_instance_target U n of
        None \<Rightarrow> None
      | Some t \<Rightarrow>
          if child_id (lv_parent_id lv) i \<notin> set (ve_collapsed env) \<and> t \<notin> lv_visited lv \<and> lv_budget lv > 0
          then map_option (Pair t) (get_class (ve_project env) t) else None)"

definition pointer_expands :: "view_env \<Rightarrow> level \<Rightarrow> nat \<Rightarrow> node \<Rightarrow> (uuid \<times> usize \<times> bytes \<times> class_node) option" where
  "pointer_expands env lv i n =
     (case pointer_target_class n of
        None \<Rightarrow> None
      | Some t \<Rightarrow>
          if child_id (lv_parent_id lv) i \<in> set (ve_expanded env) \<and> t \<notin> lv_visited lv \<and> lv_budget lv > 0
          then (case ve_deref env (child_id (lv_parent_id lv) i) of
                  None \<Rightarrow> None
                | Some (deref_addr, dbuf) \<Rightarrow> map_option (\<lambda>tc. (t, deref_addr, dbuf, tc)) (get_class (ve_project env) t))
          else None)"

lemma size_list_node_children: "size_list size (node_children n) < size_list size (n # ns)"
proof (cases n)
  case (ClassChild cl)
  then show ?thesis by (cases cl) simp
qed simp_all

text \<open>
  \<open>flatten_nodes\<close>, from the child with index \<open>i\<close> at \<open>cur_offset\<close>. Termination: an inline expansion spends budget, the
  children of a node are smaller than it.
\<close>

function flatten_from :: "uuid_lib \<Rightarrow> view_env \<Rightarrow> level \<Rightarrow> nat \<Rightarrow> usize \<Rightarrow> node list \<Rightarrow> node_snapshot list" where
  "flatten_from U env lv i cur_offset [] = []"
| "flatten_from U env lv i cur_offset (n # ns) =
     node_row U env lv i cur_offset n
     # (if node_children n \<noteq> [] then flatten_from U env (static_level lv i) 0 cur_offset (node_children n) else [])
     @ (case instance_expands U env lv i n of
          None \<Rightarrow> []
        | Some (t, tc) \<Rightarrow> flatten_from U env (instance_level lv i t) 0 cur_offset (cl_children tc))
     @ (case pointer_expands env lv i n of
          None \<Rightarrow> []
        | Some (t, deref_addr, dbuf, tc) \<Rightarrow>
            flatten_from U env (pointer_level lv i t deref_addr dbuf) 0 0 (cl_children tc))
     @ flatten_from U env lv (i + 1) (wrapping_add cur_offset (row_size U (ve_project env) (lv_visited lv) n)) ns"
  by pat_completeness auto

lemma instance_expands_budget: "instance_expands U env lv i n = Some e \<Longrightarrow> 0 < lv_budget lv"
  by (auto simp: instance_expands_def split: option.splits if_splits)

lemma pointer_expands_budget: "pointer_expands env lv i n = Some e \<Longrightarrow> 0 < lv_budget lv"
  by (auto simp: pointer_expands_def split: option.splits if_splits)

termination flatten_from
proof (relation "measures [\<lambda>(U, env, lv, i, off, ns). lv_budget lv, \<lambda>(U, env, lv, i, off, ns). size_list size ns]", goal_cases)
  case (2 U env lv i cur_offset n ns)
  then show ?case using size_list_node_children[of n ns] by (auto simp: static_level_def)
next
  case (3 U env lv i cur_offset n ns x2 x y)
  then show ?case by (simp add: instance_level_def instance_expands_budget)
next
  case (4 U env lv i cur_offset n ns x2 x y)
  then show ?case by (auto simp: pointer_level_def dest: pointer_expands_budget)
qed simp_all

declare flatten_from.simps(2) [simp del]

definition flatten_nodes :: "uuid_lib \<Rightarrow> view_env \<Rightarrow> level \<Rightarrow> usize \<Rightarrow> node list \<Rightarrow> node_snapshot list" where
  "flatten_nodes U env lv base_offset children = flatten_from U env lv 0 base_offset children"

section \<open>The buffers behind expanded pointers\<close>

definition MAX_DEREF_DEPTH :: nat where
  "MAX_DEREF_DEPTH = 8"

definition root_level :: "usize \<Rightarrow> bytes \<Rightarrow> uuid \<Rightarrow> level" where
  "root_level base buf u =
     \<lparr>lv_base = base, lv_depth = 0, lv_buf = buf, lv_parent_id = [], lv_owner = u, lv_parent_path = [],
      lv_visited = {}, lv_budget = MAX_DEREF_DEPTH\<rparr>"

definition view_rows :: "uuid_lib \<Rightarrow> view_env \<Rightarrow> usize \<Rightarrow> bytes \<Rightarrow> uuid \<Rightarrow> node_snapshot list" where
  "view_rows U env base buf u =
     (case get_class (ve_project env) u of
        None \<Rightarrow> []
      | Some cl \<Rightarrow> flatten_nodes U env (root_level base buf u) 0 (cl_children cl))"

definition read_process_buf :: "process_reader \<Rightarrow> usize \<Rightarrow> nat \<Rightarrow> bytes" where
  "read_process_buf rd addr sz =
     (if sz = 0 then []
      else case rd addr sz of
             Inl _ \<Rightarrow> replicate sz 0
           | Inr bs \<Rightarrow> bs @ replicate (sz - length bs) 0)"

definition read_pointer :: "process_reader \<Rightarrow> usize \<Rightarrow> usize" where
  "read_pointer rd addr =
     (case rd addr 8 of Inl _ \<Rightarrow> 0 | Inr bs \<Rightarrow> if length bs \<ge> 8 then le_nat (take 8 bs) else 0)"

definition needs_deref :: "view_env \<Rightarrow> node_snapshot \<Rightarrow> bool" where
  "needs_deref env s \<longleftrightarrow>
     sn_type_tag s = ''Pointer'' \<and> sn_pointer_target s \<noteq> None \<and> sn_id_path s \<in> set (ve_expanded env)
     \<and> ve_deref env (sn_id_path s) = None"

definition needed_pointers :: "view_env \<Rightarrow> node_snapshot list \<Rightarrow> (row_id \<times> usize \<times> uuid) list" where
  "needed_pointers env rows =
     map (\<lambda>s. (sn_id_path s, sn_address s, the (sn_pointer_target s))) (filter (needs_deref env) rows)"

definition deref_entry :: "uuid_lib \<Rightarrow> process_reader \<Rightarrow> project \<Rightarrow> usize \<Rightarrow> uuid \<Rightarrow> usize \<times> bytes" where
  "deref_entry U rd p addr t =
     (let deref_addr = read_pointer rd addr
      in if deref_addr = 0 then (0, [])
         else
           let target_size = (case get_class p t of None \<Rightarrow> 0 | Some tc \<Rightarrow> resolved_class_size U p {} tc)
           in (deref_addr, if target_size > 0 then read_process_buf rd deref_addr target_size else []))"

definition fill_deref :: "uuid_lib \<Rightarrow> process_reader \<Rightarrow> view_env \<Rightarrow> (row_id \<times> usize \<times> uuid) list \<Rightarrow> view_env" where
  "fill_deref U rd env needed =
     env\<lparr>ve_deref := foldl (\<lambda>d (i, addr, t). d(i \<mapsto> deref_entry U rd (ve_project env) addr t)) (ve_deref env) needed\<rparr>"

definition fill_null :: "view_env \<Rightarrow> (row_id \<times> usize \<times> uuid) list \<Rightarrow> view_env" where
  "fill_null env needed = env\<lparr>ve_deref := foldl (\<lambda>d (i, addr, t). d(i \<mapsto> (0, []))) (ve_deref env) needed\<rparr>"

lemma dom_fold_deref: "dom (foldl (\<lambda>d (i, addr, t). d(i \<mapsto> f addr t)) d needed) = dom d \<union> fst ` set needed"
  by (induction needed arbitrary: d) auto

lemma fill_deref_fields [simp]:
  "ve_project (fill_deref U rd env needed) = ve_project env" "ve_collapsed (fill_deref U rd env needed) = ve_collapsed env"
  "ve_expanded (fill_deref U rd env needed) = ve_expanded env"
  by (simp_all add: fill_deref_def)

lemma needed_pointers_new:
  "(i, addr, t) \<in> set (needed_pointers env rows) \<Longrightarrow> i \<in> set (ve_expanded env) \<and> ve_deref env i = None"
  by (auto simp: needed_pointers_def needs_deref_def)

text \<open>
  The loop of \<open>rebuild_snapshots_from_buf\<close>: flatten, read the pointers that are expanded and have no buffer yet, and
  flatten again. Termination: every further pass gives one more expanded row a buffer.
\<close>

function rebuild_loop :: "uuid_lib \<Rightarrow> process_reader option \<Rightarrow> usize \<Rightarrow> bytes \<Rightarrow> uuid \<Rightarrow> view_env \<Rightarrow> node_snapshot list \<times> view_env" where
  "rebuild_loop U proc base buf u env =
     (let rows = view_rows U env base buf u;
          needed = needed_pointers env rows
      in if needed = [] then (rows, env)
         else case proc of
                None \<Rightarrow> (rows, fill_null env needed)
              | Some rd \<Rightarrow> rebuild_loop U proc base buf u (fill_deref U rd env needed))"
  by pat_completeness auto

lemma fill_deref_progress:
  assumes "needed_pointers env rows \<noteq> []"
  shows "card (set (ve_expanded env) - dom (ve_deref (fill_deref U rd env (needed_pointers env rows))))
    < card (set (ve_expanded env) - dom (ve_deref env))"
proof (rule psubset_card_mono)
  obtain i addr t where e: "(i, addr, t) \<in> set (needed_pointers env rows)"
    using assms by (cases "needed_pointers env rows") auto
  then have "i \<in> fst ` set (needed_pointers env rows)" by force
  moreover have "i \<in> set (ve_expanded env) - dom (ve_deref env)" using needed_pointers_new[OF e] by auto
  moreover have "dom (ve_deref (fill_deref U rd env (needed_pointers env rows)))
      = dom (ve_deref env) \<union> fst ` set (needed_pointers env rows)"
    by (simp add: fill_deref_def dom_fold_deref)
  ultimately show "set (ve_expanded env) - dom (ve_deref (fill_deref U rd env (needed_pointers env rows)))
      \<subset> set (ve_expanded env) - dom (ve_deref env)" by auto
qed simp

termination rebuild_loop
  by (relation "measure (\<lambda>(U, proc, base, buf, u, env). card (set (ve_expanded env) - dom (ve_deref env)))")
    (simp_all add: fill_deref_progress)

declare rebuild_loop.simps [simp del]

text \<open>The pass over the string pointers: their text is read behind the pointer.\<close>

definition STR_PTR_MAX :: nat where
  "STR_PTR_MAX = 256"

definition strptr_value :: "process_reader \<Rightarrow> usize \<Rightarrow> utext" where
  "strptr_value rd addr =
     (let target = read_pointer rd addr
      in if target = 0 then codes ''0x0 '' @ [0x2192] @ codes '' (null)''
         else
           let bs = read_process_buf rd target STR_PTR_MAX
           in codes ''0x'' @ codes (format_HEX target) @ codes '' '' @ [0x2192] @ codes '' ''
              @ quoted (from_utf8_lossy (takeWhile (\<lambda>b. b \<noteq> 0) bs)))"

definition strptr_row :: "process_reader \<Rightarrow> node_snapshot \<Rightarrow> node_snapshot" where
  "strptr_row rd s =
     (if sn_type_tag s \<noteq> ''StrPtr'' then s
      else s\<lparr>sn_rendered := (sn_rendered s)\<lparr>rv_value := strptr_value rd (sn_address s)\<rparr>\<rparr>)"

definition rebuild_snapshots :: "uuid_lib \<Rightarrow> process_reader option \<Rightarrow> usize \<Rightarrow> bytes \<Rightarrow> uuid \<Rightarrow> view_env \<Rightarrow> node_snapshot list" where
  "rebuild_snapshots U proc base buf u env =
     (let rows = fst (rebuild_loop U proc base buf u (env\<lparr>ve_deref := Map.empty\<rparr>))
      in case proc of None \<Rightarrow> rows | Some rd \<Rightarrow> map (strptr_row rd) rows)"

section \<open>Visible rows\<close>

text \<open>\<open>split('.')\<close> and \<open>join(".")\<close>\<close>

fun split_dots :: "string \<Rightarrow> string list" where
  "split_dots [] = [[]]"
| "split_dots (c # cs) =
     (if c = CHR ''.'' then [] # split_dots cs
      else (c # hd (split_dots cs)) # tl (split_dots cs))"

fun join_dots :: "string list \<Rightarrow> string" where
  "join_dots [] = []"
| "join_dots [x] = x"
| "join_dots (x # y # zs) = x @ ''.'' @ join_dots (y # zs)"

definition row_hidden :: "row_id list \<Rightarrow> row_id \<Rightarrow> bool" where
  "row_hidden collapsed i =
     (let parts = split_dots i
      in list_ex (\<lambda>len. join_dots (take len parts) \<in> set collapsed) [1..<length parts])"

definition build_visible_rows :: "node_snapshot list \<Rightarrow> row_id list \<Rightarrow> nat list" where
  "build_visible_rows snapshots collapsed =
     filter (\<lambda>k. \<not> row_hidden collapsed (sn_id_path (snapshots ! k))) [0..<length snapshots]"

record vtable_method_row =
  vm_slot :: nat
  vm_fn_ptr :: nat
  vm_symbol :: "utext option"

record disasm_row =
  dr_address :: nat
  dr_bytes_hex :: string
  dr_instruction :: utext
  dr_target :: "nat option"

datatype live_entry = LiveVtable "vtable_method_row list" | LiveDisasm "disasm_row list" | LiveNotAttached

datatype view_row =
    Snap nat
  | MatrixRow nat nat
  | VtableMethod row_id nat vtable_method_row
  | DisasmInsn row_id nat disasm_row
  | NotAttached row_id nat

definition matrix_rows :: "row_id list \<Rightarrow> nat \<Rightarrow> node_snapshot \<Rightarrow> view_row list" where
  "matrix_rows collapsed snap_idx s =
     (case matrix_shape (sn_type_tag s) of
        None \<Rightarrow> []
      | Some (rows, cols, w) \<Rightarrow>
          if sn_id_path s \<notin> set collapsed \<and> length (sn_components s) = rows * cols
          then map (MatrixRow snap_idx) [0..<rows] else [])"

definition live_rows :: "row_id list \<Rightarrow> (row_id \<rightharpoonup> live_entry) \<Rightarrow> node_snapshot \<Rightarrow> view_row list" where
  "live_rows collapsed live_cache s =
     (if sn_type_tag s \<in> {''VTable'', ''Function'', ''FunctionPtr''} \<and> sn_id_path s \<notin> set collapsed then
        (case live_cache (sn_id_path s) of
           None \<Rightarrow> []
         | Some (LiveVtable methods) \<Rightarrow> map (VtableMethod (sn_id_path s) (sn_depth s)) methods
         | Some (LiveDisasm insns) \<Rightarrow> map (DisasmInsn (sn_id_path s) (sn_depth s)) insns
         | Some LiveNotAttached \<Rightarrow> [NotAttached (sn_id_path s) (sn_depth s)])
      else [])"

definition build_augmented_rows :: "node_snapshot list \<Rightarrow> row_id list \<Rightarrow> (row_id \<rightharpoonup> live_entry) \<Rightarrow> view_row list" where
  "build_augmented_rows snapshots collapsed live_cache =
     concat (map (\<lambda>k. Snap k # matrix_rows collapsed k (snapshots ! k) @ live_rows collapsed live_cache (snapshots ! k))
       (build_visible_rows snapshots collapsed))"

end
