(* ===== verification/Class_Rows.thy ===== *)
theory Class_Rows
  imports Class_View
begin

text \<open>
  What the rows of the class view are: their identifiers name their places, their paths lead to the nodes they show,
  every expanded pointer has been followed when the rebuilding loop ends, every row shows the target's memory at its
  address, and the offsets agree with the layout of the generators.
\<close>

section \<open>Row identifiers\<close>

text \<open>An identifier is the text of a path of indices.\<close>

definition id_text :: "nat list \<Rightarrow> row_id" where
  "id_text ks = join_dots (map format_dec ks)"

lemma dec_digit_no_dot: "CHR ''.'' \<notin> set (format_dec n)"
proof
  assume "CHR ''.'' \<in> set (format_dec n)"
  then have "of_char (CHR ''.'') \<in> set (codes (format_dec n))" by (force simp: codes_def)
  from format_dec_chars[OF this] show False by simp
qed

lemma format_dec_not_Nil [simp]: "format_dec n \<noteq> []"
  by (simp add: format_dec_def)

lemma format_dec_inject [simp]: "format_dec m = format_dec n \<longleftrightarrow> m = n"
  by (metis digits_value_format(1) option.inject)

lemma join_dots_snoc: "ks \<noteq> [] \<Longrightarrow> join_dots (ks @ [k]) = join_dots ks @ ''.'' @ k"
proof (induction ks rule: join_dots.induct)
  case (3 x y zs)
  then show ?case by simp
qed simp_all

lemma join_dots_Nil: "join_dots ks = [] \<longleftrightarrow> ks = [] \<or> ks = [[]]"
  by (induction ks rule: join_dots.induct) auto

lemma id_text_Nil [simp]: "id_text ks = [] \<longleftrightarrow> ks = []"
  by (auto simp: id_text_def join_dots_Nil map_eq_Cons_conv)

lemma child_id_text [simp]: "child_id (id_text ks) i = id_text (ks @ [i])"
proof (cases "ks = []")
  case False
  then have "id_text ks \<noteq> []" by simp
  with False show ?thesis
    using join_dots_snoc[of "map format_dec ks" "format_dec i"] by (simp add: child_id_def id_text_def)
qed (simp add: child_id_def id_text_def)

lemma split_dots_not_Nil [simp]: "split_dots s \<noteq> []"
  by (induction s) simp_all

lemma split_dots_plain: "CHR ''.'' \<notin> set x \<Longrightarrow> split_dots x = [x]"
  by (induction x) auto

lemma split_dots_append: "CHR ''.'' \<notin> set x \<Longrightarrow> split_dots (x @ CHR ''.'' # s) = x # split_dots s"
  by (induction x) auto

lemma split_join: "ks \<noteq> [] \<Longrightarrow> (\<And>k. k \<in> set ks \<Longrightarrow> CHR ''.'' \<notin> set k) \<Longrightarrow> split_dots (join_dots ks) = ks"
  by (induction ks rule: join_dots.induct) (simp_all add: split_dots_plain split_dots_append)

lemma split_id_text: "ks \<noteq> [] \<Longrightarrow> split_dots (id_text ks) = map format_dec ks"
  unfolding id_text_def by (rule split_join) (auto simp: dec_digit_no_dot)

lemma id_text_inject [simp]: "id_text ks = id_text ls \<longleftrightarrow> ks = ls"
proof
  assume eq: "id_text ks = id_text ls"
  show "ks = ls"
  proof (cases "ks = [] \<or> ls = []")
    case True
    then show ?thesis using eq by (metis id_text_Nil)
  next
    case False
    then have "map format_dec ks = map format_dec ls" using eq split_id_text by metis
    then show ?thesis by (rule map_injective) (simp add: inj_def)
  qed
qed simp

section \<open>A row and the node it shows\<close>

text \<open>The children at a path of indices, and the node at a path of a class.\<close>

fun children_at :: "node list \<Rightarrow> nat list \<Rightarrow> node list option" where
  "children_at ns [] = Some ns"
| "children_at ns (i # path) = (if i < length ns then children_at (node_children (ns ! i)) path else None)"

definition node_at :: "project \<Rightarrow> uuid \<Rightarrow> nat list \<Rightarrow> node option" where
  "node_at p u path =
     (if path = [] then None
      else case get_class p u of
             None \<Rightarrow> None
           | Some cl \<Rightarrow>
               (case children_at (cl_children cl) (butlast path) of
                  None \<Rightarrow> None
                | Some ns \<Rightarrow> if last path < length ns then Some (ns ! last path) else None))"

lemma children_at_append: "children_at ns (p @ q) = Option.bind (children_at ns p) (\<lambda>ms. children_at ms q)"
  by (induction p arbitrary: ns) auto

definition level_ok :: "project \<Rightarrow> level \<Rightarrow> node list \<Rightarrow> bool" where
  "level_ok p lv ns \<longleftrightarrow>
     (\<exists>cl ks. get_class p (lv_owner lv) = Some cl \<and> children_at (cl_children cl) (lv_parent_path lv) = Some ns
       \<and> lv_parent_id lv = id_text ks)"

lemma level_ok_static: "level_ok p lv ns \<Longrightarrow> i < length ns \<Longrightarrow> level_ok p (static_level lv i) (node_children (ns ! i))"
  by (auto simp: level_ok_def static_level_def children_at_append)

lemma level_ok_instance: "level_ok p lv ns \<Longrightarrow> get_class p t = Some tc \<Longrightarrow> level_ok p (instance_level lv i t) (cl_children tc)"
  by (auto simp: level_ok_def instance_level_def)

lemma level_ok_pointer: "level_ok p lv ns \<Longrightarrow> get_class p t = Some tc \<Longrightarrow> level_ok p (pointer_level lv i t a b) (cl_children tc)"
  by (auto simp: level_ok_def pointer_level_def)

lemma level_ok_root: "get_class p u = Some cl \<Longrightarrow> level_ok p (root_level base buf u) (cl_children cl)"
  by (simp add: level_ok_def root_level_def) (metis id_text_Nil)

lemma instance_expands_Some:
  "instance_expands U env lv i n = Some (t, tc) \<Longrightarrow> class_instance_target U n = Some t \<and> get_class (ve_project env) t = Some tc
     \<and> t \<notin> lv_visited lv \<and> 0 < lv_budget lv"
  by (auto simp: instance_expands_def split: option.splits if_splits)

lemma pointer_expands_Some:
  "pointer_expands env lv i n = Some (t, a, b, tc) \<Longrightarrow> pointer_target_class n = Some t \<and> get_class (ve_project env) t = Some tc
     \<and> ve_deref env (child_id (lv_parent_id lv) i) = Some (a, b) \<and> child_id (lv_parent_id lv) i \<in> set (ve_expanded env)
     \<and> t \<notin> lv_visited lv \<and> 0 < lv_budget lv"
  by (auto simp: pointer_expands_def split: option.splits if_splits)

lemma set_flatten_Cons:
  "s \<in> set (flatten_from U env lv i off (n # ns)) \<longleftrightarrow>
     s = node_row U env lv i off n
     \<or> node_children n \<noteq> [] \<and> s \<in> set (flatten_from U env (static_level lv i) 0 off (node_children n))
     \<or> (\<exists>t tc. instance_expands U env lv i n = Some (t, tc)
          \<and> s \<in> set (flatten_from U env (instance_level lv i t) 0 off (cl_children tc)))
     \<or> (\<exists>t a b tc. pointer_expands env lv i n = Some (t, a, b, tc)
          \<and> s \<in> set (flatten_from U env (pointer_level lv i t a b) 0 0 (cl_children tc)))
     \<or> s \<in> set (flatten_from U env lv (i + 1) (wrapping_add off (row_size U (ve_project env) (lv_visited lv) n)) ns)"
  unfolding flatten_from.simps(2)
  by (cases "instance_expands U env lv i n"; cases "pointer_expands env lv i n") auto

text \<open>The rows of a level: a property \<open>Q\<close> of levels is carried to every row below.\<close>

lemma rows_induct:
  assumes row: "s \<in> set (flatten_from U env lv i off (drop i ns))" and start: "Q lv ns"
    and static: "\<And>lv ns i. Q lv ns \<Longrightarrow> i < length ns \<Longrightarrow> Q (static_level lv i) (node_children (ns ! i))"
    and inst: "\<And>lv ns i t tc. Q lv ns \<Longrightarrow> i < length ns \<Longrightarrow> instance_expands U env lv i (ns ! i) = Some (t, tc) \<Longrightarrow>
      Q (instance_level lv i t) (cl_children tc)"
    and ptr: "\<And>lv ns i t a b tc. Q lv ns \<Longrightarrow> i < length ns \<Longrightarrow> pointer_expands env lv i (ns ! i) = Some (t, a, b, tc) \<Longrightarrow>
      Q (pointer_level lv i t a b) (cl_children tc)"
  shows "\<exists>lv ns i off. Q lv ns \<and> i < length ns \<and> s = node_row U env lv i off (ns ! i)"
proof -
  have "\<lbrakk>U' = U; env' = env; Q lv all; ms = drop i all; s \<in> set (flatten_from U' env' lv i off ms)\<rbrakk>
      \<Longrightarrow> \<exists>lv ns i off. Q lv ns \<and> i < length ns \<and> s = node_row U env lv i off (ns ! i)" for U' env' lv i off ms all
  proof (induction U' env' lv i off ms arbitrary: all rule: flatten_from.induct)
    case (2 U' env' lv i off n ms)
    have len: "i < length all" using 2(8) by (metis drop_eq_Nil leI list.distinct(1))
    have at: "all ! i = n" "ms = drop (i + 1) all" using 2(8) len by (simp_all add: Cons_nth_drop_Suc[symmetric])
    from 2(9) consider "s = node_row U env lv i off n"
      | "node_children n \<noteq> []" "s \<in> set (flatten_from U env (static_level lv i) 0 off (node_children n))"
      | t tc where "instance_expands U env lv i n = Some (t, tc)"
          "s \<in> set (flatten_from U env (instance_level lv i t) 0 off (cl_children tc))"
      | t a b tc where "pointer_expands env lv i n = Some (t, a, b, tc)"
          "s \<in> set (flatten_from U env (pointer_level lv i t a b) 0 0 (cl_children tc))"
      | "s \<in> set (flatten_from U env lv (i + 1) (wrapping_add off (row_size U (ve_project env) (lv_visited lv) n)) ms)"
      unfolding \<open>U' = U\<close> \<open>env' = env\<close> set_flatten_Cons by blast
    then show ?case
    proof cases
      case 1
      then show ?thesis using 2(7) len at(1) by blast
    next
      case c: 2
      from 2(1)[OF _ 2(5,6), of "node_children n"] c 2(5,6) static[OF 2(7) len] show ?thesis by (simp add: at)
    next
      case c: 3
      from 2(2)[OF _ refl 2(5,6), of t tc "cl_children tc"] c 2(5,6) inst[OF 2(7) len] show ?thesis by (simp add: at)
    next
      case c: 4
      from 2(3)[OF _ refl refl refl 2(5,6), of t a b tc "cl_children tc"] c 2(5,6) ptr[OF 2(7) len] show ?thesis by (simp add: at)
    next
      case 5
      with 2(4)[OF 2(5,6), of all] 2(5-7) at show ?thesis by simp
    qed
  qed simp
  from this[OF refl refl start refl row] show ?thesis .
qed

lemma node_at_level:
  assumes "level_ok p lv ns" "i < length ns"
  shows "node_at p (lv_owner lv) (lv_parent_path lv @ [i]) = Some (ns ! i)"
  using assms by (auto simp: level_ok_def node_at_def)

lemma rows_locate_aux:
  assumes "s \<in> set (view_rows U env base buf u)"
  shows "\<exists>lv ns i off. level_ok (ve_project env) lv ns \<and> i < length ns \<and> s = node_row U env lv i off (ns ! i)"
proof (cases "get_class (ve_project env) u")
  case (Some cl)
  with assms have "s \<in> set (flatten_from U env (root_level base buf u) 0 0 (drop 0 (cl_children cl)))"
    by (simp add: view_rows_def flatten_nodes_def)
  then show ?thesis
  proof (rule rows_induct)
    show "level_ok (ve_project env) (root_level base buf u) (cl_children cl)" by (rule level_ok_root[OF Some])
  qed (blast intro: level_ok_static level_ok_instance level_ok_pointer dest: instance_expands_Some pointer_expands_Some)+
qed (use assms in \<open>simp add: view_rows_def\<close>)

text \<open>What a row tells of its node.\<close>

definition shows_node :: "node_snapshot \<Rightarrow> node \<Rightarrow> bool" where
  "shows_node s n \<longleftrightarrow>
     sn_type_tag s = type_tag n \<and> sn_name s = node_name n \<and> sn_comment s = node_comment n
     \<and> sn_pointer_target s = pointer_target_class n \<and> rv_type_tag (sn_rendered s) = type_tag n"

lemma node_row_shows: "shows_node (node_row U env lv i off n) n"
  by (simp add: shows_node_def node_row_def render_tag)

lemma rows_locate:
  assumes "s \<in> set (view_rows U env base buf u)"
  shows "\<exists>n. node_at (ve_project env) (sn_owner_class s) (sn_local_path s) = Some n \<and> shows_node s n"
proof -
  obtain lv ns i off where "level_ok (ve_project env) lv ns" "i < length ns" "s = node_row U env lv i off (ns ! i)"
    using rows_locate_aux[OF assms] by blast
  then show ?thesis using node_at_level node_row_shows by (auto simp: node_row_def)
qed

section \<open>Identifiers are distinct\<close>

text \<open>Below a level whose identifier is the text of \<open>ks\<close>, the rows from index \<open>i\<close> have identifiers under \<open>ks @ [j]\<close> with \<open>i \<le> j\<close>.\<close>

definition under :: "nat list \<Rightarrow> nat \<Rightarrow> row_id set" where
  "under ks i = {id_text (ks @ j # r) | j r. i \<le> j}"

lemma under_mono: "under (ks @ [i]) j \<subseteq> under ks i"
  by (auto simp: under_def)

lemma under_Suc: "under ks (Suc i) \<subseteq> under ks i"
  by (auto simp: under_def)

lemma under_self: "id_text (ks @ [i]) \<in> under ks i" "id_text (ks @ [i]) \<notin> under (ks @ [i]) j" "id_text (ks @ [i]) \<notin> under ks (Suc i)"
  by (auto simp: under_def)

lemma under_disjoint: "under (ks @ [i]) j \<inter> under ks (Suc i) = {}"
  by (auto simp: under_def)

lemma children_no_expansion:
  "node_children n \<noteq> [] \<Longrightarrow> instance_expands U env lv i n = None \<and> pointer_expands env lv i n = None"
  by (cases n) (simp_all add: instance_expands_def class_instance_target_def pointer_expands_def pointer_target_class_def)

lemma one_expansion: "instance_expands U env lv i n \<noteq> None \<Longrightarrow> pointer_expands env lv i n = None"
  by (cases n) (simp_all add: instance_expands_def class_instance_target_def pointer_expands_def pointer_target_class_def)

lemma level_parent_ids [simp]:
  "lv_parent_id (static_level lv i) = child_id (lv_parent_id lv) i"
  "lv_parent_id (instance_level lv i t) = child_id (lv_parent_id lv) i"
  "lv_parent_id (pointer_level lv i t a b) = child_id (lv_parent_id lv) i"
  by (simp_all add: static_level_def instance_level_def pointer_level_def)

lemma distinct_three:
  "distinct ys \<Longrightarrow> set ys \<subseteq> X \<Longrightarrow> distinct zs \<Longrightarrow> set zs \<subseteq> Y \<Longrightarrow> x \<notin> X \<Longrightarrow> x \<notin> Y \<Longrightarrow> X \<inter> Y = {} \<Longrightarrow> distinct (x # ys @ zs)"
  by auto

lemma flatten_ids:
  "lv_parent_id lv = id_text ks \<Longrightarrow>
   distinct (map sn_id_path (flatten_from U env lv i off ns)) \<and> sn_id_path ` set (flatten_from U env lv i off ns) \<subseteq> under ks i"
proof (induction U env lv i off ns arbitrary: ks rule: flatten_from.induct)
  case (2 U env lv i off n ns)
  let ?row = "node_row U env lv i off n"
  let ?below = "(if node_children n \<noteq> [] then flatten_from U env (static_level lv i) 0 off (node_children n) else [])
     @ (case instance_expands U env lv i n of
          None \<Rightarrow> []
        | Some (t, tc) \<Rightarrow> flatten_from U env (instance_level lv i t) 0 off (cl_children tc))
     @ (case pointer_expands env lv i n of
          None \<Rightarrow> []
        | Some (t, a, b, tc) \<Rightarrow> flatten_from U env (pointer_level lv i t a b) 0 0 (cl_children tc))"
  let ?rest = "flatten_from U env lv (i + 1) (wrapping_add off (row_size U (ve_project env) (lv_visited lv) n)) ns"
  have id: "sn_id_path ?row = id_text (ks @ [i])" by (simp add: node_row_def 2(5))
  have below: "distinct (map sn_id_path ?below) \<and> sn_id_path ` set ?below \<subseteq> under (ks @ [i]) 0"
  proof (cases "node_children n = []")
    case False
    then show ?thesis using 2(1)[OF False, of "ks @ [i]"] children_no_expansion[OF False, of U env lv i] by (simp add: 2(5))
  next
    case leaf: True
    show ?thesis
    proof (cases "instance_expands U env lv i n")
      case None
      show ?thesis
      proof (cases "pointer_expands env lv i n")
        case (Some e)
        obtain t a b tc where e: "e = (t, a, b, tc)" by (cases e) auto
        from 2(3)[OF Some, of t _ a _ b tc "ks @ [i]"] show ?thesis by (simp add: leaf None Some e 2(5))
      qed (simp add: leaf None)
    next
      case (Some e)
      obtain t tc where e: "e = (t, tc)" by (cases e) auto
      from 2(2)[OF Some, of t tc "ks @ [i]"] one_expansion[of U env lv i n] show ?thesis by (simp add: leaf Some e 2(5))
    qed
  qed
  have rest: "distinct (map sn_id_path ?rest) \<and> sn_id_path ` set ?rest \<subseteq> under ks (Suc i)"
    using 2(4)[OF 2(5)] by simp
  have eq: "flatten_from U env lv i off (n # ns) = ?row # ?below @ ?rest" by (simp add: flatten_from.simps(2))
  have ids: "map sn_id_path (?row # ?below @ ?rest) = id_text (ks @ [i]) # map sn_id_path ?below @ map sn_id_path ?rest"
    by (simp only: list.map(2) map_append id)
  have "distinct (map sn_id_path (?row # ?below @ ?rest))"
    unfolding ids
  proof (rule distinct_three[where X = "under (ks @ [i]) 0" and Y = "under ks (Suc i)"])
    show "distinct (map sn_id_path ?below)" "set (map sn_id_path ?below) \<subseteq> under (ks @ [i]) 0"
      using below by (simp_all only: set_map)
    show "distinct (map sn_id_path ?rest)" "set (map sn_id_path ?rest) \<subseteq> under ks (Suc i)"
      using rest by (simp_all only: set_map)
  qed (rule under_self under_disjoint)+
  moreover have "sn_id_path ` set (?row # ?below @ ?rest)
      = insert (id_text (ks @ [i])) (sn_id_path ` set ?below \<union> sn_id_path ` set ?rest)"
    by (simp only: list.set(2) set_append[of ?below ?rest] image_insert image_Un[of sn_id_path "set ?below"] id)
  moreover have "\<dots> \<subseteq> under ks i"
    using conjunct2[OF below] conjunct2[OF rest] under_self(1)[of ks i] under_mono[of ks i 0] under_Suc[of ks i]
    by (intro insert_subsetI Un_least) (assumption | rule order_trans)+
  ultimately show ?case unfolding eq by (simp only:)
qed simp

lemma view_ids_distinct: "distinct (map sn_id_path (view_rows U env base buf u))"
proof -
  have "lv_parent_id (root_level base buf u) = id_text []" by (simp add: root_level_def id_text_def)
  from flatten_ids[OF this] show ?thesis by (auto simp: view_rows_def flatten_nodes_def split: option.split)
qed

lemma view_row_unique:
  "s \<in> set (view_rows U env base buf u) \<Longrightarrow> s' \<in> set (view_rows U env base buf u) \<Longrightarrow> sn_id_path s = sn_id_path s' \<Longrightarrow> s = s'"
  using view_ids_distinct by (metis distinct_map inj_onD)

section \<open>Expanded pointers\<close>

text \<open>More buffers give more rows.\<close>

definition more_deref :: "view_env \<Rightarrow> view_env \<Rightarrow> bool" where
  "more_deref env env' \<longleftrightarrow>
     ve_project env = ve_project env' \<and> ve_collapsed env = ve_collapsed env' \<and> ve_expanded env = ve_expanded env'
     \<and> ve_deref env \<subseteq>\<^sub>m ve_deref env'"

lemma more_deref_row: "more_deref env env' \<Longrightarrow> node_row U env lv i off n = node_row U env' lv i off n"
  by (simp add: more_deref_def node_row_def)

lemma more_deref_instance: "more_deref env env' \<Longrightarrow> instance_expands U env lv i n = instance_expands U env' lv i n"
  unfolding instance_expands_def more_deref_def by metis

lemma more_deref_pointer:
  assumes "more_deref env env'" "pointer_expands env lv i n = Some e"
  shows "pointer_expands env' lv i n = Some e"
proof -
  obtain t a b tc where e: "e = (t, a, b, tc)" by (cases e) auto
  have "ve_deref env' (child_id (lv_parent_id lv) i) = Some (a, b)"
    using assms pointer_expands_Some[of env lv i n t a b tc] by (auto simp: e more_deref_def map_le_def dom_def)
  with assms show ?thesis
    using pointer_expands_Some[of env lv i n t a b tc] by (auto simp: e pointer_expands_def more_deref_def)
qed

lemma more_deref_rows:
  "more_deref env env' \<Longrightarrow> set (flatten_from U env lv i off ns) \<subseteq> set (flatten_from U env' lv i off ns)"
proof (induction U env lv i off ns rule: flatten_from.induct)
  case (2 U env lv i off n ns)
  note same = more_deref_row[OF 2(5)] more_deref_instance[OF 2(5)]
  have p: "ve_project env' = ve_project env" using 2(5) by (simp add: more_deref_def)
  show ?case
  proof
    fix s assume "s \<in> set (flatten_from U env lv i off (n # ns))"
    then consider "s = node_row U env lv i off n"
      | "node_children n \<noteq> []" "s \<in> set (flatten_from U env (static_level lv i) 0 off (node_children n))"
      | t tc where "instance_expands U env lv i n = Some (t, tc)"
          "s \<in> set (flatten_from U env (instance_level lv i t) 0 off (cl_children tc))"
      | t a b tc where "pointer_expands env lv i n = Some (t, a, b, tc)"
          "s \<in> set (flatten_from U env (pointer_level lv i t a b) 0 0 (cl_children tc))"
      | "s \<in> set (flatten_from U env lv (i + 1) (wrapping_add off (row_size U (ve_project env) (lv_visited lv) n)) ns)"
      unfolding set_flatten_Cons by blast
    then show "s \<in> set (flatten_from U env' lv i off (n # ns))"
    proof cases
      case 1
      then show ?thesis unfolding set_flatten_Cons same by blast
    next
      case c: 2
      with 2(1)[OF c(1) 2(5)] show ?thesis unfolding set_flatten_Cons by blast
    next
      case c: 3
      with 2(2)[OF c(1) refl 2(5)] same(2) show ?thesis unfolding set_flatten_Cons by auto
    next
      case c: 4
      from subsetD[OF 2(3)[OF c(1) refl refl refl 2(5)] c(2)] more_deref_pointer[OF 2(5) c(1)]
      show ?thesis unfolding set_flatten_Cons by blast
    next
      case c: 5
      from subsetD[OF 2(4)[OF 2(5)] c] show ?thesis unfolding set_flatten_Cons p by blast
    qed
  qed
qed simp

lemma more_deref_view: "more_deref env env' \<Longrightarrow> set (view_rows U env base buf u) \<subseteq> set (view_rows U env' base buf u)"
  using more_deref_rows[of env env']
  by (cases "get_class (ve_project env') u") (simp_all add: view_rows_def flatten_nodes_def more_deref_def)

definition deref_ok :: "uuid_lib \<Rightarrow> process_reader \<Rightarrow> usize \<Rightarrow> bytes \<Rightarrow> uuid \<Rightarrow> view_env \<Rightarrow> bool" where
  "deref_ok U rd base buf u env \<longleftrightarrow>
     (\<forall>i e. ve_deref env i = Some e \<longrightarrow>
       (\<exists>s\<in>set (view_rows U env base buf u). \<exists>t. sn_id_path s = i \<and> sn_pointer_target s = Some t
          \<and> e = deref_entry U rd (ve_project env) (sn_address s) t))"

lemma deref_okD:
  assumes "deref_ok U rd base buf u env" "ve_deref env i = Some e"
  obtains s t where "s \<in> set (view_rows U env base buf u)" "sn_id_path s = i" "sn_pointer_target s = Some t"
    "e = deref_entry U rd (ve_project env) (sn_address s) t"
  using assms unfolding deref_ok_def by metis

lemma fold_deref_lookup:
  "foldl (\<lambda>d (i, addr, t). d(i \<mapsto> f addr t)) d needed i = Some e \<Longrightarrow>
   d i = Some e \<or> (\<exists>addr t. (i, addr, t) \<in> set needed \<and> e = f addr t)"
proof (induction needed arbitrary: d)
  case (Cons x needed)
  obtain j addr t where x: "x = (j, addr, t)" by (cases x) auto
  from Cons(1)[of "d(j \<mapsto> f addr t)"] Cons(2) show ?case by (auto simp: x split: if_splits)
qed simp

lemma fold_deref_old:
  "i \<notin> fst ` set needed \<Longrightarrow> foldl (\<lambda>d (i, addr, t). d(i \<mapsto> f addr t)) d needed i = d i"
  by (induction needed arbitrary: d) auto

lemma fill_deref_more: "more_deref env (fill_deref U rd env (needed_pointers env rows))"
proof -
  have "i \<notin> fst ` set (needed_pointers env rows)" if "ve_deref env i \<noteq> None" for i
    using that needed_pointers_new[of i _ _ env rows] by force
  then show ?thesis
    unfolding more_deref_def map_le_def fill_deref_fields by (auto simp: fill_deref_def fold_deref_old dom_def)
qed

lemma fill_deref_ok:
  assumes "deref_ok U rd base buf u env"
  shows "deref_ok U rd base buf u (fill_deref U rd env (needed_pointers env (view_rows U env base buf u)))"
    (is "deref_ok _ _ _ _ _ ?env")
  unfolding deref_ok_def
proof (intro allI impI)
  fix i e assume "ve_deref ?env i = Some e"
  then have "foldl (\<lambda>d (i, addr, t). d(i \<mapsto> deref_entry U rd (ve_project env) addr t)) (ve_deref env)
      (needed_pointers env (view_rows U env base buf u)) i = Some e" by (simp add: fill_deref_def)
  from fold_deref_lookup[OF this] consider "ve_deref env i = Some e"
    | addr t where "(i, addr, t) \<in> set (needed_pointers env (view_rows U env base buf u))" "e = deref_entry U rd (ve_project env) addr t"
    by auto
  then obtain s t where "s \<in> set (view_rows U env base buf u)" "sn_id_path s = i" "sn_pointer_target s = Some t"
      "e = deref_entry U rd (ve_project env) (sn_address s) t"
  proof cases
    case 1
    then show ?thesis using assms that unfolding deref_ok_def by blast
  next
    case 2
    then show ?thesis using that by (auto simp: needed_pointers_def needs_deref_def)
  qed
  then show "\<exists>s\<in>set (view_rows U ?env base buf u). \<exists>t. sn_id_path s = i \<and> sn_pointer_target s = Some t
      \<and> e = deref_entry U rd (ve_project ?env) (sn_address s) t"
    using more_deref_view[OF fill_deref_more, of U env base buf u U rd "view_rows U env base buf u"] by auto
qed

text \<open>The loop ends with a view in which every expanded pointer has its buffer.\<close>

lemma rebuild_attached:
  "rebuild_loop U (Some rd) base buf u env =
     (if needed_pointers env (view_rows U env base buf u) = [] then (view_rows U env base buf u, env)
      else rebuild_loop U (Some rd) base buf u (fill_deref U rd env (needed_pointers env (view_rows U env base buf u))))"
  by (subst rebuild_loop.simps) (simp add: Let_def)

lemma rebuild_loop_result:
  "proc = Some rd \<Longrightarrow> deref_ok U rd base buf u env \<Longrightarrow> rebuild_loop U proc base buf u env = (rows, env') \<Longrightarrow>
   rows = view_rows U env' base buf u \<and> needed_pointers env' rows = [] \<and> deref_ok U rd base buf u env'
   \<and> ve_project env' = ve_project env \<and> ve_collapsed env' = ve_collapsed env \<and> ve_expanded env' = ve_expanded env"
proof (induction U proc base buf u env rule: rebuild_loop.induct)
  case (1 U proc base buf u env)
  let ?rows = "view_rows U env base buf u"
  show ?case
  proof (cases "needed_pointers env ?rows = []")
    case True
    then have "rebuild_loop U proc base buf u env = (?rows, env)" by (simp add: 1(2) rebuild_attached[of U rd base buf u env])
    with 1(4) have res: "rows = ?rows" "env' = env" by (metis prod.inject)+
    show ?thesis unfolding res using 1(3) True by blast
  next
    case False
    have "rebuild_loop U proc base buf u (fill_deref U rd env (needed_pointers env ?rows)) = (rows, env')"
      using 1(4) False rebuild_attached[of U rd base buf u env] by (metis 1(2))
    from 1(1)[OF refl refl False 1(2) 1(2) fill_deref_ok[OF 1(3)] this] show ?thesis unfolding fill_deref_fields .
  qed
qed

lemma expanded_followed:
  assumes "rebuild_loop U (Some rd) base buf u (env\<lparr>ve_deref := Map.empty\<rparr>) = (rows, env')"
    and "s \<in> set rows" "sn_type_tag s = ''Pointer''" "sn_pointer_target s = Some t" "sn_id_path s \<in> set (ve_expanded env)"
  shows "ve_deref env' (sn_id_path s) = Some (deref_entry U rd (ve_project env) (sn_address s) t)"
proof -
  have "deref_ok U rd base buf u (env\<lparr>ve_deref := Map.empty\<rparr>)" by (simp add: deref_ok_def)
  note res = rebuild_loop_result[OF refl this assms(1)]
  have "\<not> needs_deref env' s" using res assms(2) by (auto simp: needed_pointers_def filter_empty_conv)
  then obtain e where e: "ve_deref env' (sn_id_path s) = Some e"
    using assms(3-5) res by (auto simp: needs_deref_def)
  then obtain s' t' where "s' \<in> set (view_rows U env' base buf u)" "sn_id_path s' = sn_id_path s" "sn_pointer_target s' = Some t'"
      "e = deref_entry U rd (ve_project env') (sn_address s') t'"
    using res unfolding deref_ok_def by blast
  moreover from this have "s' = s" using view_row_unique assms(2) res by metis
  ultimately show ?thesis using e res assms(4) by simp
qed

section \<open>Rows show the target's memory\<close>

lemma read_bytes_slice:
  "off + n \<le> length buf \<Longrightarrow> length buf \<le> USIZE_MAX \<Longrightarrow>
   read_bytes buf off n = Some (slice buf off n) \<and> read_bytes (slice buf off n) 0 n = Some (slice buf off n)"
  by (simp add: read_bytes_def checked_add_def slice_def)

lemma read_ptr_slice:
  "off + 8 \<le> length buf \<Longrightarrow> length buf \<le> USIZE_MAX \<Longrightarrow>
   read_ptr buf off = Some (le_nat (slice buf off 8)) \<and> read_ptr (slice buf off 8) 0 = Some (le_nat (slice buf off 8))"
  by (simp add: read_ptr_def checked_add_def slice_def)

lemma FloatWidth_read_slice: "length bs = FloatWidth_size w \<Longrightarrow> \<exists>v. FloatWidth_read w bs = Some v"
  by (simp add: FloatWidth_read_def)

lemma slice_slice: "a + n \<le> m \<Longrightarrow> slice (slice buf off m) a n = slice buf (off + a) n"
  by (simp add: slice_def drop_take drop_drop min_absorb1 add.commute[of a off])

lemma read_components_fits:
  "off + (i + n) * FloatWidth_size w \<le> length buf \<Longrightarrow> length buf \<le> USIZE_MAX \<Longrightarrow>
   read_components_from buf off w i n
     = map (\<lambda>j. the (FloatWidth_read w (slice buf (off + j * FloatWidth_size w) (FloatWidth_size w)))) [i..<i + n]"
proof (induction n arbitrary: i)
  case (Suc n)
  let ?w = "FloatWidth_size w"
  have fit: "off + i * ?w + ?w \<le> length buf" using Suc(2) by (simp add: algebra_simps)
  then have "length (slice buf (off + i * ?w) ?w) = ?w" by (simp add: slice_simps)
  then obtain v where "FloatWidth_read w (slice buf (off + i * ?w) ?w) = Some v" using FloatWidth_read_slice by blast
  moreover have "checked_add off (i * ?w) = Some (off + i * ?w)" "checked_add (off + i * ?w) ?w = Some (off + i * ?w + ?w)"
    using fit Suc(3) by (simp_all add: checked_add_def)
  moreover have "read_components_from buf off w (i + 1) n
      = map (\<lambda>j. the (FloatWidth_read w (slice buf (off + j * ?w) ?w))) [i + 1..<i + 1 + n]"
    using Suc(2) by (intro Suc(1) Suc(3)) (simp add: algebra_simps)
  moreover have "[i..<i + Suc n] = i # [i + 1..<i + 1 + n]" by (simp add: upt_conv_Cons)
  ultimately show ?case using fit unfolding read_components_from.simps(2) Let_def by (simp only: option.case list.map option.sel not_less[symmetric] if_False)
qed simp

text \<open>A node that lies inside the buffer renders the bytes of its place, and nothing else of the buffer.\<close>

lemma render_fits:
  assumes "off + memory_size n \<le> length buf" "length buf \<le> USIZE_MAX"
  shows "render U n buf off = render U n (slice buf off (memory_size n)) 0"
proof (cases n)
  case (SimpleNode k a b)
  then show ?thesis using assms read_bytes_slice[of off "simple_size k" buf] read_ptr_slice[of off buf]
    by (auto simp: VMethodNode_render_def FunctionPtrNode_render_def simple_render_def)
next
  case (VectorNode a b k w)
  have fit: "off + (0 + k) * FloatWidth_size w \<le> length buf" using assms(1) by (simp add: VectorNode)
  let ?bs = "slice buf off (k * FloatWidth_size w)"
  have len: "length ?bs = k * FloatWidth_size w" using fit by (simp add: slice_simps)
  have "slice ?bs (j * FloatWidth_size w) (FloatWidth_size w) = slice buf (off + j * FloatWidth_size w) (FloatWidth_size w)"
    if "j < k" for j
  proof (rule slice_slice)
    have "Suc j * FloatWidth_size w \<le> k * FloatWidth_size w" using that by (intro mult_le_mono1) simp
    then show "j * FloatWidth_size w + FloatWidth_size w \<le> k * FloatWidth_size w" by simp
  qed
  then have "read_components buf off k w = read_components ?bs 0 k w"
    using read_components_fits[OF fit assms(2)] read_components_fits[of 0 0 k w ?bs] len fit assms(2)
    by (simp add: read_components_def)
  then show ?thesis by (simp add: VectorNode VectorNode_render_def)
qed (use assms read_bytes_slice[of off _ buf] read_ptr_slice[of off buf] in
  \<open>simp_all add: PointerNode_render_def Utf8TextNode_render_def Utf16TextNode_render_def VTableNode_render_def FunctionNode_render_def\<close>)

text \<open>The bytes \<open>bs\<close> are what the memory holds from \<open>a\<close>; a read that gave all the bytes it was asked for.\<close>

definition bytes_of_memory :: "(usize \<rightharpoonup> u8) \<Rightarrow> usize \<Rightarrow> bytes \<Rightarrow> bool" where
  "bytes_of_memory mem a bs \<longleftrightarrow> (\<forall>k<length bs. mem (a + k) = Some (bs ! k))"

definition complete_read :: "process_reader \<Rightarrow> usize \<Rightarrow> nat \<Rightarrow> bool" where
  "complete_read rd a n \<longleftrightarrow> (case rd a n of Inl _ \<Rightarrow> False | Inr bs \<Rightarrow> length bs = n)"

text \<open>
  The buffers a view renders from: the bytes of the class itself, and, for a pointer row it shows, the bytes of the
  target class read through that pointer.
\<close>

definition view_buffer :: "uuid_lib \<Rightarrow> process_reader \<Rightarrow> project \<Rightarrow> node_snapshot list \<Rightarrow> usize \<Rightarrow> bytes \<Rightarrow> usize \<Rightarrow> bytes \<Rightarrow> bool" where
  "view_buffer U rd p rows base buf a b \<longleftrightarrow>
     a = base \<and> b = buf
     \<or> (\<exists>r\<in>set rows. \<exists>t. sn_pointer_target r = Some t \<and> (a, b) = deref_entry U rd p (sn_address r) t)"

lemma view_buffer_strptr: "view_buffer U rd p (map (strptr_row rd) rows) base buf a b = view_buffer U rd p rows base buf a b"
proof -
  have "sn_address (strptr_row rd r) = sn_address r" "sn_pointer_target (strptr_row rd r) = sn_pointer_target r" for r
    by (simp_all add: strptr_row_def)
  then show ?thesis by (simp add: view_buffer_def)
qed

text \<open>
  What the view relies on: a reader gives no more bytes than asked for, and only bytes of the memory. It may give
  fewer, or fail.
\<close>

locale memory_view =
  fixes rd :: process_reader and mem :: "usize \<rightharpoonup> u8"
  assumes read_short: "rd a n = Inr bs \<Longrightarrow> length bs \<le> n"
    and read_memory: "rd a n = Inr bs \<Longrightarrow> k < length bs \<Longrightarrow> mem (a + k) = Some (bs ! k)"
    and address_range: "mem a \<noteq> None \<Longrightarrow> a \<le> USIZE_MAX"
begin

lemma read_process_buf_memory:
  "length (read_process_buf rd a n) = n \<and> (complete_read rd a n \<longrightarrow> bytes_of_memory mem a (read_process_buf rd a n))"
proof (cases "rd a n")
  case (Inr bs)
  then show ?thesis using read_short[OF Inr] read_memory[OF Inr]
    by (auto simp: bytes_of_memory_def read_process_buf_def complete_read_def)
qed (simp add: complete_read_def read_process_buf_def)

lemma deref_entry_memory:
  assumes "(a, b) = deref_entry U rd p addr t"
  shows "length b \<le> USIZE_MAX \<and> (complete_read rd a (length b) \<longrightarrow> bytes_of_memory mem a b)"
proof -
  have size: "resolved_class_size U p {} tc \<le> USIZE_MAX" for tc
    by (simp add: resolved_class_size.simps[of U p] foldl_saturating_add)
  define sz where "sz = (case get_class p t of None \<Rightarrow> 0 | Some tc \<Rightarrow> resolved_class_size U p {} tc)"
  have "sz \<le> USIZE_MAX" using size by (simp add: sz_def split: option.split)
  moreover have "b = [] \<or> b = read_process_buf rd a sz"
    using assms by (auto simp: deref_entry_def Let_def sz_def split: if_splits)
  ultimately show ?thesis using read_process_buf_memory[of a sz] by (auto simp: bytes_of_memory_def)
qed

lemma view_buffer_memory:
  assumes "view_buffer U rd p rows base (read_process_buf rd base total_size) a b" "total_size \<le> USIZE_MAX"
  shows "length b \<le> USIZE_MAX \<and> (complete_read rd a (length b) \<longrightarrow> bytes_of_memory mem a b)"
  using assms read_process_buf_memory deref_entry_memory unfolding view_buffer_def by metis

text \<open>A field that lies inside its buffer is rendered of the bytes at its own address.\<close>

lemma field_shows_memory:
  assumes fits: "off + memory_size n \<le> length b" and len: "length b \<le> USIZE_MAX"
  shows "\<exists>bs. length bs = memory_size n \<and> render U n b off = render U n bs 0
    \<and> (bytes_of_memory mem a b \<longrightarrow> bytes_of_memory mem (wrapping_add a off) bs)"
proof (intro exI conjI impI)
  let ?bs = "slice b off (memory_size n)"
  show bs: "length ?bs = memory_size n" using fits by (simp add: slice_simps)
  show "render U n b off = render U n ?bs 0" by (rule render_fits[OF assms])
  assume m: "bytes_of_memory mem a b"
  have "mem (wrapping_add a off + k) = Some (?bs ! k)" if "k < memory_size n" for k
  proof -
    have at: "mem (a + (off + k)) = Some (?bs ! k)" using m that fits by (simp add: bytes_of_memory_def slice_simps)
    then have "a + (off + k) \<le> USIZE_MAX" using address_range by (metis option.distinct(1))
    then have "wrapping_add a off = a + off" by (simp add: wrapping_add_def USIZE_MAX_def)
    with at show ?thesis by (simp add: add.assoc)
  qed
  then show "bytes_of_memory mem (wrapping_add a off) ?bs" using bs by (simp add: bytes_of_memory_def)
qed

end

definition level_shows :: "(usize \<Rightarrow> bytes \<Rightarrow> bool) \<Rightarrow> level \<Rightarrow> bool" where
  "level_shows P lv \<longleftrightarrow> P (lv_base lv) (lv_buf lv)"

lemma level_shows_lower [simp]:
  "level_shows P (static_level lv i) = level_shows P lv" "level_shows P (instance_level lv i t) = level_shows P lv"
  "level_shows P (pointer_level lv i t a b) = P a b" "level_shows P (root_level base buf u) = P base buf"
  by (simp_all add: level_shows_def static_level_def instance_level_def pointer_level_def root_level_def)

text \<open>Every row is the row of a node, rendered from one of the view's buffers.\<close>

lemma rebuild_shows_buffer:
  assumes loop: "rebuild_loop U (Some rd) base buf u (env\<lparr>ve_deref := Map.empty\<rparr>) = (rows, env')" and s: "s \<in> set rows"
  shows "\<exists>n a b. node_at (ve_project env) (sn_owner_class s) (sn_local_path s) = Some n \<and> shows_node s n
    \<and> view_buffer U rd (ve_project env) rows base buf a b
    \<and> sn_address s = wrapping_add a (sn_offset s) \<and> sn_rendered s = render U n b (sn_offset s)"
proof -
  let ?P = "view_buffer U rd (ve_project env) rows base buf"
  have "deref_ok U rd base buf u (env\<lparr>ve_deref := Map.empty\<rparr>)" by (simp add: deref_ok_def)
  note res = rebuild_loop_result[OF refl this loop]
  then have "s \<in> set (view_rows U env' base buf u)" using s by simp
  then obtain cl where cl: "get_class (ve_project env') u = Some cl"
      "s \<in> set (flatten_from U env' (root_level base buf u) 0 0 (drop 0 (cl_children cl)))"
    by (cases "get_class (ve_project env') u") (simp_all add: view_rows_def flatten_nodes_def)
  have derefs: "?P a b" if "ve_deref env' i = Some (a, b)" for i a b
  proof -
    note d = that
    from res have "deref_ok U rd base buf u env'" by simp
    then obtain r t where "r \<in> set (view_rows U env' base buf u)" "sn_id_path r = i" "sn_pointer_target r = Some t"
        "(a, b) = deref_entry U rd (ve_project env') (sn_address r) t"
      by (rule deref_okD[OF _ d])
    then show ?thesis using res by (auto simp: view_buffer_def)
  qed
  have "\<exists>lv ns i off. (level_ok (ve_project env') lv ns \<and> level_shows ?P lv) \<and> i < length ns \<and> s = node_row U env' lv i off (ns ! i)"
    using cl(2)
  proof (rule rows_induct)
    show "level_ok (ve_project env') (root_level base buf u) (cl_children cl) \<and> level_shows ?P (root_level base buf u)"
      using level_ok_root[OF cl(1)] by (simp add: view_buffer_def)
  next
    fix lv ns i t a b tc assume l: "level_ok (ve_project env') lv ns \<and> level_shows ?P lv" and e: "pointer_expands env' lv i (ns ! i) = Some (t, a, b, tc)"
    from pointer_expands_Some[OF e] derefs l
    show "level_ok (ve_project env') (pointer_level lv i t a b) (cl_children tc) \<and> level_shows ?P (pointer_level lv i t a b)"
      using level_ok_pointer by (metis level_shows_lower(3))
  qed (simp_all, blast intro: level_ok_static, blast intro: level_ok_instance dest: instance_expands_Some)
  then obtain lv ns i off where lv: "level_ok (ve_project env') lv ns" "level_shows ?P lv" "i < length ns"
      "s = node_row U env' lv i off (ns ! i)" by blast
  then show ?thesis using node_at_level[OF lv(1,3)] node_row_shows[of U env' lv i off "ns ! i"] res
    by (intro exI[of _ "ns ! i"] exI[of _ "lv_base lv"] exI[of _ "lv_buf lv"]) (simp add: node_row_def level_shows_def)
qed

text \<open>The in-memory backend is such a reader; of its buffer, the part inside the address range counts.\<close>

definition in_range :: "mock_memory \<Rightarrow> mock_memory" where
  "in_range m = m\<lparr>mm_buf := take (USIZE_MAX + 1 - mm_base m) (mm_buf m)\<rparr>"

interpretation mock_view: memory_view "Process_read_buf MockMemoryBackend (in_range m)" "mock_map (in_range m)" for m
proof
  fix a n bs assume r: "Process_read_buf MockMemoryBackend (in_range m) a n = Inr bs"
  let ?buf = "mm_buf (in_range m)" and ?b = "mm_base m"
  have bs: "bs = [] \<or> ?b \<le> a \<and> a - ?b < length ?buf \<and> bs = slice ?buf (a - ?b) (min n (length ?buf - (a - ?b)))"
    using r by (auto simp: Process_read_buf_def MockMemoryBackend_def MockMemoryBackend_read_buf_def overlap_def checked_sub_def
        in_range_def split: option.splits if_splits)
  then show "length bs \<le> n" by (auto simp: slice_def)
  show "mock_map (in_range m) (a + k) = Some (bs ! k)" if "k < length bs" for k
    using bs that by (auto simp: mock_map_def slice_def in_range_def)
qed (simp add: mock_map_def split: if_splits)

section \<open>Offsets\<close>

text \<open>The rows of one level, without what lies below them.\<close>

fun level_rows :: "uuid_lib \<Rightarrow> view_env \<Rightarrow> level \<Rightarrow> nat \<Rightarrow> usize \<Rightarrow> node list \<Rightarrow> node_snapshot list" where
  "level_rows U env lv i off [] = []"
| "level_rows U env lv i off (n # ns) =
     node_row U env lv i off n
     # level_rows U env lv (i + 1) (wrapping_add off (row_size U (ve_project env) (lv_visited lv) n)) ns"

lemma below_deeper: "s \<in> set (flatten_from U env lv i off ns) \<Longrightarrow> lv_depth lv \<le> sn_depth s"
proof (induction U env lv i off ns rule: flatten_from.induct)
  case (2 U env lv i off n ns)
  from 2(5) consider "s = node_row U env lv i off n"
    | "node_children n \<noteq> []" "s \<in> set (flatten_from U env (static_level lv i) 0 off (node_children n))"
    | t tc where "instance_expands U env lv i n = Some (t, tc)"
        "s \<in> set (flatten_from U env (instance_level lv i t) 0 off (cl_children tc))"
    | t a b tc where "pointer_expands env lv i n = Some (t, a, b, tc)"
        "s \<in> set (flatten_from U env (pointer_level lv i t a b) 0 0 (cl_children tc))"
    | "s \<in> set (flatten_from U env lv (i + 1) (wrapping_add off (row_size U (ve_project env) (lv_visited lv) n)) ns)"
    unfolding set_flatten_Cons by blast
  then show ?case
  proof cases
    case c: 2
    from 2(1)[OF c] show ?thesis by (simp add: static_level_def)
  next
    case c: 3
    from 2(2)[OF c(1) refl c(2)] show ?thesis by (simp add: instance_level_def)
  next
    case c: 4
    from 2(3)[OF c(1) refl refl refl c(2)] show ?thesis by (simp add: pointer_level_def)
  next
    case 5
    then show ?thesis by (rule 2(4))
  qed (simp add: node_row_def)
qed simp

lemma depth_rows:
  "filter (\<lambda>s. sn_depth s = lv_depth lv) (flatten_from U env lv i off ns) = level_rows U env lv i off ns"
proof (induction ns arbitrary: i off)
  case (Cons n ns)
  have none: "filter (\<lambda>s. sn_depth s = lv_depth lv) (flatten_from U env lv' j o' ms) = []" if "lv_depth lv' = Suc (lv_depth lv)" for lv' j o' ms
    using below_deeper[of _ U env lv' j o' ms] that by (fastforce simp: filter_empty_conv)
  have "lv_depth (static_level lv i) = Suc (lv_depth lv)" "\<And>t. lv_depth (instance_level lv i t) = Suc (lv_depth lv)"
      "\<And>t a b. lv_depth (pointer_level lv i t a b) = Suc (lv_depth lv)" "sn_depth (node_row U env lv i off n) = lv_depth lv"
    by (simp_all add: static_level_def instance_level_def pointer_level_def node_row_def)
  then show ?case unfolding flatten_from.simps(2)
    by (cases "instance_expands U env lv i n"; cases "pointer_expands env lv i n") (auto simp: none Cons)
qed simp

lemma row_size_resolved:
  assumes "uuid_laws U" "acyclic (embeds p)"
  shows "row_size U p {} n = resolved_node_size U p {} n"
proof (cases "type_tag n = ''ClassInstance''")
  case True
  then obtain a c v where n: "n = ClassInstanceNode a c v" by (auto simp: type_tag_instance)
  have "resolved_class_size U p {} tc = resolved_class_size U p {v} tc" if tc: "get_class p v = Some tc" for tc
  proof (rule resolved_size_unreachable(1)[OF assms])
    show "unreachable p (embedded (cl_children tc)) {v}"
      using unreachable_step[OF assms(2) _ tc, of "{}"] by (simp add: unreachable_def)
  qed (simp add: unreachable_def)
  then show ?thesis
    by (simp add: n row_size_def class_instance_target_def instance_target_instance[OF assms(1)] resolved_node_size_instance[OF assms(1)]
        del: to_node_def.simps split: option.split)
qed (simp add: row_size_def resolved_node_size_other)

lemma level_rows_offsets:
  assumes "uuid_laws U" "acyclic (embeds (ve_project env))" "lv_visited lv = {}"
  shows "off + (\<Sum>n\<leftarrow>ns. resolved_node_size U (ve_project env) {} n) \<le> USIZE_MAX \<Longrightarrow>
    map sn_offset (level_rows U env lv i off ns) = map fi_offset (fields_loop U uni (ve_project env) off ns)"
proof (induction ns arbitrary: i off)
  case (Cons n ns)
  let ?z = "resolved_node_size U (ve_project env) {} n"
  have "off + ?z \<le> USIZE_MAX" using Cons(2) by simp
  then have "wrapping_add off ?z = off + ?z" "saturating_add off ?z = off + ?z"
    by (simp_all add: wrapping_add_def saturating_add_def USIZE_MAX_def)
  then show ?case using Cons(1)[of "off + ?z" "i + 1"] Cons(2)
    by (simp add: node_row_def row_size_resolved[OF assms(1,2)] assms(3) Let_def split: prod.split)
qed simp

lemma view_offsets:
  assumes U: "uuid_laws U" and ac: "acyclic (embeds (ve_project env))" and cl: "get_class (ve_project env) u = Some cl"
    and fits: "(\<Sum>n\<leftarrow>cl_children cl. resolved_node_size U (ve_project env) {} n) \<le> USIZE_MAX"
  shows "map sn_offset (filter (\<lambda>s. sn_depth s = 0) (view_rows U env base buf u))
    = map fi_offset (resolve_fields U uni (ve_project env) cl)"
proof -
  have "lv_depth (root_level base buf u) = 0" "lv_visited (root_level base buf u) = {}" by (simp_all add: root_level_def)
  then show ?thesis
    using depth_rows[of "root_level base buf u" U env 0 0 "cl_children cl"] level_rows_offsets[OF U ac, of "root_level base buf u" 0 "cl_children cl" 0 uni] fits
    by (simp add: view_rows_def cl flatten_nodes_def resolve_fields_def)
qed

section \<open>Hidden rows\<close>

text \<open>A row is hidden exactly when a row it lies below is collapsed.\<close>

lemma row_hidden_iff:
  assumes "ks \<noteq> []"
  shows "row_hidden collapsed (id_text ks) \<longleftrightarrow> (\<exists>j. 0 < j \<and> j < length ks \<and> id_text (take j ks) \<in> set collapsed)"
proof -
  have "join_dots (take j (map format_dec ks)) = id_text (take j ks)" for j by (simp add: id_text_def take_map)
  then show ?thesis by (auto simp: row_hidden_def Let_def split_id_text[OF assms] list_ex_iff Suc_le_eq)
qed

section \<open>Properties\<close>

text \<open>
  C31. Every row of the class view names, by its owner and path, the node it shows. It renders that node from the bytes of
  the class itself or, below an expanded pointer row, from the bytes read through that pointer, and its address is the
  place in the target of the bytes it renders: where the reader gave the whole buffer, a field inside it shows exactly what
  the memory holds at the row's address. A string pointer shows the text behind it.
\<close>

theorem class_view_shows_memory:
  assumes "memory_view rd mem" "total_size \<le> USIZE_MAX"
    and "rows = rebuild_snapshots U (Some rd) base (read_process_buf rd base total_size) u env" "s \<in> set rows"
  shows "\<exists>n a b. node_at (ve_project env) (sn_owner_class s) (sn_local_path s) = Some n
    \<and> sn_type_tag s = type_tag n \<and> sn_name s = node_name n \<and> sn_comment s = node_comment n
    \<and> view_buffer U rd (ve_project env) rows base (read_process_buf rd base total_size) a b
    \<and> sn_address s = wrapping_add a (sn_offset s)
    \<and> (if sn_type_tag s = ''StrPtr'' then rv_value (sn_rendered s) = strptr_value rd (sn_address s)
       else sn_rendered s = render U n b (sn_offset s)
         \<and> (sn_offset s + memory_size n \<le> length b \<longrightarrow>
             (\<exists>bs. length bs = memory_size n \<and> sn_rendered s = render U n bs 0
               \<and> (complete_read rd a (length b) \<longrightarrow> bytes_of_memory mem (sn_address s) bs))))"
proof -
  let ?buf = "read_process_buf rd base total_size"
  obtain rs env' where loop: "rebuild_loop U (Some rd) base ?buf u (env\<lparr>ve_deref := Map.empty\<rparr>) = (rs, env')"
    by (cases "rebuild_loop U (Some rd) base ?buf u (env\<lparr>ve_deref := Map.empty\<rparr>)")
  have rows: "rows = map (strptr_row rd) rs" by (simp add: assms(3) rebuild_snapshots_def loop)
  then obtain r where r: "r \<in> set rs" "s = strptr_row rd r" using assms(4) by auto
  from rebuild_shows_buffer[OF loop r(1)] obtain n a b where
    n: "node_at (ve_project env) (sn_owner_class r) (sn_local_path r) = Some n" "shows_node r n"
      "view_buffer U rd (ve_project env) rs base ?buf a b" "sn_address r = wrapping_add a (sn_offset r)"
      "sn_rendered r = render U n b (sn_offset r)" by blast
  have "view_buffer U rd (ve_project env) rows base ?buf a b" using n(3) by (simp add: rows view_buffer_strptr)
  moreover note memory_view.view_buffer_memory[OF assms(1) n(3) assms(2)]
  moreover note memory_view.field_shows_memory[OF assms(1), of "sn_offset r" n b U a]
  ultimately show ?thesis using n
    by (intro exI[of _ n] exI[of _ a] exI[of _ b]) (auto simp: r(2) strptr_row_def shows_node_def)
qed

lemma single_row_view:
  assumes "get_class p u = Some (ClassNode u a b c [SimpleNode k nm cm])"
  shows "rebuild_loop U (Some rd) base buf u \<lparr>ve_project = p, ve_collapsed = cs, ve_expanded = es, ve_deref = Map.empty\<rparr>
    = ([node_row U \<lparr>ve_project = p, ve_collapsed = cs, ve_expanded = es, ve_deref = Map.empty\<rparr> (root_level base buf u) 0 0 (SimpleNode k nm cm)],
       \<lparr>ve_project = p, ve_collapsed = cs, ve_expanded = es, ve_deref = Map.empty\<rparr>)"
proof -
  let ?env = "\<lparr>ve_project = p, ve_collapsed = cs, ve_expanded = es, ve_deref = Map.empty\<rparr>"
  have "instance_expands U ?env lv 0 (SimpleNode k nm cm) = None" "pointer_expands ?env lv 0 (SimpleNode k nm cm) = None" for lv
    by (simp_all add: instance_expands_def class_instance_target_def pointer_expands_def pointer_target_class_def)
  then have v: "view_rows U ?env base buf u = [node_row U ?env (root_level base buf u) 0 0 (SimpleNode k nm cm)]"
    by (simp add: view_rows_def assms flatten_nodes_def flatten_from.simps(2))
  have "needed_pointers ?env (view_rows U ?env base buf u) = []"
    by (simp add: v needed_pointers_def needs_deref_def node_row_def)
  then show ?thesis by (simp add: rebuild_attached v)
qed

theorem class_view_shows_memory_witness:
  "\<exists>s bs. s \<in> set (rebuild_snapshots hex_uuid (Some (Process_read_buf MockMemoryBackend (in_range \<lparr>mm_base = 16, mm_buf = [7, 0, 0, 0]\<rparr>)))
        16 [7, 0, 0, 0] 1
        \<lparr>ve_project = add_class (ClassNode 1 [] [] [] [SimpleNode Int32Node [104] []]) (Project_new []), ve_collapsed = [],
         ve_expanded = [], ve_deref = Map.empty\<rparr>)
     \<and> sn_address s = 16 \<and> length bs = 4 \<and> bytes_of_memory (mock_map (in_range \<lparr>mm_base = 16, mm_buf = [7, 0, 0, 0]\<rparr>)) 16 bs
     \<and> sn_rendered s = render hex_uuid (SimpleNode Int32Node [104] []) bs 0"
proof -
  let ?m = "in_range \<lparr>mm_base = 16, mm_buf = [7, 0, 0, 0]\<rparr>" and ?n = "SimpleNode Int32Node [104] []"
  let ?p = "add_class (ClassNode 1 [] [] [] [?n]) (Project_new [])"
  let ?env = "\<lparr>ve_project = ?p, ve_collapsed = [], ve_expanded = [], ve_deref = Map.empty\<rparr>"
  let ?rd = "Process_read_buf MockMemoryBackend ?m"
  have p: "get_class ?p 1 = Some (ClassNode 1 [] [] [] [?n])" by (simp add: get_class_new)
  have m: "?m = \<lparr>mm_base = 16, mm_buf = [7, 0, 0, 0]\<rparr>" by (simp add: in_range_def USIZE_MAX_def)
  have rd: "?rd 16 4 = Inr [7, 0, 0, 0]"
    by (simp add: m Process_read_buf_def MockMemoryBackend_def MockMemoryBackend_read_buf_def overlap_def checked_sub_def slice_def)
  then have buf: "read_process_buf ?rd 16 4 = [7, 0, 0, 0]" by (simp add: read_process_buf_def)
  let ?s = "node_row hex_uuid ?env (root_level 16 [7, 0, 0, 0] 1) 0 0 ?n"
  have rows: "rebuild_snapshots hex_uuid (Some ?rd) 16 [7, 0, 0, 0] 1 ?env = [?s]"
    by (simp add: rebuild_snapshots_def single_row_view[OF p] strptr_row_def) (simp add: node_row_def)
  have "(4 :: nat) \<le> USIZE_MAX" by (simp add: USIZE_MAX_def)
  note view = class_view_shows_memory[OF mock_view.memory_view_axioms[of "\<lparr>mm_base = 16, mm_buf = [7, 0, 0, 0]\<rparr>"] this refl,
      where U = hex_uuid and base = 16 and u = 1 and env = ?env, unfolded buf rows]
  have row: "sn_type_tag ?s = ''Int32''" "sn_address ?s = 16" "sn_offset ?s = 0" "sn_pointer_target ?s = None"
      "sn_owner_class ?s = 1" "sn_local_path ?s = [0]"
    by (simp_all add: node_row_def root_level_def wrapping_add_def pointer_target_class_def)
  from view[of ?s, OF list.set_intros(1)]
  obtain n a b where n: "node_at (ve_project ?env) 1 [0] = Some n" "view_buffer hex_uuid ?rd ?p [?s] 16 [7, 0, 0, 0] a b"
      "0 + memory_size n \<le> length b \<longrightarrow> (\<exists>bs. length bs = memory_size n \<and> sn_rendered ?s = render hex_uuid n bs 0
         \<and> (complete_read ?rd a (length b) \<longrightarrow> bytes_of_memory (mock_map ?m) 16 bs))"
    unfolding row by auto
  have "n = ?n" using n(1) p by (simp add: node_at_def)
  moreover have "a = 16" "length b = 4" using n(2) by (simp_all add: view_buffer_def row)
  moreover have "complete_read ?rd 16 4" by (simp add: complete_read_def rd)
  ultimately have "\<exists>bs. length bs = 4 \<and> sn_rendered ?s = render hex_uuid ?n bs 0 \<and> bytes_of_memory (mock_map ?m) 16 bs"
    using n(3) by (simp del: render.simps)
  then obtain bs where "length bs = 4" "bytes_of_memory (mock_map ?m) 16 bs" "sn_rendered ?s = render hex_uuid ?n bs 0"
    by blast
  then show ?thesis unfolding rows using row(2) by (intro exI[of _ ?s] exI[of _ bs]) simp
qed

text \<open>
  C32. The rebuilding loop of the class view ends, and when it does every pointer row that is expanded has the buffer
  read through the pointer at the row's own address; no two rows share an identifier.
\<close>

theorem expanded_pointers_followed:
  assumes "rebuild_loop U (Some rd) base buf u (env\<lparr>ve_deref := Map.empty\<rparr>) = (rows, env')"
  shows "rows = view_rows U env' base buf u \<and> distinct (map sn_id_path rows)
    \<and> (\<forall>s t. s \<in> set rows \<longrightarrow> sn_type_tag s = ''Pointer'' \<longrightarrow> sn_pointer_target s = Some t \<longrightarrow> sn_id_path s \<in> set (ve_expanded env)
        \<longrightarrow> ve_deref env' (sn_id_path s) = Some (deref_entry U rd (ve_project env) (sn_address s) t))"
proof -
  have "deref_ok U rd base buf u (env\<lparr>ve_deref := Map.empty\<rparr>)" by (simp add: deref_ok_def)
  from rebuild_loop_result[OF refl this assms] view_ids_distinct[of U env' base buf u] expanded_followed[OF assms]
  show ?thesis by blast
qed

definition example_reader :: process_reader where
  "example_reader a n = (if a = 16 then Inr [32, 0, 0, 0, 0, 0, 0, 0] else Inr (replicate n 5))"

definition example_view :: view_env where
  "example_view = \<lparr>ve_project = add_class (ClassNode 1 [] [] [] [PointerNode [] [] (Some 2)])
     (add_class (ClassNode 2 [] [] [] [SimpleNode Int32Node [] []]) (Project_new [])),
     ve_collapsed = [], ve_expanded = [''0''], ve_deref = Map.empty\<rparr>"

theorem expanded_pointers_followed_witness:
  "ve_deref (snd (rebuild_loop hex_uuid (Some example_reader) 16 [] 1 (example_view\<lparr>ve_deref := Map.empty\<rparr>))) ''0''
     = Some (32, [5, 5, 5, 5])"
proof -
  obtain rows env' where loop: "rebuild_loop hex_uuid (Some example_reader) 16 [] 1 (example_view\<lparr>ve_deref := Map.empty\<rparr>) = (rows, env')"
    by (cases "rebuild_loop hex_uuid (Some example_reader) 16 [] 1 (example_view\<lparr>ve_deref := Map.empty\<rparr>)")
  have "deref_ok hex_uuid example_reader 16 [] 1 (example_view\<lparr>ve_deref := Map.empty\<rparr>)" by (simp add: deref_ok_def)
  from rebuild_loop_result[OF refl this loop] have p: "ve_project env' = ve_project example_view" by simp
  note followed = expanded_pointers_followed[OF loop]
  let ?s = "node_row hex_uuid env' (root_level 16 [] 1) 0 0 (PointerNode [] [] (Some 2))"
  have classes: "get_class (ve_project example_view) 1 = Some (ClassNode 1 [] [] [] [PointerNode [] [] (Some 2)])"
      "get_class (ve_project example_view) 2 = Some (ClassNode 2 [] [] [] [SimpleNode Int32Node [] []])"
    by (simp_all add: example_view_def get_class_new)
  have "?s \<in> set rows" using followed classes by (simp add: p view_rows_def flatten_nodes_def set_flatten_Cons)
  moreover have row: "sn_type_tag ?s = ''Pointer''" "sn_pointer_target ?s = Some 2" "sn_id_path ?s = ''0''" "sn_address ?s = 16"
    by (simp_all add: node_row_def root_level_def pointer_target_class_def child_id_def format_dec_def digits_of.simps[of _ 10 0]
        wrapping_add_def)
  moreover have "''0'' \<in> set (ve_expanded example_view)" by (simp add: example_view_def)
  ultimately have "ve_deref env' ''0'' = Some (deref_entry hex_uuid example_reader (ve_project example_view) 16 2)"
    using followed by metis
  moreover have "resolved_class_size hex_uuid (ve_project example_view) {} (ClassNode 2 [] [] [] [SimpleNode Int32Node [] []]) = 4"
    by (subst resolved_class_size.simps) (simp add: resolved_node_size_other saturating_add_def small_le_USIZE_MAX min_absorb1)
  moreover have "read_pointer example_reader 16 = 32" by (simp add: read_pointer_def example_reader_def)
  moreover have "replicate 4 (5 :: u8) = [5, 5, 5, 5]" by (simp add: numeral_eq_Suc)
  ultimately show ?thesis
    by (simp add: loop deref_entry_def classes read_process_buf_def example_reader_def)
qed

text \<open>
  C33. In a project whose classes do not embed each other in a circle, the outermost rows of the class view lie at the
  offsets the code generators print.
\<close>

theorem class_view_offsets:
  assumes "uuid_laws U" "acyclic (embeds (ve_project env))" "get_class (ve_project env) u = Some cl"
    and "(\<Sum>n\<leftarrow>cl_children cl. resolved_node_size U (ve_project env) {} n) \<le> USIZE_MAX"
  shows "map sn_offset (filter (\<lambda>s. sn_depth s = 0) (view_rows U env base buf u))
    = map fi_offset (resolve_fields U uni (ve_project env) cl)"
  by (rule view_offsets[OF assms])

theorem class_view_offsets_witness:
  "map sn_offset (filter (\<lambda>s. sn_depth s = 0) (view_rows hex_uuid
      \<lparr>ve_project = example_project, ve_collapsed = [], ve_expanded = [], ve_deref = Map.empty\<rparr> 0 [] 1)) = [0, 4]"
proof -
  let ?env = "\<lparr>ve_project = example_project, ve_collapsed = [], ve_expanded = [], ve_deref = Map.empty\<rparr>"
  let ?cl = "ClassNode 1 [65] [] [] [SimpleNode Int32Node [66] [], ClassInstanceNode [67] [] 2]"
  have eight: "resolved_node_size hex_uuid example_project {} (ClassInstanceNode [67] [] 2) = 8"
    by (simp add: resolved_node_size_instance[OF hex_uuid_laws] example_get_class)
      (subst resolved_class_size.simps, simp add: resolved_node_size_other saturating_add_def small_le_USIZE_MAX min_absorb1)
  have "acyclic (embeds (ve_project ?env))" "get_class (ve_project ?env) 1 = Some ?cl"
    using example_acyclic by (simp_all add: example_get_class)
  moreover have "(\<Sum>n\<leftarrow>cl_children ?cl. resolved_node_size hex_uuid (ve_project ?env) {} n) \<le> USIZE_MAX"
    by (simp add: eight resolved_node_size_other small_le_USIZE_MAX)
  ultimately have "map sn_offset (filter (\<lambda>s. sn_depth s = 0) (view_rows hex_uuid ?env 0 [] 1))
      = map fi_offset (resolve_fields hex_uuid (\<lambda>_. False) (ve_project ?env) ?cl)"
    by (rule class_view_offsets[OF hex_uuid_laws])
  also have "\<dots> = [0, 4]"
    by (simp add: resolve_fields_def Let_def resolved_node_size_other saturating_add_def small_le_USIZE_MAX min_absorb1 split: prod.split)
  finally show ?thesis .
qed

text \<open>
  An instance of a class that is already open further up counts for nothing, so what follows it inside the open class
  is shown at the instance's own offset, although the class takes the instance's full size.
\<close>

lemma open_class_instance_shifts:
  assumes "uuid_laws U" "v \<in> lv_visited lv"
  shows "map sn_offset (level_rows U env lv i off [ClassInstanceNode a b v, n]) = [off, wrapping_add off 0]"
  using assms(2) instance_target_instance[OF assms(1), of a b v]
  by (simp add: node_row_def row_size_def class_instance_target_def del: to_node_def.simps split: option.split)

end
