(* ===== verification/Class_Editor.thy ===== *)
theory Class_Editor
  imports Class_Rows "HOL-Library.Sublist"
begin

text \<open>
  Editing in the class view (nemclass-ui/src/views/mod.rs): the node edit operations on the project, the class picker with
  its check for cycles, the filler of added bytes, new classes, and writing an edited value back to the target.
\<close>

section \<open>Edit operations\<close>

type_synonym node_path = "nat list"

datatype node_edit_op =
    ChangeType uuid node_path string
  | Delete uuid node_path
  | DeleteRange uuid node_path nat
  | AddBytes uuid node_path nat
  | InsertBytes uuid node_path nat
  | AppendBytes uuid nat
  | SetName uuid node_path utext
  | SetComment uuid node_path utext
  | SetPtrTarget uuid node_path "uuid option"
  | SetInstance uuid node_path uuid

text \<open>\<open>Node::children_mut\<close>: the list in place, and the node with that list changed.\<close>

fun children_mut :: "node \<Rightarrow> node list option" where
  "children_mut (VTableNode n c ch) = Some ch"
| "children_mut (ClassChild cl) = Some (cl_children cl)"
| "children_mut _ = None"

fun set_children :: "node list \<Rightarrow> node \<Rightarrow> node" where
  "set_children ch (VTableNode n c _) = VTableNode n c ch"
| "set_children ch (ClassChild cl) = ClassChild (ClassNode (cl_uuid cl) (cl_name cl) (cl_comment cl) (cl_formula cl) ch)"
| "set_children ch n = n"

definition with_children :: "node list \<Rightarrow> class_node \<Rightarrow> class_node" where
  "with_children ch cl = ClassNode (cl_uuid cl) (cl_name cl) (cl_comment cl) (cl_formula cl) ch"

text \<open>
  \<open>resolve_parent_vec_mut\<close>: the list and index a path leads to. It hands out a mutable borrow, so the model takes
  what the caller does with the list and the index, and gives back the tree with that done; \<open>None\<close> is the failed resolution.
\<close>

fun modify_vec :: "(node list \<Rightarrow> nat \<Rightarrow> node list) \<Rightarrow> nat list \<Rightarrow> nat \<Rightarrow> node list \<Rightarrow> node list option" where
  "modify_vec f [] lst ns = (if lst < length ns then Some (f ns lst) else None)"
| "modify_vec f (i # pre) lst ns =
     (if i < length ns then
        (case children_mut (ns ! i) of
           None \<Rightarrow> None
         | Some ch \<Rightarrow> map_option (\<lambda>ch'. ns[i := set_children ch' (ns ! i)]) (modify_vec f pre lst ch))
      else None)"

definition resolve_parent_vec_mut :: "project \<Rightarrow> uuid \<Rightarrow> node_path \<Rightarrow> (node list \<Rightarrow> nat \<Rightarrow> node list) \<Rightarrow> project option" where
  "resolve_parent_vec_mut p owner local_path f =
     (if local_path = [] then None
      else case get_class p owner of
             None \<Rightarrow> None
           | Some cl \<Rightarrow>
               (case modify_vec f (butlast local_path) (last local_path) (cl_children cl) of
                  None \<Rightarrow> None
                | Some ch \<Rightarrow> get_class_mut owner (with_children ch) p))"

definition resolve_node_mut :: "project \<Rightarrow> uuid \<Rightarrow> node_path \<Rightarrow> (node \<Rightarrow> node) \<Rightarrow> project option" where
  "resolve_node_mut p owner local_path f = resolve_parent_vec_mut p owner local_path (\<lambda>ns i. ns[i := f (ns ! i)])"

text \<open>\<open>hex_fill\<close>, its four loops in one: each takes the widest filler that still fits.\<close>

fun hex_fill :: "nat \<Rightarrow> node list" where
  "hex_fill rem =
     (if rem \<ge> 8 then SimpleNode Hex64Node [] [] # hex_fill (rem - 8)
      else if rem \<ge> 4 then SimpleNode Hex32Node [] [] # hex_fill (rem - 4)
      else if rem \<ge> 2 then SimpleNode Hex16Node [] [] # hex_fill (rem - 2)
      else if rem \<ge> 1 then SimpleNode Hex8Node [] [] # hex_fill (rem - 1)
      else [])"

declare hex_fill.simps [simp del]

text \<open>\<open>Vec::insert\<close>, and the loop that inserts the fillers one behind the other.\<close>

definition vec_insert :: "'a list \<Rightarrow> nat \<Rightarrow> 'a \<Rightarrow> 'a list" where
  "vec_insert xs i x = take i xs @ x # drop i xs"

fun insert_each :: "'a list \<Rightarrow> nat \<Rightarrow> 'a list \<Rightarrow> 'a list" where
  "insert_each xs i [] = xs"
| "insert_each xs i (y # ys) = insert_each (vec_insert xs i y) (i + 1) ys"

definition vec_remove :: "'a list \<Rightarrow> nat \<Rightarrow> 'a list" where
  "vec_remove xs i = take i xs @ drop (i + 1) xs"

definition drain :: "'a list \<Rightarrow> nat \<Rightarrow> nat \<Rightarrow> 'a list" where
  "drain xs a b = take a xs @ drop b xs"

text \<open>What each operation does to the node it names, or to the list around it.\<close>

definition changed_type :: "uuid \<Rightarrow> registry \<Rightarrow> string \<Rightarrow> node \<Rightarrow> node" where
  "changed_type fresh reg new_tag n =
     (case Registry.construct fresh reg new_tag of
        None \<Rightarrow> n
      | Some m \<Rightarrow> set_comment (node_comment n) (set_name (node_name n) m))"

definition new_pointer :: "uuid option \<Rightarrow> node \<Rightarrow> node" where
  "new_pointer target n = PointerNode (node_name n) (node_comment n) target"

definition new_instance :: "uuid \<Rightarrow> node \<Rightarrow> node" where
  "new_instance target n = set_comment (node_comment n) (ClassInstanceNode (node_name n) [] target)"

fun apply_op :: "uuid \<Rightarrow> registry \<Rightarrow> node_edit_op \<Rightarrow> project \<Rightarrow> project option" where
  "apply_op fresh reg (ChangeType owner path new_tag) p =
     resolve_parent_vec_mut p owner path (\<lambda>ns i. ns[i := changed_type fresh reg new_tag (ns ! i)])"
| "apply_op fresh reg (Delete owner path) p = resolve_parent_vec_mut p owner path vec_remove"
| "apply_op fresh reg (DeleteRange owner path cnt) p =
     resolve_parent_vec_mut p owner path (\<lambda>ns i. drain ns i (min (saturating_add i cnt) (length ns)))"
| "apply_op fresh reg (AppendBytes owner cnt) p =
     get_class_mut owner (\<lambda>cl. with_children (cl_children cl @ hex_fill cnt) cl) p"
| "apply_op fresh reg (AddBytes owner path cnt) p =
     resolve_parent_vec_mut p owner path (\<lambda>ns i. insert_each ns (i + 1) (hex_fill cnt))"
| "apply_op fresh reg (InsertBytes owner path cnt) p =
     resolve_parent_vec_mut p owner path (\<lambda>ns i. insert_each ns i (hex_fill cnt))"
| "apply_op fresh reg (SetName owner path name) p = resolve_node_mut p owner path (set_name name)"
| "apply_op fresh reg (SetComment owner path comment) p = resolve_node_mut p owner path (set_comment comment)"
| "apply_op fresh reg (SetPtrTarget owner path target) p =
     resolve_parent_vec_mut p owner path (\<lambda>ns i. ns[i := new_pointer target (ns ! i)])"
| "apply_op fresh reg (SetInstance owner path target) p =
     resolve_parent_vec_mut p owner path (\<lambda>ns i. ns[i := new_instance target (ns ! i)])"

section \<open>The editor's state\<close>

datatype edit_field = ValueField | NameField | CommentField | ComponentField nat

record edit_state =
  es_node_id :: row_id
  es_text :: utext
  es_field :: edit_field

datatype write_error = ParseError | IoError core_error | NotWritable string | NotAttachedError | InvalidFloat utext

record class_editor =
  ce_project :: project
  ce_snapshots :: "node_snapshot list"
  ce_mem_buf :: bytes
  ce_edit_state :: "edit_state option"
  ce_last_snapshot :: "nat option"
  ce_last_error :: "write_error option"

text \<open>The closure \<open>invalidate\<close> of \<open>apply_node_edit\<close>, and the handler.\<close>

definition invalidate :: "class_editor \<Rightarrow> class_editor" where
  "invalidate e = e\<lparr>ce_snapshots := [], ce_mem_buf := [], ce_edit_state := None, ce_last_snapshot := None\<rparr>"

definition apply_node_edit :: "uuid \<Rightarrow> registry \<Rightarrow> node_edit_op \<Rightarrow> class_editor \<Rightarrow> class_editor" where
  "apply_node_edit fresh reg op e =
     invalidate (case apply_op fresh reg op (ce_project e) of None \<Rightarrow> e | Some p \<Rightarrow> e\<lparr>ce_project := p\<rparr>)"

section \<open>The class picker\<close>

datatype picker_purpose = PickPtrTarget uuid node_path | PickInstance uuid node_path | PickChangeToInstance uuid node_path

fun purpose_place :: "picker_purpose \<Rightarrow> uuid \<times> node_path" where
  "purpose_place (PickPtrTarget owner path) = (owner, path)"
| "purpose_place (PickInstance owner path) = (owner, path)"
| "purpose_place (PickChangeToInstance owner path) = (owner, path)"

fun purpose_op :: "picker_purpose \<Rightarrow> uuid \<Rightarrow> node_edit_op" where
  "purpose_op (PickPtrTarget owner path) u = SetPtrTarget owner path (Some u)"
| "purpose_op (PickInstance owner path) u = SetInstance owner path u"
| "purpose_op (PickChangeToInstance owner path) u = SetInstance owner path u"

definition would_cycle :: "uuid_lib \<Rightarrow> project \<Rightarrow> uuid \<Rightarrow> uuid \<Rightarrow> bool" where
  "would_cycle U p owner u =
     (case get_class p u of None \<Rightarrow> False | Some cl \<Rightarrow> references_class U cl owner \<or> u = owner)"

text \<open>What a click on the class \<open>u\<close> queues: \<open>None\<close> is the refusal.\<close>

definition pick_class :: "uuid_lib \<Rightarrow> project \<Rightarrow> picker_purpose \<Rightarrow> uuid \<Rightarrow> node_edit_op option" where
  "pick_class U p purpose u =
     (if would_cycle U p (fst (purpose_place purpose)) u then None else Some (purpose_op purpose u))"

section \<open>New classes\<close>

definition class_candidate :: "nat \<Rightarrow> utext" where
  "class_candidate n = codes ''Class'' @ codes (format_dec n)"

definition name_taken :: "project \<Rightarrow> nat \<Rightarrow> bool" where
  "name_taken p n \<longleftrightarrow> list_ex (\<lambda>c. cl_name c = class_candidate n) (classes_in_order p)"

lemma class_candidate_inject: "class_candidate m = class_candidate n \<longleftrightarrow> m = n"
proof -
  have "inj (codes :: string \<Rightarrow> utext)" unfolding codes_def by (simp add: inj_on_def inj_map_eq_map[OF inj_of_char])
  then show ?thesis by (auto simp: class_candidate_def dest: injD)
qed

function free_name :: "project \<Rightarrow> nat \<Rightarrow> utext" where
  "free_name p n = (if name_taken p n then free_name p (n + 1) else class_candidate n)"
  by pat_completeness auto

lemma taken_finite: "finite {k. n \<le> k \<and> name_taken p k}"
proof (rule finite_imageD)
  show "finite (class_candidate ` {k. n \<le> k \<and> name_taken p k})"
    by (rule finite_subset[of _ "cl_name ` set (classes_in_order p)"]) (force simp: name_taken_def list_ex_iff)+
qed (simp add: inj_on_def class_candidate_inject)

text \<open>The search ends: only finitely many names are taken.\<close>

termination free_name
proof (relation "measure (\<lambda>(p, n). card {k. n \<le> k \<and> name_taken p k})", simp, clarsimp)
  fix p n assume "name_taken p n"
  then have "n \<in> {k. n \<le> k \<and> name_taken p k} - {k. Suc n \<le> k \<and> name_taken p k}" by simp
  moreover have "{k. Suc n \<le> k \<and> name_taken p k} \<subseteq> {k. n \<le> k \<and> name_taken p k}" by auto
  ultimately have "{k. Suc n \<le> k \<and> name_taken p k} \<subset> {k. n \<le> k \<and> name_taken p k}" by blast
  then show "card {k. Suc n \<le> k \<and> name_taken p k} < card {k. n \<le> k \<and> name_taken p k}"
    by (rule psubset_card_mono[OF taken_finite])
qed

declare free_name.simps [simp del]

definition blank_class :: "uuid \<Rightarrow> project \<Rightarrow> class_node" where
  "blank_class fresh p = ClassNode fresh (free_name p 1) [] [] [SimpleNode Hex64Node (codes ''field_0'') []]"

section \<open>Writing back\<close>

text \<open>\<open>FromStr\<close> and \<open>from_str_radix\<close> of the integer types of \<open>w\<close> bytes.\<close>

definition digits_text :: "nat \<Rightarrow> utext \<Rightarrow> nat option" where
  "digits_text radix ds = (if ds = [] then None else digits_value radix ds 0)"

definition int_from_str :: "nat \<Rightarrow> utext \<Rightarrow> int option" where
  "int_from_str w s =
     (let (neg, ds) = take_sign s
      in case digits_text 10 ds of
           None \<Rightarrow> None
         | Some v \<Rightarrow>
             let i = (if neg then - int v else int v)
             in if - (2 ^ (8 * w - 1)) \<le> i \<and> i < 2 ^ (8 * w - 1) then Some i else None)"

definition uint_from_str :: "nat \<Rightarrow> nat \<Rightarrow> utext \<Rightarrow> nat option" where
  "uint_from_str w radix s =
     (let ds = (case s of c # cs \<Rightarrow> if c = 43 then cs else s | [] \<Rightarrow> [])
      in case digits_text radix ds of
           None \<Rightarrow> None
         | Some v \<Rightarrow> if v < 2 ^ (8 * w) then Some v else None)"

text \<open>\<open>trim_start_matches("0x")\<close> with the letter \<open>x\<close>: every leading occurrence goes.\<close>

fun trim_start_0 :: "nat \<Rightarrow> utext \<Rightarrow> utext" where
  "trim_start_0 x (a # b # r) = (if a = 48 \<and> b = x then trim_start_0 x r else a # b # r)"
| "trim_start_0 x s = s"

text \<open>The bytes \<open>write_parsed\<close> writes for a text; \<open>None\<close> is a text that does not parse.\<close>

definition parsed_bytes :: "string \<Rightarrow> utext \<Rightarrow> (bytes option) option" where
  "parsed_bytes tag text =
     (let raw = trim_start_0 88 (trim_start_0 120 text);
          int = (\<lambda>w. Some (map_option (\<lambda>v. le_bytes_of w (nat (v mod 2 ^ (8 * w)))) (int_from_str w raw)));
          uint = (\<lambda>w radix. Some (map_option (le_bytes_of w) (uint_from_str w radix raw)))
      in if tag = ''Int8'' then int 1 else if tag = ''Int16'' then int 2
         else if tag = ''Int32'' then int 4 else if tag = ''Int64'' then int 8
         else if tag = ''UInt8'' then uint 1 10 else if tag = ''UInt16'' then uint 2 10
         else if tag = ''UInt32'' then uint 4 10 else if tag = ''UInt64'' then uint 8 10
         else if tag = ''Hex8'' then uint 1 16 else if tag = ''Hex16'' then uint 2 16
         else if tag = ''Hex32'' then uint 4 16 else if tag = ''Hex64'' then uint 8 16
         else if tag = ''Float'' then Some (map_option f32_to_ne_bytes (parse_sfloat parse_f32 raw))
         else if tag = ''Double'' then Some (map_option f64_to_ne_bytes (parse_sfloat parse_f64 raw))
         else if tag = ''Bool'' then
           Some (Some [if to_ascii_lowercase text = codes ''true'' \<or> to_ascii_lowercase text = codes ''1'' then 1 else 0])
         else if tag = ''Pointer'' then uint 8 16
         else None)"

definition write_parsed :: "'s backend \<Rightarrow> 's \<Rightarrow> usize \<Rightarrow> string \<Rightarrow> utext \<Rightarrow> (write_error + unit) \<times> 's" where
  "write_parsed be st addr tag text =
     (case parsed_bytes tag text of
        None \<Rightarrow> (Inl (NotWritable tag), st)
      | Some None \<Rightarrow> (Inl ParseError, st)
      | Some (Some bs) \<Rightarrow> (let (r, st') = Process_write be st addr bs in (map_sum IoError id r, st')))"

definition is_editable :: "string \<Rightarrow> bool" where
  "is_editable tag \<longleftrightarrow>
     tag \<in> {''Int8'', ''Int16'', ''Int32'', ''Int64'', ''UInt8'', ''UInt16'', ''UInt32'', ''UInt64'', ''Hex8'', ''Hex16'', ''Hex32'',
       ''Hex64'', ''Float'', ''Double'', ''Bool'', ''Pointer''}"

text \<open>The text a cell starts its edit with: the value without its hexadecimal prefix.\<close>

definition edit_seed :: "utext \<Rightarrow> utext" where
  "edit_seed value =
     (case value of
        a # b # r \<Rightarrow> if a = 48 \<and> (b = 120 \<or> b = 88) then r else value
      | _ \<Rightarrow> value)"

definition commit_edit :: "'s backend option \<Rightarrow> 's \<Rightarrow> class_editor \<Rightarrow> class_editor \<times> 's" where
  "commit_edit proc st e =
     (case ce_edit_state e of
        None \<Rightarrow> (e, st)
      | Some edit \<Rightarrow>
          let e' = e\<lparr>ce_edit_state := None\<rparr>
          in if es_field edit \<noteq> ValueField then (e', st)
             else case proc of
                    None \<Rightarrow> (e', st)
                  | Some be \<Rightarrow>
                      (case find (\<lambda>s. sn_id_path s = es_node_id edit) (ce_snapshots e') of
                         None \<Rightarrow> (e', st)
                       | Some s \<Rightarrow>
                           (case write_parsed be st (sn_address s) (sn_type_tag s) (trim_text (es_text edit)) of
                              (Inr _, st') \<Rightarrow> (e'\<lparr>ce_last_error := None, ce_last_snapshot := None\<rparr>, st')
                            | (Inl err, st') \<Rightarrow> (e'\<lparr>ce_last_error := Some err\<rparr>, st'))))"

definition write_float_component :: "'s backend option \<Rightarrow> 's \<Rightarrow> usize \<Rightarrow> float_width \<Rightarrow> utext \<Rightarrow> class_editor \<Rightarrow> class_editor \<times> 's" where
  "write_float_component proc st addr w text e =
     (case proc of
        None \<Rightarrow> (e\<lparr>ce_last_error := Some NotAttachedError\<rparr>, st)
      | Some be \<Rightarrow>
          (case FloatWidth_parse_to_ne_bytes w text of
             None \<Rightarrow> (e\<lparr>ce_last_error := Some (InvalidFloat text)\<rparr>, st)
           | Some bs \<Rightarrow>
               (case Process_write_buf be st addr bs of
                  (Inr _, st') \<Rightarrow> (e\<lparr>ce_last_error := None, ce_last_snapshot := None\<rparr>, st')
                | (Inl err, st') \<Rightarrow> (e\<lparr>ce_last_error := Some (IoError err)\<rparr>, st'))))"

section \<open>Other input fields\<close>

text \<open>\<open>parse_hex_addr\<close> and the length field of the automatic dissection.\<close>

definition strip_0x :: "utext \<Rightarrow> utext option" where
  "strip_0x t = (case t of a # b # r \<Rightarrow> if a = 48 \<and> (b = 120 \<or> b = 88) then Some r else None | _ \<Rightarrow> None)"

definition parse_hex_addr :: "utext \<Rightarrow> usize option" where
  "parse_hex_addr text =
     (let t = trim_text text; t = (case strip_0x t of Some r \<Rightarrow> r | None \<Rightarrow> t)
      in if t = [] then None else uint_from_str 8 16 (filter (\<lambda>c. c \<noteq> 95) t))"

definition parse_dissect_len :: "utext \<Rightarrow> usize" where
  "parse_dissect_len text =
     (let s = trim_text text
      in if s = [] then 256
         else case (case strip_0x s of Some h \<Rightarrow> uint_from_str 8 16 h | None \<Rightarrow> uint_from_str 8 10 s) of
                Some v \<Rightarrow> v
              | None \<Rightarrow> 256)"

section \<open>Fillers\<close>

lemma hex_fill_0 [simp]: "hex_fill 0 = []"
  by (subst hex_fill.simps) simp

lemma hex_fill_total: "(\<Sum>n\<leftarrow>hex_fill k. memory_size n) = k"
proof (induction k rule: hex_fill.induct)
  case (1 k)
  consider "k \<ge> 8" | "\<not> k \<ge> 8" "k \<ge> 4" | "\<not> k \<ge> 4" "k \<ge> 2" | "\<not> k \<ge> 2" "k \<ge> 1" | "k = 0" by linarith
  then show ?case by cases (use 1 in \<open>simp_all add: hex_fill.simps[of k]\<close>)
qed

lemma hex_fill_leaf:
  "n \<in> set (hex_fill k) \<Longrightarrow> \<exists>h\<in>{Hex64Node, Hex32Node, Hex16Node, Hex8Node}. n = SimpleNode h [] []"
proof (induction k rule: hex_fill.induct)
  case (1 k)
  show ?case using 1 by (subst (asm) (5) hex_fill.simps) (auto split: if_splits)
qed

lemma insert_each_eq: "i \<le> length xs \<Longrightarrow> insert_each xs i ys = take i xs @ ys @ drop i xs"
proof (induction ys arbitrary: xs i)
  case (Cons y ys)
  then show ?case using Cons(1)[of "i + 1" "vec_insert xs i y"] by (simp add: vec_insert_def)
qed simp

section \<open>Where an edit lands\<close>

lemma children_mut_Some: "children_mut n = Some ch \<Longrightarrow> node_children n = ch \<and> node_children (set_children ch' n) = ch'"
  by (cases n) auto

lemma children_mut_nonempty: "node_children n \<noteq> [] \<Longrightarrow> children_mut n = Some (node_children n)"
  by (cases n) auto

lemma set_children_own [simp]:
  "type_tag (set_children ch n) = type_tag n" "node_name (set_children ch n) = node_name n"
  "node_comment (set_children ch n) = node_comment n" "node_fields_wf (set_children ch n) = node_fields_wf n"
  by (cases n; simp add: node_fields_wf_def)+

lemma modify_vec_Some:
  "children_at ns pre = Some ms \<Longrightarrow> lst < length ms \<Longrightarrow>
   \<exists>ns'. modify_vec f pre lst ns = Some ns' \<and> children_at ns' pre = Some (f ms lst)"
proof (induction pre arbitrary: ns)
  case (Cons i pre)
  have i: "i < length ns" "children_at (node_children (ns ! i)) pre = Some ms" using Cons(2) by (auto split: if_splits)
  have "node_children (ns ! i) \<noteq> []" using i(2) Cons(3) by (cases pre) (auto split: if_splits)
  then have ch: "children_mut (ns ! i) = Some (node_children (ns ! i))" by (rule children_mut_nonempty)
  from Cons(1)[OF i(2) Cons(3)] obtain ch' where "modify_vec f pre lst (node_children (ns ! i)) = Some ch'"
      "children_at ch' pre = Some (f ms lst)" by blast
  then show ?case using i(1) ch children_mut_Some[OF ch, of ch'] by simp
qed simp

text \<open>The node at a path below a list.\<close>

fun node_in :: "node list \<Rightarrow> nat list \<Rightarrow> node option" where
  "node_in ns [] = None"
| "node_in ns (i # q) =
     (if i < length ns then (if q = [] then Some (ns ! i) else node_in (node_children (ns ! i)) q) else None)"

lemma node_in_children_at:
  "q \<noteq> [] \<Longrightarrow> node_in ns q =
     (case children_at ns (butlast q) of None \<Rightarrow> None | Some ms \<Rightarrow> if last q < length ms then Some (ms ! last q) else None)"
proof (induction q arbitrary: ns)
  case (Cons i q)
  show ?case using Cons(1) by (cases "q = []") (auto split: option.split)
qed simp

lemma node_at_in: "node_at p u q = (case get_class p u of None \<Rightarrow> None | Some cl \<Rightarrow> node_in (cl_children cl) q)"
  by (cases "q = []") (auto simp: node_at_def node_in_children_at split: option.split)

lemma modify_vec_other:
  "modify_vec f pre lst ns = Some ns' \<Longrightarrow> \<not> prefix q pre \<Longrightarrow> \<not> prefix pre q \<Longrightarrow> node_in ns' q = node_in ns q"
proof (induction pre arbitrary: ns ns' q)
  case (Cons i pre)
  obtain j r where q: "q = j # r" using Cons(3) by (cases q) auto
  from Cons(2) obtain ch ch' where i: "i < length ns" "children_mut (ns ! i) = Some ch" "modify_vec f pre lst ch = Some ch'"
      "ns' = ns[i := set_children ch' (ns ! i)]" by (auto split: if_splits option.splits)
  show ?case
  proof (cases "j = i")
    case True
    then have "\<not> prefix r pre" "\<not> prefix pre r" using Cons(3,4) by (simp_all add: q)
    from Cons(1)[OF i(3) this] \<open>\<not> prefix r pre\<close> show ?thesis
      using i(1,4) True children_mut_Some[OF i(2)] by (auto simp: q)
  qed (simp add: q i(4))
qed simp

text \<open>An edit that replaces one element of the list leaves the siblings and what is below them alone.\<close>

lemma modify_vec_replace:
  assumes "modify_vec (\<lambda>ns i. ns[i := g (ns ! i)]) pre lst ns = Some ns'"
  shows "node_in ns' (pre @ [lst]) = map_option g (node_in ns (pre @ [lst])) \<and> node_in ns (pre @ [lst]) \<noteq> None
    \<and> (\<forall>q. \<not> prefix q (pre @ [lst]) \<longrightarrow> \<not> prefix (pre @ [lst]) q \<longrightarrow> node_in ns' q = node_in ns q)"
  using assms
proof (induction pre arbitrary: ns ns')
  case Nil
  then have n: "lst < length ns" "ns' = ns[lst := g (ns ! lst)]" by (auto split: if_splits)
  have "node_in ns' q = node_in ns q" if "\<not> prefix q [lst]" "\<not> prefix [lst] q" for q
    using that n by (cases q) auto
  with n show ?case by auto
next
  case (Cons i pre)
  from Cons(2) obtain ch ch' where i: "i < length ns" "children_mut (ns ! i) = Some ch"
      "modify_vec (\<lambda>ns i. ns[i := g (ns ! i)]) pre lst ch = Some ch'" "ns' = ns[i := set_children ch' (ns ! i)]"
    by (auto split: if_splits option.splits)
  note ch = children_mut_Some[OF i(2), of ch']
  have "node_in ns' q = node_in ns q" if q: "\<not> prefix q ((i # pre) @ [lst])" "\<not> prefix ((i # pre) @ [lst]) q" for q
  proof -
    obtain j r where jr: "q = j # r" using q(1) by (cases q) auto
    show ?thesis
    proof (cases "j = i")
      case True
      then have "\<not> prefix r (pre @ [lst])" "\<not> prefix (pre @ [lst]) r" using q by (simp_all add: jr)
      with Cons(1)[OF i(3)] show ?thesis using i(1,4) ch True by (auto simp: jr)
    qed (simp add: jr i(4))
  qed
  then show ?case using Cons(1)[OF i(3)] i(1,4) ch by auto
qed

text \<open>The same in a project.\<close>

lemma get_class_mut_lookup:
  assumes "get_class_mut u f p = Some p'"
  shows "get_class p' v = (if v = u then map_option f (get_class p u) else get_class p v)"
    and "pr_order p' = pr_order p \<and> pr_enums p' = pr_enums p \<and> pr_name p' = pr_name p"
proof -
  obtain cl where cl: "get_class p u = Some cl" "p' = p\<lparr>pr_classes := AList.update u (f cl) (pr_classes p)\<rparr>"
    using assms by (auto simp: get_class_mut_def)
  then show "get_class p' v = (if v = u then map_option f (get_class p u) else get_class p v)"
    by (simp add: get_class_def update_conv')
  show "pr_order p' = pr_order p \<and> pr_enums p' = pr_enums p \<and> pr_name p' = pr_name p" by (simp add: cl(2))
qed

lemma cl_children_with [simp]: "cl_children (with_children ch cl) = ch" "cl_uuid (with_children ch cl) = cl_uuid cl"
  by (simp_all add: with_children_def)

lemma resolve_parent_vec_mut_Some:
  assumes "resolve_parent_vec_mut p owner path f = Some p'"
  obtains cl ch where "path \<noteq> []" "get_class p owner = Some cl" "modify_vec f (butlast path) (last path) (cl_children cl) = Some ch"
    "get_class_mut owner (with_children ch) p = Some p'"
  using assms by (auto simp: resolve_parent_vec_mut_def split: if_splits option.splits)

lemma resolve_parent_vec_mut_total:
  assumes "node_at p owner path = Some n"
  shows "\<exists>cl ms p' cl'. get_class p owner = Some cl \<and> children_at (cl_children cl) (butlast path) = Some ms \<and> last path < length ms
    \<and> ms ! last path = n \<and> resolve_parent_vec_mut p owner path f = Some p' \<and> get_class p' owner = Some cl'
    \<and> children_at (cl_children cl') (butlast path) = Some (f ms (last path))
    \<and> (\<forall>v. v \<noteq> owner \<longrightarrow> get_class p' v = get_class p v)"
proof -
  obtain cl ms where c: "path \<noteq> []" "get_class p owner = Some cl" "children_at (cl_children cl) (butlast path) = Some ms"
      "last path < length ms" "ms ! last path = n"
    using assms by (auto simp: node_at_def split: if_splits option.splits)
  from modify_vec_Some[OF c(3,4)] obtain ch where ch: "modify_vec f (butlast path) (last path) (cl_children cl) = Some ch"
      "children_at ch (butlast path) = Some (f ms (last path))" by blast
  obtain p' where p': "get_class_mut owner (with_children ch) p = Some p'" using c(2) by (simp add: get_class_mut_def)
  have "resolve_parent_vec_mut p owner path f = Some p'" using c(1,2) ch(1) p' by (simp add: resolve_parent_vec_mut_def)
  moreover have "get_class p' owner = Some (with_children ch cl)" using get_class_mut_lookup(1)[OF p'] c(2) by simp
  ultimately show ?thesis using c ch(2) get_class_mut_lookup(1)[OF p'] by auto
qed

lemma replace_in_project:
  assumes "resolve_parent_vec_mut p owner path (\<lambda>ns i. ns[i := g (ns ! i)]) = Some p'"
  shows "node_at p' owner path = map_option g (node_at p owner path)
    \<and> (\<forall>v q. v \<noteq> owner \<or> \<not> prefix q path \<and> \<not> prefix path q \<longrightarrow> node_at p' v q = node_at p v q)"
proof -
  from assms obtain cl ch where c: "path \<noteq> []" "get_class p owner = Some cl"
      "modify_vec (\<lambda>ns i. ns[i := g (ns ! i)]) (butlast path) (last path) (cl_children cl) = Some ch"
      "get_class_mut owner (with_children ch) p = Some p'"
    by (rule resolve_parent_vec_mut_Some)
  have "get_class p' owner = Some (with_children ch cl)" using get_class_mut_lookup(1)[OF c(4)] c(2) by simp
  then show ?thesis using modify_vec_replace[OF c(3)] get_class_mut_lookup(1)[OF c(4)] c(1,2) by (auto simp: node_at_in)
qed

section \<open>Edits keep the project well formed\<close>

definition nodes_ok :: "node list \<Rightarrow> nat \<Rightarrow> bool" where
  "nodes_ok ns d \<longleftrightarrow> (\<forall>n\<in>set ns. node_wf n \<and> node_depth n \<le> d)"

lemma node_depth_children: "node_depth n \<le> Suc d \<longleftrightarrow> (\<forall>m\<in>set (node_children n). node_depth m \<le> d)"
  by (subst node_depth.simps) auto

lemma node_wf_iff_children: "node_wf n \<longleftrightarrow> node_fields_wf n \<and> (\<forall>m\<in>set (node_children n). node_wf m)"
  by (subst node_wf.simps) simp

lemma nodes_ok_children: "nodes_ok [n] (Suc d) \<longleftrightarrow> node_fields_wf n \<and> nodes_ok (node_children n) d"
  by (auto simp: nodes_ok_def node_depth_children node_wf_iff_children[of n])

lemma nodes_ok_leaf: "node_children n = [] \<Longrightarrow> node_fields_wf n \<Longrightarrow> nodes_ok [n] (Suc d)"
  by (simp add: nodes_ok_children) (simp add: nodes_ok_def)

lemma nodes_ok_subset: "nodes_ok ns d \<Longrightarrow> set ms \<subseteq> set ns \<Longrightarrow> nodes_ok ms d"
  by (auto simp: nodes_ok_def)

lemma nodes_ok_union: "nodes_ok (xs @ ys) d \<longleftrightarrow> nodes_ok xs d \<and> nodes_ok ys d"
  by (auto simp: nodes_ok_def)

lemma nodes_ok_0: "nodes_ok ns 0 \<longleftrightarrow> ns = []"
proof -
  have "node_depth n \<noteq> 0" for n by (subst node_depth.simps) simp
  then show ?thesis by (cases ns) (auto simp: nodes_ok_def)
qed

lemma nodes_ok_update: "nodes_ok ns d \<Longrightarrow> nodes_ok [m] d \<Longrightarrow> nodes_ok (ns[i := m]) d"
  using set_update_subset_insert[of ns i m] by (auto simp: nodes_ok_def)

text \<open>An edit of a list that keeps lists of every depth in order keeps the whole tree in order.\<close>

lemma modify_vec_ok:
  assumes f: "\<And>ms d i. nodes_ok ms (Suc d) \<Longrightarrow> i < length ms \<Longrightarrow> nodes_ok (f ms i) (Suc d)"
  shows "modify_vec f pre lst ns = Some ns' \<Longrightarrow> nodes_ok ns d \<Longrightarrow> nodes_ok ns' d"
proof (induction pre arbitrary: ns ns' d)
  case Nil
  then show ?case using f by (cases d) (auto simp: nodes_ok_0 split: if_splits)
next
  case (Cons i pre)
  from Cons(2) obtain ch ch' where i: "i < length ns" "children_mut (ns ! i) = Some ch"
      "modify_vec f pre lst ch = Some ch'" "ns' = ns[i := set_children ch' (ns ! i)]"
    by (auto split: if_splits option.splits)
  have ok: "nodes_ok [ns ! i] d" using Cons(3) i(1) by (auto simp: nodes_ok_def)
  then obtain e where e: "d = Suc e" by (cases d) (auto simp: nodes_ok_0)
  have "nodes_ok ch e" using ok children_mut_Some[OF i(2)] by (auto simp: e nodes_ok_children)
  from Cons(1)[OF i(3) this] have "nodes_ok [set_children ch' (ns ! i)] d"
    using ok children_mut_Some[OF i(2), of ch'] by (auto simp: e nodes_ok_children)
  then show ?case unfolding i(4) by (rule nodes_ok_update[OF Cons(3)])
qed

lemma project_wf_edit:
  assumes "project_wf p" "get_class_mut u (with_children ch) p = Some p'" "nodes_ok ch 128"
  shows "project_wf p'"
proof -
  have "project_inv p'" using project_inv_edit[OF _ _ assms(2)] assms(1) by (simp add: project_wf_def)
  moreover obtain cl where "p' = p\<lparr>pr_classes := AList.update u (with_children ch cl) (pr_classes p)\<rparr>"
    using assms(2) by (auto simp: get_class_mut_def)
  ultimately show ?thesis using assms(1,3) by (auto simp: project_wf_def nodes_ok_def dest!: set_update_values)
qed

lemma class_nodes_ok: "project_wf p \<Longrightarrow> get_class p u = Some cl \<Longrightarrow> nodes_ok (cl_children cl) 128"
  using get_class_Some_iff[of p u cl] by (fastforce simp: project_wf_def nodes_ok_def)

lemma resolve_ok:
  assumes "project_wf p" "resolve_parent_vec_mut p owner path f = Some p'"
    and "\<And>ms d i. nodes_ok ms (Suc d) \<Longrightarrow> i < length ms \<Longrightarrow> nodes_ok (f ms i) (Suc d)"
  shows "project_wf p'"
proof -
  from assms(2) obtain cl ch where c: "path \<noteq> []" "get_class p owner = Some cl"
      "modify_vec f (butlast path) (last path) (cl_children cl) = Some ch" "get_class_mut owner (with_children ch) p = Some p'"
    by (rule resolve_parent_vec_mut_Some)
  from modify_vec_ok[of f, OF assms(3) c(3) class_nodes_ok[OF assms(1) c(2)]] project_wf_edit[OF assms(1) c(4)] show ?thesis by blast
qed

lemma hex_fill_ok: "nodes_ok (hex_fill k) (Suc d)"
  using hex_fill_leaf[of _ k] nodes_ok_leaf by (fastforce simp: nodes_ok_def node_fields_wf_def)

lemma replace_ok:
  "nodes_ok ms (Suc d) \<Longrightarrow> i < length ms \<Longrightarrow> nodes_ok [g (ms ! i)] (Suc d) \<Longrightarrow> nodes_ok (ms[i := g (ms ! i)]) (Suc d)"
  by (rule nodes_ok_update)

lemma set_name_shape [simp]:
  "node_children (set_name nm n) = node_children n" "node_fields_wf (set_name nm n) = node_fields_wf n"
  "node_children (set_comment nm n) = node_children n" "node_fields_wf (set_comment nm n) = node_fields_wf n"
  by (cases n; simp add: node_fields_wf_def)+

lemma set_name_ok: "nodes_ok ms (Suc d) \<Longrightarrow> i < length ms \<Longrightarrow> nodes_ok [set_name nm (ms ! i)] (Suc d) \<and> nodes_ok [set_comment nm (ms ! i)] (Suc d)"
  using nodes_ok_subset[of ms "Suc d" "[ms ! i]"] by (simp add: nodes_ok_children)

text \<open>A node the registry constructs is a leaf with valid fields.\<close>

lemma entry_ctor_leaf: "node_children (entry_ctor fresh e) = [] \<and> node_fields_wf (entry_ctor fresh e)"
proof (cases e)
  case (VectorEntry k w)
  have "max 2 (min k 4) \<in> {2, 3, 4}" by auto
  then show ?thesis by (simp add: VectorEntry VectorNode_new_def node_fields_wf_def)
qed (auto simp: MatrixNode_new_def FunctionNode_new_def ClassNode_with_uuid_def node_fields_wf_def USIZE_MAX_def Let_def)

lemma changed_type_ok: "nodes_ok [n] (Suc d) \<Longrightarrow> nodes_ok [changed_type fresh reg tag n] (Suc d)"
  using entry_ctor_leaf[of fresh "the (reg tag)"]
  by (auto simp: changed_type_def Registry.construct_def nodes_ok_children split: option.split) (auto simp: nodes_ok_def)

lemma new_node_ok: "nodes_ok [new_pointer t n] (Suc d)" "nodes_ok [new_instance u n] (Suc d)"
  by (rule nodes_ok_leaf; simp add: new_pointer_def new_instance_def node_fields_wf_def)+

lemma apply_op_wf: "project_wf p \<Longrightarrow> apply_op fresh reg op p = Some p' \<Longrightarrow> project_wf p'"
proof -
  assume wf: "project_wf p" and "apply_op fresh reg op p = Some p'"
  have elem: "nodes_ok [ms ! i] (Suc d)" if "nodes_ok ms (Suc d)" "i < length ms" for ms d i
    using that by (intro nodes_ok_subset[OF that(1)]) simp
  have parts: "nodes_ok (take a ms @ drop b ms) (Suc d)" "nodes_ok (take a ms @ hex_fill c @ drop b ms) (Suc d)"
    if "nodes_ok ms (Suc d)" for ms d a b c
    using that set_take_subset[of a ms] set_drop_subset[of b ms] hex_fill_ok[of c d] unfolding nodes_ok_union
    by (blast intro: nodes_ok_subset)+
  show ?thesis using \<open>apply_op fresh reg op p = Some p'\<close>
  proof (cases op)
    case (AppendBytes owner cnt)
    with \<open>apply_op fresh reg op p = Some p'\<close> obtain cl where cl: "get_class p owner = Some cl" by (auto simp: get_class_mut_def)
    have "get_class_mut owner (with_children (cl_children cl @ hex_fill cnt)) p = Some p'"
      using \<open>apply_op fresh reg op p = Some p'\<close> cl by (simp add: AppendBytes get_class_mut_def)
    moreover have "nodes_ok (hex_fill cnt) 128" using hex_fill_ok[of cnt 127] by simp
    ultimately show ?thesis using project_wf_edit[OF wf] class_nodes_ok[OF wf cl] by (simp add: nodes_ok_union)
  qed (simp_all add: resolve_node_mut_def, (erule resolve_ok[OF wf]; simp add: vec_remove_def drain_def insert_each_eq parts
        nodes_ok_update elem changed_type_ok new_node_ok set_name_ok)+)
qed

section \<open>An untouched cell\<close>

definition no_x :: "utext \<Rightarrow> bool" where
  "no_x s \<longleftrightarrow> 120 \<notin> set s \<and> 88 \<notin> set s \<and> (\<forall>c\<in>set s. \<not> is_whitespace c)"

lemma no_x_plain: "no_x s \<Longrightarrow> edit_seed s = s \<and> trim_start_0 120 s = s \<and> trim_start_0 88 s = s \<and> trim_text s = s"
proof -
  assume n: "no_x s"
  then have "trim_text s = s" by (intro trim_text_id) (simp add: no_x_def)
  moreover have "edit_seed s = s \<and> trim_start_0 120 s = s \<and> trim_start_0 88 s = s"
    using n by (cases s; cases "tl s") (auto simp: no_x_def edit_seed_def)
  ultimately show ?thesis by blast
qed

lemma digit_not_white: "48 \<le> c \<Longrightarrow> c \<le> 57 \<Longrightarrow> \<not> is_whitespace c"
  by (simp add: is_whitespace_def)

lemma codes_Nil [simp]: "codes s = [] \<longleftrightarrow> s = []"
  by (simp add: codes_def)

lemma no_x_dec: "no_x (codes (format_dec n))"
  using format_dec_chars[of _ n] digit_not_white unfolding no_x_def by force

lemma no_x_int: "no_x (codes (format_int v))"
proof -
  have "no_x (45 # s) = no_x s" for s by (auto simp: no_x_def is_whitespace_def)
  then show ?thesis using no_x_dec by (simp add: format_int_def)
qed

lemma hex_char_range: "c \<in> set (codes (format_HEX_width w n)) \<Longrightarrow> (48 \<le> c \<and> c \<le> 57) \<or> (65 \<le> c \<and> c \<le> 70)"
proof -
  assume "c \<in> set (codes (format_HEX_width w n))"
  then have "c = 48 \<or> (\<exists>x\<in>set (format_HEX n). c = of_char x)" by (auto simp: codes_def format_HEX_width_def pad_left_def)
  moreover have "(48 \<le> (of_char x :: nat) \<and> (of_char x :: nat) \<le> 57) \<or> (65 \<le> (of_char x :: nat) \<and> (of_char x :: nat) \<le> 70)" if "x \<in> set (format_HEX n)" for x
  proof -
    have "\<exists>d<16. x = hex_digit_upper d" using that by (intro digits_of_chars) (simp_all add: format_HEX_def)
    then obtain d where "d < 16" "x = hex_digit_upper d" by blast
    then show ?thesis using less_16_cases[of d] by (force simp: hex_digit_upper_def)
  qed
  ultimately show ?thesis by auto
qed

lemma no_x_hex: "no_x (codes (format_HEX_width w n))"
  using hex_char_range[of _ w n] unfolding no_x_def is_whitespace_def by force

lemma hex_width_value: "digits_text 16 (codes (format_HEX_width w n)) = Some n"
proof -
  have "codes (format_HEX_width w n) \<noteq> []" by (simp add: codes_def format_HEX_width_def pad_left_def format_HEX_def)
  then show ?thesis
    by (simp add: digits_text_def format_HEX_width_def pad_left_def digits_value_zeros digits_value_format)
qed

lemma uint_hex:
  assumes "length bs = w"
  shows "map_option (le_bytes_of w) (uint_from_str w 16 (codes (format_HEX_width v (le_nat bs)))) = Some bs"
proof -
  let ?t = "codes (format_HEX_width v (le_nat bs))"
  obtain c cs where t: "?t = c # cs"
    using hex_width_value[of v "le_nat bs"] by (cases ?t) (auto simp: digits_text_def)
  have "c \<noteq> 43" using hex_char_range[of c v "le_nat bs"] by (auto simp: t)
  then have "uint_from_str w 16 ?t = Some (le_nat bs)"
    using hex_width_value[of v "le_nat bs"] le_nat_bound_bits[of bs] assms by (simp add: uint_from_str_def t)
  then show ?thesis using le_bytes_of_le_nat[of bs] assms by simp
qed

lemma uint_dec:
  assumes "length bs = w"
  shows "map_option (le_bytes_of w) (uint_from_str w 10 (codes (format_dec (le_nat bs)))) = Some bs"
proof -
  let ?t = "codes (format_dec (le_nat bs))"
  obtain c cs where t: "?t = c # cs" by (cases ?t) simp_all
  have "c \<noteq> 43" using format_dec_chars[of c "le_nat bs"] by (auto simp: t)
  moreover have "digits_text 10 ?t = Some (le_nat bs)" by (simp add: digits_text_def digits_value_format)
  ultimately have "uint_from_str w 10 ?t = Some (le_nat bs)"
    using le_nat_bound_bits[of bs] assms by (simp add: uint_from_str_def t)
  then show ?thesis using le_bytes_of_le_nat[of bs] assms by simp
qed

lemma le_int_range:
  assumes "bs \<noteq> []"
  shows "- (2 ^ (8 * length bs - 1)) \<le> le_int bs \<and> le_int bs < 2 ^ (8 * length bs - 1)
    \<and> nat (le_int bs mod 2 ^ (8 * length bs)) = le_nat bs"
proof -
  define k where "k = 8 * length bs - 1"
  have k: "8 * length bs = Suc k" using assms by (cases bs) (simp_all add: k_def)
  have lt: "int (le_nat bs) < 2 ^ Suc k" using le_nat_bound_bits[of bs] unfolding k
    by (metis of_nat_less_iff of_nat_numeral of_nat_power)
  have "(int (le_nat bs) - 2 ^ Suc k) mod 2 ^ Suc k = int (le_nat bs)" using lt by (simp only: minus_mod_self2) simp
  then show ?thesis using lt by (auto simp: le_int_def Let_def k)
qed

lemma int_dec:
  assumes "length bs = w" "bs \<noteq> []"
  shows "map_option (\<lambda>v. le_bytes_of w (nat (v mod 2 ^ (8 * w)))) (int_from_str w (codes (format_int (le_int bs)))) = Some bs"
proof -
  let ?v = "le_int bs"
  have parsed: "digits_text 10 (codes (format_dec k)) = Some k" for k by (simp add: digits_text_def digits_value_format)
  have plain: "take_sign (codes (format_dec k)) = (False, codes (format_dec k))" for k
    using format_dec_chars[of 43 k] format_dec_chars[of 45 k] by (cases "codes (format_dec k)") (auto simp: take_sign_def)
  have "take_sign (codes (format_int ?v)) = (?v < 0, codes (format_dec (nat \<bar>?v\<bar>)))"
    by (simp add: format_int_def plain) (simp add: take_sign_def)
  then have "int_from_str w (codes (format_int ?v)) = Some ?v"
    using le_int_range[OF assms(2)] assms(1) by (simp add: int_from_str_def parsed)
  then show ?thesis using le_int_range[OF assms(2)] assms(1) le_bytes_of_le_nat[of bs] by simp
qed

text \<open>The text of a cell, taken as it is, stands for the bytes the cell shows.\<close>

definition integral_tag :: "string \<Rightarrow> bool" where
  "integral_tag tag \<longleftrightarrow>
     tag \<in> {''Int8'', ''Int16'', ''Int32'', ''Int64'', ''UInt8'', ''UInt16'', ''UInt32'', ''UInt64'', ''Hex8'', ''Hex16'', ''Hex32'',
       ''Hex64'', ''Pointer''}"

lemma read_whole: "length bs = n \<Longrightarrow> n \<le> 16 \<Longrightarrow> read_bytes bs 0 n = Some bs"
  by (simp add: read_bytes_def checked_add_def USIZE_MAX_def)

lemma seed_hex: "trim_text (edit_seed (hex_text v n)) = codes (format_HEX_width v n)"
  using no_x_plain[OF no_x_hex[of v n]] by (simp add: hex_text_def edit_seed_def)

lemma raw_plain: "no_x s \<Longrightarrow> trim_start_0 88 (trim_start_0 120 (trim_text (edit_seed s))) = s \<and> trim_text (edit_seed s) = s"
  using no_x_plain by simp

lemma raw_hex: "trim_start_0 88 (trim_start_0 120 (trim_text (edit_seed (hex_text v n)))) = codes (format_HEX_width v n)"
  using no_x_plain[OF no_x_hex[of v n]] by (simp add: seed_hex)

lemma untouched_bytes:
  assumes "integral_tag (type_tag n)" "length bs = memory_size n"
  shows "parsed_bytes (type_tag n) (trim_text (edit_seed (rv_value (render U n bs 0)))) = Some (Some bs)"
proof (cases n)
  case (SimpleNode k a b)
  have "simple_size k \<noteq> 0" by (cases k) simp_all
  then have "bs \<noteq> []" using assms(2) by (auto simp: SimpleNode)
  then show ?thesis
    using SimpleNode assms int_dec[of bs "simple_size k"] uint_dec[of bs "simple_size k"] uint_hex[of bs "simple_size k" "2 * simple_size k"]
      raw_plain[OF no_x_int[of "le_int bs"]] raw_plain[OF no_x_dec[of "le_nat bs"]] raw_hex[of "2 * simple_size k" "le_nat bs"]
    by (cases k) (auto simp: integral_tag_def simple_render_def read_whole parsed_bytes_def)
next
  case (PointerNode a b t)
  then show ?thesis using assms uint_hex[of bs 8 12] raw_hex[of 12 "le_nat bs"]
    by (simp add: PointerNode_render_def read_whole parsed_bytes_def)
qed (use assms in \<open>auto simp: integral_tag_def vector_tag_def matrix_tag_def VECTOR_SHAPES_def MATRIX_SHAPES_def split: if_splits float_width.splits\<close>)

section \<open>Properties\<close>

text \<open>The operations that replace the node at a path, and what they make of it.\<close>

fun node_edit :: "uuid \<Rightarrow> registry \<Rightarrow> node_edit_op \<Rightarrow> (uuid \<times> node_path \<times> (node \<Rightarrow> node)) option" where
  "node_edit fresh reg (ChangeType owner path new_tag) = Some (owner, path, changed_type fresh reg new_tag)"
| "node_edit fresh reg (SetName owner path name) = Some (owner, path, set_name name)"
| "node_edit fresh reg (SetComment owner path comment) = Some (owner, path, set_comment comment)"
| "node_edit fresh reg (SetPtrTarget owner path target) = Some (owner, path, new_pointer target)"
| "node_edit fresh reg (SetInstance owner path target) = Some (owner, path, new_instance target)"
| "node_edit fresh reg _ = None"

lemma node_edit_apply:
  "node_edit fresh reg op = Some (owner, path, g) \<Longrightarrow>
   apply_op fresh reg op p = resolve_parent_vec_mut p owner path (\<lambda>ns i. ns[i := g (ns ! i)])"
  by (cases op) (auto simp: resolve_node_mut_def)

text \<open>
  C34. An edit started from a row of the class view that replaces its node (its type, name, comment, pointer target or
  instance) always succeeds, replaces exactly the node the row shows, and leaves every node that is not above or below it,
  in this and every other class, as it was.
\<close>

theorem edit_hits_shown_row:
  assumes "s \<in> set (view_rows U env base buf u)"
    and "node_edit fresh reg op = Some (sn_owner_class s, sn_local_path s, g)"
  shows "\<exists>n p'. shows_node s n \<and> node_at (ve_project env) (sn_owner_class s) (sn_local_path s) = Some n
    \<and> apply_op fresh reg op (ve_project env) = Some p' \<and> node_at p' (sn_owner_class s) (sn_local_path s) = Some (g n)
    \<and> (\<forall>v q. v \<noteq> sn_owner_class s \<or> \<not> prefix q (sn_local_path s) \<and> \<not> prefix (sn_local_path s) q
        \<longrightarrow> node_at p' v q = node_at (ve_project env) v q)"
proof -
  obtain n where n: "node_at (ve_project env) (sn_owner_class s) (sn_local_path s) = Some n" "shows_node s n"
    using rows_locate[OF assms(1)] by blast
  obtain p' where p': "resolve_parent_vec_mut (ve_project env) (sn_owner_class s) (sn_local_path s) (\<lambda>ns i. ns[i := g (ns ! i)]) = Some p'"
    using resolve_parent_vec_mut_total[OF n(1)] by blast
  from replace_in_project[OF p'] n p' show ?thesis unfolding node_edit_apply[OF assms(2)] by (intro exI[of _ n] exI[of _ p']) simp
qed

theorem edit_hits_shown_row_witness:
  "\<exists>p'. apply_op 0 builtins (SetName 1 [0] [65])
      (add_class (ClassNode 1 [] [] [] [SimpleNode Int32Node [104] []]) (Project_new [])) = Some p'
     \<and> node_at p' 1 [0] = Some (SimpleNode Int32Node [65] [])"
proof -
  let ?p = "add_class (ClassNode 1 [] [] [] [SimpleNode Int32Node [104] []]) (Project_new [])"
  let ?env = "\<lparr>ve_project = ?p, ve_collapsed = [], ve_expanded = [], ve_deref = Map.empty\<rparr>"
  let ?s = "node_row hex_uuid ?env (root_level 0 [] 1) 0 0 (SimpleNode Int32Node [104] [])"
  have p: "get_class ?p 1 = Some (ClassNode 1 [] [] [] [SimpleNode Int32Node [104] []])" by (simp add: get_class_new)
  have row: "?s \<in> set (view_rows hex_uuid ?env 0 [] 1)" using p by (simp add: view_rows_def flatten_nodes_def set_flatten_Cons)
  have place: "sn_owner_class ?s = 1" "sn_local_path ?s = [0]" by (simp_all add: node_row_def root_level_def)
  from edit_hits_shown_row[OF row, where fresh = 0 and reg = builtins and op = "SetName 1 [0] [65]" and g = "set_name [65]"] obtain n p'
    where "node_at ?p 1 [0] = Some n" "apply_op 0 builtins (SetName 1 [0] [65]) ?p = Some p'" "node_at p' 1 [0] = Some (set_name [65] n)"
    unfolding place by auto
  moreover have "node_at ?p 1 [0] = Some (SimpleNode Int32Node [104] [])" using p by (simp add: node_at_def)
  ultimately show ?thesis by auto
qed

text \<open>The operations on the list around a node, and the list they leave.\<close>

fun list_edit :: "node_edit_op \<Rightarrow> (uuid \<times> node_path \<times> (node list \<Rightarrow> nat \<Rightarrow> node list)) option" where
  "list_edit (Delete owner path) = Some (owner, path, \<lambda>ns i. take i ns @ drop (i + 1) ns)"
| "list_edit (DeleteRange owner path cnt) = Some (owner, path, \<lambda>ns i. take i ns @ drop (i + cnt) ns)"
| "list_edit (AddBytes owner path cnt) = Some (owner, path, \<lambda>ns i. take (i + 1) ns @ hex_fill cnt @ drop (i + 1) ns)"
| "list_edit (InsertBytes owner path cnt) = Some (owner, path, \<lambda>ns i. take i ns @ hex_fill cnt @ drop i ns)"
| "list_edit _ = None"

definition siblings :: "project \<Rightarrow> uuid \<Rightarrow> node_path \<Rightarrow> node list option" where
  "siblings p owner path = Option.bind (get_class p owner) (\<lambda>cl. children_at (cl_children cl) (butlast path))"

lemma list_edit_apply:
  assumes "list_edit op = Some (owner, path, h)" "node_at p owner path = Some n"
  obtains f where "apply_op fresh reg op p = resolve_parent_vec_mut p owner path f"
    "\<And>ms i. i < length ms \<Longrightarrow> length ms \<le> USIZE_MAX \<Longrightarrow> f ms i = h ms i"
  using assms(1)
proof (cases op)
  case (DeleteRange a b cnt)
  have "drain ms i (min (saturating_add i cnt) (length ms)) = take i ms @ drop (i + cnt) ms" if "length ms \<le> USIZE_MAX" for ms :: "node list" and i
    using that by (auto simp: drain_def saturating_add_def min_def)
  then show ?thesis using that assms(1) by (auto simp: DeleteRange)
qed (auto simp: vec_remove_def insert_each_eq intro!: that)

text \<open>
  C35. Deleting at a row, deleting a range from it (cut off at the end of its siblings), and adding or inserting bytes behind
  or in front of it change the list of its siblings in exactly that way, with fillers that make up the number of bytes asked
  for; no other class changes.
\<close>

theorem list_edit_effect:
  assumes "list_edit op = Some (owner, path, h)" "path \<noteq> []" "siblings p owner path = Some ms" "last path < length ms"
    and "length ms \<le> USIZE_MAX"
  shows "\<exists>p'. apply_op fresh reg op p = Some p' \<and> siblings p' owner path = Some (h ms (last path))
    \<and> (\<forall>v. v \<noteq> owner \<longrightarrow> get_class p' v = get_class p v) \<and> (\<forall>cnt. (\<Sum>m\<leftarrow>hex_fill cnt. memory_size m) = cnt)"
proof -
  have at: "node_at p owner path = Some (ms ! last path)"
    using assms(2-4) by (cases "get_class p owner") (auto simp: siblings_def node_at_def)
  obtain f where f: "apply_op fresh reg op p = resolve_parent_vec_mut p owner path f"
      "\<And>ms i. i < length ms \<Longrightarrow> length ms \<le> USIZE_MAX \<Longrightarrow> f ms i = h ms i"
    using list_edit_apply[OF assms(1) at] by metis
  from resolve_parent_vec_mut_total[OF at, of f] obtain cl ms' p' cl' where
    r: "get_class p owner = Some cl" "children_at (cl_children cl) (butlast path) = Some ms'"
      "resolve_parent_vec_mut p owner path f = Some p'" "get_class p' owner = Some cl'"
      "children_at (cl_children cl') (butlast path) = Some (f ms' (last path))" "\<forall>v. v \<noteq> owner \<longrightarrow> get_class p' v = get_class p v"
    by blast
  moreover have "ms' = ms" using assms(3) r(1,2) by (simp add: siblings_def)
  moreover have "f ms (last path) = h ms (last path)" by (rule f(2)[OF assms(4,5)])
  ultimately show ?thesis using f(1) hex_fill_total by (simp add: siblings_def)
qed

theorem list_edit_effect_witness:
  "\<exists>p'. apply_op 0 builtins (DeleteRange 1 [1] 8)
      (add_class (ClassNode 1 [] [] [] [SimpleNode Int32Node [104] [], SimpleNode Int8Node [] []]) (Project_new [])) = Some p'
     \<and> siblings p' 1 [1] = Some [SimpleNode Int32Node [104] []]"
proof -
  let ?ns = "[SimpleNode Int32Node [104] [], SimpleNode Int8Node [] []]"
  let ?p = "add_class (ClassNode 1 [] [] [] ?ns) (Project_new [])"
  have "siblings ?p 1 [1] = Some ?ns" by (simp add: siblings_def get_class_new)
  moreover have "length ?ns \<le> USIZE_MAX" by (simp add: USIZE_MAX_def)
  ultimately show ?thesis
    using list_edit_effect[where op = "DeleteRange 1 [1] 8" and h = "\<lambda>ns i. take i ns @ drop (i + 8) ns" and fresh = 0
        and reg = builtins and owner = 1 and path = "[1]" and p = ?p and ms = ?ns] by auto
qed

text \<open>
  C36. Any sequence of edits, with any node registry, leaves a project that can be saved and loaded: every class once,
  valid fields everywhere, and no node nested deeper than the loader accepts.
\<close>

theorem edits_keep_project_wf:
  assumes "project_wf p"
  shows "project_wf (ce_project (foldl (\<lambda>e (fresh, op). apply_node_edit fresh reg op e) (e\<lparr>ce_project := p\<rparr>) ops))"
  using assms
proof (induction ops arbitrary: e p)
  case (Cons x ops)
  obtain fresh op where x: "x = (fresh, op)" by (cases x)
  have step: "project_wf (ce_project (apply_node_edit fresh reg op (e\<lparr>ce_project := p\<rparr>)))"
    using Cons(2) apply_op_wf[OF Cons(2)] by (simp add: apply_node_edit_def invalidate_def split: option.split)
  from Cons(1)[OF this, of "apply_node_edit fresh reg op (e\<lparr>ce_project := p\<rparr>)"] show ?case by (simp add: x)
qed simp

theorem edits_keep_project_wf_witness:
  "project_wf (ce_project (foldl (\<lambda>e (fresh, op). apply_node_edit fresh builtins op e)
      (\<lparr>ce_project = Project_new [], ce_snapshots = [], ce_mem_buf = [], ce_edit_state = None, ce_last_snapshot = None, ce_last_error = None\<rparr>
        \<lparr>ce_project := add_class (ClassNode 1 [] [] [] [SimpleNode Hex64Node [] []]) (Project_new [])\<rparr>)
      [(0, ChangeType 1 [0] ''VTable''), (0, AddBytes 1 [0] 13), (0, DeleteRange 1 [1] 2)]))"
proof (rule edits_keep_project_wf)
  have "pr_classes (add_class (ClassNode 1 [] [] [] [SimpleNode Hex64Node [] []]) (Project_new []))
      = [(1, ClassNode 1 [] [] [] [SimpleNode Hex64Node [] []])]" by (simp add: add_class_def Let_def Project_new_def)
  moreover have "nodes_ok [SimpleNode Hex64Node [] []] 128"
    using nodes_ok_leaf[of "SimpleNode Hex64Node [] []" 127] by (simp add: node_fields_wf_def)
  ultimately show "project_wf (add_class (ClassNode 1 [] [] [] [SimpleNode Hex64Node [] []]) (Project_new []))"
    using project_inv_add[OF project_inv_new] by (simp add: project_wf_def nodes_ok_def)
qed



text \<open>A Boolean is the exception: any byte but zero shows as true, and true is written as one.\<close>

lemma untouched_bool_normalises:
  "b \<noteq> 0 \<Longrightarrow> parsed_bytes ''Bool'' (trim_text (edit_seed (rv_value (render U (SimpleNode BoolNode nm c) [b] 0)))) = Some (Some [1])"
  by (simp add: simple_render_def read_whole edit_seed_def parsed_bytes_def trim_text_def is_whitespace_def to_ascii_lowercase_def)

text \<open>The name of a new class is free.\<close>

lemma free_name_free: "\<exists>m\<ge>n. free_name p n = class_candidate m \<and> \<not> name_taken p m"
proof (induction p n rule: free_name.induct)
  case (1 p n)
  then show ?case by (cases "name_taken p n") (auto simp: free_name.simps[of p n] intro: Suc_leD)
qed

end
