(* ===== verification/Decoder.thy ===== *)
theory Decoder
  imports Maps Pattern Process_Memory
begin

text \<open>
  The layer over the instruction decoder (nemclass-core/src/internal/decoder.rs): linear disassembly with a callback,
  references to an address, and signatures whose operand bytes are wildcards.

  The decoder is the iced-x86 package. It is a parameter: a function from an address and the bytes there to what the code
  asks of the decoded instruction. \<open>decoder_laws\<close> is what its documentation states: an instruction has at least one byte
  and at most 15, no more than there are, and depends on its first 15 bytes only.
\<close>

section \<open>What the code asks of a decoded instruction\<close>

datatype flow_control =
    NextFlow | UnconditionalBranch | IndirectBranch | ConditionalBranch | ReturnFlow | CallFlow | IndirectCall | Interrupt
  | XbeginXabortXend | ExceptionFlow

datatype op_kind =
    RegisterOp | NearBranch16 | NearBranch32 | NearBranch64 | FarBranch16 | FarBranch32 | Immediate8 | Immediate8_2nd
  | Immediate16 | Immediate32 | Immediate64 | Immediate8to16 | Immediate8to32 | Immediate8to64 | Immediate32to64
  | MemorySegSI | MemorySegESI | MemorySegRSI | MemorySegDI | MemorySegEDI | MemorySegRDI | MemoryESDI | MemoryESEDI
  | MemoryESRDI | MemoryOp

record iced_instruction =
  ii_ip :: nat
  ii_len :: nat
  ii_invalid :: bool
  ii_int3 :: bool
  ii_flow_control :: flow_control
  ii_op_kinds :: "op_kind list"
  ii_op0_kind :: op_kind
  ii_near_branch_target :: nat
  ii_ip_rel :: bool
  ii_ip_rel_address :: nat
  ii_displ_size :: nat
  ii_jcc_or_jmp :: bool
  ii_text :: utext
  ii_displacement :: "(nat \<times> nat) option"
  ii_immediate :: "(nat \<times> nat) option"
  ii_immediate2 :: "(nat \<times> nat) option"

type_synonym iced = "nat \<Rightarrow> bytes \<Rightarrow> iced_instruction"

definition decoder_laws :: "iced \<Rightarrow> bool" where
  "decoder_laws D \<longleftrightarrow>
     (\<forall>ip code. code \<noteq> [] \<longrightarrow>
        ii_ip (D ip code) = ip \<and> 0 < ii_len (D ip code) \<and> ii_len (D ip code) \<le> 15 \<and> ii_len (D ip code) \<le> length code)
     \<and> (\<forall>ip code r. 15 \<le> length code \<longrightarrow> D ip (code @ r) = D ip code)"

section \<open>Instructions\<close>

datatype flow_kind = Seq | Call | Jump | CondJump | Ret | Int3 | Other

record instruction_data =
  in_address :: nat
  in_length :: nat
  in_data :: bytes
  in_static_bytes :: int
  in_text :: utext
  in_kind :: flow_kind
  in_target :: "nat option"
  in_mem_target :: "nat option"

definition flow_kind_of :: "iced_instruction \<Rightarrow> flow_kind" where
  "flow_kind_of ins =
     (if ii_int3 ins then Int3
      else case ii_flow_control ins of
             NextFlow \<Rightarrow> Seq
           | CallFlow \<Rightarrow> Call | IndirectCall \<Rightarrow> Call
           | UnconditionalBranch \<Rightarrow> Jump | IndirectBranch \<Rightarrow> Jump
           | ConditionalBranch \<Rightarrow> CondJump
           | ReturnFlow \<Rightarrow> Ret
           | _ \<Rightarrow> Other)"

definition near_branch_target :: "iced_instruction \<Rightarrow> nat option" where
  "near_branch_target ins =
     (if ii_op0_kind ins \<in> {NearBranch16, NearBranch32, NearBranch64} then Some (ii_near_branch_target ins) else None)"

definition ip_rel_memory_target :: "iced_instruction \<Rightarrow> nat option" where
  "ip_rel_memory_target ins = (if ii_ip_rel ins then Some (ii_ip_rel_address ins) else None)"

fun operand_static :: "iced_instruction \<Rightarrow> op_kind \<Rightarrow> bool" where
  "operand_static ins MemoryOp = (ii_displ_size ins < 4 \<or> ii_ip_rel ins)"
| "operand_static ins Immediate32 = False"
| "operand_static ins Immediate32to64 = False"
| "operand_static ins Immediate64 = False"
| "operand_static ins NearBranch16 = False"
| "operand_static ins NearBranch32 = False"
| "operand_static ins NearBranch64 = False"
| "operand_static ins FarBranch16 = False"
| "operand_static ins FarBranch32 = False"
| "operand_static ins k = True"

definition are_operands_static :: "iced_instruction \<Rightarrow> bool" where
  "are_operands_static ins \<longleftrightarrow>
     ii_jcc_or_jmp ins \<and> ii_len ins < 5 \<or> list_all (operand_static ins) (ii_op_kinds ins)"

fun dynamic_width :: "iced_instruction \<Rightarrow> op_kind \<Rightarrow> nat" where
  "dynamic_width ins MemoryOp = (if ii_ip_rel ins then 4 else ii_displ_size ins)"
| "dynamic_width ins Immediate32 = 4"
| "dynamic_width ins Immediate32to64 = 4"
| "dynamic_width ins Immediate64 = 8"
| "dynamic_width ins NearBranch32 = 4"
| "dynamic_width ins FarBranch32 = 4"
| "dynamic_width ins k = 0"

definition get_static_instruction_bytes :: "iced_instruction \<Rightarrow> int" where
  "get_static_instruction_bytes ins =
     (if are_operands_static ins then int (ii_len ins)
      else int (saturating_sub (ii_len ins) (sum_list (map (dynamic_width ins) (ii_op_kinds ins)))))"

text \<open>The record \<open>disassemble_instructions\<close> builds of an instruction at the front of \<open>code\<close>.\<close>

definition instr_data :: "bool \<Rightarrow> bytes \<Rightarrow> iced_instruction \<Rightarrow> instruction_data" where
  "instr_data static code ins =
     \<lparr>in_address = ii_ip ins, in_length = ii_len ins, in_data = take (ii_len ins) code,
      in_static_bytes = (if ii_invalid ins then - 1 else if static then get_static_instruction_bytes ins else - 1),
      in_text = (if ii_invalid ins then codes ''???'' else ii_text ins),
      in_kind = (if ii_invalid ins then Other else flow_kind_of ins),
      in_target = (if ii_invalid ins then None else near_branch_target ins),
      in_mem_target = (if ii_invalid ins then None else ip_rel_memory_target ins)\<rparr>"

text \<open>
  \<open>disassemble_instructions\<close>: the callback takes and returns its own state and tells whether to go on. A decoder that gave
  a valid instruction of no bytes would keep the loop running; that is the value \<open>None\<close>.
\<close>

partial_function (option) disassemble_instructions ::
    "iced \<Rightarrow> bool \<Rightarrow> (instruction_data \<Rightarrow> 's \<Rightarrow> bool \<times> 's) \<Rightarrow> nat \<Rightarrow> bytes \<Rightarrow> 's \<Rightarrow> 's option" where
  "disassemble_instructions D static f ip code s =
     (if code = [] then Some s
      else
        let ins = D ip code
        in if ii_invalid ins \<and> ii_len ins = 0 then Some s
           else
             let r = f (instr_data static code ins) s
             in if \<not> fst r then Some (snd r)
                else disassemble_instructions D static f (wrapping_add ip (ii_len ins)) (drop (ii_len ins) code) (snd r))"

definition find_code_refs :: "iced \<Rightarrow> bytes \<Rightarrow> nat \<Rightarrow> nat \<Rightarrow> nat list option" where
  "find_code_refs D code virtual_address target =
     disassemble_instructions D False
       (\<lambda>ins refs. (True, if in_target ins = Some target \<or> in_mem_target ins = Some target then refs @ [in_address ins] else refs))
       virtual_address code []"

section \<open>Masked signatures\<close>

text \<open>The closure \<open>wildcard\<close>, and the mask of one instruction.\<close>

definition wildcard :: "(nat \<times> nat) option \<Rightarrow> bool list \<Rightarrow> bool list" where
  "wildcard co bits =
     (case co of
        None \<Rightarrow> bits
      | Some (off, sz) \<Rightarrow> map (\<lambda>i. if off \<le> i \<and> i < off + sz then True else bits ! i) [0..<length bits])"

definition instr_mask :: "iced_instruction \<Rightarrow> bool list" where
  "instr_mask ins =
     wildcard (ii_immediate2 ins) (wildcard (ii_immediate ins) (wildcard (ii_displacement ins) (replicate (ii_len ins) False)))"

partial_function (option) mask_loop :: "iced \<Rightarrow> nat \<Rightarrow> nat \<Rightarrow> bytes \<Rightarrow> bool list \<Rightarrow> bool list option" where
  "mask_loop D min_len ip code bits =
     (if code = [] \<or> \<not> length bits < min_len then Some bits
      else
        let ins = D ip code
        in if ii_invalid ins \<and> ii_len ins = 0 then Some bits
           else mask_loop D min_len (wrapping_add ip (ii_len ins)) (drop (ii_len ins) code) (bits @ instr_mask ins))"

definition operand_wildcard_mask :: "iced \<Rightarrow> bytes \<Rightarrow> nat \<Rightarrow> nat \<Rightarrow> bool list option" where
  "operand_wildcard_mask D code virtual_address min_len = mask_loop D min_len virtual_address code []"

fun join_spaces :: "string list \<Rightarrow> string" where
  "join_spaces [] = []"
| "join_spaces [x] = x"
| "join_spaces (x # y # zs) = x @ '' '' @ join_spaces (y # zs)"

definition format_masked :: "bytes \<Rightarrow> bool list \<Rightarrow> string" where
  "format_masked bs bits = join_spaces (map (\<lambda>(b, m). if m then ''??'' else format_02X b) (zip bs bits))"

text \<open>The narrowing loop: \<open>len\<close> is the length of the run tried next.\<close>

function masked_loop :: "bytes \<Rightarrow> nat \<Rightarrow> bytes \<Rightarrow> bool list \<Rightarrow> nat \<Rightarrow> nat \<Rightarrow> nat list \<Rightarrow> string option" where
  "masked_loop haystack offset needle full_mask min_len len candidates =
     (let i = len - 1;
          candidates = (if \<not> full_mask ! i then filter (\<lambda>p. haystack ! (p + i) = needle ! i) candidates else candidates);
          unique = (candidates = [offset])
      in if unique \<and> len \<ge> min_len then Some (format_masked (take len needle) (take len full_mask))
         else if len \<ge> length full_mask
         then (if unique then Some (format_masked (take len needle) (take len full_mask)) else None)
         else masked_loop haystack offset needle full_mask min_len (len + 1) candidates)"
  by pat_completeness auto
termination by (relation "measure (\<lambda>(_, _, _, m, _, l, _). length m - l)") auto

declare masked_loop.simps [simp del]

definition first_candidates :: "bytes \<Rightarrow> bytes \<Rightarrow> bool list \<Rightarrow> nat list" where
  "first_candidates haystack needle full_mask =
     (let last_start = length haystack - length full_mask
      in if full_mask ! 0 then [0..<last_start + 1]
         else filter (\<lambda>p. haystack ! p = needle ! 0) [0..<last_start + 1])"

text \<open>The outer \<open>None\<close> is a decoder that never ends, the inner one the function's own.\<close>

definition make_masked_signature :: "iced \<Rightarrow> bytes \<Rightarrow> nat \<Rightarrow> nat \<Rightarrow> nat \<Rightarrow> string option option" where
  "make_masked_signature D haystack offset min_len max_len0 =
     (if offset \<ge> length haystack then Some None
      else
        let max_len = min max_len0 (length haystack - offset)
        in case operand_wildcard_mask D (drop offset haystack) offset max_len of
             None \<Rightarrow> None
           | Some full_mask \<Rightarrow>
               if full_mask = [] then Some None
               else
                 let needle = slice haystack offset (length full_mask)
                 in Some (masked_loop haystack offset needle full_mask min_len 1
                            (first_candidates haystack needle full_mask)))"

section \<open>Linear sweeps\<close>

text \<open>The instructions of a run of bytes, one behind the other, and a callback run over a list until it says to stop.\<close>

function sweep :: "iced \<Rightarrow> bool \<Rightarrow> nat \<Rightarrow> bytes \<Rightarrow> instruction_data list" where
  "sweep D static ip code =
     (if code = [] \<or> ii_len (D ip code) = 0 then []
      else instr_data static code (D ip code)
           # sweep D static (wrapping_add ip (ii_len (D ip code))) (drop (ii_len (D ip code)) code))"
  by pat_completeness auto
termination by (relation "measure (\<lambda>(_, _, _, code). length code)") auto

declare sweep.simps [simp del]

fun run_while :: "('a \<Rightarrow> 's \<Rightarrow> bool \<times> 's) \<Rightarrow> 'a list \<Rightarrow> 's \<Rightarrow> 's" where
  "run_while f [] s = s"
| "run_while f (x # xs) s = (if fst (f x s) then run_while f xs (snd (f x s)) else snd (f x s))"

lemma decoder_len:
  "decoder_laws D \<Longrightarrow> code \<noteq> [] \<Longrightarrow> 0 < ii_len (D ip code) \<and> ii_len (D ip code) \<le> 15 \<and> ii_len (D ip code) \<le> length code"
  by (simp add: decoder_laws_def)

lemma decoder_ip: "decoder_laws D \<Longrightarrow> code \<noteq> [] \<Longrightarrow> ii_ip (D ip code) = ip"
  by (simp add: decoder_laws_def)

lemma decoder_front:
  assumes "decoder_laws D" "15 \<le> n \<or> length code \<le> n"
  shows "D ip (take n code) = D ip code"
proof (cases "length code \<le> n")
  case False
  then have "15 \<le> length (take n code)" using assms(2) by simp
  then have "D ip (take n code @ drop n code) = D ip (take n code)" using assms(1) unfolding decoder_laws_def by blast
  then show ?thesis by (simp only: append_take_drop_id)
qed simp

lemma sweep_Nil [simp]: "sweep D static ip [] = []"
  by (simp add: sweep.simps)

lemma sweep_Cons:
  "decoder_laws D \<Longrightarrow> code \<noteq> [] \<Longrightarrow>
   sweep D static ip code
     = instr_data static code (D ip code)
       # sweep D static (wrapping_add ip (ii_len (D ip code))) (drop (ii_len (D ip code)) code)"
  using decoder_len[of D code ip] by (subst sweep.simps) simp

lemma disassemble_sweep:
  assumes "decoder_laws D"
  shows "disassemble_instructions D static f ip code s = Some (run_while f (sweep D static ip code) s)"
proof (induction "length code" arbitrary: ip code s rule: less_induct)
  case less
  show ?case
  proof (cases "code = []")
    case True
    then show ?thesis by (subst disassemble_instructions.simps) simp
  next
    case False
    note len = decoder_len[OF assms False, of ip]
    then have "length (drop (ii_len (D ip code)) code) < length code" unfolding length_drop by linarith
    note rest = less(1)[OF this]
    show ?thesis using False len
      by (subst disassemble_instructions.simps, subst sweep_Cons[OF assms False]) (simp add: Let_def rest)
  qed
qed

lemma find_code_refs_sweep:
  assumes "decoder_laws D"
  shows "find_code_refs D code a t
    = Some (map in_address (filter (\<lambda>i. in_target i = Some t \<or> in_mem_target i = Some t) (sweep D False a code)))"
proof -
  have "run_while (\<lambda>ins refs. (True, if in_target ins = Some t \<or> in_mem_target ins = Some t then refs @ [in_address ins] else refs)) is refs
      = refs @ map in_address (filter (\<lambda>i. in_target i = Some t \<or> in_mem_target i = Some t) is)" for "is" :: "instruction_data list" and refs
    by (induction "is" arbitrary: refs) auto
  then show ?thesis by (simp add: find_code_refs_def disassemble_sweep[OF assms])
qed

section \<open>What masked signatures match\<close>

lemma length_instr_mask [simp]: "length (instr_mask ins) = ii_len ins"
  by (simp add: instr_mask_def wildcard_def split: option.split)

lemma mask_loop_stop: "code = [] \<or> \<not> length bits < min_len \<Longrightarrow> mask_loop D min_len ip code bits = Some bits"
  by (subst mask_loop.simps) auto

lemma mask_loop_step:
  "code \<noteq> [] \<Longrightarrow> length bits < min_len \<Longrightarrow> 0 < ii_len (D ip code) \<Longrightarrow>
   mask_loop D min_len ip code bits
     = mask_loop D min_len (wrapping_add ip (ii_len (D ip code))) (drop (ii_len (D ip code)) code) (bits @ instr_mask (D ip code))"
  by (subst mask_loop.simps) (simp add: Let_def)

lemma mask_loop_total:
  assumes "decoder_laws D"
  shows "\<exists>m. mask_loop D min_len ip code bits = Some (bits @ m) \<and> length m \<le> length code"
proof (induction "length code" arbitrary: ip code bits rule: less_induct)
  case less
  show ?case
  proof (cases "code = [] \<or> \<not> length bits < min_len")
    case True
    then show ?thesis using mask_loop_stop[OF True] by auto
  next
    case False
    then have "code \<noteq> []" by simp
    note len = decoder_len[OF assms this, of ip]
    then have "length (drop (ii_len (D ip code)) code) < length code" unfolding length_drop by linarith
    from less[OF this, of "wrapping_add ip (ii_len (D ip code))" "bits @ instr_mask (D ip code)"] obtain m where
      "mask_loop D min_len (wrapping_add ip (ii_len (D ip code))) (drop (ii_len (D ip code)) code) (bits @ instr_mask (D ip code))
         = Some ((bits @ instr_mask (D ip code)) @ m)" "length m \<le> length (drop (ii_len (D ip code)) code)" by blast
    then show ?thesis using False len by (auto simp: mask_loop_step intro!: exI[of _ "instr_mask (D ip code) @ m"])
  qed
qed

text \<open>The bytes at \<open>p\<close> agree with those at \<open>offset\<close> in the first \<open>n\<close> places that are not masked.\<close>

definition agrees :: "bytes \<Rightarrow> nat \<Rightarrow> bool list \<Rightarrow> nat \<Rightarrow> nat \<Rightarrow> bool" where
  "agrees haystack offset bits n p \<longleftrightarrow> (\<forall>j<n. \<not> bits ! j \<longrightarrow> haystack ! (p + j) = haystack ! (offset + j))"

lemma agrees_Suc:
  "agrees haystack offset bits (Suc n) p \<longleftrightarrow>
     agrees haystack offset bits n p \<and> (bits ! n \<or> haystack ! (p + n) = haystack ! (offset + n))"
  by (auto simp: agrees_def less_Suc_eq)

lemma masked_loop_result:
  "masked_loop haystack offset needle bits min_len len cands = Some s \<Longrightarrow> needle = slice haystack offset (length bits) \<Longrightarrow>
   offset + length bits \<le> length haystack \<Longrightarrow> 0 < len \<Longrightarrow> len \<le> length bits \<Longrightarrow>
   (\<forall>p\<le>last_start. agrees haystack offset bits len p \<longrightarrow> p \<in> set cands) \<Longrightarrow>
   (\<forall>p\<in>set cands. p \<le> last_start \<and> agrees haystack offset bits (len - 1) p) \<Longrightarrow>
   \<exists>n. 0 < n \<and> n \<le> length bits \<and> (min_len \<le> n \<or> n = length bits)
     \<and> s = format_masked (take n needle) (take n bits) \<and> {p. p \<le> last_start \<and> agrees haystack offset bits n p} = {offset}"
proof (induction haystack offset needle bits min_len len cands rule: masked_loop.induct)
  case (1 haystack offset needle bits min_len len cands)
  define cands' where "cands' = (if \<not> bits ! (len - 1) then filter (\<lambda>p. haystack ! (p + (len - 1)) = needle ! (len - 1)) cands else cands)"
  obtain k where k: "len = Suc k" using 1(5) by (cases len) simp_all
  have needle: "needle ! k = haystack ! (offset + k)" using 1(3,4,6) k by (simp add: slice_simps)
  have set: "set cands' = {p. p \<le> last_start \<and> agrees haystack offset bits len p}"
    using 1(7,8) by (auto simp: cands'_def needle k agrees_Suc)
  note loop = 1(2)[unfolded masked_loop.simps[of haystack offset needle bits min_len len cands] Let_def, folded cands'_def]
  show ?case
  proof (cases "cands' = [offset] \<and> (min_len \<le> len \<or> length bits \<le> len)")
    case True
    then have "s = format_masked (take len needle) (take len bits)" using loop by (auto split: if_splits)
    moreover have "{p. p \<le> last_start \<and> agrees haystack offset bits len p} = {offset}" using True set by simp
    ultimately show ?thesis using True 1(5,6) by (intro exI[of _ len]) auto
  next
    case False
    then have go: "\<not> length bits \<le> len" "masked_loop haystack offset needle bits min_len (len + 1) cands' = Some s"
      using loop by (auto split: if_splits)
    have "\<forall>p\<le>last_start. agrees haystack offset bits (len + 1) p \<longrightarrow> p \<in> set cands'"
      "\<forall>p\<in>set cands'. p \<le> last_start \<and> agrees haystack offset bits (len + 1 - 1) p"
      unfolding set by (simp_all add: agrees_Suc)
    with 1(1)[OF refl cands'_def refl] False go 1(3,4) show ?thesis by fastforce
  qed
qed

text \<open>The text of a masked run parses to the pattern with wildcards in the masked places.\<close>

definition masked_pattern :: "bytes \<Rightarrow> bool list \<Rightarrow> byte_pattern" where
  "masked_pattern bs bits = map (\<lambda>(b, m). if m then PatternByte_wildcard else PatternByte_exact b) (zip bs bits)"

lemma parse_masked_byte:
  "parse_loop (codes (if m then ''??'' else format_02X b) @ r) acc
     = parse_loop r (acc @ [if m then PatternByte_wildcard else PatternByte_exact b])"
proof (cases m)
  case True
  have "\<not> is_whitespace 63" "parse_nibble 63 = Some NWildcard" by (simp_all add: is_whitespace_def parse_nibble_def)
  then show ?thesis by (simp add: True codes_def nibbles_to_byte_def PatternByte_wildcard_def)
qed (simp add: format_02X_def parse_nibble_hex nibbles_exact)

lemma parse_loop_masked:
  "parse_loop (codes (join_spaces (map (\<lambda>(b, m). if m then ''??'' else format_02X b) zs))) acc
     = Inr (acc @ map (\<lambda>(b, m). if m then PatternByte_wildcard else PatternByte_exact b) zs)"
proof (induction zs arbitrary: acc)
  case (Cons z zs)
  obtain b m where z: "z = (b, m)" by (cases z)
  show ?case
  proof (cases zs)
    case Nil
    then show ?thesis using parse_masked_byte[of m b "[]" acc] by (simp add: z del: parse_loop.simps(2))
  next
    case (Cons y ys)
    have "codes (join_spaces (map (\<lambda>(b, m). if m then ''??'' else format_02X b) (z # zs)))
        = codes (if m then ''??'' else format_02X b) @ 32 # codes (join_spaces (map (\<lambda>(b, m). if m then ''??'' else format_02X b) zs))"
      by (simp add: z Cons codes_def)
    then show ?thesis unfolding parse_masked_byte using Cons.IH by (simp add: parse_masked_byte z)
  qed
qed simp

lemma parse_format_masked:
  "bs \<noteq> [] \<Longrightarrow> bits \<noteq> [] \<Longrightarrow> BytePattern_parse (codes (format_masked bs bits)) = Inr (masked_pattern bs bits)"
  unfolding BytePattern_parse_def format_masked_def parse_loop_masked masked_pattern_def by (cases bs; cases bits) simp_all

lemma PatternByte_wildcard_matches [simp]: "PatternByte_matches PatternByte_wildcard b"
  by (simp add: PatternByte_matches_def PatternByte_wildcard_def)

lemma masked_pattern_matches:
  assumes "offset + length bits \<le> length haystack" "n \<le> length bits"
  shows "BytePattern_matches_at (masked_pattern (take n (slice haystack offset (length bits))) (take n bits)) haystack p
    \<longleftrightarrow> p + n \<le> length haystack \<and> agrees haystack offset bits n p"
  using assms by (auto simp: matches_at_nth masked_pattern_def agrees_def slice_simps)

end
