(* ===== verification/Code_Refs.thy ===== *)
theory Code_Refs
  imports Decoder Class_View
begin

text \<open>
  Disassembly of a live process (nemclass-core/src/internal/analysis/disasm.rs) and the cross references of its code
  (nemclass-core/src/internal/analysis/dissect.rs), over the decoder and a reader of the process; and what they find: the
  references of one linear sweep over each region, however it is cut into chunks.

  \<open>None\<close> is a walk that never ends (see theory \<open>Decoder\<close>). The text of the maps file is a parameter.
\<close>

section \<open>Functions and ranges\<close>

record function_disasm =
  fd_instructions :: "instruction_data list"
  fd_call_targets :: "nat list"

definition bad_decode :: "instruction_data \<Rightarrow> bool" where
  "bad_decode ins \<longleftrightarrow> in_length ins = 0 \<or> in_text ins = codes ''???''"

definition function_step :: "instruction_data \<Rightarrow> function_disasm \<Rightarrow> bool \<times> function_disasm" where
  "function_step ins r =
     (if bad_decode ins then (False, r)
      else
        let r = (case in_target ins of
                   Some target \<Rightarrow>
                     if in_kind ins = Call \<and> target \<notin> set (fd_call_targets r)
                     then r\<lparr>fd_call_targets := fd_call_targets r @ [target]\<rparr> else r
                 | None \<Rightarrow> r)
        in (in_kind ins \<notin> {Ret, Int3}, r\<lparr>fd_instructions := fd_instructions r @ [ins]\<rparr>))"

definition disassemble_function :: "iced \<Rightarrow> process_reader \<Rightarrow> usize \<Rightarrow> nat \<Rightarrow> (core_error + function_disasm) option" where
  "disassemble_function D rd addr max_bytes =
     (let result = \<lparr>fd_instructions = [], fd_call_targets = []\<rparr>
      in if max_bytes = 0 then Some (Inr result)
         else case rd addr max_bytes of
                Inl e \<Rightarrow> Some (Inl e)
              | Inr buf \<Rightarrow>
                  if buf = [] then Some (Inr result)
                  else map_option Inr (disassemble_instructions D True function_step addr buf result))"

definition disassemble_range :: "iced \<Rightarrow> process_reader \<Rightarrow> usize \<Rightarrow> nat \<Rightarrow> (core_error + instruction_data list) option" where
  "disassemble_range D rd addr len =
     (if len = 0 then Some (Inr [])
      else case rd addr len of
             Inl e \<Rightarrow> Some (Inl e)
           | Inr buf \<Rightarrow>
               if buf = [] then Some (Inr [])
               else map_option Inr (disassemble_instructions D True
                      (\<lambda>ins out. if bad_decode ins then (False, out) else (True, out @ [ins])) addr buf []))"

section \<open>Cross references\<close>

definition CHUNK_BYTES :: nat where "CHUNK_BYTES = 256 * 1024"
definition CHUNK_OVERLAP :: nat where "CHUNK_OVERLAP = 16"
definition STRING_PROBE_BYTES :: nat where "STRING_PROBE_BYTES = 128"
definition MIN_STRING_LEN :: nat where "MIN_STRING_LEN = 4"
definition PREVIEW_MAX :: nat where "PREVIEW_MAX = 64"

type_synonym ref_map = "nat \<rightharpoonup> nat list"

record dissect_result =
  dr_calls :: ref_map
  dr_jumps :: ref_map
  dr_strings :: ref_map
  dr_string_previews :: "nat \<rightharpoonup> utext"

definition DissectResult_default :: dissect_result where
  "DissectResult_default =
     \<lparr>dr_calls = Map.empty, dr_jumps = Map.empty, dr_strings = Map.empty, dr_string_previews = Map.empty\<rparr>"

text \<open>\<open>map.get(&addr).map_or(0, Vec::len)\<close> and \<open>entry(key).or_default().push(site)\<close>\<close>

definition refs_of :: "ref_map \<Rightarrow> nat \<Rightarrow> nat list" where
  "refs_of m k = (case m k of None \<Rightarrow> [] | Some l \<Rightarrow> l)"

definition push_ref :: "nat \<Rightarrow> nat \<Rightarrow> ref_map \<Rightarrow> ref_map" where
  "push_ref k site m = m(k \<mapsto> refs_of m k @ [site])"

definition ref_count :: "dissect_result \<Rightarrow> nat \<Rightarrow> nat" where
  "ref_count r addr =
     length (refs_of (dr_calls r) addr) + length (refs_of (dr_jumps r) addr) + length (refs_of (dr_strings r) addr)"

definition sort_dedup_map :: "ref_map \<Rightarrow> ref_map" where
  "sort_dedup_map m = (\<lambda>k. map_option (\<lambda>l. remdups_adj (sort l)) (m k))"

definition sort_dedup :: "dissect_result \<Rightarrow> dissect_result" where
  "sort_dedup r =
     r\<lparr>dr_calls := sort_dedup_map (dr_calls r), dr_jumps := sort_dedup_map (dr_jumps r),
       dr_strings := sort_dedup_map (dr_strings r)\<rparr>"

definition module_exec_regions :: "string option \<Rightarrow> usize \<Rightarrow> nat \<Rightarrow> core_error + (nat \<times> nat) list" where
  "module_exec_regions maps base sz =
     (case maps of
        None \<Rightarrow> Inl ProcessDied
      | Some s \<Rightarrow>
          let e = saturating_add base sz
          in Inr (sort_key fst (List.map_filter
               (\<lambda>s. let rs = max (sec_base s) base; re = min (saturating_add (sec_base s) (sec_size s)) e
                    in if rs < re then Some (rs, re) else None)
               (filter (\<lambda>s. Protection_execute (sec_prot s)) (parse_maps_sections s)))))"

definition read_string_at :: "process_reader \<Rightarrow> nat \<Rightarrow> utext option" where
  "read_string_at rd addr =
     (case rd addr STRING_PROBE_BYTES of
        Inl _ \<Rightarrow> None
      | Inr buf \<Rightarrow>
          if buf = [] then None
          else case string_at buf 0 MIN_STRING_LEN of
                 None \<Rightarrow> None
               | Some run \<Rightarrow>
                   Some (if length (sr_text run) > PREVIEW_MAX then take PREVIEW_MAX (sr_text run) @ [0x2026] else sr_text run))"

text \<open>\<open>record_instruction\<close>: its branch targets, then its data reference.\<close>

definition record_branch :: "region_index \<Rightarrow> instruction_data \<Rightarrow> dissect_result \<Rightarrow> dissect_result" where
  "record_branch index ins r =
     (case in_target ins of
        None \<Rightarrow> r
      | Some target \<Rightarrow>
          if \<not> RegionIndex_is_executable index target then r
          else case in_kind ins of
                 Call \<Rightarrow> r\<lparr>dr_calls := push_ref target (in_address ins) (dr_calls r)\<rparr>
               | Jump \<Rightarrow> r\<lparr>dr_jumps := push_ref target (in_address ins) (dr_jumps r)\<rparr>
               | CondJump \<Rightarrow> r\<lparr>dr_jumps := push_ref target (in_address ins) (dr_jumps r)\<rparr>
               | _ \<Rightarrow> r)"

definition record_string :: "process_reader \<Rightarrow> instruction_data \<Rightarrow> dissect_result \<Rightarrow> dissect_result" where
  "record_string rd ins r =
     (case in_mem_target ins of
        None \<Rightarrow> r
      | Some mem \<Rightarrow>
          (case read_string_at rd mem of
             None \<Rightarrow> r
           | Some text \<Rightarrow>
               r\<lparr>dr_strings := push_ref mem (in_address ins) (dr_strings r),
                 dr_string_previews := (case dr_string_previews r mem of
                     None \<Rightarrow> (dr_string_previews r)(mem \<mapsto> text) | Some _ \<Rightarrow> dr_string_previews r)\<rparr>))"

definition record_instruction :: "process_reader \<Rightarrow> region_index \<Rightarrow> instruction_data \<Rightarrow> dissect_result \<Rightarrow> dissect_result" where
  "record_instruction rd index ins r = record_string rd ins (record_branch index ins r)"

text \<open>The callback of one chunk, with the end of the last instruction it has seen.\<close>

definition chunk_step :: "process_reader \<Rightarrow> region_index \<Rightarrow> bool \<Rightarrow> nat \<Rightarrow> nat \<Rightarrow> instruction_data \<Rightarrow> dissect_result \<times> nat
    \<Rightarrow> bool \<times> dissect_result \<times> nat" where
  "chunk_step rd index is_last want chunk_addr ins s =
     (let rel = in_address ins - chunk_addr
      in if \<not> is_last \<and> rel \<ge> want then (False, s)
         else (True, record_instruction rd index ins (fst s), rel + in_length ins))"

function region_loop :: "iced \<Rightarrow> process_reader \<Rightarrow> region_index \<Rightarrow> nat \<Rightarrow> nat \<Rightarrow> nat \<Rightarrow> dissect_result \<Rightarrow> dissect_result option" where
  "region_loop D rd index start sz pos r =
     (if pos < sz then
        let chunk_addr = start + pos;
            want = min (sz - pos) CHUNK_BYTES;
            read_len = min (sz - pos) (CHUNK_BYTES + CHUNK_OVERLAP);
            buf = (case rd chunk_addr read_len of Inl _ \<Rightarrow> [] | Inr bs \<Rightarrow> bs)
        in if buf = [] then Some r
           else
             let is_last = (pos + want \<ge> sz)
             in case disassemble_instructions D False (chunk_step rd index is_last want chunk_addr) chunk_addr buf (r, 0) of
                  None \<Rightarrow> None
                | Some (r', last_end) \<Rightarrow>
                    if last_end = 0 then Some r' else region_loop D rd index start sz (pos + last_end) r'
      else Some r)"
  by pat_completeness auto
termination by (relation "measure (\<lambda>(_, _, _, _, sz, pos, _). sz - pos)") auto

declare region_loop.simps [simp del]

fun regions_loop :: "iced \<Rightarrow> process_reader \<Rightarrow> region_index \<Rightarrow> (nat \<times> nat) list \<Rightarrow> dissect_result \<Rightarrow> dissect_result option" where
  "regions_loop D rd index [] r = Some r"
| "regions_loop D rd index ((start, e) # rs) r =
     (if e \<le> start then regions_loop D rd index rs r
      else case region_loop D rd index start (e - start) 0 r of
             None \<Rightarrow> None
           | Some r' \<Rightarrow> regions_loop D rd index rs r')"

definition dissect_regions :: "iced \<Rightarrow> process_reader \<Rightarrow> string option \<Rightarrow> (nat \<times> nat) list \<Rightarrow> (core_error + dissect_result) option" where
  "dissect_regions D rd maps regions =
     (case RegionIndex_from_pid maps of
        Inl e \<Rightarrow> Some (Inl e)
      | Inr index \<Rightarrow> map_option (\<lambda>r. Inr (sort_dedup r)) (regions_loop D rd index regions DissectResult_default))"

section \<open>Chunks\<close>

lemma chunk_sweep:
  assumes D: "decoder_laws D"
  shows "c + k + length rest \<le> USIZE_MAX \<Longrightarrow> length rest \<le> n \<or> want + 16 \<le> k + n \<Longrightarrow> (is_last \<longrightarrow> length rest \<le> n) \<Longrightarrow>
    \<exists>ds k'. run_while (chunk_step rd index is_last want c) (sweep D False (c + k) (take n rest)) (r, k)
         = (foldl (\<lambda>r ins. record_instruction rd index ins r) r ds, k')
       \<and> k \<le> k' \<and> k' - k \<le> length rest \<and> sweep D False (c + k) rest = ds @ sweep D False (c + k') (drop (k' - k) rest)
       \<and> (k < want \<longrightarrow> rest \<noteq> [] \<longrightarrow> k < k')"
proof (induction "length rest" arbitrary: k n rest r rule: less_induct)
  case less
  show ?case
  proof (cases "rest = [] \<or> \<not> is_last \<and> want \<le> k")
    case True
    have "run_while (chunk_step rd index is_last want c) (sweep D False (c + k) (take n rest)) (r, k) = (r, k)"
    proof (cases "take n rest = []")
      case False
      with True have "\<not> is_last" "want \<le> k" by auto
      then show ?thesis using decoder_ip[OF D False, of "c + k"]
        by (simp add: sweep_Cons[OF D False] chunk_step_def instr_data_def)
    next
      case empty: True
      show ?thesis by (simp only: empty sweep_Nil run_while.simps)
    qed
    then show ?thesis using True by (intro exI[of _ "[]"] exI[of _ k]) auto
  next
    case False
    then have rest: "rest \<noteq> []" and k: "is_last \<or> k < want" by auto
    have n: "15 \<le> n \<or> length rest \<le> n" using less(3,4) k by auto
    let ?i = "D (c + k) rest" and ?l = "ii_len (D (c + k) rest)"
    note l = decoder_len[OF D rest, of "c + k"]
    have ln: "?l \<le> n" using l n by auto
    have front: "D (c + k) (take n rest) = ?i" by (rule decoder_front[OF D n])
    have "take n rest \<noteq> []" using rest ln l by auto
    note Cons = sweep_Cons[OF D this, of False "c + k", unfolded front] sweep_Cons[OF D rest, of False "c + k"]
    have addr: "wrapping_add (c + k) ?l = c + (k + ?l)" using less(2) l by (simp add: wrapping_add_def USIZE_MAX_def)
    have data: "instr_data False (take n rest) ?i = instr_data False rest ?i" using ln by (simp add: instr_data_def min_absorb1)
    have dropn: "drop ?l (take n rest) = take (n - ?l) (drop ?l rest)" by (simp add: drop_take)
    have "chunk_step rd index is_last want c (instr_data False rest ?i) (r, k)
        = (True, record_instruction rd index (instr_data False rest ?i) r, k + ?l)"
      using k decoder_ip[OF D rest, of "c + k"] by (auto simp: chunk_step_def instr_data_def)
    note step = this
    let ?r = "record_instruction rd index (instr_data False rest ?i) r"
    have lt: "length (drop ?l rest) < length rest" using l rest by simp
    have pre: "c + (k + ?l) + length (drop ?l rest) \<le> USIZE_MAX" "length (drop ?l rest) \<le> n - ?l \<or> want + 16 \<le> k + ?l + (n - ?l)"
      "is_last \<longrightarrow> length (drop ?l rest) \<le> n - ?l"
      using less(2-4) l ln by auto
    from less(1)[OF lt pre, of ?r] obtain ds k' where
      ih: "run_while (chunk_step rd index is_last want c) (sweep D False (c + (k + ?l)) (take (n - ?l) (drop ?l rest))) (?r, k + ?l)
          = (foldl (\<lambda>r ins. record_instruction rd index ins r) ?r ds, k')"
        "k + ?l \<le> k'" "k' - (k + ?l) \<le> length (drop ?l rest)"
        "sweep D False (c + (k + ?l)) (drop ?l rest) = ds @ sweep D False (c + k') (drop (k' - (k + ?l)) (drop ?l rest))"
      by blast
    then have "drop (k' - (k + ?l)) (drop ?l rest) = drop (k' - k) rest" by (simp add: add.commute)
    moreover have "k' - k \<le> length rest" using ih(2,3) l unfolding length_drop by linarith
    ultimately show ?thesis
      using ih l by (intro exI[of _ "instr_data False rest ?i # ds"] exI[of _ k']) (simp add: Cons addr data dropn step)
  qed
qed

text \<open>The reader gives the bytes \<open>code\<close> at \<open>start\<close>, however they are asked for.\<close>

definition region_bytes :: "process_reader \<Rightarrow> nat \<Rightarrow> bytes \<Rightarrow> bool" where
  "region_bytes rd start code \<longleftrightarrow>
     start + length code \<le> USIZE_MAX \<and> (\<forall>pos n. pos + n \<le> length code \<longrightarrow> rd (start + pos) n = Inr (slice code pos n))"

lemma region_loop_sweep:
  assumes D: "decoder_laws D" and rd: "region_bytes rd start code"
  shows "region_loop D rd index start (length code) pos r
    = Some (foldl (\<lambda>r ins. record_instruction rd index ins r) r (sweep D False (start + pos) (drop pos code)))"
proof (induction "length code - pos" arbitrary: pos r rule: less_induct)
  case less
  show ?case
  proof (cases "pos < length code")
    case True
    define rest want n is_last where "rest = drop pos code" and "want = min (length code - pos) CHUNK_BYTES"
      and "n = min (length code - pos) (CHUNK_BYTES + CHUNK_OVERLAP)" and "is_last = (pos + want \<ge> length code)"
    note defs = this
    have len: "length rest = length code - pos" by (simp add: defs)
    have read: "rd (start + pos) n = Inr (take n rest)" using rd True by (simp add: region_bytes_def slice_def defs)
    have buf: "take n rest \<noteq> []" using True by (simp add: defs CHUNK_BYTES_def)
    have pre: "start + pos + 0 + length rest \<le> USIZE_MAX" "length rest \<le> n \<or> want + 16 \<le> 0 + n" "is_last \<longrightarrow> length rest \<le> n"
      using rd True unfolding len region_bytes_def n_def want_def is_last_def CHUNK_OVERLAP_def by auto
    from chunk_sweep[OF D pre, of rd index r] obtain ds k' where chunk: "run_while (chunk_step rd index is_last want (start + pos)) (sweep D False (start + pos) (take n rest)) (r, 0)
          = (foldl (\<lambda>r ins. record_instruction rd index ins r) r ds, k')"
        "k' \<le> length rest" "sweep D False (start + pos) rest = ds @ sweep D False (start + pos + k') (drop k' rest)"
        "0 < want \<longrightarrow> rest \<noteq> [] \<longrightarrow> 0 < k'"
      by auto
    have k': "0 < k'" using chunk(4) True by (simp add: defs CHUNK_BYTES_def)
    then have "length code - (pos + k') < length code - pos" using True by simp
    note ih = less(1)[OF this]
    have drop: "drop k' rest = drop (pos + k') code" by (simp add: rest_def add.commute)
    show ?thesis
      using True buf k'
      by (subst region_loop.simps) (simp add: Let_def rest_def[symmetric] want_def[symmetric] n_def[symmetric] is_last_def[symmetric]
          read disassemble_sweep[OF D] chunk(1) ih chunk(3) drop add.assoc)
  next
    case False
    then show ?thesis by (subst region_loop.simps) simp
  qed
qed

text \<open>The instructions of all regions, and what recording them leaves in the maps.\<close>

definition region_sweeps :: "iced \<Rightarrow> (nat \<Rightarrow> bytes) \<Rightarrow> (nat \<times> nat) list \<Rightarrow> instruction_data list" where
  "region_sweeps D code regions = concat (map (\<lambda>(start, e). if e \<le> start then [] else sweep D False start (code start)) regions)"

lemma regions_loop_sweeps:
  assumes D: "decoder_laws D"
    and code: "\<And>start e. (start, e) \<in> set regions \<Longrightarrow> start < e \<Longrightarrow> region_bytes rd start (code start) \<and> length (code start) = e - start"
  shows "regions_loop D rd index regions r
    = Some (foldl (\<lambda>r ins. record_instruction rd index ins r) r (region_sweeps D code regions))"
  using code
proof (induction regions arbitrary: r)
  case (Cons x regions)
  obtain start e where x: "x = (start, e)" by (cases x)
  have ih: "regions_loop D rd index regions r
      = Some (foldl (\<lambda>r ins. record_instruction rd index ins r) r (region_sweeps D code regions))" for r
    using Cons(2) by (intro Cons(1)) auto
  show ?case
  proof (cases "e \<le> start")
    case False
    then have b: "region_bytes rd start (code start)" "length (code start) = e - start" using Cons(2)[of start e] x by auto
    show ?thesis using False region_loop_sweep[OF D b(1), of index 0 r] by (simp add: x ih b(2) region_sweeps_def)
  qed (simp add: x ih region_sweeps_def)
qed (simp add: region_sweeps_def)

lemma refs_of_push: "refs_of (push_ref k site m) t = refs_of m t @ (if t = k then [site] else [])"
  by (simp add: refs_of_def push_ref_def)

definition is_call_to :: "region_index \<Rightarrow> nat \<Rightarrow> instruction_data \<Rightarrow> bool" where
  "is_call_to index t i \<longleftrightarrow> in_kind i = Call \<and> in_target i = Some t \<and> RegionIndex_is_executable index t"

definition is_jump_to :: "region_index \<Rightarrow> nat \<Rightarrow> instruction_data \<Rightarrow> bool" where
  "is_jump_to index t i \<longleftrightarrow> in_kind i \<in> {Jump, CondJump} \<and> in_target i = Some t \<and> RegionIndex_is_executable index t"

definition is_string_ref :: "process_reader \<Rightarrow> nat \<Rightarrow> instruction_data \<Rightarrow> bool" where
  "is_string_ref rd t i \<longleftrightarrow> in_mem_target i = Some t \<and> read_string_at rd t \<noteq> None"

lemma record_refs:
  "refs_of (dr_calls (record_instruction rd index i r)) t = refs_of (dr_calls r) t @ (if is_call_to index t i then [in_address i] else [])"
  "refs_of (dr_jumps (record_instruction rd index i r)) t = refs_of (dr_jumps r) t @ (if is_jump_to index t i then [in_address i] else [])"
  "refs_of (dr_strings (record_instruction rd index i r)) t = refs_of (dr_strings r) t @ (if is_string_ref rd t i then [in_address i] else [])"
  "dr_string_previews (record_instruction rd index i r) t
     = (if dr_string_previews r t = None \<and> is_string_ref rd t i then read_string_at rd t else dr_string_previews r t)"
  by (auto simp: record_instruction_def record_string_def record_branch_def refs_of_push is_call_to_def is_jump_to_def is_string_ref_def
      split: option.split flow_kind.split)

lemma fold_record_refs:
  "refs_of (dr_calls (foldl (\<lambda>r ins. record_instruction rd index ins r) r is)) t
     = refs_of (dr_calls r) t @ map in_address (filter (is_call_to index t) is)"
  "refs_of (dr_jumps (foldl (\<lambda>r ins. record_instruction rd index ins r) r is)) t
     = refs_of (dr_jumps r) t @ map in_address (filter (is_jump_to index t) is)"
  "refs_of (dr_strings (foldl (\<lambda>r ins. record_instruction rd index ins r) r is)) t
     = refs_of (dr_strings r) t @ map in_address (filter (is_string_ref rd t) is)"
  "dr_string_previews (foldl (\<lambda>r ins. record_instruction rd index ins r) r is) t
     = (if dr_string_previews r t = None \<and> list_ex (is_string_ref rd t) is then read_string_at rd t else dr_string_previews r t)"
  by (induction "is" arbitrary: r) (auto simp: record_refs is_string_ref_def)

lemma refs_of_sort_dedup: "refs_of (sort_dedup_map m) t = sorted_list_of_set (set (refs_of m t))"
proof -
  have "sorted l \<Longrightarrow> distinct (remdups_adj l)" for l :: "nat list"
    by (induction l rule: remdups_adj.induct) (auto simp: le_less)
  then have "remdups_adj (sort l) = sorted_list_of_set (set l)" for l :: "nat list"
    by (intro sorted_distinct_set_unique) simp_all
  then show ?thesis by (simp add: refs_of_def sort_dedup_map_def split: option.split)
qed

section \<open>One function\<close>

text \<open>Up to and including the first instruction that ends a function.\<close>

definition upto_end :: "instruction_data list \<Rightarrow> instruction_data list" where
  "upto_end is =
     takeWhile (\<lambda>i. in_kind i \<notin> {Ret, Int3}) is @ take 1 (dropWhile (\<lambda>i. in_kind i \<notin> {Ret, Int3}) is)"

definition call_targets :: "instruction_data list \<Rightarrow> nat list" where
  "call_targets is = first_seen (List.map_filter (\<lambda>i. if in_kind i = Call then in_target i else None) is)"

lemma run_function_step:
  "run_while function_step is r = foldl (\<lambda>r i. snd (function_step i r)) r (upto_end (takeWhile (\<lambda>i. \<not> bad_decode i) is))"
proof (induction "is" arbitrary: r)
  case (Cons i "is")
  have go: "fst (function_step i r) \<longleftrightarrow> \<not> bad_decode i \<and> in_kind i \<notin> {Ret, Int3}" by (simp add: function_step_def Let_def)
  have stop: "snd (function_step i r) = r" if "bad_decode i" using that by (simp add: function_step_def)
  show ?case using Cons[of "snd (function_step i r)"] go stop by (auto simp: upto_end_def)
qed (simp add: upto_end_def)

lemma fold_function_step:
  assumes "\<forall>i\<in>set is. \<not> bad_decode i" "fd_call_targets r = call_targets (fd_instructions r)"
  shows "foldl (\<lambda>r i. snd (function_step i r)) r is
    = \<lparr>fd_instructions = fd_instructions r @ is, fd_call_targets = call_targets (fd_instructions r @ is)\<rparr>"
  using assms
proof (induction "is" arbitrary: r)
  case (Cons i "is")
  let ?r = "snd (function_step i r)"
  have "fd_instructions ?r = fd_instructions r @ [i]"
    using Cons(2) by (simp add: function_step_def Let_def split: option.split)
  moreover have "set (fd_call_targets r) = set (List.map_filter (\<lambda>i. if in_kind i = Call then in_target i else None) (fd_instructions r))"
    using Cons(3) by (simp add: call_targets_def)
  then have "fd_call_targets ?r = call_targets (fd_instructions r @ [i])"
    using Cons(2,3) by (auto simp: function_step_def Let_def call_targets_def List.map_filter_def first_seen_snoc split: option.split)
  ultimately show ?case using Cons(1)[of ?r] Cons(2) by simp
next
  case Nil
  then show ?case by (cases r) simp
qed

lemma sweep_data:
  assumes "decoder_laws D"
  shows "concat (map in_data (sweep D static ip code)) = code"
proof (induction "length code" arbitrary: ip code rule: less_induct)
  case less
  show ?case
  proof (cases "code = []")
    case False
    note len = decoder_len[OF assms False, of ip]
    then have "length (drop (ii_len (D ip code)) code) < length code" unfolding length_drop by linarith
    from less[OF this] show ?thesis by (simp add: sweep_Cons[OF assms False] instr_data_def)
  qed simp
qed

lemma upto_end_prefix: "\<exists>r. is = upto_end is @ r"
  by (metis append.assoc append_take_drop_id takeWhile_dropWhile_id upto_end_def)

section \<open>A sample\<close>

text \<open>The decoder of three instructions of the architecture, in a mapping that holds a call and what it calls.\<close>

definition sample_decoder :: iced where
  "sample_decoder ip code =
     (let one = \<lparr>ii_ip = ip, ii_len = 1, ii_invalid = False, ii_int3 = False, ii_flow_control = NextFlow, ii_op_kinds = [],
                 ii_op0_kind = RegisterOp, ii_near_branch_target = 0, ii_ip_rel = False, ii_ip_rel_address = 0, ii_displ_size = 0,
                 ii_jcc_or_jmp = False, ii_text = codes ''nop'', ii_displacement = None, ii_immediate = None, ii_immediate2 = None\<rparr>
      in if hd code = 0xC3 then one\<lparr>ii_flow_control := ReturnFlow, ii_text := codes ''ret''\<rparr>
         else if hd code = 0xE8 \<and> 5 \<le> length code then
           one\<lparr>ii_len := 5, ii_flow_control := CallFlow, ii_op_kinds := [NearBranch64], ii_op0_kind := NearBranch64,
               ii_near_branch_target := ip + 5 + le_nat (slice code 1 4), ii_text := codes ''call'', ii_immediate := Some (1, 4)\<rparr>
         else one)"

lemma sample_decoder_laws: "decoder_laws sample_decoder"
proof -
  have "sample_decoder ip (code @ r) = sample_decoder ip code" if "15 \<le> length code" for ip code r
  proof -
    have "hd (code @ r) = hd code" "slice (code @ r) 1 4 = slice code 1 4" using that by (auto simp: hd_append slice_def)
    moreover have "5 \<le> length code" "5 \<le> length (code @ r)" using that by simp_all
    ultimately show ?thesis by (simp only: sample_decoder_def)
  qed
  then show ?thesis by (auto simp: decoder_laws_def sample_decoder_def Let_def neq_Nil_conv)
qed

lemma mock_region_bytes:
  assumes "mm_base m + length (mm_buf m) \<le> USIZE_MAX"
  shows "region_bytes (Process_read_buf MockMemoryBackend m) (mm_base m) (mm_buf m)"
  using assms
  by (auto simp: region_bytes_def Process_read_buf_def MockMemoryBackend_def MockMemoryBackend_read_buf_def overlap_def
      checked_sub_def slice_def min_absorb1)

definition sample_code :: mock_memory where
  "sample_code = \<lparr>mm_base = 16, mm_buf = [0xE8, 1, 0, 0, 0, 0xC3, 0xC3]\<rparr>"

definition code_maps :: "mapping list" where
  "code_maps = [sample_mapping 16 64 False True 0 Anonymous]"

lemma code_maps_index:
  "RegionIndex_from_pid (Some (maps_text code_maps)) = Inr [\<lparr>ra_start = 16, ra_end = 64, ra_prot = 5, ra_module = None\<rparr>]"
proof -
  have "\<forall>m\<in>set code_maps. mapping_wf m"
    by (simp add: code_maps_def sample_mapping_def mapping_wf_def plain_column_def ws_def is_whitespace_def USIZE_MAX_def)
  from sections_of_text[OF this] show ?thesis
    by (simp add: RegionIndex_from_pid_def RegionIndex_from_sections_def code_maps_def sample_mapping_def section_of_def mapped_path_def
        prot_consts saturating_add_def USIZE_MAX_def)
qed

lemma sample_sweep:
  "map (\<lambda>i. (in_address i, in_kind i, in_target i)) (sweep sample_decoder static 16 (mm_buf sample_code))
     = [(16, Call, Some 22), (21, Ret, None), (22, Ret, None)]"
  by (simp add: sample_code_def sweep.simps sample_decoder_def Let_def instr_data_def flow_kind_of_def near_branch_target_def
      wrapping_add_def slice_def)

section \<open>Properties\<close>

text \<open>
  C38. Dissecting the code of readable regions finds, for every address, exactly the calls, the jumps and the string
  references to it among the instructions of one linear sweep over each region: the chunks the regions are read in leave no
  trace, no reference is missed or doubled, and every list is sorted.
\<close>

theorem code_refs_exact:
  assumes "decoder_laws D" "RegionIndex_from_pid maps = Inr index"
    and "\<forall>(start, e)\<in>set regions. start < e \<longrightarrow> region_bytes rd start (code start) \<and> length (code start) = e - start"
  shows "\<exists>r. dissect_regions D rd maps regions = Some (Inr r)
    \<and> (\<forall>t. let is = set (region_sweeps D code regions)
        in refs_of (dr_calls r) t = sorted_list_of_set (in_address ` {i \<in> is. is_call_to index t i})
         \<and> refs_of (dr_jumps r) t = sorted_list_of_set (in_address ` {i \<in> is. is_jump_to index t i})
         \<and> refs_of (dr_strings r) t = sorted_list_of_set (in_address ` {i \<in> is. is_string_ref rd t i})
         \<and> dr_string_previews r t = (if \<exists>i\<in>is. is_string_ref rd t i then read_string_at rd t else None))"
proof -
  let ?is = "region_sweeps D code regions"
  let ?r = "foldl (\<lambda>r ins. record_instruction rd index ins r) DissectResult_default ?is"
  have loop: "regions_loop D rd index regions DissectResult_default = Some ?r"
    using assms(3) by (intro regions_loop_sweeps[OF assms(1)]) auto
  have empty: "refs_of (dr_calls DissectResult_default) t = []" "refs_of (dr_jumps DissectResult_default) t = []"
      "refs_of (dr_strings DissectResult_default) t = []" "dr_string_previews DissectResult_default t = None" for t
    by (simp_all add: DissectResult_default_def refs_of_def)
  show ?thesis
    by (intro exI[of _ "sort_dedup ?r"])
      (simp add: dissect_regions_def assms(2) loop sort_dedup_def refs_of_sort_dedup fold_record_refs empty list_ex_iff Let_def)
qed

theorem code_refs_exact_witness:
  "\<exists>r. dissect_regions sample_decoder (Process_read_buf MockMemoryBackend sample_code) (Some (maps_text code_maps)) [(16, 23)] = Some (Inr r)
     \<and> refs_of (dr_calls r) 22 = [16] \<and> refs_of (dr_jumps r) 22 = []"
proof -
  let ?rd = "Process_read_buf MockMemoryBackend sample_code" and ?index = "[\<lparr>ra_start = 16, ra_end = 64, ra_prot = 5, ra_module = None\<rparr>]"
  have "region_bytes ?rd 16 (mm_buf sample_code)"
    using mock_region_bytes[of sample_code] by (simp add: sample_code_def USIZE_MAX_def)
  then have "\<forall>(start, e)\<in>set [(16, 23)]. start < e \<longrightarrow> region_bytes ?rd start (mm_buf sample_code) \<and> length (mm_buf sample_code) = e - start"
    by (simp add: sample_code_def)
  from code_refs_exact[OF sample_decoder_laws code_maps_index this] obtain r where
    r: "dissect_regions sample_decoder ?rd (Some (maps_text code_maps)) [(16, 23)] = Some (Inr r)"
      "refs_of (dr_calls r) 22
         = sorted_list_of_set (in_address ` {i \<in> set (region_sweeps sample_decoder (\<lambda>_. mm_buf sample_code) [(16, 23)]). is_call_to ?index 22 i})"
      "refs_of (dr_jumps r) 22
         = sorted_list_of_set (in_address ` {i \<in> set (region_sweeps sample_decoder (\<lambda>_. mm_buf sample_code) [(16, 23)]). is_jump_to ?index 22 i})"
    unfolding Let_def by blast
  obtain a b c where "is": "region_sweeps sample_decoder (\<lambda>_. mm_buf sample_code) [(16, 23)] = [a, b, c]"
      "in_address a = 16" "in_kind a = Call" "in_target a = Some 22" "in_target b = None" "in_target c = None"
    using sample_sweep[of False] by (auto simp: region_sweeps_def map_eq_Cons_conv)
  have "RegionIndex_is_executable ?index 22"
    by (simp add: RegionIndex_is_executable_def covering_def partition_point_def Protection_execute_def prot_contains_def PROT_X_def)
  then have "{i \<in> set [a, b, c]. is_call_to ?index 22 i} = {a}" "{i \<in> set [a, b, c]. is_jump_to ?index 22 i} = {}"
    using "is" by (auto simp: is_call_to_def is_jump_to_def)
  then show ?thesis using r "is" by (intro exI[of _ r]) simp
qed

text \<open>
  C39. The disassembly of a function is the part of the linear sweep in front of the first instruction that does not decode,
  up to and including the first return or breakpoint; its bytes are what was read from the entry on, and the call
  targets are those of its direct calls, each once, in the order they appear.
\<close>

theorem function_disasm_exact:
  assumes "decoder_laws D" "rd addr max_bytes = Inr buf" "0 < max_bytes"
  shows "\<exists>f r. disassemble_function D rd addr max_bytes = Some (Inr f)
    \<and> fd_instructions f = upto_end (takeWhile (\<lambda>i. \<not> bad_decode i) (sweep D True addr buf))
    \<and> fd_call_targets f = call_targets (fd_instructions f) \<and> buf = concat (map in_data (fd_instructions f)) @ r"
proof -
  let ?is = "upto_end (takeWhile (\<lambda>i. \<not> bad_decode i) (sweep D True addr buf))"
  obtain r1 where r1: "takeWhile (\<lambda>i. \<not> bad_decode i) (sweep D True addr buf) = ?is @ r1" using upto_end_prefix by blast
  then have good: "\<forall>i\<in>set ?is. \<not> bad_decode i" by (metis Un_iff set_append set_takeWhileD)
  have run: "run_while function_step (sweep D True addr buf) \<lparr>fd_instructions = [], fd_call_targets = []\<rparr>
      = \<lparr>fd_instructions = ?is, fd_call_targets = call_targets ?is\<rparr>"
    using good by (simp add: run_function_step fold_function_step call_targets_def List.map_filter_def first_seen_def)
  have "sweep D True addr buf = ?is @ r1 @ dropWhile (\<lambda>i. \<not> bad_decode i) (sweep D True addr buf)"
    using r1 by (metis append.assoc takeWhile_dropWhile_id)
  then have "buf = concat (map in_data ?is) @ concat (map in_data (r1 @ dropWhile (\<lambda>i. \<not> bad_decode i) (sweep D True addr buf)))"
    using sweep_data[OF assms(1), of True addr buf] by (metis concat_append map_append)
  moreover have "disassemble_function D rd addr max_bytes = Some (Inr \<lparr>fd_instructions = ?is, fd_call_targets = call_targets ?is\<rparr>)"
    using assms(2,3) run
    by (cases "buf = []") (simp_all add: disassemble_function_def disassemble_sweep[OF assms(1)] upto_end_def call_targets_def
        List.map_filter_def first_seen_def)
  ultimately show ?thesis
    by (intro exI[of _ "\<lparr>fd_instructions = ?is, fd_call_targets = call_targets ?is\<rparr>"] exI conjI) simp_all
qed

theorem function_disasm_exact_witness:
  "\<exists>f. disassemble_function sample_decoder (Process_read_buf MockMemoryBackend sample_code) 16 32 = Some (Inr f)
     \<and> map in_address (fd_instructions f) = [16, 21] \<and> fd_call_targets f = [22]"
proof -
  let ?rd = "Process_read_buf MockMemoryBackend sample_code"
  have rd: "?rd 16 32 = Inr (mm_buf sample_code)"
    by (simp add: sample_code_def Process_read_buf_def MockMemoryBackend_def MockMemoryBackend_read_buf_def overlap_def checked_sub_def slice_def)
  have "(0 :: nat) < 32" by simp
  from function_disasm_exact[where rd = ?rd and addr = 16 and max_bytes = 32, OF sample_decoder_laws rd this]
  obtain f where f: "disassemble_function sample_decoder ?rd 16 32 = Some (Inr f)"
      "fd_instructions f = upto_end (takeWhile (\<lambda>i. \<not> bad_decode i) (sweep sample_decoder True 16 (mm_buf sample_code)))"
      "fd_call_targets f = call_targets (fd_instructions f)"
    by blast
  have good: "\<forall>i\<in>set (sweep sample_decoder True 16 (mm_buf sample_code)). \<not> bad_decode i"
    by (simp add: sample_code_def sweep.simps sample_decoder_def Let_def instr_data_def bad_decode_def codes_def)
  obtain a b c where sw: "sweep sample_decoder True 16 (mm_buf sample_code) = [a, b, c]"
      and i: "in_address a = 16" "in_kind a = Call" "in_target a = Some 22" "in_address b = 21" "in_kind b = Ret"
    using sample_sweep[of True] by (auto simp: map_eq_Cons_conv)
  have "\<not> bad_decode a" "\<not> bad_decode b" "\<not> bad_decode c" using good unfolding sw by simp_all
  then have "fd_instructions f = [a, b]" unfolding f(2) sw by (simp add: upto_end_def i)
  moreover have "call_targets [a, b] = [22]" by (simp add: call_targets_def List.map_filter_def first_seen_def i)
  ultimately show ?thesis using f(1,3) i by (intro exI[of _ f]) simp
qed


lemma call_mask:
  "operand_wildcard_mask sample_decoder (mm_buf sample_code) 0 6 = Some [False, True, True, True, True, False]"
proof -
  have "ii_len (sample_decoder ip (0xE8 # a # b # c # d # r)) = 5" "ii_len (sample_decoder ip (0xC3 # r)) = 1" for ip a b c d r
    by (simp_all add: sample_decoder_def Let_def)
  moreover have "instr_mask (sample_decoder ip (0xE8 # a # b # c # d # r)) = [False, True, True, True, True]" for ip a b c d r
    by (simp add: sample_decoder_def Let_def instr_mask_def wildcard_def) (simp add: numeral_eq_Suc)
  moreover have "instr_mask (sample_decoder ip (0xC3 # r)) = [False]" for ip r
    by (simp add: sample_decoder_def Let_def instr_mask_def wildcard_def)
  ultimately show ?thesis by (simp add: sample_code_def operand_wildcard_mask_def mask_loop_step mask_loop_stop)
qed


text \<open>
  The places without that room are not looked at: the signature of a byte can be a pattern that matches elsewhere in the
  buffer too.
\<close>

lemma masked_signature_not_unique:
  "make_masked_signature sample_decoder [0x90, 0xC3, 0x90] 0 1 3 = Some (Some ''90'')"
  "BytePattern_parse (codes ''90'') = Inr [PatternByte_exact 0x90]"
  "BytePattern_matches_at [PatternByte_exact 0x90] [0x90, 0xC3, 0x90] 0" "BytePattern_matches_at [PatternByte_exact 0x90] [0x90, 0xC3, 0x90] 2"
proof -
  have m: "operand_wildcard_mask sample_decoder [0x90, 0xC3, 0x90] 0 3 = Some [False, False, False]"
  proof -
    have "ii_len (sample_decoder ip (0x90 # r)) = 1" "ii_len (sample_decoder ip (0xC3 # r)) = 1" for ip r
      by (simp_all add: sample_decoder_def Let_def)
    moreover have "instr_mask (sample_decoder ip (0x90 # r)) = [False]" "instr_mask (sample_decoder ip (0xC3 # r)) = [False]" for ip r
      by (simp_all add: sample_decoder_def Let_def instr_mask_def wildcard_def)
    ultimately show ?thesis by (simp add: operand_wildcard_mask_def mask_loop_step mask_loop_stop)
  qed
  let ?hay = "[0x90, 0xC3, 0x90] :: bytes" and ?mask = "[False, False, False]"
  have "masked_loop ?hay 0 (slice ?hay 0 (length ?mask)) ?mask 1 1 (first_candidates ?hay (slice ?hay 0 (length ?mask)) ?mask) = Some ''90''"
    by code_simp
  with m show "make_masked_signature sample_decoder ?hay 0 1 3 = Some (Some ''90'')"
    by (simp add: make_masked_signature_def Let_def numeral_3_eq_3)
  show "BytePattern_parse (codes ''90'') = Inr [PatternByte_exact 0x90]"
    using parse_format[of "[0x90]"] by (simp add: BytePattern_from_bytes_def format_02X_def hex_digit_upper_def)
qed (simp_all add: matches_at_nth)

end
