(* ===== verification/Spec2Isabelle.thy ===== *)
theory Spec2Isabelle
  imports Scanner Freeze Pointer_Scan Address_Parser Spider Analysis Codegen Dissect Kernel_Debugger Generated_Source Symbols Class_Editor Code_Refs
begin

text \<open>
  \<^bold>\<open>The program.\<close> nemclass shows and edits the memory of a running process as a tree of typed fields, searches that memory for
  values and pointer chains, and generates source code from the types. Its crates are nemclass-core (processes, memory
  backends, the kernel module's client, symbols, analyses), nemclass-scan (the scan engines), nemclass-model (node trees,
  projects, address formulas, code generation), nemclass-script, nemclass-ui, and the kernel module linux/nemclass_mod. This
  development models the logic of the first three, of the class view and its editor in the fourth, and the part of the
  kernel module the client talks to.

  \<^bold>\<open>How the parts meet.\<close> Every access to the target goes through a memory backend (process_vm_readv, the kernel module, or a
  buffer in memory). The scan engines see it as a scan target, the class view as a reader, the export walk as an image
  reader, the freeze set as a writer: each client states what it needs as a locale, proves its lemmas there, and the
  backends of the code are the interpretations. Formulas and pointer paths meet in the present theory: what the pointer scan
  prints, the formula parser reads.

  \<^bold>\<open>Theories and code.\<close>

  \<^item> Prelude, Rust_Text, Rust_Float, Float_Text, Repr_C: what the language and its standard library give (checked, wrapping
    and saturating integers, slices, bytes, code points, number texts, IEEE floats, the layout of \<open>repr(C)\<close> structs).
  \<^item> Process_Types, Maps, Process_Memory, Symbols: nemclass-core/src/internal/process (types.rs, protection.rs, mod.rs,
    memory/mod.rs, pe.rs, symbols.rs). \<open>backend\<close> is the trait \<open>MemoryBackend\<close>, \<open>Process_read\<close> and its fellows the
    methods of \<open>Process\<close>, \<open>MockMemoryBackend\<close> the backend of the tests.
  \<^item> Kernel_Abi, Kernel_Module, Kernel_Client, Kernel_Debugger: process/kernel (abi.rs, client.rs, debugger.rs) and
    linux/nemclass_mod/src. A session of the module is a record; an ioctl is a function on it; the client and the debugger take
    the ioctls as arguments and are joined with the module by interpretation.
  \<^item> Analysis, Decoder, Code_Refs: internal/analysis (strings.rs, region_index.rs, pointer.rs; disasm.rs, dissect.rs) and
    internal/decoder.rs. The instruction decoder itself is the parameter \<open>iced\<close>.
  \<^item> Target, Compare, Value_Type, Pattern, Results, Scanner, Freeze, Pointer_Scan, Spider: the files of nemclass-scan/src with
    those names; Pattern holds signature.rs too. A scan session is the record \<open>scanner\<close>; its operations return the next state.
  \<^item> Address_Tokenizer, Address_Parser: nemclass-model/src/address.
  \<^item> Nodes, Node_Render, Registry, Project, Codegen, Generators, Generated_Source, Dissect: nemclass-model/src (node/, class.rs,
    serialize.rs, project.rs, enums.rs, codegen/, dissect.rs). A boxed node is a value of the datatype \<open>node\<close>; Generated_Source
    holds the readers of the generated declarations that the size theorems are stated with.
  \<^item> Class_View, Class_Rows, Class_Editor: nemclass-ui/src/views/mod.rs (flattening, expansion, visible rows; edit operations,
    class picker, write back). Class_Rows has the facts, Class_View the code.

  \<^bold>\<open>What the lemmas show.\<close> For the searches: exactness (nothing missed, nothing invented, in the documented order), limits,
  cancellation and failure. For stateful parts: an invariant over every reachable state (scan sessions, projects, debugger
  sessions, sequences of edits). For parsers, printers and serialisers: round trips and agreement with a grammar or with a
  specification of the format (maps text, PE and ELF images). For layout: offsets and sizes of the generators, the class
  view and the compilers of the generated text against each other. Where the code does something else than its
  documentation, the theorem states what the code does.

  \<^bold>\<open>Conventions.\<close> A \<open>usize\<close> is a natural number, and every operation that can pass \<open>2^64\<close> is the checked, wrapping or
  saturating one the code uses; a plain \<open>+\<close> of the code that could overflow yields \<open>None\<close>, the panic of a checked build,
  in Scanner and Spider. Bytes are 8-bit words. Errors are constructors of sum types; their texts are modelled only where the
  program writes them into its output. Loops are structural or have a measure, those over the
  foreign decoder are partial functions that its laws make total; the search for the shortest decimal text has 17 digits as its
  bound, which suffice for 64 bits. The nesting bounds are those of
  the code (formula depth 128, project depth 128, pointer expansion depth 8, four passes of the region walk).

  \<^bold>\<open>Parameters.\<close> Code from outside the repository is an argument: the uuid library with its text form and fresh identifiers,
  the TOML printer and parser, \<open>is_alphanumeric\<close> of the Unicode tables, the sorting order of equal keys in an unstable sort,
  the instruction decoder, the system calls behind a backend, the kernel's own functions below the module. Every theorem with a hypothesis on a parameter
  has a witness that instantiates it with a concrete function.

  \<^bold>\<open>Not modelled.\<close> The egui panels and the state of their widgets, background tasks and their channels, the script engine and
  its host functions (a JavaScript engine), the instruction decoder (iced) and the disassembly view, /proc enumeration and the Windows and process_vm_readv backends (system calls), the locking, register capture
  and tracepoint side of the kernel module, and settings and project files on disk. Concurrency appears only where the
  code makes it visible: an observer that cancels, memory that changes between two walks or two scans.
\<close>

section \<open>Pointer paths as address formulas\<close>

text \<open>
  \<open>PointerPath::to_formula\<close> of the scan crate produces text that \<open>resolve_formula\<close> of the model crate reads.
  A piece of formula text contributes its tokens whatever follows it, unless a hexadecimal digit follows.
\<close>

definition fragment :: "string \<Rightarrow> token list \<Rightarrow> bool" where
  "fragment s ts \<longleftrightarrow>
     (\<forall>r us. (r = [] \<or> \<not> is_hex_digit (hd r)) \<longrightarrow> lexes r us \<longrightarrow> lexes (s @ r) (ts @ us))"

lemma fragment_module: "CHR ''>'' \<notin> set name \<Longrightarrow> fragment (''<'' @ name @ ''>'') [Identifier name]"
  by (simp add: fragment_def lexes_module)

lemma lexes_plus_hex:
  assumes "n < 2 ^ 63" "r = [] \<or> \<not> is_hex_digit (hd r)" "lexes r us"
  shows "lexes ('' + 0x'' @ format_hex n @ r) (Plus # Number (int n) # us)"
proof -
  have "lexes (''0x'' @ format_hex n @ r) (Number (int n) # us)" by (rule lexes_hex) (rule assms)+
  from lexes_space[OF lexes_single[OF _ _ lexes_space[OF this], of "CHR ''+''" Plus]] show ?thesis
    by (simp add: single_token_def is_ws_def)
qed

lemma fragment_plus_hex:
  assumes "fragment s ts" "n < 2 ^ 63"
  shows "fragment (s @ '' + 0x'' @ format_hex n) (ts @ [Plus, Number (int n)])"
  unfolding fragment_def
proof (intro allI impI)
  fix r us assume "r = [] \<or> \<not> is_hex_digit (hd r)" "lexes r us"
  from lexes_plus_hex[OF assms(2) this] assms(1)
  show "lexes ((s @ '' + 0x'' @ format_hex n) @ r) ((ts @ [Plus, Number (int n)]) @ us)"
    unfolding fragment_def by (force simp: is_hex_digit_def is_dec_digit_def)
qed

lemma fragment_bracket:
  assumes "fragment s ts"
  shows "fragment (''['' @ s @ '']'') (OpenBracket # ts @ [CloseBracket])"
  unfolding fragment_def
proof (intro allI impI)
  fix r us assume "r = [] \<or> \<not> is_hex_digit (hd r)" "lexes r us"
  then have "lexes (CHR '']'' # r) (CloseBracket # us)"
    by (intro lexes_single) (simp_all add: single_token_def is_ws_def)
  then have "lexes (s @ CHR '']'' # r) (ts @ CloseBracket # us)"
    using assms unfolding fragment_def by (force simp: is_hex_digit_def is_dec_digit_def)
  then show "lexes ((''['' @ s @ '']'') @ r) ((OpenBracket # ts @ [CloseBracket]) @ us)"
    using lexes_single[of "CHR ''[''" OpenBracket] by (simp add: single_token_def is_ws_def)
qed

text \<open>What a piece of formula means: its tokens derive its expression at every depth up to \<open>d\<close>.\<close>

definition formula_piece :: "nat \<Rightarrow> string \<Rightarrow> expr \<Rightarrow> bool" where
  "formula_piece d s e \<longleftrightarrow> (\<exists>ts. fragment s ts \<and> g_additive d e ts)"

lemma formula_piece_parse: "formula_piece 0 s e \<Longrightarrow> parse s = Inr e"
proof -
  assume "formula_piece 0 s e"
  then obtain ts where ts: "fragment s ts" "g_additive 0 e ts" by (auto simp: formula_piece_def)
  then have "lexes s ts" using lexes_Nil unfolding fragment_def by force
  with grammar_complete(1)[OF ts(2), of "[]"] show ?thesis
    by (simp add: parse_def lexes_tokenize stops_def binary_loop_stop parse_tokens_def parse_expr_def finish_def)
qed

definition hop_expr :: "expr \<Rightarrow> usize \<Rightarrow> expr" where
  "hop_expr e off = Add (Deref e) (Constant (int off))"

lemma formula_piece_hop:
  assumes "formula_piece (Suc d) s e" "off < 2 ^ 63" "d \<le> MAX_DEPTH"
  shows "formula_piece d (''['' @ s @ ''] + 0x'' @ format_hex off) (hop_expr e off)"
proof -
  from assms(1) obtain ts where ts: "fragment s ts" "g_additive (Suc d) e ts" by (auto simp: formula_piece_def)
  have "g_additive d (hop_expr e off) ((OpenBracket # ts @ [CloseBracket]) @ Plus # [Number (int off)])"
    unfolding hop_expr_def by (intro g_plus g_deref g_const ts assms)
  moreover note fragment_plus_hex[OF fragment_bracket[OF ts(1)] assms(2)]
  ultimately show ?thesis unfolding formula_piece_def by force
qed

lemma formula_piece_hops:
  assumes "formula_piece (length offs) s e" "\<forall>off\<in>set offs. off < 2 ^ 63" "length offs \<le> Suc MAX_DEPTH"
  shows "formula_piece 0 (foldl (\<lambda>expr off. ''['' @ expr @ ''] + 0x'' @ format_hex off) s offs)
     (foldl hop_expr e offs)"
  using assms
proof (induction offs arbitrary: s e)
  case (Cons off offs)
  from formula_piece_hop[of "length offs" s e off] Cons.prems
  have "formula_piece (length offs) (''['' @ s @ ''] + 0x'' @ format_hex off) (hop_expr e off)" by simp
  from Cons.IH[OF this] Cons.prems show ?case by simp
qed simp

lemma evaluate_hops:
  assumes "evaluate e modules reader = Inr a" "reader a = Inr v"
    "\<And>x w. rd x = Some w \<Longrightarrow> reader x = Inr w"
    "resolve_hops rd offs v = Some r" "offs \<noteq> []" "\<forall>off\<in>set offs. off < 2 ^ 63"
  shows "evaluate (foldl hop_expr e offs) modules reader = Inr r"
  using assms
proof (induction offs arbitrary: e a v)
  case (Cons off offs)
  have off: "i64_as_usize (int off) = off" using Cons.prems(6) by (simp add: i64_as_usize_def)
  from Cons.prems(4) obtain st where st: "checked_add v off = Some st" by (auto split: option.splits)
  then have "evaluate (hop_expr e off) modules reader = Inr st"
    using Cons.prems(1,2) off
    by (auto simp: hop_expr_def lift2_def checked_add_def wrapping_add_def USIZE_MAX_def split: if_splits)
  then show ?case using Cons st by (cases "offs = []") (auto split: option.splits)
qed simp

text \<open>The anchor both printers start from: a module name, with the distance from its base when there is one.\<close>

definition anchor_text :: "string \<Rightarrow> usize \<Rightarrow> string" where
  "anchor_text name off =
     (if off = 0 then ''<'' @ name @ ''>'' else ''<'' @ name @ ''> + 0x'' @ format_hex off)"

definition anchor_expr :: "string \<Rightarrow> usize \<Rightarrow> expr" where
  "anchor_expr name off = (if off = 0 then Module name else Add (Module name) (Constant (int off)))"

lemma anchor_piece:
  assumes "CHR ''>'' \<notin> set name" "off < 2 ^ 63" "d \<le> MAX_DEPTH"
  shows "formula_piece d (anchor_text name off) (anchor_expr name off)"
proof (cases "off = 0")
  case True
  then show ?thesis using fragment_module[OF assms(1)] assms(3)
    unfolding formula_piece_def anchor_text_def anchor_expr_def by (auto intro!: g_add1 g_mul1 g_module)
next
  case False
  have "g_additive d (anchor_expr name off) ([Identifier name] @ Plus # [Number (int off)])"
    unfolding anchor_expr_def using False assms(3) by (simp only: if_False) (intro g_plus g_module g_const)
  then show ?thesis using fragment_plus_hex[OF fragment_module[OF assms(1)] assms(2)] False
    unfolding formula_piece_def anchor_text_def by force
qed

lemma anchor_evaluates:
  assumes "modules name = Some base" "base \<le> USIZE_MAX" "a \<le> USIZE_MAX" "wrapping_sub a base < 2 ^ 63"
  shows "evaluate (anchor_expr name (wrapping_sub a base)) modules reader = Inr a"
proof -
  have "wrapping_add base (wrapping_sub a base) = a" by (rule wrapping_add_sub) (rule assms)
  then show ?thesis using assms
    by (auto simp: anchor_expr_def lift2_def i64_as_usize_def wrapping_add_def USIZE_MAX_def)
qed

text \<open>
  C9. A found pointer path and the formula printed for it lead to the same address: whenever following the path
  through memory succeeds, the formula text tokenises, parses and evaluates to that address, for a module whose
  name contains no closing angle bracket, at most 128 offsets, and offsets below \<open>2 ^ 63\<close>.
\<close>

theorem to_formula_resolves:
  assumes "PointerPath_resolve p rd = Some a"
    and "CHR ''>'' \<notin> set name" "modules name = Some base"
    and "\<And>x v. rd x = Some v \<Longrightarrow> reader x = Inr v"
    and "base \<le> USIZE_MAX" "pp_base p \<le> USIZE_MAX" "wrapping_sub (pp_base p) base < 2 ^ 63"
    and "pp_offsets p \<noteq> []" "\<forall>off\<in>set (pp_offsets p). off < 2 ^ 63" "length (pp_offsets p) \<le> MAX_DEPTH"
  shows "resolve_formula (PointerPath_to_formula p name base) modules reader = Inr a"
proof -
  let ?off = "wrapping_sub (pp_base p) base"
  have "PointerPath_to_formula p name base
     = foldl (\<lambda>expr off. ''['' @ expr @ ''] + 0x'' @ format_hex off) (anchor_text name ?off) (pp_offsets p)"
    by (simp add: PointerPath_to_formula_def anchor_text_def)
  then have "parse (PointerPath_to_formula p name base) = Inr (foldl hop_expr (anchor_expr name ?off) (pp_offsets p))"
    using formula_piece_hops[OF anchor_piece[OF assms(2,7,10)]] assms(9,10) by (simp add: formula_piece_parse)
  then show ?thesis
    using assms(1,4,8,9) anchor_evaluates[of modules name base, OF assms(3,5,6,7)] evaluate_hops[of _ modules reader "pp_base p" _ rd "pp_offsets p" a]
    by (auto simp: resolve_formula_def PointerPath_resolve_def split: option.splits)
qed

theorem to_formula_resolves_witness:
  "PointerPath_resolve \<lparr>pp_base = 0x1010, pp_offsets = [8]\<rparr> [0x1010 \<mapsto> 0x2000] = Some 0x2008
   \<and> resolve_formula (PointerPath_to_formula \<lparr>pp_base = 0x1010, pp_offsets = [8]\<rparr> ''a'' 0x1000)
       [''a'' \<mapsto> 0x1000] (\<lambda>x. if x = 0x1010 then Inr 0x2000 else Inl UnexpectedEnd) = Inr 0x2008"
proof -
  have r: "PointerPath_resolve \<lparr>pp_base = 0x1010, pp_offsets = [8]\<rparr> [0x1010 \<mapsto> 0x2000] = Some 0x2008"
    by (simp add: PointerPath_resolve_def checked_add_def USIZE_MAX_def)
  have rd: "(if x = 0x1010 then Inr 0x2000 else Inl UnexpectedEnd) = Inr v"
    if "[0x1010 \<mapsto> 0x2000] x = Some v" for x v :: nat
    using that by (simp split: if_splits)
  show ?thesis
    by (rule conjI[OF r to_formula_resolves[OF r _ _ rd]])
      (simp_all add: USIZE_MAX_def wrapping_sub_def MAX_DEPTH_def)
qed

section \<open>Spider paths as address formulas\<close>

lemma g_add_const:
  "g_additive d e ts \<Longrightarrow> d \<le> MAX_DEPTH \<Longrightarrow> g_additive d (Add e (Constant n)) (ts @ [Plus, Number n])"
  using g_addn[of d e ts Plus Add "Constant n" "[Number n]"] by (simp add: g_mul1 g_const)

lemma formula_piece_add:
  assumes "formula_piece d s e" "off < 2 ^ 63" "d \<le> MAX_DEPTH"
  shows "formula_piece d (s @ '' + 0x'' @ format_hex off) (Add e (Constant (int off)))"
  using assms fragment_plus_hex g_add_const unfolding formula_piece_def by blast

lemma formula_piece_deref:
  assumes "formula_piece (Suc d) s e" "d \<le> MAX_DEPTH"
  shows "formula_piece d (''['' @ s @ '']'') (Deref e)"
  using assms fragment_bracket unfolding formula_piece_def by (blast intro: g_add1 g_mul1 g_deref)

definition spider_hop_expr :: "expr \<Rightarrow> usize \<Rightarrow> expr" where
  "spider_hop_expr e off = Deref (Add e (Constant (int off)))"

lemma spider_piece_hops:
  assumes "formula_piece (length offs) s e" "\<forall>off\<in>set offs. off < 2 ^ 63" "length offs \<le> MAX_DEPTH"
  shows "formula_piece 0 (foldl (\<lambda>expr off. ''['' @ expr @ '' + 0x'' @ format_hex off @ '']'') s offs)
     (foldl spider_hop_expr e offs)"
  using assms
proof (induction offs arbitrary: s e)
  case (Cons off offs)
  have "formula_piece (Suc (length offs)) (s @ '' + 0x'' @ format_hex off) (Add e (Constant (int off)))"
    using Cons.prems by (intro formula_piece_add) simp_all
  from formula_piece_deref[OF this] Cons.prems
  have "formula_piece (length offs) (''['' @ s @ '' + 0x'' @ format_hex off @ '']'') (spider_hop_expr e off)"
    by (simp add: spider_hop_expr_def)
  from Cons.IH[OF this] Cons.prems show ?case by simp
qed simp

lemma evaluate_add_const:
  assumes "evaluate e modules reader = Inr a" "checked_add a off = Some b" "off < 2 ^ 63"
  shows "evaluate (Add e (Constant (int off))) modules reader = Inr b"
  using assms by (auto simp: lift2_def i64_as_usize_def checked_add_def wrapping_add_def USIZE_MAX_def split: if_splits)

lemma evaluate_spider_hops:
  assumes "evaluate e modules reader = Inr a" "\<And>x w. rd x = Some w \<Longrightarrow> reader x = Inr w"
    "spider_hops rd offs a = Some b" "\<forall>off\<in>set offs. off < 2 ^ 63"
  shows "evaluate (foldl spider_hop_expr e offs) modules reader = Inr b"
  using assms
proof (induction offs arbitrary: e a)
  case (Cons off offs)
  from Cons.prems(3) obtain x v where x: "checked_add a off = Some x" "rd x = Some v" "spider_hops rd offs v = Some b"
    by (auto split: option.splits if_splits)
  have "evaluate (spider_hop_expr e off) modules reader = Inr v"
    using evaluate_add_const[OF Cons.prems(1) x(1)] Cons.prems(2)[OF x(2)] Cons.prems(4)
    by (simp add: spider_hop_expr_def)
  from Cons.IH[OF this Cons.prems(2) x(3)] Cons.prems(4) show ?case by simp
qed simp

text \<open>
  The formula printed for a spider path leads where the path leads: whenever the path resolves through memory,
  its module-relative formula and, for a root below \<open>2 ^ 63\<close>, its literal formula tokenise, parse and evaluate to
  the same address, for a module whose name contains no closing angle bracket, at most 128 dereferences, and
  offsets below \<open>2 ^ 63\<close>.
\<close>

theorem spider_formula_resolves:
  assumes "SpiderPath_resolve p rd = Some a"
    and "CHR ''>'' \<notin> set name" "modules name = Some base"
    and "\<And>x v. rd x = Some v \<Longrightarrow> reader x = Inr v"
    and "base \<le> USIZE_MAX" "sp_root p \<le> USIZE_MAX" "wrapping_sub (sp_root p) base < 2 ^ 63"
    and "\<forall>off\<in>set (sp_offset p # sp_parent_offsets p). off < 2 ^ 63" "length (sp_parent_offsets p) \<le> MAX_DEPTH"
  shows "resolve_formula (SpiderPath_to_formula_at_module p name base) modules reader = Inr a
    \<and> (sp_root p < 2 ^ 63 \<longrightarrow> resolve_formula (SpiderPath_to_formula_raw p) modules reader = Inr a)"
proof -
  let ?offs = "sp_parent_offsets p"
  have main: "resolve_formula (SpiderPath_to_formula p s) modules reader = Inr a"
    if "formula_piece (length ?offs) s e" "evaluate e modules reader = Inr (sp_root p)" for s e
  proof -
    from assms(1) obtain b where b: "spider_hops rd ?offs (sp_root p) = Some b" "checked_add b (sp_offset p) = Some a"
      by (auto simp: SpiderPath_resolve_def split: option.splits)
    have "formula_piece 0 (SpiderPath_to_formula p s) (Add (foldl spider_hop_expr e ?offs) (Constant (int (sp_offset p))))"
      unfolding SpiderPath_to_formula_def using spider_piece_hops[OF that(1)] assms(8,9)
      by (intro formula_piece_add) simp_all
    moreover have "evaluate (foldl spider_hop_expr e ?offs) modules reader = Inr b"
      using evaluate_spider_hops[OF that(2) assms(4) b(1)] assms(8) by simp
    ultimately show ?thesis using evaluate_add_const[OF _ b(2)] assms(8)
      by (simp add: resolve_formula_def formula_piece_parse)
  qed
  have "resolve_formula (SpiderPath_to_formula_at_module p name base) modules reader = Inr a"
    using main[OF anchor_piece[OF assms(2,7,9)] anchor_evaluates[of modules name base, OF assms(3,5,6,7)]]
    by (simp add: SpiderPath_to_formula_at_module_def anchor_text_def Let_def)
  moreover have "resolve_formula (SpiderPath_to_formula_raw p) modules reader = Inr a" if r: "sp_root p < 2 ^ 63"
    unfolding SpiderPath_to_formula_raw_def
  proof (rule main)
    have "fragment (''0x'' @ format_hex (sp_root p)) [Number (int (sp_root p))]"
      unfolding fragment_def using lexes_hex[OF r] by simp
    then show "formula_piece (length ?offs) (''0x'' @ format_hex (sp_root p)) (Constant (int (sp_root p)))"
      unfolding formula_piece_def using assms(9) by (auto intro: g_add1 g_mul1 g_const)
    show "evaluate (Constant (int (sp_root p))) modules reader = Inr (sp_root p)"
      using r by (simp add: i64_as_usize_def)
  qed
  ultimately show ?thesis by simp
qed

theorem spider_formula_resolves_witness:
  "resolve_formula (SpiderPath_to_formula_at_module
       \<lparr>sp_root = 0x1010, sp_parent_offsets = [8], sp_offset = 4\<rparr> ''a'' 0x1000)
     [''a'' \<mapsto> 0x1000] (\<lambda>x. if x = 0x1018 then Inr 0x2000 else Inl UnexpectedEnd) = Inr 0x2004"
proof -
  have r: "SpiderPath_resolve \<lparr>sp_root = 0x1010, sp_parent_offsets = [8], sp_offset = 4\<rparr> [0x1018 \<mapsto> 0x2000] = Some 0x2004"
    by (simp add: SpiderPath_resolve_def checked_add_def USIZE_MAX_def)
  have rd: "(if x = 0x1018 then Inr 0x2000 else Inl UnexpectedEnd) = Inr v"
    if "[0x1018 \<mapsto> 0x2000] x = Some v" for x v :: nat
    using that by (simp split: if_splits)
  show ?thesis
    by (rule conjunct1[OF spider_formula_resolves[OF r _ _ rd]])
      (simp_all add: USIZE_MAX_def wrapping_sub_def MAX_DEPTH_def)
qed

end
